(* ===== verification/Prelude.thy ===== *)
theory Prelude
  imports Main "HOL-Library.Word"
begin

text \<open>
  Shared vocabulary of the development: the machine integers of the Rust sources as words,
  the saturating and checked operations of the Rust standard library on them with their
  meaning on \<open>nat\<close> (collection \<open>sat\<close>), the saturating operations on \<open>i64\<close> (kept as
  \<open>int\<close> with the clamp written out), \<open>std::time::Duration\<close> as a number of nanoseconds,
  and the byte-level string operations the sources use. A Rust \<open>&str\<close> is the list of its
  UTF-8 bytes, which is what HOL's \<open>string\<close> is.
\<close>

named_theorems sat \<open>meaning of word operations on nat\<close>
named_theorems cell_simps \<open>equations of the rate-limiter cell\<close>
named_theorems queue_simps \<open>equations of the job queue operations\<close>

section \<open>Machine integers\<close>

type_synonym u16 = "16 word"
type_synonym u32 = "32 word"
type_synonym u64 = "64 word"
type_synonym duration = nat

abbreviation u64_max :: nat where "u64_max \<equiv> 18446744073709551615"
abbreviation u32_max :: nat where "u32_max \<equiv> 4294967295"

definition sat_add :: "'a::len word \<Rightarrow> 'a word \<Rightarrow> 'a word" where
  "sat_add a b = (if unat a + unat b < 2 ^ LENGTH('a) then a + b else - 1)"

definition sat_sub :: "'a::len word \<Rightarrow> 'a word \<Rightarrow> 'a word" where
  "sat_sub a b = (if b \<le> a then a - b else 0)"

definition sat_mul :: "'a::len word \<Rightarrow> 'a word \<Rightarrow> 'a word" where
  "sat_mul a b = (if unat a * unat b < 2 ^ LENGTH('a) then a * b else - 1)"

definition u64_of_u32 :: "u32 \<Rightarrow> u64" where
  "u64_of_u32 w = ucast w"

definition u32_of_u64_sat :: "u64 \<Rightarrow> u32" where
  \<comment> \<open>\<open>u32::try_from(x).unwrap_or(u32::MAX)\<close>\<close>
  "u32_of_u64_sat w = (if unat w < 2 ^ 32 then ucast w else - 1)"

lemma unat_max_word: "unat (- 1 :: 'a::len word) = 2 ^ LENGTH('a) - 1"
  by (simp add: unsigned_minus_1_eq_mask mask_eq_exp_minus_1)

lemma unat_lt_64 [simp]: "unat (w :: u64) < 18446744073709551616"
  using unsigned_less [of w] by simp

lemma unat_lt_32 [simp]: "unat (w :: u32) < 4294967296"
  using unsigned_less [of w] by simp

lemma unat_le_64: "unat (w :: u64) \<le> u64_max"
  using unat_lt_64 [of w] by linarith

lemma unat_le_32: "unat (w :: u32) \<le> u32_max"
  using unat_lt_32 [of w] by linarith

lemma unat_add_small: "unat a + unat b < 2 ^ LENGTH('a) \<Longrightarrow> unat (a + b) = unat a + unat (b :: 'a::len word)"
  by (simp add: unat_word_ariths)

lemma unat_mul_small: "unat a * unat b < 2 ^ LENGTH('a) \<Longrightarrow> unat (a * b) = unat a * unat (b :: 'a::len word)"
  by (simp add: unat_word_ariths)

lemma unat_sat_add [sat]:
  "unat (sat_add a b) = min (unat a + unat b) (2 ^ LENGTH('a) - 1)" for a b :: "'a::len word"
  by (auto simp: sat_add_def unat_add_small unat_max_word)

lemma unat_sat_sub [sat]: "unat (sat_sub a b) = unat a - unat b" for a b :: "'a::len word"
  by (auto simp: sat_sub_def unat_sub word_le_nat_alt)

lemma unat_sat_mul [sat]:
  "unat (sat_mul a b) = min (unat a * unat b) (2 ^ LENGTH('a) - 1)" for a b :: "'a::len word"
  by (auto simp: sat_mul_def unat_mul_small unat_max_word)

lemma unat_sat_add_64: "unat (sat_add a b) = min (unat a + unat b) u64_max" for a b :: u64
  by (simp add: unat_sat_add)

lemma unat_sat_mul_64: "unat (sat_mul a b) = min (unat a * unat b) u64_max" for a b :: u64
  by (simp add: unat_sat_mul)

lemma unat_sat_add_32: "unat (sat_add a b) = min (unat a + unat b) u32_max" for a b :: u32
  by (simp add: unat_sat_add)

lemma unat_u64_of_u32 [sat, simp]: "unat (u64_of_u32 w) = unat w"
proof -
  have w: "unat w < 18446744073709551616" using unat_lt_32 [of w] by linarith
  then have "take_bit 64 (unat w) = unat w" by (simp add: take_bit_nat_eq_self_iff)
  then show ?thesis by (simp add: u64_of_u32_def unsigned_ucast_eq)
qed

lemma unat_u32_of_u64_sat [sat]: "unat (u32_of_u64_sat w) = min (unat w) u32_max"
  by (auto simp: u32_of_u64_sat_def unsigned_ucast_eq take_bit_nat_eq_self unat_max_word)

lemma unat_max [sat]: "unat (max a b) = max (unat a) (unat b)" for a b :: "'a::len word"
  by (auto simp: max_def word_le_nat_alt)

lemma unat_min [sat]: "unat (min a b) = min (unat a) (unat b)" for a b :: "'a::len word"
  by (auto simp: min_def word_le_nat_alt)

lemmas word_nat_order [sat] = word_le_nat_alt word_less_nat_alt
lemmas unat_div_nat [sat] = unat_div

lemma word_eq_unat: "a = b \<longleftrightarrow> unat a = unat b" for a b :: "'a::len word"
  by (simp add: word_unat_eq_iff)

end
