(* ===== verification/Gcra.thy ===== *)
theory Gcra
  imports Prelude
begin

text \<open>
  The rate-limit cell of SHUTTER (\<open>src/shutter/gcra.rs\<close>): quotas and how they are built and
  split, the decision a cell returns, and the cell's operations. A cell is one atomic \<open>u64\<close>,
  the theoretical arrival time. Each operation is modelled twice: as a function of the stored
  word (an uncontended call) and, in the last section, as the compare-exchange loop the code
  runs, in which any number of callers interleave on one cell.
\<close>

section \<open>Quotas\<close>

type_synonym nanos = u64

record quota =
  emission_interval :: nanos
  tolerance :: nanos
  burst :: u32

datatype quota_error =
    ZeroRate
  | ZeroBurst
  | UnusablePeriod
  | WeightExceedsBurst u32 u32
  | CannotPartition u32 u32

definition with_burst :: "u32 \<Rightarrow> duration \<Rightarrow> u32 \<Rightarrow> quota_error + quota" where
  "with_burst rate period b =
     (if rate = 0 then Inl ZeroRate
      else if b = 0 then Inl ZeroBurst
      else if 2 ^ 64 \<le> period then Inl UnusablePeriod
      else
        let period_nanos = (of_nat period :: u64) in
        if period_nanos = 0 then Inl UnusablePeriod
        else
          let ei = period_nanos div u64_of_u32 rate in
          if ei = 0 then Inl UnusablePeriod
          else Inr \<lparr>emission_interval = ei, tolerance = sat_mul ei (u64_of_u32 b), burst = b\<rparr>)"

definition per :: "u32 \<Rightarrow> duration \<Rightarrow> quota_error + quota" where
  "per rate period = with_burst rate period rate"

definition max_weight :: "quota \<Rightarrow> u32" where
  "max_weight q = burst q"

definition partitioned :: "quota \<Rightarrow> u32 \<Rightarrow> quota_error + quota" where
  "partitioned q instances =
     (if instances \<le> 1 then Inr q
      else
        let b = burst q div instances in
        if b = 0 then Inl (CannotPartition (burst q) instances)
        else
          let ei = sat_mul (emission_interval q) (u64_of_u32 instances) in
          Inr \<lparr>emission_interval = ei, tolerance = sat_mul ei (u64_of_u32 b), burst = b\<rparr>)"

definition check_weight :: "quota \<Rightarrow> u32 \<Rightarrow> quota_error + unit" where
  "check_weight q w = (if burst q < w then Inl (WeightExceedsBurst w (burst q)) else Inr ())"

text \<open>What every quota the code can build satisfies.\<close>

definition quota_wf :: "quota \<Rightarrow> bool" where
  "quota_wf q \<longleftrightarrow> emission_interval q \<noteq> 0 \<and> burst q \<noteq> 0 \<and>
     tolerance q = sat_mul (emission_interval q) (u64_of_u32 (burst q))"

section \<open>Decisions and the cell\<close>

datatype decision =
    Admit u32 duration
  | Refuse duration duration

fun is_admitted :: "decision \<Rightarrow> bool" where
  "is_admitted (Admit _ _) = True"
| "is_admitted (Refuse _ _) = False"

fun remaining :: "decision \<Rightarrow> u32" where
  "remaining (Admit r _) = r"
| "remaining (Refuse _ _) = 0"

fun reset_after :: "decision \<Rightarrow> duration" where
  "reset_after (Admit _ d) = d"
| "reset_after (Refuse _ d) = d"

record cell =
  tat :: nanos

definition cell_new :: cell where
  "cell_new = \<lparr>tat = 0\<rparr>"

definition cell_at :: "nanos \<Rightarrow> cell" where
  "cell_at t = \<lparr>tat = t\<rparr>"

text \<open>
  The increment of a charge, and one iteration of the charge loop on the word it loaded:
  \<open>Inl\<close> is the return of a refusal, \<open>Inr\<close> the value the compare-exchange tries to store
  and the decision returned if it succeeds.
\<close>

definition charge_increment :: "quota \<Rightarrow> u32 \<Rightarrow> u64" where
  "charge_increment q w = sat_mul (emission_interval q) (u64_of_u32 (max w 1))"

definition charge_iter :: "quota \<Rightarrow> nanos \<Rightarrow> u32 \<Rightarrow> u64 \<Rightarrow> decision + (u64 \<times> decision)" where
  "charge_iter q now w t =
     (let increment = charge_increment q w;
          debt = sat_sub t now in
      if tolerance q < sat_add debt increment
      then Inl (Refuse (unat (sat_sub (sat_add debt increment) (tolerance q))) (unat debt))
      else
        let new_tat = sat_add (max t now) increment;
            new_debt = sat_sub new_tat now;
            spare = sat_sub (tolerance q) new_debt in
        Inr (new_tat, Admit (u32_of_u64_sat (spare div emission_interval q)) (unat new_debt)))"

definition charge :: "quota \<Rightarrow> nanos \<Rightarrow> u32 \<Rightarrow> cell \<Rightarrow> decision \<times> cell" where
  "charge q now w c =
     (case charge_iter q now w (tat c) of
        Inl d \<Rightarrow> (d, c)
      | Inr (t', d) \<Rightarrow> (d, c\<lparr>tat := t'\<rparr>))"

definition debit_increment :: "quota \<Rightarrow> u32 \<Rightarrow> u64" where
  "debit_increment q w = min (sat_mul (emission_interval q) (u64_of_u32 w)) (tolerance q)"

definition debit_iter :: "quota \<Rightarrow> nanos \<Rightarrow> u32 \<Rightarrow> u64 \<Rightarrow> u64" where
  "debit_iter q now w t = sat_add (max t now) (debit_increment q w)"

definition debit :: "quota \<Rightarrow> nanos \<Rightarrow> u32 \<Rightarrow> cell \<Rightarrow> nanos \<times> cell" where
  "debit q now w c =
     (if w = 0 then (sat_sub (tat c) now, c)
      else let t' = debit_iter q now w (tat c) in (sat_sub t' now, c\<lparr>tat := t'\<rparr>))"

definition peek :: "quota \<Rightarrow> nanos \<Rightarrow> u32 \<Rightarrow> cell \<Rightarrow> bool" where
  "peek q now w c \<longleftrightarrow> sat_add (sat_sub (tat c) now) (charge_increment q w) \<le> tolerance q"

definition is_replenished :: "nanos \<Rightarrow> cell \<Rightarrow> bool" where
  "is_replenished now c \<longleftrightarrow> tat c \<le> now"

section \<open>Meaning of the iterations on natural numbers\<close>

lemma cell_eta [simp]: "\<lparr>tat = tat c\<rparr> = c"
  by simp

lemmas charge_iter_unfold = charge_iter_def [unfolded Let_def]

lemma quota_wf_pos: "quota_wf q \<Longrightarrow> 0 < unat (emission_interval q) \<and> 0 < unat (burst q)"
  by (auto simp: quota_wf_def unat_gt_0)

lemma tolerance_le: "quota_wf q \<Longrightarrow> unat (tolerance q) \<le> unat (emission_interval q) * unat (burst q)"
  by (simp add: quota_wf_def unat_sat_mul_64)

lemma unat_charge_increment:
  "unat (charge_increment q w) = min (unat (emission_interval q) * max (unat w) 1) u64_max"
  by (simp add: charge_increment_def unat_sat_mul_64 unat_max)

lemma unat_debit_increment:
  "unat (debit_increment q w) =
     min (min (unat (emission_interval q) * unat w) u64_max) (unat (tolerance q))"
  by (simp add: debit_increment_def unat_sat_mul_64 unat_min)

lemma peek_nat:
  "peek q now w c \<longleftrightarrow>
     min (unat (tat c) - unat now + unat (charge_increment q w)) u64_max \<le> unat (tolerance q)"
  by (simp add: peek_def word_le_nat_alt unat_sat_add_64 unat_sat_sub)

lemma charge_iter_Inl:
  "charge_iter q now w t = Inl d \<longleftrightarrow>
     \<not> peek q now w \<lparr>tat = t\<rparr> \<and>
     d = Refuse (min (unat t - unat now + unat (charge_increment q w)) u64_max - unat (tolerance q))
           (unat t - unat now)"
  by (auto simp: charge_iter_unfold peek_def not_le unat_sat_sub unat_sat_add_64)

lemma charge_iter_Inr:
  assumes "charge_iter q now w t = Inr (t', d)"
  shows "peek q now w \<lparr>tat = t\<rparr>"
    and "unat t' = min (max (unat t) (unat now) + unat (charge_increment q w)) u64_max"
    and "d = Admit (u32_of_u64_sat (sat_sub (tolerance q) (sat_sub t' now) div emission_interval q))
               (unat t' - unat now)"
  using assms
  by (auto simp: charge_iter_unfold peek_def not_le not_less unat_sat_sub unat_sat_add_64 unat_max
      split: if_splits)

lemma charge_iter_cases [consumes 0, case_names refuse admit]:
  obtains (refuse) d where "charge_iter q now w t = Inl d" "\<not> peek q now w \<lparr>tat = t\<rparr>"
  | (admit) t' d where "charge_iter q now w t = Inr (t', d)" "peek q now w \<lparr>tat = t\<rparr>"
proof (cases "charge_iter q now w t")
  case (Inl d)
  then show ?thesis using refuse charge_iter_Inl by blast
next
  case (Inr p)
  then show ?thesis using admit charge_iter_Inr(1) by (cases p) blast
qed

lemma charge_refused [cell_simps]:
  "\<not> peek q now w c \<Longrightarrow> charge q now w c =
     (Refuse (min (unat (tat c) - unat now + unat (charge_increment q w)) u64_max - unat (tolerance q))
       (unat (tat c) - unat now), c)"
proof -
  assume "\<not> peek q now w c"
  then have "charge_iter q now w (tat c) =
    Inl (Refuse (min (unat (tat c) - unat now + unat (charge_increment q w)) u64_max - unat (tolerance q))
       (unat (tat c) - unat now))"
    by (simp add: charge_iter_Inl)
  then show ?thesis by (simp add: charge_def)
qed

lemma charge_admitted:
  assumes "peek q now w c"
  obtains t' where "charge q now w c =
      (Admit (u32_of_u64_sat (sat_sub (tolerance q) (sat_sub t' now) div emission_interval q))
         (unat t' - unat now), \<lparr>tat = t'\<rparr>)"
    and "unat t' = min (max (unat (tat c)) (unat now) + unat (charge_increment q w)) u64_max"
proof (cases q now w "tat c" rule: charge_iter_cases)
  case (refuse d)
  then show ?thesis using assms by simp
next
  case (admit t' d)
  then show ?thesis using charge_iter_Inr [OF admit(1)] that
    by (simp add: charge_def) (metis cell.surjective cell.update_convs(1) old.unit.exhaust)
qed

lemma charge_admits_iff_peek [simp]: "is_admitted (fst (charge q now w c)) \<longleftrightarrow> peek q now w c"
  by (metis charge_admitted charge_refused fst_conv is_admitted.simps)

lemma tat_charge:
  "unat (tat (snd (charge q now w c))) =
     (if peek q now w c
      then min (max (unat (tat c)) (unat now) + unat (charge_increment q w)) u64_max
      else unat (tat c))"
  by (metis (no_types, lifting) cell.select_convs(1) charge_admitted charge_refused snd_conv)

lemma tat_debit:
  "unat (tat (snd (debit q now w c))) =
     (if w = 0 then unat (tat c)
      else min (max (unat (tat c)) (unat now) + unat (debit_increment q w)) u64_max)"
  by (simp add: debit_def Let_def debit_iter_def unat_sat_add_64 unat_max)

lemma tat_charge_mono: "unat (tat c) \<le> unat (tat (snd (charge q now w c)))"
  using unat_le_64 [of "tat c"] unfolding tat_charge by (auto intro: trans_le_add1 max.coboundedI1)

lemma tat_debit_mono: "unat (tat c) \<le> unat (tat (snd (debit q now w c)))"
  using unat_le_64 [of "tat c"] unfolding tat_debit by (auto intro: trans_le_add1 max.coboundedI1)

section \<open>Sequences of calls on one cell\<close>

datatype call = Charge quota nanos u32 | Debit quota nanos u32

datatype call_result = Decided decision | Debt nanos

fun apply_call :: "call \<Rightarrow> cell \<Rightarrow> call_result \<times> cell" where
  "apply_call (Charge q now w) c = (let (d, c') = charge q now w c in (Decided d, c'))"
| "apply_call (Debit q now w) c = (let (n, c') = debit q now w c in (Debt n, c'))"

fun run_calls :: "call list \<Rightarrow> cell \<Rightarrow> call_result list \<times> cell" where
  "run_calls [] c = ([], c)"
| "run_calls (x # xs) c =
     (let (r, c') = apply_call x c; (rs, c'') = run_calls xs c' in (r # rs, c''))"

lemma run_calls_append:
  "run_calls (xs @ ys) c =
     (let (rs, c') = run_calls xs c; (ss, c'') = run_calls ys c' in (rs @ ss, c''))"
  by (induction xs arbitrary: c) (auto simp: Let_def split: prod.splits)

text \<open>Units of quota admitted by a sequence of calls: the weights of the admitted charges.\<close>

fun admitted_units :: "call list \<Rightarrow> cell \<Rightarrow> nat" where
  "admitted_units [] c = 0"
| "admitted_units (Charge q now w # xs) c =
     (let (d, c') = charge q now w c in
      (if is_admitted d then max (unat w) 1 else 0) + admitted_units xs c')"
| "admitted_units (Debit q now w # xs) c = admitted_units xs (snd (debit q now w c))"

fun charges_within :: "quota \<Rightarrow> nanos \<Rightarrow> nanos \<Rightarrow> call \<Rightarrow> bool" where
  "charges_within q s e (Charge q' now w) \<longleftrightarrow> q' = q \<and> s \<le> now \<and> now \<le> e"
| "charges_within q s e (Debit q' now w) \<longleftrightarrow> True"

lemma admitted_step:
  assumes p: "peek q now w c" and r: "unat now + unat (tolerance q) < u64_max"
  shows "unat (tat (snd (charge q now w c))) =
           max (unat (tat c)) (unat now) + unat (emission_interval q) * max (unat w) 1"
    and "unat (tat (snd (charge q now w c))) \<le> unat now + unat (tolerance q)"
proof -
  have le: "min (unat (tat c) - unat now + unat (charge_increment q w)) u64_max \<le> unat (tolerance q)"
    using p by (simp add: peek_nat)
  then have d: "unat (tat c) - unat now + unat (charge_increment q w) \<le> unat (tolerance q)"
    using r by linarith
  then have inc: "unat (charge_increment q w) = unat (emission_interval q) * max (unat w) 1"
    using r by (simp add: unat_charge_increment min_def split: if_splits)
  have m: "max (unat (tat c)) (unat now) + unat (charge_increment q w) \<le> unat now + unat (tolerance q)"
    using d by linarith
  then have "min (max (unat (tat c)) (unat now) + unat (charge_increment q w)) u64_max =
    max (unat (tat c)) (unat now) + unat (charge_increment q w)"
    using r by linarith
  then have t: "unat (tat (snd (charge q now w c))) =
      max (unat (tat c)) (unat now) + unat (charge_increment q w)"
    using p by (simp only: tat_charge if_True)
  show "unat (tat (snd (charge q now w c))) =
           max (unat (tat c)) (unat now) + unat (emission_interval q) * max (unat w) 1"
    using t inc by simp
  show "unat (tat (snd (charge q now w c))) \<le> unat now + unat (tolerance q)"
    using t m by simp
qed

lemma admitted_units_bound_aux:
  assumes "unat e + unat (tolerance q) < u64_max" and "list_all (charges_within q s e) xs"
  shows "unat (emission_interval q) * admitted_units xs c
           \<le> unat e + unat (tolerance q) - max (unat (tat c)) (unat s)"
  using assms(2)
proof (induction xs arbitrary: c)
  case Nil
  then show ?case by simp
next
  case (Cons x xs)
  show ?case
  proof (cases x)
    case (Debit q' now w)
    then have xs: "list_all (charges_within q s e) xs" using Cons.prems by simp
    show ?thesis
      using Cons.IH [OF xs, of "snd (debit q' now w c)"] tat_debit_mono [of c q' now w]
      by (simp only: Debit admitted_units.simps)
  next
    case (Charge q' now w)
    then have q: "q' = q" and s: "unat s \<le> unat now" and e: "unat now \<le> unat e"
      and xs: "list_all (charges_within q s e) xs"
      using Cons.prems by (auto simp: word_le_nat_alt)
    let ?c = "snd (charge q now w c)"
    note IH = Cons.IH [OF xs, of ?c]
    show ?thesis
    proof (cases "peek q now w c")
      case False
      then have "admitted_units (x # xs) c = admitted_units xs c" "?c = c"
        using charge_refused [OF False] by (simp_all add: Charge q)
      then show ?thesis using IH by simp
    next
      case True
      have r: "unat now + unat (tolerance q) < u64_max" using e assms(1) by linarith
      note t = admitted_step [OF True r]
      have u: "admitted_units (x # xs) c = max (unat w) 1 + admitted_units xs ?c"
        using True charge_admits_iff_peek [of q now w c]
        by (cases "charge q now w c") (simp add: Charge q)
      have "unat (emission_interval q) * admitted_units (x # xs) c =
          unat (emission_interval q) * max (unat w) 1 + unat (emission_interval q) * admitted_units xs ?c"
        by (simp only: u distrib_left)
      also have "\<dots> \<le> unat e + unat (tolerance q) - max (unat (tat c)) (unat s)"
        using IH t s e by linarith
      finally show ?thesis .
    qed
  qed
qed

section \<open>Properties of a single cell\<close>

text \<open>C1. The rate limit holds over every window, whatever the order of the calls: however
  many charges against one well-formed quota are issued with times between \<open>s\<close> and \<open>e\<close>, in
  any order and mixed with any debits, the units admitted times the emission interval never
  exceed \<open>burst * emission_interval + (e - s)\<close>: there is no burst at a window edge.\<close>

theorem admitted_units_bound:
  assumes "quota_wf q" and "unat e + unat (tolerance q) < u64_max"
    and "list_all (charges_within q s e) xs"
  shows "unat (emission_interval q) * admitted_units xs c
           \<le> unat (emission_interval q) * unat (burst q) + (unat e - unat s)"
proof -
  have "unat (emission_interval q) * admitted_units xs c
      \<le> unat e + unat (tolerance q) - max (unat (tat c)) (unat s)"
    using assms(2,3) by (rule admitted_units_bound_aux)
  also have "\<dots> \<le> unat (tolerance q) + (unat e - unat s)" by linarith
  also have "\<dots> \<le> unat (emission_interval q) * unat (burst q) + (unat e - unat s)"
    using tolerance_le [OF assms(1)] by linarith
  finally show ?thesis .
qed

lemma admitted_units_bound_witness:
  "unat (10 :: u64) * admitted_units [Charge \<lparr>emission_interval = 10, tolerance = 30, burst = 3\<rparr> 5 2,
      Debit \<lparr>emission_interval = 10, tolerance = 30, burst = 3\<rparr> 9 7,
      Charge \<lparr>emission_interval = 10, tolerance = 30, burst = 3\<rparr> 7 2] cell_new
     \<le> unat (10 :: u64) * unat (3 :: u32) + (unat (9 :: nanos) - unat (5 :: nanos))"
proof -
  let ?q = "\<lparr>emission_interval = 10, tolerance = 30, burst = 3\<rparr>"
  have "quota_wf ?q" by (simp add: quota_wf_def sat_mul_def u64_of_u32_def)
  from admitted_units_bound [OF this, where e = 9 and s = 5 and c = cell_new and
      xs = "[Charge ?q 5 2, Debit ?q 9 7, Charge ?q 7 2]"]
  show ?thesis by simp
qed

text \<open>\<open>Retry-After\<close> is exact. When a charge that could fit the quota at all is refused
  with \<open>retry_after = r\<close>, nothing is charged, and if nobody else charges the cell meanwhile the
  same request is refused at every instant before \<open>now + r\<close> and admitted at every later one.\<close>

theorem retry_after_exact:
  assumes "charge q now w c = (Refuse r d, c')"
    and "unat (charge_increment q w) \<le> unat (tolerance q)"
    and "unat (tat c) + unat (charge_increment q w) \<le> u64_max"
    and "now \<le> now'"
  shows "c' = c \<and> 0 < r \<and>
    (is_admitted (fst (charge q now' w c')) \<longleftrightarrow> unat now + r \<le> unat now')"
proof -
  have np: "\<not> peek q now w c"
    using assms(1) charge_admits_iff_peek [of q now w c] by auto
  then have c: "c' = c"
    and r: "r = min (unat (tat c) - unat now + unat (charge_increment q w)) u64_max - unat (tolerance q)"
    using charge_refused [OF np] assms(1) by auto
  have now: "unat now \<le> unat now'" using assms(4) by (simp add: word_le_nat_alt)
  have "\<not> min (unat (tat c) - unat now + unat (charge_increment q w)) u64_max \<le> unat (tolerance q)"
    using np by (simp only: peek_nat not_False_eq_True)
  then have r': "r = unat (tat c) - unat now + unat (charge_increment q w) - unat (tolerance q)"
    and pos: "0 < r"
    using r assms(3) by linarith+
  have "peek q now' w c \<longleftrightarrow>
      unat (tat c) - unat now' + unat (charge_increment q w) \<le> unat (tolerance q)"
    using assms(3) unfolding peek_nat by linarith
  also have "\<dots> \<longleftrightarrow> unat now + r \<le> unat now'"
    using pos now assms(2) unfolding r' by linarith
  finally show ?thesis using c pos by simp
qed

lemma retry_after_exact_witness:
  "is_admitted (fst (charge \<lparr>emission_interval = 10, tolerance = 30, burst = 3\<rparr> 25 2 \<lparr>tat = 35\<rparr>))
    \<and> fst (charge \<lparr>emission_interval = 10, tolerance = 30, burst = 3\<rparr> 5 2 \<lparr>tat = 35\<rparr>) = Refuse 20 30"
proof -
  let ?q = "\<lparr>emission_interval = 10, tolerance = 30, burst = 3\<rparr>"
  have c: "charge ?q 5 2 \<lparr>tat = 35\<rparr> = (Refuse 20 30, \<lparr>tat = 35\<rparr>)"
    by (simp add: charge_def charge_iter_def charge_increment_def sat_mul_def sat_add_def
        sat_sub_def u64_of_u32_def max_def word_le_nat_alt)
  have i: "unat (charge_increment ?q 2) = 20" by (simp add: unat_charge_increment)
  show ?thesis
    using c i retry_after_exact [OF c, of 25] by simp
qed

text \<open>\<open>remaining\<close> is exact: right after an admission, a further request of weight
  \<open>w\<close> at the same instant is admitted if and only if it weighs no more than the reported number
  of units (a weight of zero counts as one).\<close>

theorem remaining_exact:
  assumes "quota_wf q" and "unat now + unat (tolerance q) < u64_max"
    and "charge q now w c = (Admit r d, c')"
  shows "is_admitted (fst (charge q now w' c')) \<longleftrightarrow> max (unat w') 1 \<le> unat r"
proof -
  let ?T = "unat (emission_interval q)" and ?tol = "unat (tolerance q)"
  have pk: "peek q now w c" using assms(3) charge_admits_iff_peek [of q now w c] by simp
  obtain t' where ch: "charge q now w c =
      (Admit (u32_of_u64_sat (sat_sub (tolerance q) (sat_sub t' now) div emission_interval q))
         (unat t' - unat now), \<lparr>tat = t'\<rparr>)"
    using charge_admitted [OF pk] by metis
  have c': "c' = \<lparr>tat = t'\<rparr>"
    and r: "r = u32_of_u64_sat (sat_sub (tolerance q) (sat_sub t' now) div emission_interval q)"
    using ch assms(3) by auto
  have t': "unat t' \<le> unat now + ?tol"
    using admitted_step(2) [OF pk assms(2)] by (simp add: ch)
  define spare where "spare = ?tol - (unat t' - unat now)"
  have T: "0 < ?T" using quota_wf_pos [OF assms(1)] by simp
  have "spare div ?T \<le> (?T * unat (burst q)) div ?T"
    using tolerance_le [OF assms(1)] by (intro div_le_mono) (simp add: spare_def)
  then have "spare div ?T \<le> u32_max" using T unat_le_32 [of "burst q"] by simp
  then have ur: "unat r = spare div ?T"
    by (simp add: r unat_u32_of_u64_sat unat_div unat_sat_sub spare_def)
  have "peek q now w' c' \<longleftrightarrow> min (unat t' - unat now + min (?T * max (unat w') 1) u64_max) u64_max \<le> ?tol"
    by (simp add: peek_nat c' unat_charge_increment)
  also have "\<dots> \<longleftrightarrow> ?T * max (unat w') 1 \<le> spare"
    using assms(2) t' unfolding spare_def by linarith
  also have "\<dots> \<longleftrightarrow> max (unat w') 1 \<le> spare div ?T"
    using T by (simp only: less_eq_div_iff_mult_less_eq mult.commute)
  finally show ?thesis by (simp add: ur)
qed

lemma remaining_exact_witness:
  "charge \<lparr>emission_interval = 10, tolerance = 30, burst = 3\<rparr> 5 2 cell_new = (Admit 1 20, \<lparr>tat = 25\<rparr>)
   \<and> (is_admitted (fst (charge \<lparr>emission_interval = 10, tolerance = 30, burst = 3\<rparr> 5 2 \<lparr>tat = 25\<rparr>))
      \<longleftrightarrow> max (unat (2 :: u32)) 1 \<le> unat (1 :: u32))"
proof -
  let ?q = "\<lparr>emission_interval = 10, tolerance = 30, burst = 3\<rparr>"
  have wf: "quota_wf ?q" by (simp add: quota_wf_def sat_mul_def u64_of_u32_def)
  have c: "charge ?q 5 2 cell_new = (Admit 1 20, \<lparr>tat = 25\<rparr>)"
    by (simp add: charge_def charge_iter_def charge_increment_def sat_mul_def sat_add_def
        sat_sub_def u64_of_u32_def max_def word_le_nat_alt cell_new_def u32_of_u64_sat_def)
  show ?thesis using c remaining_exact [OF wf _ c, of 2] by simp
qed

text \<open>The boot-time weight check is exact: a weight it accepts is admitted by every
  replenished cell at every instant, and, unless the tolerance itself saturated, a weight it
  refuses is refused by every cell at every instant.\<close>

theorem check_weight_exact:
  assumes "quota_wf q"
  shows "(check_weight q w = Inr () \<and> is_replenished now c \<longrightarrow> is_admitted (fst (charge q now w c))) \<and>
    (check_weight q w \<noteq> Inr () \<and> unat (emission_interval q) * unat (burst q) < u64_max
      \<longrightarrow> \<not> is_admitted (fst (charge q now w c)))"
proof (intro conjI impI; elim conjE)
  let ?T = "unat (emission_interval q)"
  have tol: "unat (tolerance q) = min (?T * unat (burst q)) u64_max"
    using assms by (simp add: quota_wf_def unat_sat_mul_64)
  {
    assume "check_weight q w = Inr ()" and r: "is_replenished now c"
    then have "max (unat w) 1 \<le> unat (burst q)"
      using quota_wf_pos [OF assms] by (auto simp: check_weight_def word_less_nat_alt split: if_splits)
    then have le: "?T * max (unat w) 1 \<le> ?T * unat (burst q)" by (rule mult_le_mono2)
    have "unat (tat c) - unat now = 0" using r by (simp add: is_replenished_def word_le_nat_alt)
    then have "peek q now w c"
      using le unfolding peek_nat unat_charge_increment tol by linarith
    then show "is_admitted (fst (charge q now w c))" by simp
  next
    assume "check_weight q w \<noteq> Inr ()" and u: "?T * unat (burst q) < u64_max"
    then have "unat (burst q) < max (unat w) 1"
      by (auto simp: check_weight_def word_less_nat_alt split: if_splits)
    then have "?T * unat (burst q) < ?T * max (unat w) 1"
      using quota_wf_pos [OF assms] by (intro mult_less_mono2) auto
    then have "\<not> peek q now w c"
      using u unfolding peek_nat unat_charge_increment tol by linarith
    then show "\<not> is_admitted (fst (charge q now w c))" by simp
  }
qed

lemma check_weight_exact_witness:
  "is_admitted (fst (charge \<lparr>emission_interval = 10, tolerance = 30, burst = 3\<rparr> 50 3 \<lparr>tat = 40\<rparr>))
   \<and> \<not> is_admitted (fst (charge \<lparr>emission_interval = 10, tolerance = 30, burst = 3\<rparr> 50 4 \<lparr>tat = 40\<rparr>))"
proof -
  have wf: "quota_wf \<lparr>emission_interval = 10, tolerance = 30, burst = 3\<rparr>"
    by (simp add: quota_wf_def sat_mul_def u64_of_u32_def)
  show ?thesis
    using check_weight_exact [OF wf, of 3 50 "\<lparr>tat = 40\<rparr>"] check_weight_exact [OF wf, of 4 50 "\<lparr>tat = 40\<rparr>"]
    by (simp add: check_weight_def is_replenished_def)
qed

text \<open>A debit always lands: whatever the state of the cell, the debt it returns is the old
  debt plus the full price, cut only to one whole tolerance, so a weight within the burst is
  never reduced and a single debit never adds more than one burst.\<close>

theorem debit_lands:
  assumes "quota_wf q" and "debit q now w c = (n, c')"
    and "max (unat (tat c)) (unat now) + unat (tolerance q) \<le> u64_max"
  shows "unat n = unat (tat c) - unat now + min (unat (emission_interval q) * unat w) (unat (tolerance q))
    \<and> (w \<le> burst q \<longrightarrow> min (unat (emission_interval q) * unat w) (unat (tolerance q))
          = min (unat (emission_interval q) * unat w) u64_max)"
proof -
  let ?T = "unat (emission_interval q)"
  have inc: "unat (debit_increment q w) = min (?T * unat w) (unat (tolerance q))"
    using unat_le_64 [of "tolerance q"] by (simp add: unat_debit_increment)
  have "unat n = unat (tat c) - unat now + min (?T * unat w) (unat (tolerance q))"
  proof (cases "w = 0")
    case True
    then show ?thesis using assms(2) by (auto simp: debit_def unat_sat_sub)
  next
    case False
    then have n: "n = sat_sub (debit_iter q now w (tat c)) now"
      using assms(2) by (auto simp: debit_def Let_def)
    show ?thesis
      using assms(3) unfolding n unat_sat_sub debit_iter_def unat_sat_add_64 unat_max inc by linarith
  qed
  moreover have "min (?T * unat w) (unat (tolerance q)) = min (?T * unat w) u64_max" if "w \<le> burst q"
  proof -
    have "?T * unat w \<le> ?T * unat (burst q)"
      using that by (intro mult_le_mono2) (simp add: word_le_nat_alt)
    moreover have "unat (tolerance q) = min (?T * unat (burst q)) u64_max"
      using assms(1) by (simp add: quota_wf_def unat_sat_mul_64)
    ultimately show ?thesis by linarith
  qed
  ultimately show ?thesis by simp
qed

lemma debit_lands_witness:
  "debit \<lparr>emission_interval = 10, tolerance = 30, burst = 3\<rparr> 5 2 \<lparr>tat = 35\<rparr> = (50, \<lparr>tat = 55\<rparr>)
   \<and> unat (50 :: u64) = unat (35 :: u64) - unat (5 :: u64)
       + min (unat (10 :: u64) * unat (2 :: u32)) (unat (30 :: u64))"
proof -
  let ?q = "\<lparr>emission_interval = 10, tolerance = 30, burst = 3\<rparr>"
  have wf: "quota_wf ?q" by (simp add: quota_wf_def sat_mul_def u64_of_u32_def)
  have d: "debit ?q 5 2 \<lparr>tat = 35\<rparr> = (50, \<lparr>tat = 55\<rparr>)"
    by (simp add: debit_def debit_iter_def debit_increment_def sat_mul_def sat_add_def sat_sub_def
        u64_of_u32_def max_def min_def word_le_nat_alt)
  show ?thesis using d debit_lands [OF wf d] by simp
qed

section \<open>Replenished cells and shares of a quota\<close>

fun call_time :: "call \<Rightarrow> nanos" where
  "call_time (Charge q now w) = now"
| "call_time (Debit q now w) = now"

fun calls_from :: "nanos \<Rightarrow> call list \<Rightarrow> bool" where
  "calls_from t [] \<longleftrightarrow> True"
| "calls_from t (x # xs) \<longleftrightarrow> t \<le> call_time x \<and> calls_from (call_time x) xs"

text \<open>Two cells no call at or after \<open>now\<close> can tell apart.\<close>

definition cell_equiv :: "nanos \<Rightarrow> cell \<Rightarrow> cell \<Rightarrow> bool" where
  "cell_equiv now c d \<longleftrightarrow> c = d \<or> is_replenished now c \<and> is_replenished now d"

lemma cell_equiv_refl [simp]: "cell_equiv now c c"
  by (simp add: cell_equiv_def)

lemma cell_equiv_later: "cell_equiv now c d \<Longrightarrow> now \<le> now' \<Longrightarrow> cell_equiv now' c d"
  by (auto simp: cell_equiv_def is_replenished_def)

lemma is_replenished_sub: "is_replenished now c \<Longrightarrow> sat_sub (tat c) now = 0"
  by (simp add: is_replenished_def sat_sub_def)

lemma is_replenished_max: "is_replenished now c \<Longrightarrow> max (tat c) now = now"
  by (simp add: is_replenished_def max_def)

lemma peek_equiv: "cell_equiv now c d \<Longrightarrow> peek q now w c = peek q now w d"
  by (auto simp: cell_equiv_def peek_def is_replenished_sub)

lemma charge_equiv:
  assumes "cell_equiv now c d"
  shows "fst (charge q now w c) = fst (charge q now w d)"
    and "cell_equiv now (snd (charge q now w c)) (snd (charge q now w d))"
  using assms
  by (auto simp: cell_equiv_def charge_def charge_iter_def Let_def is_replenished_sub is_replenished_max)

lemma debit_equiv:
  assumes "cell_equiv now c d"
  shows "fst (debit q now w c) = fst (debit q now w d)"
    and "cell_equiv now (snd (debit q now w c)) (snd (debit q now w d))"
  using assms
  by (auto simp: cell_equiv_def debit_def debit_iter_def Let_def is_replenished_sub is_replenished_max)

lemma apply_call_equiv:
  assumes "cell_equiv (call_time x) c d"
  shows "fst (apply_call x c) = fst (apply_call x d)"
    and "cell_equiv (call_time x) (snd (apply_call x c)) (snd (apply_call x d))"
  using charge_equiv debit_equiv assms by (cases x; auto simp: split_beta)+

lemma run_calls_equiv:
  "cell_equiv now c d \<Longrightarrow> calls_from now xs \<Longrightarrow> fst (run_calls xs c) = fst (run_calls xs d)"
proof (induction xs arbitrary: now c d)
  case Nil
  then show ?case by simp
next
  case (Cons x xs)
  then have e: "cell_equiv (call_time x) c d" using cell_equiv_later by auto
  then have "fst (run_calls xs (snd (apply_call x c))) = fst (run_calls xs (snd (apply_call x d)))"
    using Cons apply_call_equiv(2) [OF e] by auto
  then show ?case using apply_call_equiv(1) [OF e] by (simp add: split_beta)
qed

text \<open>Forgetting a replenished cell loses nothing: from any instant at which a cell is
  replenished, every later sequence of charges and debits gets exactly the answers a brand new
  cell would give.\<close>

theorem replenished_is_fresh:
  assumes "is_replenished now c" and "calls_from now xs"
  shows "fst (run_calls xs c) = fst (run_calls xs cell_new)"
proof (rule run_calls_equiv [OF _ assms(2)])
  show "cell_equiv now c cell_new"
    using assms(1) by (simp add: cell_equiv_def is_replenished_def cell_new_def)
qed

lemma replenished_is_fresh_witness:
  "fst (run_calls [Charge \<lparr>emission_interval = 10, tolerance = 30, burst = 3\<rparr> 40 2,
        Debit \<lparr>emission_interval = 10, tolerance = 30, burst = 3\<rparr> 41 2] \<lparr>tat = 35\<rparr>)
   = fst (run_calls [Charge \<lparr>emission_interval = 10, tolerance = 30, burst = 3\<rparr> 40 2,
        Debit \<lparr>emission_interval = 10, tolerance = 30, burst = 3\<rparr> 41 2] cell_new)"
  by (rule replenished_is_fresh [of 40]) (simp_all add: is_replenished_def)

lemma partitioned_cases:
  assumes "partitioned q n = Inr q'" and "\<not> n \<le> 1"
  shows "burst q' = burst q div n" and "burst q div n \<noteq> 0"
    and "emission_interval q' = sat_mul (emission_interval q) (u64_of_u32 n)"
    and "tolerance q' = sat_mul (emission_interval q') (u64_of_u32 (burst q'))"
  using assms by (auto simp: partitioned_def Let_def split: if_splits)

lemma partitioned_wf: "quota_wf q \<Longrightarrow> partitioned q n = Inr q' \<Longrightarrow> quota_wf q'"
proof (cases "n \<le> 1")
  case False
  assume q: "quota_wf q" and p: "partitioned q n = Inr q'"
  note P = partitioned_cases [OF p False]
  have "0 < unat (emission_interval q')"
    using quota_wf_pos [OF q] False by (simp add: P(3) unat_sat_mul_64 word_le_nat_alt)
  then show ?thesis using P by (auto simp: quota_wf_def)
qed (auto simp: partitioned_def)

lemma partitioned_interval:
  assumes "partitioned q n = Inr q'" and "n \<noteq> 0" and "quota_wf q" and "unat (tolerance q') < u64_max"
  shows "unat (emission_interval q') = unat (emission_interval q) * unat n"
    and "unat n * unat (burst q') \<le> unat (burst q)"
proof -
  have wf: "quota_wf q'" using partitioned_wf assms(1,3) by blast
  show "unat (emission_interval q') = unat (emission_interval q) * unat n"
  proof (cases "n \<le> 1")
    case True
    then have "unat n = 1" using assms(2) by (simp add: word_le_nat_alt unat_eq_0 le_Suc_eq)
    then show ?thesis using True assms(1) by (simp add: partitioned_def)
  next
    case False
    have e: "unat (emission_interval q') = min (unat (emission_interval q) * unat n) u64_max"
      using partitioned_cases(3) [OF assms(1) False] by (simp add: unat_sat_mul_64)
    have "unat (emission_interval q') * 1 \<le> unat (emission_interval q') * unat (burst q')"
      using quota_wf_pos [OF wf] by (intro mult_le_mono2) simp
    moreover have "unat (tolerance q') = min (unat (emission_interval q') * unat (burst q')) u64_max"
      using wf by (simp add: quota_wf_def unat_sat_mul_64)
    ultimately have "unat (emission_interval q') < u64_max"
      using assms(4) by linarith
    then show ?thesis using e by linarith
  qed
  show "unat n * unat (burst q') \<le> unat (burst q)"
  proof (cases "n \<le> 1")
    case True
    then have "unat n \<le> 1" by (simp add: word_le_nat_alt)
    then show ?thesis using True assms(1) by (cases "unat n") (auto simp: partitioned_def)
  next
    case False
    then show ?thesis using partitioned_cases(1) [OF assms(1) False]
      by (simp add: unat_div mult.commute [of "unat n"] div_times_less_eq_dividend)
  qed
qed

text \<open>C33. A split budget is never exceeded: \<open>n\<close> processes that each enforce their own share
  of a quota on their own cell admit together, over any window, no more than one process
  enforcing the whole quota could.\<close>

theorem partition_never_over_admits:
  assumes "quota_wf q" and "partitioned q n = Inr q'" and "n \<noteq> 0"
    and "unat e + unat (tolerance q') < u64_max"
    and "length runs = unat n" and "list_all (\<lambda>(xs, c). list_all (charges_within q' s e) xs) runs"
  shows "unat (emission_interval q) * (\<Sum>(xs, c) \<leftarrow> runs. admitted_units xs c)
           \<le> unat (emission_interval q) * unat (burst q) + (unat e - unat s)"
proof -
  let ?T = "unat (emission_interval q)" and ?n = "unat n"
  have wf: "quota_wf q'" using partitioned_wf assms(1,2) by blast
  have tol: "unat (tolerance q') < u64_max" using assms(4) by linarith
  note I = partitioned_interval [OF assms(2,3,1) tol]
  have each: "?T * ?n * (\<Sum>(xs, c) \<leftarrow> rs. admitted_units xs c)
      \<le> length rs * (?T * ?n * unat (burst q') + (unat e - unat s))"
    if "list_all (\<lambda>(xs, c). list_all (charges_within q' s e) xs) rs" for rs
    using that
  proof (induction rs)
    case Nil
    then show ?case by simp
  next
    case (Cons r rs)
    obtain xs c where r: "r = (xs, c)" by (cases r)
    have "?T * ?n * admitted_units xs c \<le> ?T * ?n * unat (burst q') + (unat e - unat s)"
      using admitted_units_bound [OF wf assms(4), of s xs c] Cons.prems by (simp add: r I(1))
    then show ?case using Cons by (simp add: r distrib_left)
  qed
  have "?n * (?T * (\<Sum>(xs, c) \<leftarrow> runs. admitted_units xs c))
      \<le> ?n * (?T * (?n * unat (burst q')) + (unat e - unat s))"
    using each [OF assms(6)] assms(5) by (simp add: ac_simps)
  moreover have "0 < ?n" using assms(3) by (simp add: unat_gt_0)
  ultimately have "?T * (\<Sum>(xs, c) \<leftarrow> runs. admitted_units xs c) \<le> ?T * (?n * unat (burst q')) + (unat e - unat s)"
    by simp
  also have "\<dots> \<le> ?T * unat (burst q) + (unat e - unat s)"
    using I(2) by (intro add_right_mono mult_le_mono2)
  finally show ?thesis .
qed

lemma partition_never_over_admits_witness:
  "partitioned \<lparr>emission_interval = 10, tolerance = 30, burst = 3\<rparr> 2
     = Inr \<lparr>emission_interval = 20, tolerance = 20, burst = 1\<rparr>
   \<and> unat (10 :: u64) * (\<Sum>(xs, c) \<leftarrow> [([Charge \<lparr>emission_interval = 20, tolerance = 20, burst = 1\<rparr> 5 1], cell_new),
         ([Charge \<lparr>emission_interval = 20, tolerance = 20, burst = 1\<rparr> 6 1], cell_new)]. admitted_units xs c)
       \<le> unat (10 :: u64) * unat (3 :: u32) + (unat (9 :: u64) - unat (5 :: u64))"
proof -
  let ?q = "\<lparr>emission_interval = 10, tolerance = 30, burst = 3\<rparr>"
  let ?q' = "\<lparr>emission_interval = 20, tolerance = 20, burst = 1\<rparr>"
  have wf: "quota_wf ?q" by (simp add: quota_wf_def sat_mul_def u64_of_u32_def)
  have p: "partitioned ?q 2 = Inr ?q'"
    by (simp add: partitioned_def sat_mul_def u64_of_u32_def word_le_nat_alt)
  show ?thesis
    using p partition_never_over_admits [OF wf p, where e = 9 and s = 5 and
        runs = "[([Charge ?q' 5 1], cell_new), ([Charge ?q' 6 1], cell_new)]"]
    by simp
qed

section \<open>Callers racing on one cell\<close>

text \<open>
  \<open>charge\<close> and \<open>debit\<close> as the compare-exchange loops they are. A caller loads the word,
  decides from the value it loaded, and, unless that decision is a refusal, tries to swap the
  new value in; the weak compare-exchange succeeds only if the word still holds the loaded
  value and may fail spuriously, and a failed caller loads again. \<open>history\<close> records each call
  at the instant its answer is fixed: the load of a refusal, the successful exchange otherwise.
\<close>

datatype caller =
    Ready
  | AtLoad call
  | AtSwap call u64

record race =
  shared :: u64
  callers :: "nat \<Rightarrow> caller"
  history :: "(call \<times> call_result) list"

text \<open>What a caller does with the word it loaded: return (\<open>Inl\<close>) or try to swap (\<open>Inr\<close>).\<close>

fun after_load :: "call \<Rightarrow> u64 \<Rightarrow> call_result + (u64 \<times> call_result)" where
  "after_load (Charge q now w) t =
     (case charge_iter q now w t of
        Inl d \<Rightarrow> Inl (Decided d)
      | Inr (t', d) \<Rightarrow> Inr (t', Decided d))"
| "after_load (Debit q now w) t =
     (if w = 0 then Inl (Debt (sat_sub t now))
      else let t' = debit_iter q now w t in Inr (t', Debt (sat_sub t' now)))"

inductive race_step :: "race \<Rightarrow> race \<Rightarrow> bool" where
  call_starts: "callers s i = Ready \<Longrightarrow>
     race_step s (s\<lparr>callers := (callers s)(i := AtLoad x)\<rparr>)"
| load_returns: "callers s i = AtLoad x \<Longrightarrow> after_load x (shared s) = Inl r \<Longrightarrow>
     race_step s (s\<lparr>callers := (callers s)(i := Ready), history := history s @ [(x, r)]\<rparr>)"
| load_continues: "callers s i = AtLoad x \<Longrightarrow> after_load x (shared s) = Inr p \<Longrightarrow>
     race_step s (s\<lparr>callers := (callers s)(i := AtSwap x (shared s))\<rparr>)"
| swap_succeeds: "callers s i = AtSwap x t \<Longrightarrow> shared s = t \<Longrightarrow> after_load x t = Inr (t', r) \<Longrightarrow>
     race_step s (s\<lparr>shared := t', callers := (callers s)(i := Ready), history := history s @ [(x, r)]\<rparr>)"
| swap_fails: "callers s i = AtSwap x t \<Longrightarrow>
     race_step s (s\<lparr>callers := (callers s)(i := AtLoad x)\<rparr>)"

inductive raced :: "u64 \<Rightarrow> race \<Rightarrow> bool" for t0 where
  raced_start: "raced t0 \<lparr>shared = t0, callers = (\<lambda>_. Ready), history = []\<rparr>"
| raced_step: "raced t0 s \<Longrightarrow> race_step s s' \<Longrightarrow> raced t0 s'"

lemma after_load_Inl: "after_load x t = Inl r \<Longrightarrow> apply_call x \<lparr>tat = t\<rparr> = (r, \<lparr>tat = t\<rparr>)"
  by (cases x) (auto simp: charge_def debit_def Let_def split: sum.splits if_splits)

lemma after_load_Inr: "after_load x t = Inr (t', r) \<Longrightarrow> apply_call x \<lparr>tat = t\<rparr> = (r, \<lparr>tat = t'\<rparr>)"
  by (cases x) (auto simp: charge_def debit_def Let_def split: sum.splits if_splits)

definition replays :: "u64 \<Rightarrow> race \<Rightarrow> bool" where
  "replays t0 s \<longleftrightarrow> run_calls (map fst (history s)) \<lparr>tat = t0\<rparr> = (map snd (history s), \<lparr>tat = shared s\<rparr>)"

lemma replays_step: "race_step s s' \<Longrightarrow> replays t0 s \<Longrightarrow> replays t0 s'"
  by (induction rule: race_step.induct)
    (auto simp: replays_def run_calls_append dest!: after_load_Inl after_load_Inr)

lemma replays_start: "replays t0 \<lparr>shared = t0, callers = (\<lambda>_. Ready), history = []\<rparr>"
  by (simp add: replays_def)

lemma raced_replays: "raced t0 s \<Longrightarrow> replays t0 s"
  by (induction rule: raced.induct) (auto intro: replays_step replays_start)

text \<open>C28. The lock-free cell is linearisable: in every reachable state of any number of callers
  racing on one cell, running the answered calls one after the other, in the order in which
  their answers were fixed, gives exactly the answers they got and the word now stored. No
  charge is lost to a race and none is counted twice.\<close>

theorem race_linearisable:
  "raced t0 s \<Longrightarrow> run_calls (map fst (history s)) \<lparr>tat = t0\<rparr> = (map snd (history s), \<lparr>tat = shared s\<rparr>)"
  using raced_replays by (simp add: replays_def)

lemma race_linearisable_witness:
  "\<exists>s. raced 0 s \<and> shared s = 25 \<and> callers s 1 = AtSwap (Charge \<lparr>emission_interval = 10, tolerance = 30, burst = 3\<rparr> 5 2) 0
     \<and> history s = [(Charge \<lparr>emission_interval = 10, tolerance = 30, burst = 3\<rparr> 5 2, Decided (Admit 1 20))]
     \<and> run_calls (map fst (history s)) \<lparr>tat = 0\<rparr> = (map snd (history s), \<lparr>tat = shared s\<rparr>)"
proof -
  let ?x = "Charge \<lparr>emission_interval = 10, tolerance = 30, burst = 3\<rparr> 5 2"
  let ?s = "\<lambda>t f h. \<lparr>shared = t, callers = f, history = h\<rparr> :: race"
  let ?f = "\<lambda>_. Ready"
  let ?h = "[(?x, Decided (Admit 1 20))]"
  have al: "after_load ?x 0 = Inr (25, Decided (Admit 1 20))"
    by (simp add: charge_iter_def charge_increment_def sat_mul_def sat_add_def
        sat_sub_def u64_of_u32_def max_def word_le_nat_alt u32_of_u64_sat_def)
  have 1: "raced 0 (?s 0 (?f(0 := AtLoad ?x)) [])"
    using raced_step [OF raced_start race_step.call_starts [of _ 0 ?x]] by simp
  have 2: "raced 0 (?s 0 (?f(0 := AtLoad ?x, 1 := AtLoad ?x)) [])"
    using raced_step [OF 1 race_step.call_starts [of _ 1 ?x]] by simp
  have 3: "raced 0 (?s 0 (?f(0 := AtLoad ?x, 1 := AtSwap ?x 0)) [])"
    using raced_step [OF 2 race_step.load_continues [of _ 1 ?x]] al by simp
  have 4: "raced 0 (?s 0 (?f(1 := AtSwap ?x 0, 0 := AtSwap ?x 0)) [])"
    using raced_step [OF 3 race_step.load_continues [of _ 0 ?x]] al by (simp add: fun_upd_twist)
  have 5: "raced 0 (?s 25 (?f(1 := AtSwap ?x 0, 0 := Ready)) ?h)"
    using raced_step [OF 4 race_step.swap_succeeds [of _ 0 ?x 0 25]] al by simp
  show ?thesis
    using 5 race_linearisable [OF 5] by (intro exI [of _ "?s 25 (?f(1 := AtSwap ?x 0, 0 := Ready)) ?h"]) simp
qed

end
