(* ===== verification/Cost.thy ===== *)
theory Cost
  imports Gcra Strings
begin

text \<open>
  What an operation is worth to the limiter (\<open>src/shutter/cost.rs\<close>): the operation classes in
  their order of restriction, the derived cost with its breakdown, the compressed fan-out, and
  the classification of routes and actions from what the build knows (the effect profile of
  \<open>src/effects.rs\<close>).
\<close>

datatype operation_class = StaticRead | Read | Write | Outbound | Credential

fun class_rank :: "operation_class \<Rightarrow> nat" where
  "class_rank StaticRead = 0"
| "class_rank Read = 1"
| "class_rank Write = 2"
| "class_rank Outbound = 3"
| "class_rank Credential = 4"

lemma class_rank_inj: "class_rank a = class_rank b \<longleftrightarrow> a = b"
  by (cases a; cases b) simp_all

text \<open>The derived \<open>Ord\<close> of the Rust enum: the order of declaration.\<close>

instantiation operation_class :: linorder
begin

definition less_eq_operation_class :: "operation_class \<Rightarrow> operation_class \<Rightarrow> bool" where
  "a \<le> b \<longleftrightarrow> class_rank a \<le> class_rank b"

definition less_operation_class :: "operation_class \<Rightarrow> operation_class \<Rightarrow> bool" where
  "a < b \<longleftrightarrow> class_rank a < class_rank b"

instance
  by standard (auto simp: less_eq_operation_class_def less_operation_class_def class_rank_inj)

end

fun class_as_str :: "operation_class \<Rightarrow> string" where
  "class_as_str StaticRead = ''static-read''"
| "class_as_str Read = ''read''"
| "class_as_str Write = ''write''"
| "class_as_str Outbound = ''outbound''"
| "class_as_str Credential = ''credential''"

fun base_weight :: "operation_class \<Rightarrow> u32" where
  "base_weight StaticRead = 1"
| "base_weight Read = 2"
| "base_weight Write = 4"
| "base_weight Outbound = 8"
| "base_weight Credential = 1"

record cost =
  op_class :: operation_class
  weight :: u32
  base :: u32
  fanout :: u32
  observed_subscribers :: u32

text \<open>\<open>u32::ilog2\<close>, the position of the highest set bit.\<close>

fun ilog2 :: "nat \<Rightarrow> nat" where
  "ilog2 n = (if n \<le> 1 then 0 else Suc (ilog2 (n div 2)))"

declare ilog2.simps [simp del]

definition compress_fanout :: "u32 \<Rightarrow> u32" where
  "compress_fanout subscribers = (if subscribers \<le> 1 then 0 else of_nat (ilog2 (unat subscribers)))"

definition flat :: "operation_class \<Rightarrow> cost" where
  "flat c = \<lparr>op_class = c, weight = base_weight c, base = base_weight c, fanout = 0,
     observed_subscribers = 0\<rparr>"

definition fan_out :: "operation_class \<Rightarrow> u32 \<Rightarrow> cost" where
  "fan_out c subscribers =
     (let b = base_weight c; f = compress_fanout subscribers in
      \<lparr>op_class = c, weight = sat_add b f, base = b, fanout = f, observed_subscribers = subscribers\<rparr>)"

definition surcharge :: "operation_class \<Rightarrow> u32 \<Rightarrow> cost" where
  "surcharge c subscribers =
     (let f = compress_fanout subscribers in
      \<lparr>op_class = c, weight = f, base = 0, fanout = f, observed_subscribers = subscribers\<rparr>)"

definition show_u32 :: "u32 \<Rightarrow> string" where
  "show_u32 w = show_nat (unat w)"

definition explain :: "cost \<Rightarrow> string" where
  "explain c =
     (let plural = (if observed_subscribers c = 1 then '''' else ''s'') in
      if base c = 0 \<and> 0 < fanout c then
        class_as_str (op_class c) @ '' fan-out to '' @ show_u32 (observed_subscribers c)
          @ '' subscribed lane'' @ plural @ '' costs '' @ show_u32 (weight c)
      else if fanout c = 0 then
        class_as_str (op_class c) @ '' costs '' @ show_u32 (weight c) @ '' ('' @ show_u32 (base c) @ '' base)''
      else
        class_as_str (op_class c) @ '' costs '' @ show_u32 (weight c) @ '' ('' @ show_u32 (base c)
          @ '' base + '' @ show_u32 (fanout c) @ '' for fan-out to ''
          @ show_u32 (observed_subscribers c) @ '' subscribed lane'' @ plural @ '')'')"

text \<open>
  The effect profile, and the topic lists of a route manifest that the classification looks at
  (\<open>'p\<close> and \<open>'s\<close> stand for the partition and source entries, of which only emptiness matters).
\<close>

record effect_profile =
  hooks :: bool
  asynchronous :: bool
  io :: bool
  side_effects :: bool

record ('p, 's) route_topics =
  shared_slot_topics :: "string list"
  shared_slot_partitions :: "'p list"
  shared_slot_sources :: "'s list"

definition classify_route :: "('p, 's) route_topics \<Rightarrow> operation_class" where
  "classify_route route =
     (if shared_slot_topics route = [] \<and> shared_slot_partitions route = [] \<and> shared_slot_sources route = []
      then StaticRead else Read)"

definition classify :: "effect_profile \<Rightarrow> bool \<Rightarrow> bool \<Rightarrow> operation_class" where
  "classify effects writes_forge calls_aperture =
     (if calls_aperture then Outbound
      else if writes_forge then Write
      else if io effects \<or> side_effects effects \<or> asynchronous effects then Read
      else StaticRead)"

section \<open>Properties of costs\<close>

lemma ilog2_bounds: "0 < n \<Longrightarrow> 2 ^ ilog2 n \<le> n \<and> n < 2 ^ Suc (ilog2 n)"
proof (induction n rule: ilog2.induct)
  case (1 n)
  show ?case
  proof (cases "n \<le> 1")
    case True
    then have "n = 1" using 1 by simp
    then show ?thesis by (simp add: ilog2.simps)
  next
    case False
    then have "2 ^ ilog2 (n div 2) \<le> n div 2 \<and> n div 2 < 2 ^ Suc (ilog2 (n div 2))"
      using 1 by simp
    moreover have "ilog2 n = Suc (ilog2 (n div 2))"
      using False by (subst ilog2.simps) simp
    ultimately show ?thesis by simp linarith
  qed
qed

lemma ilog2_lt: "n < 2 ^ k \<Longrightarrow> 0 < k \<Longrightarrow> ilog2 n < k"
proof (cases "n = 0")
  case False
  assume "n < 2 ^ k"
  then have "(2::nat) ^ ilog2 n < 2 ^ k" using ilog2_bounds [of n] False by linarith
  then show ?thesis by (simp add: power_strict_increasing_iff)
qed (simp add: ilog2.simps)

lemma unat_compress_fanout: "unat (compress_fanout n) = (if unat n \<le> 1 then 0 else ilog2 (unat n))"
proof -
  have "ilog2 (unat n) < 32" using unat_lt_32 [of n] by (intro ilog2_lt) simp_all
  then have "unat (of_nat (ilog2 (unat n)) :: u32) = ilog2 (unat n)"
    by (simp add: unat_of_nat)
  then show ?thesis by (simp add: compress_fanout_def word_le_nat_alt)
qed

lemma ilog2_mono: "m \<le> n \<Longrightarrow> ilog2 m \<le> ilog2 n"
proof (cases "m = 0")
  case False
  assume "m \<le> n"
  then have "(2::nat) ^ ilog2 m < 2 ^ Suc (ilog2 n)"
    using ilog2_bounds [of m] ilog2_bounds [of n] False by linarith
  then have "ilog2 m < Suc (ilog2 n)" using power_less_imp_less_exp one_less_numeral_iff semiring_norm(76) by blast
  then show ?thesis by simp
qed (simp add: ilog2.simps)

lemma compress_fanout_le: "unat (compress_fanout n) \<le> 31"
  using ilog2_lt [of "unat n" 32] unat_lt_32 [of n] by (simp add: unat_compress_fanout)

lemma compress_fanout_mono: "m \<le> n \<Longrightarrow> compress_fanout m \<le> compress_fanout n"
  by (auto simp: word_le_nat_alt unat_compress_fanout intro: ilog2_mono)

lemma compress_fanout_max: "unat (compress_fanout (- 1)) = 31"
proof -
  have "2 ^ ilog2 4294967295 \<le> (4294967295::nat) \<and> 4294967295 < (2::nat) ^ Suc (ilog2 4294967295)"
    by (rule ilog2_bounds) simp
  moreover have "(2::nat) ^ 31 \<le> 4294967295" by simp
  ultimately have "(2::nat) ^ 31 < 2 ^ Suc (ilog2 4294967295)" by linarith
  then have "31 < Suc (ilog2 4294967295)" by (rule power_less_imp_less_exp [rotated]) simp
  then have "31 \<le> ilog2 4294967295" by simp
  moreover have "unat (- 1 :: u32) = 4294967295" by (simp add: unat_max_word)
  ultimately show ?thesis
    using compress_fanout_le [of "- 1"] by (simp add: unat_compress_fanout)
qed

lemma base_weight_le: "unat (base_weight c) \<le> 8"
  by (cases c) simp_all

lemma base_weight_pos: "1 \<le> unat (base_weight c)"
  by (cases c) simp_all

lemma unat_fan_out: "unat (weight (fan_out c n)) = unat (base_weight c) + unat (compress_fanout n)"
  using base_weight_le [of c] compress_fanout_le [of n]
  by (simp add: fan_out_def Let_def unat_sat_add_32)

text \<open>Splitting the payment of a write changes nothing: what admission charges plus what is
  debited afterwards is exactly the full price, which grows with the audience and never exceeds
  the base weight plus 31, whatever the number of subscribers.\<close>

theorem cost_split_exact:
  "unat (weight (flat c)) + unat (weight (surcharge c n)) = unat (weight (fan_out c n))
   \<and> unat (weight (fan_out c n)) \<le> unat (base_weight c) + 31
   \<and> (m \<le> n \<longrightarrow> weight (fan_out c m) \<le> weight (fan_out c n))"
  using compress_fanout_le [of n] compress_fanout_mono [of m n]
  by (auto simp: unat_fan_out word_le_nat_alt) (simp_all add: flat_def surcharge_def Let_def)

lemma cost_split_exact_witness:
  "unat (weight (flat Write)) + unat (weight (surcharge Write 512)) = unat (weight (fan_out Write 512))
   \<and> weight (fan_out Write 512) = 13 \<and> weight (fan_out Write 500) \<le> weight (fan_out Write 512)"
proof -
  have "compress_fanout 512 = 9" by (simp add: compress_fanout_def word_le_nat_alt ilog2.simps)
  then have "weight (fan_out Write 512) = 13" by (simp add: fan_out_def sat_add_def)
  moreover have "(500 :: u32) \<le> 512" by (simp add: word_le_nat_alt)
  ultimately show ?thesis using cost_split_exact [of Write 512 500] by simp
qed

text \<open>An operation that does more never answers to a laxer limit.\<close>

definition effects_le :: "effect_profile \<Rightarrow> effect_profile \<Rightarrow> bool" where
  "effects_le a b \<longleftrightarrow> (hooks a \<longrightarrow> hooks b) \<and> (asynchronous a \<longrightarrow> asynchronous b) \<and>
     (io a \<longrightarrow> io b) \<and> (side_effects a \<longrightarrow> side_effects b)"

lemma classify_mono:
  "effects_le a b \<Longrightarrow> (w \<longrightarrow> w') \<Longrightarrow> (x \<longrightarrow> x') \<Longrightarrow> classify a w x \<le> classify b w' x'"
  by (auto simp: classify_def effects_le_def less_eq_operation_class_def)

end
