(* ===== verification/Shutter.thy ===== *)
theory Shutter
  imports Cost "HOL-Library.AList" "HOL-Library.Monad_Syntax" "HOL-Library.Multiset"
begin

unbundle bit_operations_syntax

text \<open>
  The limiter table of SHUTTER (\<open>src/shutter/mod.rs\<close>): keys, the limits of an app, and the
  table of cells with its bounded exact part and its fixed array of shared overflow cells.

  Three things are parameters (record \<open>env\<close>): the clock, as the sequence of its readings; the
  keyed hash (\<open>ahash\<close>, seeded from the OS); and the order in which iterating the concurrent map
  visits its entries (\<open>dashmap\<close>). What is relied on is stated in the locales \<open>steady_clock\<close>
  (\<open>Clock::now\<close> never goes backwards) and \<open>entry_scan\<close> (an iteration visits each entry once).
\<close>

section \<open>Keys and limits\<close>

datatype ip_addr = V4 "32 word" | V6 "128 word"

datatype key =
    Principal string operation_class
  | Address ip_addr operation_class
  | Account string
  | Upstream string

fun key_class :: "key \<Rightarrow> operation_class" where
  "key_class (Principal _ c) = c"
| "key_class (Address _ c) = c"
| "key_class (Account _) = Credential"
| "key_class (Upstream _) = Outbound"

definition overflow_cells :: nat where "overflow_cells = 8192"
definition eviction_sample :: nat where "eviction_sample = 32"
definition default_exact_capacity :: nat where "default_exact_capacity = 65536"

record env =
  clk :: "nat \<Rightarrow> nanos"
  hash_one :: "key \<Rightarrow> u64"
  scan :: "(key \<times> cell) list \<Rightarrow> (key \<times> cell) list"

definition slot :: "env \<Rightarrow> key \<Rightarrow> nat" where
  "slot e k = unat (hash_one e k AND (of_nat overflow_cells - 1))"

record limits =
  static_read :: quota
  read_quota :: quota
  write_quota :: quota
  outbound :: quota
  credential :: quota
  account :: quota
  upstream :: quota

fun for_class :: "limits \<Rightarrow> operation_class \<Rightarrow> quota" where
  "for_class l StaticRead = static_read l"
| "for_class l Read = read_quota l"
| "for_class l Write = write_quota l"
| "for_class l Outbound = outbound l"
| "for_class l Credential = credential l"

fun for_key :: "limits \<Rightarrow> key \<Rightarrow> quota" where
  "for_key l (Account _) = account l"
| "for_key l (Upstream _) = upstream l"
| "for_key l (Principal _ c) = for_class l c"
| "for_key l (Address _ c) = for_class l c"

definition secs :: "nat \<Rightarrow> duration" where
  "secs n = n * 1000000000"

text \<open>\<open>expect\<close> panics on an error; the model has no value then.\<close>

fun expect :: "'e + 'a \<Rightarrow> 'a option" where
  "expect (Inl e) = None"
| "expect (Inr x) = Some x"

definition default_limits :: "limits option" where
  "default_limits = do {
     r1 \<leftarrow> expect (with_burst 600 (secs 60) 200);
     r2 \<leftarrow> expect (with_burst 300 (secs 60) 100);
     r3 \<leftarrow> expect (with_burst 120 (secs 60) 60);
     r4 \<leftarrow> expect (with_burst 960 (secs 60) 80);
     r5 \<leftarrow> expect (with_burst 10 (secs 60) 5);
     r6 \<leftarrow> expect (with_burst 50 (secs 3600) 20);
     r7 \<leftarrow> expect (with_burst 600 (secs 60) 60);
     Some \<lparr>static_read = r1, read_quota = r2, write_quota = r3, outbound = r4, credential = r5,
           account = r6, upstream = r7\<rparr>
   }"

fun check_weights :: "(quota \<times> operation_class) list \<Rightarrow> quota_error + unit" where
  "check_weights [] = Inr ()"
| "check_weights ((q, c) # rest) =
     (case check_weight q (base_weight c) of Inl e \<Rightarrow> Inl e | Inr _ \<Rightarrow> check_weights rest)"

definition check_admits_heaviest :: "limits \<Rightarrow> quota_error + unit" where
  "check_admits_heaviest l =
     (let fan_out_ceiling = compress_fanout (- 1) in
      case check_weight (write_quota l) (sat_add (base_weight Write) fan_out_ceiling) of
        Inl e \<Rightarrow> Inl e
      | Inr _ \<Rightarrow> check_weights [(static_read l, StaticRead), (read_quota l, Read),
                               (outbound l, Outbound), (credential l, Credential)])"

section \<open>Verdicts\<close>

record verdict =
  v_decision :: decision
  v_cost :: cost
  v_limit :: u32
  v_degraded :: bool

definition verdict_admitted :: "verdict \<Rightarrow> bool" where
  "verdict_admitted v = is_admitted (v_decision v)"

text \<open>\<open>as_secs\<close> and \<open>subsec_nanos\<close> of a duration; \<open>as_secs\<close> is a \<open>u64\<close>.\<close>

definition retry_after_secs :: "verdict \<Rightarrow> nat option" where
  "retry_after_secs v =
     (case v_decision v of
        Admit _ _ \<Rightarrow> None
      | Refuse retry _ \<Rightarrow>
          Some (min u64_max (retry div 1000000000 + (if 0 < retry mod 1000000000 then 1 else 0))))"

section \<open>The table\<close>

record shutter =
  exact :: "(key \<times> cell) list"
  overflow :: "cell list"
  capacity :: nat
  limits_of :: limits
  upstream_overrides :: "string \<rightharpoonup> quota"
  instances :: u32
  upstream_share :: quota
  account_share :: quota
  degraded_decisions :: u64
  readings :: nat \<comment> \<open>how many times the clock has been read\<close>

definition shutter_partitioned :: "limits \<Rightarrow> nat \<Rightarrow> u32 \<Rightarrow> quota_error + shutter" where
  "shutter_partitioned l cap n =
     (case check_admits_heaviest l of
        Inl e \<Rightarrow> Inl e
      | Inr _ \<Rightarrow>
          let n' = max n 1 in
          case partitioned (upstream l) n' of
            Inl e \<Rightarrow> Inl e
          | Inr up \<Rightarrow>
              case partitioned (account l) n' of
                Inl e \<Rightarrow> Inl e
              | Inr ac \<Rightarrow> Inr \<lparr>exact = [], overflow = replicate overflow_cells cell_new,
                  capacity = max cap 1, limits_of = l, upstream_overrides = Map.empty,
                  instances = n', upstream_share = up, account_share = ac,
                  degraded_decisions = 0, readings = 0\<rparr>)"

definition shutter_with :: "limits \<Rightarrow> nat \<Rightarrow> quota_error + shutter" where
  "shutter_with l cap = shutter_partitioned l cap 1"

definition read_clock :: "env \<Rightarrow> shutter \<Rightarrow> nanos \<times> shutter" where
  "read_clock e s = (clk e (readings s), s\<lparr>readings := Suc (readings s)\<rparr>)"

definition quota_for :: "shutter \<Rightarrow> key \<Rightarrow> quota" where
  "quota_for s k =
     (case k of
        Upstream host \<Rightarrow> (case upstream_overrides s host of None \<Rightarrow> upstream_share s | Some q \<Rightarrow> q)
      | Account _ \<Rightarrow> account_share s
      | _ \<Rightarrow> for_key (limits_of s) k)"

text \<open>
  \<open>evict_sample\<close> in its two phases: the scan that picks at most \<open>sample\<close> replenished keys, and
  the removal, which tests each cell again because another caller may have charged it since.
\<close>

definition doomed_keys :: "env \<Rightarrow> nat \<Rightarrow> nanos \<Rightarrow> (key \<times> cell) list \<Rightarrow> key list" where
  "doomed_keys e sample now m =
     take sample (map fst (filter (\<lambda>(k, c). is_replenished now c) (scan e m)))"

definition remove_if_replenished :: "nanos \<Rightarrow> key \<Rightarrow> (key \<times> cell) list \<Rightarrow> (key \<times> cell) list" where
  "remove_if_replenished now k m =
     (case map_of m k of
        None \<Rightarrow> m
      | Some c \<Rightarrow> if is_replenished now c then AList.delete k m else m)"

definition evict_sample :: "env \<Rightarrow> nat \<Rightarrow> shutter \<Rightarrow> shutter" where
  "evict_sample e sample s =
     (let (now, s') = read_clock e s in
      s'\<lparr>exact := fold (remove_if_replenished now) (doomed_keys e sample now (exact s')) (exact s')\<rparr>)"

definition use_entry :: "key \<Rightarrow> (cell \<Rightarrow> 'r \<times> cell) \<Rightarrow> shutter \<Rightarrow> ('r \<times> bool) \<times> shutter" where
  \<comment> \<open>\<open>exact.entry(key).or_default()\<close>, then \<open>f\<close> on the cell\<close>
  "use_entry k f s =
     (let c = (case map_of (exact s) k of None \<Rightarrow> cell_new | Some c \<Rightarrow> c); (r, c') = f c in
      ((r, False), s\<lparr>exact := AList.update k c' (exact s)\<rparr>))"

definition use_overflow :: "env \<Rightarrow> key \<Rightarrow> (cell \<Rightarrow> 'r \<times> cell) \<Rightarrow> shutter \<Rightarrow> ('r \<times> bool) \<times> shutter" where
  "use_overflow e k f s =
     (let i = slot e k; (r, c') = f (overflow s ! i) in
      ((r, True), s\<lparr>overflow := (overflow s)[i := c']\<rparr>))"

definition with_cell :: "env \<Rightarrow> key \<Rightarrow> (cell \<Rightarrow> 'r \<times> cell) \<Rightarrow> shutter \<Rightarrow> ('r \<times> bool) \<times> shutter" where
  "with_cell e k f s =
     (if map_of (exact s) k \<noteq> None then use_entry k f s
      else if capacity s \<le> length (exact s) then
        let s' = evict_sample e eviction_sample s in
        if capacity s' \<le> length (exact s') then use_overflow e k f s' else use_entry k f s'
      else use_entry k f s)"

definition count_degraded :: "bool \<Rightarrow> shutter \<Rightarrow> shutter" where
  "count_degraded d s = (if d then s\<lparr>degraded_decisions := degraded_decisions s + 1\<rparr> else s)"

definition shutter_charge :: "env \<Rightarrow> key \<Rightarrow> cost \<Rightarrow> shutter \<Rightarrow> verdict \<times> shutter" where
  "shutter_charge e k c s =
     (let (now, s1) = read_clock e s;
          q = quota_for s1 k;
          ((d, degraded), s2) = with_cell e k (charge q now (weight c)) s1 in
      (\<lparr>v_decision = d, v_cost = c, v_limit = burst q, v_degraded = degraded\<rparr>, count_degraded degraded s2))"

definition shutter_debit :: "env \<Rightarrow> key \<Rightarrow> cost \<Rightarrow> shutter \<Rightarrow> shutter" where
  "shutter_debit e k c s =
     (if weight c = 0 then s
      else
        let (now, s1) = read_clock e s;
            q = quota_for s1 k;
            ((_, degraded), s2) = with_cell e k (debit q now (weight c)) s1 in
        count_degraded degraded s2)"

definition peek_op :: "quota \<Rightarrow> nanos \<Rightarrow> u32 \<Rightarrow> cell \<Rightarrow> bool \<times> cell" where
  "peek_op q now w c = (peek q now w c, c)"

text \<open>The refusal built when a bucket that was only peeked at is exhausted.\<close>

fun refusal_of :: "decision \<Rightarrow> decision" where
  "refusal_of (Refuse r d) = Refuse r d"
| "refusal_of (Admit _ d) = Refuse d d"

definition credential_attempt :: "env \<Rightarrow> key \<Rightarrow> string \<Rightarrow> shutter \<Rightarrow> verdict \<times> shutter" where
  "credential_attempt e caller acct s =
     (let (now, s1) = read_clock e s;
          c = flat Credential;
          k = Account acct;
          q = quota_for s1 k;
          ((ok, degraded), s2) = with_cell e k (peek_op q now 1) s1 in
      if \<not> ok then
        let ((d, _), s3) = with_cell e k (charge q now 0) s2 in
        (\<lparr>v_decision = refusal_of d, v_cost = c, v_limit = burst q, v_degraded = degraded\<rparr>, s3)
      else shutter_charge e caller c s2)"

definition note_credential_failure :: "env \<Rightarrow> string \<Rightarrow> shutter \<Rightarrow> shutter" where
  "note_credential_failure e acct s =
     (let (now, s1) = read_clock e s; k = Account acct in
      snd (with_cell e k (charge (quota_for s1 k) now 1) s1))"

definition set_upstream_quota :: "string \<Rightarrow> quota \<Rightarrow> shutter \<Rightarrow> quota_error + shutter" where
  "set_upstream_quota host q s =
     (case partitioned q (instances s) of
        Inl err \<Rightarrow> Inl err
      | Inr share \<Rightarrow>
          Inr (s\<lparr>upstream_overrides := (upstream_overrides s)(to_ascii_lowercase host \<mapsto> share)\<rparr>))"

definition upstream_charge :: "env \<Rightarrow> string \<Rightarrow> shutter \<Rightarrow> verdict \<times> shutter" where
  "upstream_charge e host s =
     (let (now, s1) = read_clock e s;
          k = Upstream (to_ascii_lowercase host);
          q = quota_for s1 k;
          ((d, degraded), s2) = with_cell e k (charge q now 1) s1 in
      (\<lparr>v_decision = d, v_cost = flat Outbound, v_limit = burst q, v_degraded = degraded\<rparr>,
       count_degraded degraded s2))"

definition outbound_call :: "env \<Rightarrow> key \<Rightarrow> string \<Rightarrow> shutter \<Rightarrow> verdict \<times> shutter" where
  "outbound_call e caller host s =
     (let (now, s1) = read_clock e s;
          c = flat Outbound;
          cq = quota_for s1 caller;
          k = Upstream (to_ascii_lowercase host);
          q = quota_for s1 k;
          ((ok, degraded), s2) = with_cell e k (peek_op q now 1) s1 in
      if \<not> ok then
        let ((d, _), s3) = with_cell e k (charge q now 0) s2 in
        (\<lparr>v_decision = refusal_of d, v_cost = c, v_limit = burst q, v_degraded = degraded\<rparr>, s3)
      else
        let ((caller_ok, _), s3) = with_cell e caller (peek_op cq now (weight c)) s2 in
        if \<not> caller_ok then shutter_charge e caller c s3
        else shutter_charge e caller c s3)"

definition tracked_keys :: "shutter \<Rightarrow> nat" where
  "tracked_keys s = length (exact s)"

definition sweep :: "env \<Rightarrow> shutter \<Rightarrow> nat \<times> shutter" where
  "sweep e s =
     (let (now, s1) = read_clock e s;
          before = length (exact s1);
          m = filter (\<lambda>(k, c). \<not> is_replenished now c) (exact s1) in
      (before - length m, s1\<lparr>exact := m\<rparr>))"

section \<open>All operations as steps\<close>

datatype op =
    Charge_op key cost
  | Debit_op key cost
  | Credential_op key string
  | Failure_op string
  | Quota_op string quota
  | Upstream_op string
  | Outbound_op key string
  | Sweep_op

fun apply_op :: "env \<Rightarrow> op \<Rightarrow> shutter \<Rightarrow> verdict option \<times> shutter" where
  "apply_op e (Charge_op k c) s = (let (v, s') = shutter_charge e k c s in (Some v, s'))"
| "apply_op e (Debit_op k c) s = (None, shutter_debit e k c s)"
| "apply_op e (Credential_op k a) s = (let (v, s') = credential_attempt e k a s in (Some v, s'))"
| "apply_op e (Failure_op a) s = (None, note_credential_failure e a s)"
| "apply_op e (Quota_op h q) s = (None, (case set_upstream_quota h q s of Inl _ \<Rightarrow> s | Inr s' \<Rightarrow> s'))"
| "apply_op e (Upstream_op h) s = (let (v, s') = upstream_charge e h s in (Some v, s'))"
| "apply_op e (Outbound_op k h) s = (let (v, s') = outbound_call e k h s in (Some v, s'))"
| "apply_op e Sweep_op s = (None, snd (sweep e s))"

fun run_ops :: "env \<Rightarrow> op list \<Rightarrow> shutter \<Rightarrow> verdict option list \<times> shutter" where
  "run_ops e [] s = ([], s)"
| "run_ops e (x # xs) s = (let (v, s') = apply_op e x s; (vs, s'') = run_ops e xs s' in (v # vs, s''))"

section \<open>The table invariant\<close>

definition shutter_inv :: "shutter \<Rightarrow> bool" where
  "shutter_inv s \<longleftrightarrow> distinct (map fst (exact s)) \<and> length (exact s) \<le> capacity s \<and>
     1 \<le> capacity s \<and> length (overflow s) = overflow_cells"

lemma slot_lt: "slot e k < overflow_cells"
proof -
  have "hash_one e k AND 8191 \<le> 8191" by (rule word_and_le1)
  then have "unat (hash_one e k AND 8191) \<le> 8191" by (simp add: word_le_nat_alt)
  then show ?thesis by (simp add: slot_def overflow_cells_def)
qed

lemma distinct_update: "distinct (map fst m) \<Longrightarrow> distinct (map fst (AList.update k c m))"
  by (rule distinct_update)

lemma distinct_delete: "distinct (map fst m) \<Longrightarrow> distinct (map fst (AList.delete k m))"
  by (rule distinct_delete)

lemma length_update: "length (AList.update k c m) = (if map_of m k = None then Suc (length m) else length m)"
  by (induction m) auto

lemma length_delete_le: "length (AList.delete k m) \<le> length m"
  by (simp add: AList.delete_eq)

lemma remove_if_facts:
  "distinct (map fst m) \<Longrightarrow> distinct (map fst (remove_if_replenished now k m))"
  "length (remove_if_replenished now k m) \<le> length m"
  by (auto simp: remove_if_replenished_def distinct_delete length_delete_le split: option.split)

lemma fold_remove_facts:
  "distinct (map fst m) \<Longrightarrow> distinct (map fst (fold (remove_if_replenished now) ks m))"
  "length (fold (remove_if_replenished now) ks m) \<le> length m"
proof (induction ks arbitrary: m)
  case (Cons k ks)
  { case 1 then show ?case using Cons.IH(1) remove_if_facts(1) by simp }
  { case 2 show ?case using Cons.IH(2) [of "remove_if_replenished now k m"] remove_if_facts(2) [of now k m] by simp }
qed simp_all

lemma evict_sample_fields [simp]:
  "overflow (evict_sample e n s) = overflow s" "capacity (evict_sample e n s) = capacity s"
  "readings (evict_sample e n s) = Suc (readings s)"
  "quota_for (evict_sample e n s) = quota_for s"
  "instances (evict_sample e n s) = instances s"
  by (auto simp: evict_sample_def read_clock_def Let_def quota_for_def fun_eq_iff split: key.split option.split)

lemma evict_inv: "shutter_inv s \<Longrightarrow> shutter_inv (evict_sample e n s)"
  using fold_remove_facts(2) [of _ _ "exact s"]
  by (auto simp: shutter_inv_def evict_sample_def read_clock_def Let_def fold_remove_facts(1) intro: order_trans)

lemma use_entry_inv:
  "shutter_inv s \<Longrightarrow> map_of (exact s) k \<noteq> None \<or> length (exact s) < capacity s \<Longrightarrow>
     shutter_inv (snd (use_entry k f s))"
  by (auto simp: shutter_inv_def use_entry_def Let_def distinct_update length_update split: prod.splits)

lemma use_overflow_inv: "shutter_inv s \<Longrightarrow> shutter_inv (snd (use_overflow e k f s))"
  by (auto simp: shutter_inv_def use_overflow_def Let_def split: prod.splits)

lemma with_cell_inv: "shutter_inv s \<Longrightarrow> shutter_inv (snd (with_cell e k f s))"
  using evict_inv [of s e eviction_sample]
  by (auto simp: with_cell_def Let_def intro!: use_entry_inv use_overflow_inv)

lemma read_clock_inv: "shutter_inv (snd (read_clock e s)) = shutter_inv s"
  by (simp add: read_clock_def shutter_inv_def)

lemma count_degraded_inv: "shutter_inv (count_degraded d s) = shutter_inv s"
  by (simp add: count_degraded_def shutter_inv_def)

lemma shutter_charge_inv: "shutter_inv s \<Longrightarrow> shutter_inv (snd (shutter_charge e k c s))"
  by (simp add: shutter_charge_def split_beta Let_def count_degraded_inv read_clock_inv with_cell_inv)

lemma shutter_debit_inv: "shutter_inv s \<Longrightarrow> shutter_inv (shutter_debit e k c s)"
  by (simp add: shutter_debit_def split_beta Let_def count_degraded_inv read_clock_inv with_cell_inv)

lemma credential_attempt_inv: "shutter_inv s \<Longrightarrow> shutter_inv (snd (credential_attempt e k a s))"
  by (auto simp: credential_attempt_def split_beta Let_def read_clock_inv
      intro!: with_cell_inv shutter_charge_inv)

lemma outbound_call_inv: "shutter_inv s \<Longrightarrow> shutter_inv (snd (outbound_call e k h s))"
  by (auto simp: outbound_call_def split_beta Let_def read_clock_inv
      intro!: with_cell_inv shutter_charge_inv)

lemma sweep_inv: "shutter_inv s \<Longrightarrow> shutter_inv (snd (sweep e s))"
  by (auto simp: sweep_def shutter_inv_def read_clock_def Let_def
      intro: distinct_map_filter order_trans [OF length_filter_le])

lemma apply_op_inv: "shutter_inv s \<Longrightarrow> shutter_inv (snd (apply_op e x s))"
proof (cases x)
  case (Failure_op a)
  then show "shutter_inv s \<Longrightarrow> ?thesis"
    by (simp add: note_credential_failure_def split_beta Let_def with_cell_inv read_clock_inv)
next
  case (Quota_op h q)
  then show "shutter_inv s \<Longrightarrow> ?thesis"
    by (auto simp: set_upstream_quota_def shutter_inv_def split: sum.splits)
next
  case (Upstream_op h)
  then show "shutter_inv s \<Longrightarrow> ?thesis"
    by (simp add: upstream_charge_def split_beta Let_def with_cell_inv read_clock_inv count_degraded_inv)
qed (simp_all add: split_beta shutter_charge_inv shutter_debit_inv credential_attempt_inv
    outbound_call_inv sweep_inv)

lemma with_cell_capacity [simp]: "capacity (snd (with_cell e k f s)) = capacity s"
  by (simp add: with_cell_def use_entry_def use_overflow_def Let_def split_beta)

lemma count_degraded_capacity [simp]: "capacity (count_degraded d s) = capacity s"
  by (simp add: count_degraded_def)

lemma read_clock_capacity [simp]: "capacity (snd (read_clock e s)) = capacity s"
  by (simp add: read_clock_def)

lemma shutter_charge_capacity [simp]: "capacity (snd (shutter_charge e k c s)) = capacity s"
  by (simp add: shutter_charge_def Let_def split_beta)

lemma apply_op_capacity: "capacity (snd (apply_op e x s)) = capacity s"
proof (cases x)
  case (Quota_op h q)
  then show ?thesis by (auto simp: set_upstream_quota_def split: sum.splits)
next
  case (Credential_op k a)
  then show ?thesis by (simp add: credential_attempt_def split_beta Let_def)
next
  case (Outbound_op k h)
  then show ?thesis by (simp add: outbound_call_def split_beta Let_def)
next
  case Sweep_op
  then show ?thesis by (simp add: sweep_def Let_def split_beta)
qed (simp_all add: split_beta shutter_debit_def note_credential_failure_def upstream_charge_def Let_def)

lemma run_ops_inv:
  "shutter_inv s \<Longrightarrow> shutter_inv (snd (run_ops e xs s)) \<and> capacity (snd (run_ops e xs s)) = capacity s"
  by (induction xs arbitrary: s) (auto simp: split_beta apply_op_inv apply_op_capacity)

lemma shutter_partitioned_inv: "shutter_partitioned l cap n = Inr s \<Longrightarrow> shutter_inv s"
  by (auto simp: shutter_partitioned_def shutter_inv_def Let_def split: sum.splits)

text \<open>Memory is bounded whatever callers do: a limiter started with any capacity holds,
  after any sequence of operations with any keys, at most that many exact cells (one per key)
  and exactly 8192 overflow cells.\<close>

theorem memory_bounded:
  assumes "shutter_partitioned l cap n = Inr s"
  shows "tracked_keys (snd (run_ops e xs s)) \<le> max cap 1
    \<and> distinct (map fst (exact (snd (run_ops e xs s))))
    \<and> length (overflow (snd (run_ops e xs s))) = 8192"
proof -
  have "capacity s = max cap 1"
    using assms by (auto simp: shutter_partitioned_def Let_def split: sum.splits)
  then show ?thesis
    using run_ops_inv [OF shutter_partitioned_inv [OF assms], of e xs]
    by (simp add: shutter_inv_def tracked_keys_def overflow_cells_def)
qed

lemma default_limits_value:
  "default_limits = Some
     \<lparr>static_read = \<lparr>emission_interval = 100000000, tolerance = 20000000000, burst = 200\<rparr>,
      read_quota = \<lparr>emission_interval = 200000000, tolerance = 20000000000, burst = 100\<rparr>,
      write_quota = \<lparr>emission_interval = 500000000, tolerance = 30000000000, burst = 60\<rparr>,
      outbound = \<lparr>emission_interval = 62500000, tolerance = 5000000000, burst = 80\<rparr>,
      credential = \<lparr>emission_interval = 6000000000, tolerance = 30000000000, burst = 5\<rparr>,
      account = \<lparr>emission_interval = 72000000000, tolerance = 1440000000000, burst = 20\<rparr>,
      upstream = \<lparr>emission_interval = 100000000, tolerance = 6000000000, burst = 60\<rparr>\<rparr>"
  by (simp add: default_limits_def with_burst_def secs_def u64_of_u32_def sat_mul_def)

lemma compress_fanout_all_ones: "compress_fanout (- 1) = 31"
  using compress_fanout_max by (simp add: word_eq_unat)

lemma check_weight_ok: "check_weight q w = Inr () \<longleftrightarrow> w \<le> burst q"
  by (auto simp: check_weight_def)

lemma check_weight_cases: "(case check_weight q w of Inl e \<Rightarrow> Inl e | Inr _ \<Rightarrow> r) = Inr () \<longleftrightarrow> w \<le> burst q \<and> r = Inr ()"
  by (auto simp: check_weight_def)

lemma heaviest_write: "weight (fan_out Write n) \<le> sat_add (base_weight Write) 31"
  using compress_fanout_le [of n]
  by (simp add: word_le_nat_alt unat_fan_out unat_sat_add_32)

lemma default_limits_boot: "map_option (\<lambda>l. check_admits_heaviest l) default_limits = Some (Inr ())"
  unfolding default_limits_value
  by (simp add: check_admits_heaviest_def compress_fanout_all_ones check_weight_def sat_add_def
      word_less_nat_alt)

text \<open>The boot check is exact. It accepts a configuration if and only if every cost the
  program can derive, a write to any number of subscribers or a flat operation of any class,
  fits the burst of the quota it answers to; the built-in limits pass it.\<close>

theorem boot_check_exact:
  "(check_admits_heaviest l = Inr () \<longleftrightarrow>
      (\<forall>n. weight (fan_out Write n) \<le> burst (write_quota l)) \<and>
      (\<forall>c. weight (flat c) \<le> burst (for_class l c)))
   \<and> map_option (\<lambda>l. check_admits_heaviest l) default_limits = Some (Inr ())"
proof (rule conjI [OF _ default_limits_boot])
  have w: "weight (fan_out Write (- 1)) = sat_add (base_weight Write) 31"
    by (simp add: fan_out_def Let_def compress_fanout_all_ones)
  have f: "weight (flat c) = base_weight c" for c by (simp add: flat_def)
  have m: "base_weight Write \<le> sat_add (base_weight Write) 31"
    by (simp add: word_le_nat_alt unat_sat_add_32)
  have all: "(\<forall>c. P c) \<longleftrightarrow> P StaticRead \<and> P Read \<and> P Write \<and> P Outbound \<and> P Credential" for P
    by (metis operation_class.exhaust)
  show "check_admits_heaviest l = Inr () \<longleftrightarrow>
      (\<forall>n. weight (fan_out Write n) \<le> burst (write_quota l)) \<and>
      (\<forall>c. weight (flat c) \<le> burst (for_class l c))"
    using w m order_trans [OF heaviest_write]
    by (auto simp: check_admits_heaviest_def Let_def compress_fanout_all_ones check_weight_cases
        all f simp del: base_weight.simps) (metis order_trans)
qed

section \<open>The table against an unbounded limiter\<close>

text \<open>The contracts of the parameters, and of an operation on a cell.\<close>

locale steady_clock =
  fixes readings_of :: "nat \<Rightarrow> nanos"
  assumes steady: "i \<le> j \<Longrightarrow> readings_of i \<le> readings_of j"
begin

lemma steady_equiv: "cell_equiv (readings_of i) c d \<Longrightarrow> i \<le> j \<Longrightarrow> cell_equiv (readings_of j) c d"
  using cell_equiv_later steady by blast

end

locale entry_scan =
  fixes scan_of :: "(key \<times> cell) list \<Rightarrow> (key \<times> cell) list"
  assumes scan_mset: "mset (scan_of m) = mset m"
begin

lemma scan_set: "set (scan_of m) = set m"
  using scan_mset mset_eq_setD by blast

end

locale cell_op =
  fixes at :: nanos and f :: "cell \<Rightarrow> 'r \<times> cell"
  assumes same_answer: "cell_equiv at c d \<Longrightarrow> fst (f c) = fst (f d)"
    and same_state: "cell_equiv at c d \<Longrightarrow> cell_equiv at (snd (f c)) (snd (f d))"

interpretation charge_op: cell_op now "charge q now w" for now q w
  by unfold_locales (simp_all add: charge_equiv)

interpretation debit_op: cell_op now "debit q now w" for now q w
  by unfold_locales (simp_all add: debit_equiv)

interpretation peek_cell_op: cell_op now "peek_op q now w" for now q w
  by unfold_locales (simp_all add: peek_op_def peek_equiv)

text \<open>The production clock: the nanoseconds elapsed since its origin, cut to \<open>u64\<close>.\<close>

definition monotonic_now :: "duration \<Rightarrow> nanos" where
  "monotonic_now elapsed = (if elapsed < 2 ^ 64 then of_nat elapsed else - 1)"

lemma unat_monotonic_now: "unat (monotonic_now d) = min d u64_max"
  by (auto simp: monotonic_now_def unat_of_nat unat_max_word take_bit_nat_eq_self)

interpretation monotonic: steady_clock "\<lambda>i. monotonic_now (elapsed * i)" for elapsed
proof unfold_locales
  fix i j :: nat
  assume "i \<le> j"
  then have "elapsed * i \<le> elapsed * j" by (rule mult_le_mono2)
  then show "monotonic_now (elapsed * i) \<le> monotonic_now (elapsed * j)"
    unfolding word_le_nat_alt unat_monotonic_now by linarith
qed

interpretation insertion_order: entry_scan "\<lambda>m. m"
  by unfold_locales simp

definition cell_of :: "shutter \<Rightarrow> key \<Rightarrow> cell" where
  "cell_of s k = (case map_of (exact s) k of None \<Rightarrow> cell_new | Some c \<Rightarrow> c)"

text \<open>The specification: one cell per key, never forgotten.\<close>

definition tracks :: "nanos \<Rightarrow> shutter \<Rightarrow> (key \<Rightarrow> cell) \<Rightarrow> bool" where
  "tracks t s I \<longleftrightarrow> (\<forall>k. cell_equiv t (cell_of s k) (I k))"

lemma tracks_later: "tracks t s I \<Longrightarrow> t \<le> t' \<Longrightarrow> tracks t' s I"
  by (auto simp: tracks_def intro: cell_equiv_later)

lemma tracks_weaken: "steady_clock (clk e) \<Longrightarrow> i \<le> j \<Longrightarrow> tracks (clk e i) s I \<Longrightarrow> tracks (clk e j) s I"
  using tracks_later steady_clock.steady by blast

lemma tracks_cong: "exact s' = exact s \<Longrightarrow> tracks t s' I = tracks t s I"
  by (simp add: tracks_def cell_of_def)

lemma cell_of_None: "map_of (exact s) k = None \<Longrightarrow> cell_of s k = cell_new"
  by (simp add: cell_of_def)

lemma cell_equiv_new: "is_replenished t c \<Longrightarrow> cell_equiv t c d \<Longrightarrow> cell_equiv t cell_new d"
  by (auto simp: cell_equiv_def is_replenished_def cell_new_def)

lemma remove_if_lookup:
  "map_of (remove_if_replenished now k m) k' =
     (if k' = k \<and> (\<exists>c. map_of m k = Some c \<and> is_replenished now c) then None else map_of m k')"
  by (auto simp: remove_if_replenished_def delete_conv split: option.split)

lemma remove_if_equiv:
  assumes "\<forall>k. cell_equiv now (case map_of m k of None \<Rightarrow> cell_new | Some c \<Rightarrow> c) (I k)"
  shows "\<forall>k. cell_equiv now (case map_of (remove_if_replenished now j m) k of None \<Rightarrow> cell_new | Some c \<Rightarrow> c) (I k)"
proof
  fix k
  show "cell_equiv now (case map_of (remove_if_replenished now j m) k of None \<Rightarrow> cell_new | Some c \<Rightarrow> c) (I k)"
    using spec [OF assms, of k] cell_equiv_new
    by (auto simp: remove_if_lookup split: option.splits)
qed

lemma fold_remove_equiv:
  assumes "\<forall>k. cell_equiv now (case map_of m k of None \<Rightarrow> cell_new | Some c \<Rightarrow> c) (I k)"
  shows "\<forall>k. cell_equiv now
    (case map_of (fold (remove_if_replenished now) ks m) k of None \<Rightarrow> cell_new | Some c \<Rightarrow> c) (I k)"
  using assms
proof (induction ks arbitrary: m)
  case Nil
  then show ?case by simp
next
  case (Cons j ks)
  show ?case using Cons.IH [OF remove_if_equiv [OF Cons.prems]] by simp
qed

lemma evict_tracks:
  assumes "tracks (clk e (readings s)) s I"
  shows "tracks (clk e (readings s)) (evict_sample e n s) I"
  using fold_remove_equiv assms
  by (auto simp: tracks_def cell_of_def evict_sample_def read_clock_def Let_def)

lemma fold_remove_None: "map_of m k = None \<Longrightarrow> map_of (fold (remove_if_replenished now) ks m) k = None"
  by (induction ks arbitrary: m) (simp_all add: remove_if_lookup)

lemma evict_None: "map_of (exact s) k = None \<Longrightarrow> map_of (exact (evict_sample e n s)) k = None"
  by (simp add: evict_sample_def read_clock_def Let_def fold_remove_None)

lemma fold_remove_indebted:
  assumes "\<not> is_replenished now c"
  shows "map_of m k = Some c \<Longrightarrow> map_of (fold (remove_if_replenished now) ks m) k = Some c"
proof (induction ks arbitrary: m)
  case (Cons j ks)
  have "map_of (remove_if_replenished now j m) k = Some c"
    using Cons.prems assms by (auto simp: remove_if_lookup)
  then show ?case using Cons.IH by simp
qed simp

lemma update_lookup: "map_of (AList.update k c m) k' = (if k' = k then Some c else map_of m k')"
  by (simp add: update_conv)

lemma use_entry_result:
  "fst (use_entry k f s) = (fst (f (cell_of s k)), False)"
  "cell_of (snd (use_entry k f s)) k' = (if k' = k then snd (f (cell_of s k)) else cell_of s k')"
  "readings (snd (use_entry k f s)) = readings s"
  "overflow (snd (use_entry k f s)) = overflow s"
  by (auto simp: use_entry_def Let_def split_beta cell_of_def update_lookup)

lemma use_overflow_result:
  "snd (fst (use_overflow e k f s)) = True"
  "cell_of (snd (use_overflow e k f s)) = cell_of s"
  "readings (snd (use_overflow e k f s)) = readings s"
  by (auto simp: use_overflow_def Let_def split_beta cell_of_def fun_eq_iff)

lemma readings_mono: "readings s \<le> readings (snd (with_cell e k f s))"
  by (simp add: with_cell_def Let_def use_entry_result use_overflow_result)

text \<open>
  One use of the table by an operation that read the clock at \<open>now\<close>: an exact cell answers as
  the key's own never-forgotten cell does, a shared one leaves every exact cell alone.
\<close>

context cell_op
begin

lemma use_entry_tracks:
  assumes "tracks t s I" and "cell_equiv at (cell_of s k) (I k)" and "at \<le> t"
  shows "fst (fst (use_entry k f s)) = fst (f (I k))"
    and "tracks t (snd (use_entry k f s)) (I(k := snd (f (I k))))"
  using assms(1) same_answer [OF assms(2)] cell_equiv_later [OF same_state [OF assms(2)] assms(3)]
  by (auto simp: use_entry_result tracks_def)

lemma with_cell_tracks:
  assumes clock: "steady_clock (clk e)" and tr: "tracks at s I" and at: "at \<le> clk e (readings s)"
    and res: "with_cell e k f s = ((r, degraded), s')"
  shows "if degraded then tracks (clk e (readings s')) s' I
         else r = fst (f (I k)) \<and> tracks (clk e (readings s')) s' (I(k := snd (f (I k))))"
proof -
  let ?t = "clk e (readings s)"
  have eq: "cell_equiv at (cell_of s k) (I k)" using tr by (simp add: tracks_def)
  have tr': "tracks ?t s I" using tr at by (rule tracks_later)
  have mono: "readings s \<le> readings s'" using readings_mono [of s e k f] res by simp
  then have later: "tracks ?t s'' J \<Longrightarrow> tracks (clk e (readings s')) s'' J" for s'' J
    using tracks_weaken [OF clock mono] by blast
  have entry: "\<not> degraded \<and> r = fst (f (I k)) \<and> tracks (clk e (readings s')) s' (I(k := snd (f (I k))))"
    if u: "use_entry k f s'' = ((r, degraded), s')" and "tracks ?t s'' I" and "cell_equiv at (cell_of s'' k) (I k)"
    for s''
    using use_entry_tracks [OF that(2,3) at] use_entry_result(1) [of k f s''] later by (simp add: u)
  show ?thesis
  proof (cases "map_of (exact s) k \<noteq> None \<or> length (exact s) < capacity s")
    case True
    then have "use_entry k f s = ((r, degraded), s')" using res by (simp add: with_cell_def split: if_splits)
    then show ?thesis using entry [OF _ tr' eq] by simp
  next
    case False
    let ?s = "evict_sample e eviction_sample s"
    have tre: "tracks ?t ?s I" using evict_tracks tr' by simp
    have "cell_of ?s k = cell_of s k" using False by (simp add: cell_of_None evict_None)
    then have eqe: "cell_equiv at (cell_of ?s k) (I k)" using eq by simp
    have w: "with_cell e k f s = (if capacity ?s \<le> length (exact ?s) then use_overflow e k f ?s else use_entry k f ?s)"
      using False by (simp add: with_cell_def Let_def)
    show ?thesis
    proof (cases "capacity ?s \<le> length (exact ?s)")
      case True
      then have u: "use_overflow e k f ?s = ((r, degraded), s')" using w res by simp
      have d: "degraded" using use_overflow_result(1) [of e k f ?s] by (simp only: u fst_conv snd_conv)
      have c: "cell_of s' = cell_of ?s" using use_overflow_result(2) [of e k f ?s] by (simp only: u snd_conv)
      have "tracks ?t s' I" using tre by (simp add: tracks_def c)
      then show ?thesis using d later by simp
    next
      case False
      then have "use_entry k f ?s = ((r, degraded), s')" using w res by simp
      then show ?thesis using entry [OF _ tre eqe] by simp
    qed
  qed
qed

end

fun ideal_op :: "env \<Rightarrow> op \<Rightarrow> shutter \<Rightarrow> (key \<Rightarrow> cell) \<Rightarrow> decision option \<times> (key \<Rightarrow> cell)" where
  "ideal_op e (Charge_op k c) s I =
     (let (d, c') = charge (quota_for s k) (clk e (readings s)) (weight c) (I k) in (Some d, I(k := c')))"
| "ideal_op e (Debit_op k c) s I =
     (if weight c = 0 then (None, I)
      else let (n, c') = debit (quota_for s k) (clk e (readings s)) (weight c) (I k) in (None, I(k := c')))"
| "ideal_op e (Upstream_op h) s I =
     (let k = Upstream (to_ascii_lowercase h);
          (d, c') = charge (quota_for s k) (clk e (readings s)) 1 (I k) in (Some d, I(k := c')))"
| "ideal_op e _ s I = (None, I)"

text \<open>The operations that use one cell, and whether a step was served by a shared one.\<close>

fun single_cell :: "op \<Rightarrow> bool" where
  "single_cell (Charge_op k c) = True"
| "single_cell (Debit_op k c) = True"
| "single_cell (Upstream_op h) = True"
| "single_cell Sweep_op = True"
| "single_cell _ = False"

definition served_shared :: "shutter \<Rightarrow> shutter \<Rightarrow> bool" where
  "served_shared s s' \<longleftrightarrow> degraded_decisions s' \<noteq> degraded_decisions s"

text \<open>
  A run of the table beside the unbounded limiter, which skips the steps the table served from
  a shared cell; the verdicts of the other steps are compared.
\<close>

fun agree :: "env \<Rightarrow> op list \<Rightarrow> shutter \<Rightarrow> (key \<Rightarrow> cell) \<Rightarrow> bool" where
  "agree e [] s I \<longleftrightarrow> True"
| "agree e (x # xs) s I \<longleftrightarrow>
     (let (v, s') = apply_op e x s; (d, I') = ideal_op e x s I in
      if served_shared s s' then agree e xs s' I
      else map_option v_decision v = d \<and> agree e xs s' I')"

lemma read_clock_fields [simp]:
  "fst (read_clock e s) = clk e (readings s)"
  "exact (snd (read_clock e s)) = exact s"
  "readings (snd (read_clock e s)) = Suc (readings s)"
  "degraded_decisions (snd (read_clock e s)) = degraded_decisions s"
  "quota_for (snd (read_clock e s)) = quota_for s"
  by (auto simp: read_clock_def quota_for_def fun_eq_iff split: key.split option.split)

lemma count_degraded_fields [simp]:
  "exact (count_degraded d s) = exact s" "readings (count_degraded d s) = readings s"
  by (simp_all add: count_degraded_def)

lemma with_cell_degraded_count [simp]:
  "degraded_decisions (snd (with_cell e k f s)) = degraded_decisions s"
  by (simp add: with_cell_def use_entry_def use_overflow_def evict_sample_def read_clock_def Let_def split_beta)

lemma served_shared_count: "degraded_decisions s2 = degraded_decisions s \<Longrightarrow>
    served_shared s (count_degraded d s2) = d"
  by (simp add: served_shared_def count_degraded_def)

text \<open>The common step of all one-cell operations.\<close>

lemma one_cell_step:
  assumes op: "cell_op (clk e (readings s)) f" and clock: "steady_clock (clk e)"
    and tr: "tracks (clk e (readings s)) s I"
    and w: "with_cell e k f (snd (read_clock e s)) = ((r, degraded), s2)"
    and s': "s' = count_degraded degraded s2"
  shows "served_shared s s' = degraded"
    and "if degraded then tracks (clk e (readings s')) s' I
         else r = fst (f (I k)) \<and> tracks (clk e (readings s')) s' (I(k := snd (f (I k))))"
proof -
  have "degraded_decisions s2 = degraded_decisions s"
    using with_cell_degraded_count [of e k f "snd (read_clock e s)"] by (simp add: w)
  then show "served_shared s s' = degraded" by (simp add: s' served_shared_count)
  have T: "tracks (clk e (readings s)) (snd (read_clock e s)) I"
    using tr by (simp add: tracks_cong [of "snd (read_clock e s)" s])
  have A: "clk e (readings s) \<le> clk e (readings (snd (read_clock e s)))"
    using steady_clock.steady [OF clock] by simp
  have C: "tracks t s' J = tracks t s2 J" for t J by (rule tracks_cong) (simp add: s')
  have R: "readings s' = readings s2" by (simp add: s')
  show "if degraded then tracks (clk e (readings s')) s' I
         else r = fst (f (I k)) \<and> tracks (clk e (readings s')) s' (I(k := snd (f (I k))))"
    unfolding C R by (rule cell_op.with_cell_tracks [OF op clock T A w])
qed

lemma filter_lookup:
  "distinct (map fst m) \<Longrightarrow> map_of (filter (\<lambda>(k, c). P c) m) k =
      (case map_of m k of None \<Rightarrow> None | Some c \<Rightarrow> if P c then Some c else None)"
proof (induction m)
  case (Cons a m)
  then show ?case by (cases a) (force split: option.splits simp: map_of_eq_None_iff)
qed simp

lemma cell_of_sweep:
  "shutter_inv s \<Longrightarrow> cell_of (snd (sweep e s)) k =
     (if is_replenished (clk e (readings s)) (cell_of s k) then cell_new else cell_of s k)"
  by (auto simp: sweep_def Let_def read_clock_def cell_of_def shutter_inv_def filter_lookup split: option.split)

lemma sweep_tracks:
  assumes "steady_clock (clk e)" and "tracks (clk e (readings s)) s I" and "shutter_inv s"
  shows "tracks (clk e (readings (snd (sweep e s)))) (snd (sweep e s)) I"
proof -
  have "tracks (clk e (readings s)) (snd (sweep e s)) I"
    using assms(2) cell_equiv_new by (auto simp: tracks_def cell_of_sweep [OF assms(3)])
  moreover have "readings s \<le> readings (snd (sweep e s))"
    by (simp add: sweep_def Let_def read_clock_def)
  ultimately show ?thesis using tracks_weaken assms(1) by blast
qed

lemma agree_step:
  assumes clock: "steady_clock (clk e)" and inv: "shutter_inv s" and x: "single_cell x"
    and tr: "tracks (clk e (readings s)) s I"
    and op: "apply_op e x s = (v, s')" and ideal: "ideal_op e x s I = (d, I')"
  shows "if served_shared s s' then tracks (clk e (readings s')) s' I
         else map_option v_decision v = d \<and> tracks (clk e (readings s')) s' I'"
proof (cases x)
  case (Charge_op k c)
  obtain r degraded s2 where w: "with_cell e k (charge (quota_for s k) (clk e (readings s)) (weight c))
      (snd (read_clock e s)) = ((r, degraded), s2)" by (metis prod.exhaust)
  have s': "s' = count_degraded degraded s2" and v: "map_option v_decision v = Some r"
    using op w by (auto simp: Charge_op shutter_charge_def Let_def split_beta)
  show ?thesis
    using one_cell_step [OF charge_op.cell_op_axioms clock tr w s'] ideal
    by (auto simp: Charge_op v split_beta)
next
  case (Debit_op k c)
  show ?thesis
  proof (cases "weight c = 0")
    case True
    then show ?thesis using op ideal tr by (auto simp: Debit_op shutter_debit_def served_shared_def)
  next
    case False
    obtain r degraded s2 where w: "with_cell e k (debit (quota_for s k) (clk e (readings s)) (weight c))
        (snd (read_clock e s)) = ((r, degraded), s2)" by (metis prod.exhaust)
    have s': "s' = count_degraded degraded s2" and v: "v = None"
      using op w False by (auto simp: Debit_op shutter_debit_def Let_def split_beta)
    show ?thesis
      using one_cell_step [OF debit_op.cell_op_axioms clock tr w s'] ideal False
      by (auto simp: Debit_op v split_beta)
  qed
next
  case (Upstream_op h)
  let ?k = "Upstream (to_ascii_lowercase h)"
  obtain r degraded s2 where w: "with_cell e ?k (charge (quota_for s ?k) (clk e (readings s)) 1)
      (snd (read_clock e s)) = ((r, degraded), s2)" by (metis prod.exhaust)
  have s': "s' = count_degraded degraded s2" and v: "map_option v_decision v = Some r"
    using op w by (auto simp: Upstream_op upstream_charge_def Let_def split_beta)
  show ?thesis
    using one_cell_step [OF charge_op.cell_op_axioms clock tr w s'] ideal
    by (auto simp: Upstream_op v split_beta Let_def)
next
  case Sweep_op
  then show ?thesis
    using op ideal sweep_tracks [OF clock tr inv]
    by (auto simp: served_shared_def sweep_def Let_def split_beta)
qed (use x in auto)


text \<open>A concrete limiter: the built-in limits, room for one key, a clock ticking every second.\<close>

definition demo_env :: env where
  "demo_env = \<lparr>clk = (\<lambda>i. monotonic_now (1000000000 * i)), hash_one = (\<lambda>_. 7), scan = (\<lambda>m. m)\<rparr>"

lemma demo_clock: "steady_clock (clk demo_env)"
  using monotonic.steady_clock_axioms [of 1000000000] by (simp add: demo_env_def)

lemma demo_start: "\<exists>s. shutter_partitioned (the default_limits) 1 1 = Inr s"
  using default_limits_boot
  by (simp add: default_limits_value shutter_partitioned_def partitioned_def Let_def)

lemma memory_bounded_witness:
  "\<exists>s. shutter_partitioned (the default_limits) 1 1 = Inr s \<and>
     tracked_keys (snd (run_ops demo_env [Upstream_op ''a'', Upstream_op ''b''] s)) \<le> 1"
proof -
  obtain s where s: "shutter_partitioned (the default_limits) 1 1 = Inr s" using demo_start by blast
  then show ?thesis
    using memory_bounded [OF s, of demo_env "[Upstream_op ''a'', Upstream_op ''b'']"] by auto
qed


section \<open>When the table degrades\<close>

lemma fold_remove_length:
  assumes "distinct (map fst m)" and "k \<in> set ks" and "map_of m k = Some c" and "is_replenished now c"
  shows "length (fold (remove_if_replenished now) ks m) < length m"
proof -
  let ?m = "fold (remove_if_replenished now) ks m"
  have gone: "map_of (fold (remove_if_replenished now) ks m') k = None"
    if "k \<in> set ks" "map_of m' k = None \<or> map_of m' k = Some c" for ks and m' :: "(key \<times> cell) list"
    using that
  proof (induction ks arbitrary: m')
    case (Cons j ks)
    have lk: "map_of (remove_if_replenished now j m') k = None \<or> map_of (remove_if_replenished now j m') k = Some c"
      using Cons.prems(2) by (auto simp: remove_if_lookup)
    show ?case
    proof (cases "k = j")
      case True
      then have "map_of (remove_if_replenished now j m') k = None"
        using Cons.prems(2) assms(4) by (auto simp: remove_if_lookup)
      then show ?thesis by (simp add: fold_remove_None)
    next
      case False
      then show ?thesis using Cons.IH [OF _ lk] Cons.prems(1) by simp
    qed
  qed simp
  have sub: "dom (map_of ?m) \<subseteq> dom (map_of m) - {k}"
    using gone [OF assms(2), of m] assms(3) fold_remove_None by (auto simp: dom_def) (metis option.distinct(1) option.exhaust)
  have d: "distinct (map fst ?m)" using fold_remove_facts(1) [OF assms(1)] .
  have len: "length m' = card (dom (map_of m'))" if "distinct (map fst m')" for m' :: "(key \<times> cell) list"
    using distinct_card [OF that] by (simp add: dom_map_of_conv_image_fst)
  have "length ?m = card (dom (map_of ?m))" by (rule len [OF d])
  also have "\<dots> \<le> card (dom (map_of m) - {k})" by (intro card_mono sub) (simp add: finite_dom_map_of)
  also have "\<dots> < card (dom (map_of m))"
    using assms(3) by (intro psubset_card_mono) (auto simp: finite_dom_map_of)
  also have "\<dots> = length m" using len [OF assms(1)] by simp
  finally show ?thesis .
qed

context entry_scan
begin

lemma scan_finds_replenished:
  assumes "(k, c) \<in> set m" and "is_replenished now c" and "0 < n"
  shows "\<exists>k' c'. k' \<in> set (take n (map fst (filter (\<lambda>(k, c). is_replenished now c) (scan_of m))))
           \<and> (k', c') \<in> set m \<and> is_replenished now c'"
proof -
  let ?l = "filter (\<lambda>(k, c). is_replenished now c) (scan_of m)"
  have "(k, c) \<in> set ?l" using assms(1,2) scan_set by simp
  then obtain p ps where l: "?l = p # ps" by (cases ?l) auto
  then have "p \<in> set ?l" by simp
  then have p: "p \<in> set m" "is_replenished now (snd p)" using scan_set by (auto simp: split_beta)
  have "fst p \<in> set (take n (map fst ?l))" using assms(3) by (cases n) (simp_all add: l)
  then show ?thesis using p by (metis prod.collapse)
qed

end

text \<open>The shared cells are a last resort: an operation is served from one only if the key
  has no cell of its own, the table is full, and at the instant of the attempted eviction every
  cell it holds is still in debt.\<close>

theorem degrades_only_when_full_of_debt:
  assumes "entry_scan (scan e)" and "shutter_inv s" and "with_cell e k f s = ((r, True), s')"
  shows "map_of (exact s) k = None \<and> length (exact s) = capacity s \<and>
    list_all (\<lambda>(k, c). \<not> is_replenished (clk e (readings s)) c) (exact s)"
proof -
  have ne: "use_entry k f s'' \<noteq> ((r, True), s')" for s''
    using use_entry_result(1) [of k f s''] by (metis fst_conv prod.inject)
  let ?now = "clk e (readings s)"
  let ?s = "evict_sample e eviction_sample s"
  have none: "map_of (exact s) k = None" and full: "capacity s \<le> length (exact s)"
    and full': "capacity s \<le> length (exact ?s)"
    using assms(3) ne by (auto simp: with_cell_def Let_def split: if_splits)
  have d: "distinct (map fst (exact s))" and len: "length (exact s) = capacity s"
    using assms(2) full by (auto simp: shutter_inv_def)
  have "\<not> is_replenished ?now c" if mem: "(j, c) \<in> set (exact s)" for j c
  proof
    assume "is_replenished ?now c"
    then obtain k' c' where "k' \<in> set (doomed_keys e eviction_sample ?now (exact s))"
      "(k', c') \<in> set (exact s)" "is_replenished ?now c'"
      using entry_scan.scan_finds_replenished [OF assms(1) mem, of ?now eviction_sample]
      by (auto simp: doomed_keys_def eviction_sample_def)
    then have "length (exact ?s) < length (exact s)"
      using fold_remove_length [OF d] d by (simp add: evict_sample_def read_clock_def Let_def)
    then show False using full' len by simp
  qed
  then show ?thesis using none len by (auto simp: list_all_iff)
qed

lemma degrades_only_when_full_of_debt_witness:
  "\<exists>s s'. with_cell demo_env (Upstream ''b'') (charge \<lparr>emission_interval = 10, tolerance = 30, burst = 3\<rparr> 5 1) s
       = ((Admit 2 10, True), s') \<and> list_all (\<lambda>(k, c). \<not> is_replenished (clk demo_env (readings s)) c) (exact s)"
proof -
  let ?l = "the default_limits"
  let ?s = "\<lparr>exact = [(Upstream ''a'', \<lparr>tat = 99\<rparr>)], overflow = replicate overflow_cells cell_new, capacity = 1,
     limits_of = ?l, upstream_overrides = Map.empty, instances = 1, upstream_share = upstream ?l,
     account_share = account ?l, degraded_decisions = 0, readings = 0\<rparr>"
  let ?f = "charge \<lparr>emission_interval = 10, tolerance = 30, burst = 3\<rparr> 5 1"
  have c: "?f cell_new = (Admit 2 10, \<lparr>tat = 15\<rparr>)"
    by (simp add: charge_def charge_iter_def charge_increment_def sat_mul_def sat_add_def
        sat_sub_def u64_of_u32_def max_def word_le_nat_alt cell_new_def u32_of_u64_sat_def)
  have sl: "slot demo_env (Upstream ''b'') < 8192" using slot_lt by (simp add: overflow_cells_def)
  obtain s' where w: "with_cell demo_env (Upstream ''b'') ?f ?s = ((Admit 2 10, True), s')"
    using c sl by (simp add: with_cell_def evict_sample_def read_clock_def Let_def doomed_keys_def demo_env_def
        is_replenished_def monotonic_now_def use_overflow_def overflow_cells_def nth_replicate)
  have sc: "entry_scan (scan demo_env)"
    using insertion_order.entry_scan_axioms by (simp add: demo_env_def)
  have inv: "shutter_inv ?s" by (simp add: shutter_inv_def)
  show ?thesis using w degrades_only_when_full_of_debt [OF sc inv w] by blast
qed

section \<open>A shared cell is stricter than a private one\<close>

fun let_through :: "call_result \<Rightarrow> bool" where
  "let_through (Decided d) = is_admitted d"
| "let_through (Debt n) = True"

text \<open>Of the calls a shared cell served, those of one key that it let through.\<close>

fun own_share :: "key \<Rightarrow> (key \<times> call) list \<Rightarrow> cell \<Rightarrow> call list" where
  "own_share k [] c = []"
| "own_share k ((k', x) # xs) c =
     (let (r, c') = apply_call x c in
      if k' = k \<and> let_through r then x # own_share k xs c' else own_share k xs c')"

lemma peek_antimono: "tat c \<le> tat d \<Longrightarrow> peek q now w d \<Longrightarrow> peek q now w c"
proof -
  assume "tat c \<le> tat d" and p: "peek q now w d"
  then have "unat (tat c) - unat now \<le> unat (tat d) - unat now" by (simp add: word_le_nat_alt diff_le_mono)
  then show ?thesis using p unfolding peek_nat by linarith
qed

lemma apply_call_mono:
  assumes "tat c \<le> tat d" and "let_through (fst (apply_call x d))"
  shows "let_through (fst (apply_call x c))" and "tat (snd (apply_call x c)) \<le> tat (snd (apply_call x d))"
proof -
  have le: "unat (tat c) \<le> unat (tat d)" using assms(1) by (simp add: word_le_nat_alt)
  show "let_through (fst (apply_call x c))"
    using assms peek_antimono by (cases x) (auto simp: split_beta)
  show "tat (snd (apply_call x c)) \<le> tat (snd (apply_call x d))"
  proof (cases x)
    case (Charge q now w)
    then have "peek q now w d" using assms(2) by (simp add: split_beta)
    moreover from this have "peek q now w c" using peek_antimono assms(1) by blast
    ultimately show ?thesis
      using le by (simp add: Charge split_beta word_le_nat_alt tat_charge)
  next
    case (Debit q now w)
    have "max (unat (tat c)) (unat now) \<le> max (unat (tat d)) (unat now)"
      using le by linarith
    then have "min (max (unat (tat c)) (unat now) + unat (debit_increment q w)) u64_max
        \<le> min (max (unat (tat d)) (unat now) + unat (debit_increment q w)) u64_max"
      by linarith
    then show ?thesis
      using le by (simp only: Debit apply_call.simps split_beta Let_def snd_conv word_le_nat_alt tat_debit) auto
  qed
qed

lemma apply_call_grows: "tat c \<le> tat (snd (apply_call x c))"
  using tat_charge_mono tat_debit_mono by (cases x) (simp_all add: split_beta word_le_nat_alt)

text \<open>Sharing an overflow cell only ever makes the limiter stricter: whatever keys, classes
  and quotas are mixed on one cell, every call of a key that the shared cell let through would
  also have been let through by a private cell of that key serving just those calls.\<close>

theorem shared_cell_stricter:
  "tat c \<le> tat d \<Longrightarrow> list_all let_through (fst (run_calls (own_share k xs d) c))"
proof (induction xs arbitrary: c d)
  case (Cons y xs)
  obtain k' x where y: "y = (k', x)" by (cases y)
  let ?d = "snd (apply_call x d)"
  have le: "tat c \<le> tat ?d" using Cons.prems apply_call_grows [of d x] by simp
  show ?case
  proof (cases "k' = k \<and> let_through (fst (apply_call x d))")
    case True
    then have o: "own_share k (y # xs) d = x # own_share k xs ?d" by (simp add: y split_beta)
    show ?thesis
      using apply_call_mono [OF Cons.prems] True Cons.IH [of "snd (apply_call x c)" ?d]
      by (simp add: o split_beta)
  next
    case False
    then have "own_share k (y # xs) d = own_share k xs ?d" by (auto simp: y split_beta)
    then show ?thesis using Cons.IH [OF le] by simp
  qed
qed simp

lemma shared_cell_stricter_witness:
  "list_all let_through (fst (run_calls (own_share (Account ''a'')
     [(Account ''b'', Charge \<lparr>emission_interval = 10, tolerance = 30, burst = 3\<rparr> 5 2),
      (Account ''a'', Charge \<lparr>emission_interval = 7, tolerance = 42, burst = 6\<rparr> 5 2)] cell_new) cell_new))"
  by (rule shared_cell_stricter) simp

section \<open>The two-bucket operations\<close>

text \<open>Whether every cell an operation may touch has its own place in the table.\<close>

definition has_room :: "nat \<Rightarrow> shutter \<Rightarrow> bool" where
  "has_room n s \<longleftrightarrow> length (exact s) + n \<le> capacity s"

lemma with_cell_room: "has_room (Suc n) s \<Longrightarrow> with_cell e k f s = use_entry k f s"
  by (simp add: with_cell_def has_room_def)

lemma use_entry_room: "has_room (Suc n) s \<Longrightarrow> has_room n (snd (use_entry k f s))"
  by (auto simp: has_room_def use_entry_def Let_def split_beta length_update)

lemma has_room_read_clock [simp]: "has_room n (snd (read_clock e s)) = has_room n s"
  by (simp add: has_room_def read_clock_def)

lemma use_entry_quota [simp]: "quota_for (snd (use_entry k f s)) = quota_for s"
  by (auto simp: use_entry_def Let_def split_beta quota_for_def fun_eq_iff split: key.split option.split)

lemma cell_of_read_clock [simp]: "cell_of (snd (read_clock e s)) = cell_of s"
  by (simp add: cell_of_def fun_eq_iff)

lemma use_entry_peek: "cell_of (snd (use_entry k (peek_op q now w) s)) = cell_of s"
  by (auto simp: use_entry_result peek_op_def fun_eq_iff)

lemma use_entry_refused:
  "\<not> peek q now w (cell_of s k) \<Longrightarrow> cell_of (snd (use_entry k (charge q now w) s)) = cell_of s"
  by (auto simp: use_entry_result fun_eq_iff charge_refused)

lemma shutter_charge_room:
  assumes "has_room (Suc n) s"
  shows "v_decision (fst (shutter_charge e k c s)) =
           fst (charge (quota_for s k) (clk e (readings s)) (weight c) (cell_of s k))"
    and "cell_of (snd (shutter_charge e k c s)) =
           (cell_of s)(k := snd (charge (quota_for s k) (clk e (readings s)) (weight c) (cell_of s k)))"
proof -
  note w = with_cell_room [OF has_room_read_clock [THEN iffD2, OF assms]]
  show "v_decision (fst (shutter_charge e k c s)) =
           fst (charge (quota_for s k) (clk e (readings s)) (weight c) (cell_of s k))"
    by (simp add: shutter_charge_def Let_def split_beta w use_entry_result)
  show "cell_of (snd (shutter_charge e k c s)) =
           (cell_of s)(k := snd (charge (quota_for s k) (clk e (readings s)) (weight c) (cell_of s k)))"
    by (auto simp: shutter_charge_def Let_def split_beta w use_entry_result fun_eq_iff count_degraded_def)
qed

lemma max_weight_zero: "max (0 :: u32) 1 = max 1 1"
  by (simp add: max_def)

lemma charge_increment_zero: "charge_increment q 0 = charge_increment q 1"
  by (simp add: charge_increment_def max_weight_zero)

lemma peek_zero: "peek q now 0 c = peek q now 1 c"
  by (simp add: peek_def charge_increment_zero)

lemma refusal_of_refused: "\<not> is_admitted (refusal_of d)"
  by (cases d) simp_all

text \<open>A sign-in attempt can lock nobody out. With room in the table, an attempt on an account
  whose bucket is exhausted is refused without changing any cell, neither the account's nor the
  caller's; any other attempt charges the caller's cell one unit and is decided by it alone. In
  no case does asking change the account's cell (unless it is itself the caller's).\<close>

theorem credential_attempt_charges:
  assumes "has_room 3 s" and "credential_attempt e caller acct s = (v, s')"
  shows "if peek (quota_for s (Account acct)) (clk e (readings s)) 1 (cell_of s (Account acct))
    then v_decision v = fst (charge (quota_for s caller) (clk e (Suc (readings s))) 1 (cell_of s caller))
       \<and> cell_of s' = (cell_of s)(caller := snd (charge (quota_for s caller) (clk e (Suc (readings s))) 1 (cell_of s caller)))
    else \<not> verdict_admitted v \<and> cell_of s' = cell_of s"
proof -
  let ?k = "Account acct" and ?now = "clk e (readings s)" and ?s1 = "snd (read_clock e s)"
  let ?q = "quota_for s ?k"
  have r1: "has_room (Suc 2) ?s1" using assms(1) by (simp add: numeral_3_eq_3)
  note w1 = with_cell_room [OF r1, of e ?k "peek_op ?q ?now 1"]
  let ?s2 = "snd (use_entry ?k (peek_op ?q ?now 1) ?s1)"
  have r2: "has_room (Suc 1) ?s2" using use_entry_room [OF r1] by (simp add: numeral_2_eq_2)
  have c2: "cell_of ?s2 = cell_of s" by (simp add: use_entry_peek)
  have ok: "fst (fst (use_entry ?k (peek_op ?q ?now 1) ?s1)) = peek ?q ?now 1 (cell_of s ?k)"
    by (simp add: use_entry_result peek_op_def)
  show ?thesis
  proof (cases "peek ?q ?now 1 (cell_of s ?k)")
    case True
    then have "(v, s') = shutter_charge e caller (flat Credential) ?s2"
      using assms(2) by (simp add: credential_attempt_def Let_def split_beta w1 ok)
    then have "v = fst (shutter_charge e caller (flat Credential) ?s2)"
      "s' = snd (shutter_charge e caller (flat Credential) ?s2)" by (metis fst_conv snd_conv)+
    then show ?thesis
      using True shutter_charge_room [OF r2, of e caller "flat Credential"]
      by (simp add: c2 use_entry_result flat_def)
  next
    case False
    note w2 = with_cell_room [OF r2, of e ?k "charge ?q ?now 0"]
    have np: "\<not> peek ?q ?now 0 (cell_of ?s2 ?k)" using False by (simp add: c2 peek_zero)
    have "cell_of s' = cell_of s"
      using assms(2) False use_entry_refused [OF np] c2
      by (auto simp: credential_attempt_def Let_def split_beta w1 w2 ok)
    moreover have "\<not> verdict_admitted v"
      using assms(2) False
      by (auto simp: credential_attempt_def Let_def split_beta w1 ok verdict_admitted_def refusal_of_refused)
    ultimately show ?thesis using False by simp
  qed
qed

definition demo_shutter :: shutter where
  "demo_shutter =
     (let l = the default_limits in
      \<lparr>exact = [], overflow = replicate overflow_cells cell_new, capacity = 10, limits_of = l,
       upstream_overrides = Map.empty, instances = 1, upstream_share = upstream l,
       account_share = account l, degraded_decisions = 0, readings = 0\<rparr>)"

lemma demo_fresh [simp]: "cell_of demo_shutter k = cell_new" "readings demo_shutter = 0"
  by (simp_all add: demo_shutter_def Let_def cell_of_def)

lemma demo_room: "n \<le> 10 \<Longrightarrow> has_room n demo_shutter"
  by (simp add: has_room_def demo_shutter_def Let_def)

lemma peek_fresh: "unat (charge_increment q w) \<le> unat (tolerance q) \<Longrightarrow> peek q now w cell_new"
  by (simp add: peek_nat cell_new_def min.coboundedI1)

lemma credential_attempt_charges_witness:
  "\<exists>v s'. credential_attempt demo_env (Address (V4 9) Credential) ''root'' demo_shutter = (v, s')
     \<and> verdict_admitted v \<and> cell_of s' (Account ''root'') = cell_new"
proof -
  let ?k = "Address (V4 9) Credential"
  obtain v s' where r: "credential_attempt demo_env ?k ''root'' demo_shutter = (v, s')"
    by (metis prod.exhaust)
  have p: "peek (quota_for demo_shutter (Account ''root'')) now 1 cell_new"
    "peek (quota_for demo_shutter ?k) now 1 cell_new" for now
    by (auto intro!: peek_fresh simp: quota_for_def demo_shutter_def Let_def default_limits_value unat_charge_increment)
  have "has_room 3 demo_shutter" by (rule demo_room) simp
  from credential_attempt_charges [OF this r] show ?thesis
    using r p by (simp add: verdict_admitted_def)
qed

text \<open>One visitor's outbound call is charged at most once and never for nothing: with room in
  the table, when the host's shared budget is exhausted the call is refused and no cell changes;
  otherwise the caller's own budget decides, and only the caller's cell can change. The host's
  budget is only peeked at, whatever the spelling of the host.\<close>

theorem outbound_call_charges:
  assumes "has_room 4 s" and "outbound_call e caller host s = (v, s')"
  shows "if peek (quota_for s (Upstream (to_ascii_lowercase host))) (clk e (readings s)) 1
            (cell_of s (Upstream (to_ascii_lowercase host)))
    then v_decision v = fst (charge (quota_for s caller) (clk e (Suc (readings s))) 8 (cell_of s caller))
       \<and> cell_of s' = (cell_of s)(caller := snd (charge (quota_for s caller) (clk e (Suc (readings s))) 8 (cell_of s caller)))
    else \<not> verdict_admitted v \<and> cell_of s' = cell_of s"
proof -
  let ?k = "Upstream (to_ascii_lowercase host)" and ?now = "clk e (readings s)" and ?s1 = "snd (read_clock e s)"
  let ?q = "quota_for s ?k" and ?cq = "quota_for s caller"
  have r1: "has_room (Suc 3) ?s1" using assms(1) by (simp add: eval_nat_numeral)
  note w1 = with_cell_room [OF r1, of e ?k "peek_op ?q ?now 1"]
  let ?s2 = "snd (use_entry ?k (peek_op ?q ?now 1) ?s1)"
  have r2: "has_room (Suc 2) ?s2" using use_entry_room [OF r1] by (simp add: numeral_3_eq_3)
  have c2: "cell_of ?s2 = cell_of s" by (simp add: use_entry_peek)
  have ok: "fst (fst (use_entry ?k (peek_op ?q ?now 1) ?s1)) = peek ?q ?now 1 (cell_of s ?k)"
    by (simp add: use_entry_result peek_op_def)
  show ?thesis
  proof (cases "peek ?q ?now 1 (cell_of s ?k)")
    case True
    note w2 = with_cell_room [OF r2, of e caller "peek_op ?cq ?now 8"]
    let ?s3 = "snd (use_entry caller (peek_op ?cq ?now 8) ?s2)"
    have r3: "has_room (Suc 1) ?s3" using use_entry_room [OF r2] by (simp add: numeral_2_eq_2)
    have c3: "cell_of ?s3 = cell_of s" by (simp add: use_entry_peek c2)
    have "(v, s') = shutter_charge e caller (flat Outbound) ?s3"
      using assms(2) True by (simp add: outbound_call_def Let_def split_beta w1 w2 ok flat_def)
    then have "v = fst (shutter_charge e caller (flat Outbound) ?s3)"
      "s' = snd (shutter_charge e caller (flat Outbound) ?s3)" by (metis fst_conv snd_conv)+
    then show ?thesis
      using True shutter_charge_room [OF r3, of e caller "flat Outbound"]
      by (simp add: c3 use_entry_result flat_def)
  next
    case False
    note w2 = with_cell_room [OF r2, of e ?k "charge ?q ?now 0"]
    have np: "\<not> peek ?q ?now 0 (cell_of ?s2 ?k)" using False by (simp add: c2 peek_zero)
    have "cell_of s' = cell_of s"
      using assms(2) False use_entry_refused [OF np] c2
      by (auto simp: outbound_call_def Let_def split_beta w1 w2 ok)
    moreover have "\<not> verdict_admitted v"
      using assms(2) False
      by (auto simp: outbound_call_def Let_def split_beta w1 ok verdict_admitted_def refusal_of_refused)
    ultimately show ?thesis using False by simp
  qed
qed

lemma outbound_call_charges_witness:
  "\<exists>v s'. outbound_call demo_env (Address (V4 9) Outbound) ''API.example'' demo_shutter = (v, s')
     \<and> verdict_admitted v \<and> cell_of s' (Upstream ''api.example'') = cell_new"
proof -
  let ?k = "Address (V4 9) Outbound"
  obtain v s' where r: "outbound_call demo_env ?k ''API.example'' demo_shutter = (v, s')"
    by (metis prod.exhaust)
  have h: "to_ascii_lowercase ''API.example'' = ''api.example''" by code_simp
  have p: "peek (quota_for demo_shutter (Upstream ''api.example'')) now 1 cell_new"
    "peek (quota_for demo_shutter ?k) now 8 cell_new" for now
    by (auto intro!: peek_fresh simp: quota_for_def demo_shutter_def Let_def default_limits_value unat_charge_increment)
  have "has_room 4 demo_shutter" by (rule demo_room) simp
  from outbound_call_charges [OF this r] show ?thesis
    using r p by (simp add: verdict_admitted_def h)
qed

end
