(* ===== verification/JobQueue.thy ===== *)
theory JobQueue
  imports Strings Complex_Main
begin

text \<open>
  The durable job queue (\<open>src/jobs/queue.rs\<close>) on the values of the storage boundary
  (\<open>src/forge/value.rs\<close>): the table of job rows and the protocol that takes work out of it.

  A row holds storage values, as the table does, so that a row of another shape can be read back
  and refused. The substrate is not under \<open>src/\<close>'s control where it fails: every call to it takes
  the next entry of a script of faults (\<open>faults\<close>), and a call that fails changes nothing. Two
  more things are parameters (record \<open>queue_env\<close>): which of several equally old rows an
  \<open>ORDER BY run_at LIMIT 1\<close> returns (law: locale \<open>oldest_first\<close>), and what other writers do to the
  table between the two statements of a claim, nothing when the substrate serialises writers.
  An \<open>i64\<close> is an \<open>int\<close>, with the saturation of the source written out.
\<close>

section \<open>Storage values and rows\<close>

datatype sql_value = Null | Integer int | Real rat | Text string | Blob "8 word list"

fun as_i64 :: "sql_value \<Rightarrow> int option" where
  "as_i64 (Integer v) = Some v"
| "as_i64 _ = None"

fun as_str :: "sql_value \<Rightarrow> string option" where
  "as_str (Text v) = Some v"
| "as_str _ = None"

definition i64_max :: int where "i64_max = 2 ^ 63 - 1"
definition i64_min :: int where "i64_min = - (2 ^ 63)"

definition i64_sat_add :: "int \<Rightarrow> int \<Rightarrow> int" where
  "i64_sat_add a b = max i64_min (min i64_max (a + b))"

definition u32_of_i64 :: "int \<Rightarrow> u32" where
  \<comment> \<open>\<open>u32::try_from(v).unwrap_or(u32::MAX)\<close>\<close>
  "u32_of_i64 v = (if 0 \<le> v \<and> v < 2 ^ 32 then of_int v else - 1)"

datatype job_state = Pending | Fanout | Claimed | Done | Failed

fun state_as_str :: "job_state \<Rightarrow> string" where
  "state_as_str Pending = ''pending''"
| "state_as_str Fanout = ''fanout''"
| "state_as_str Claimed = ''claimed''"
| "state_as_str Done = ''done''"
| "state_as_str Failed = ''failed''"

definition state_parse :: "string \<Rightarrow> job_state option" where
  "state_parse v =
     (if v = ''pending'' then Some Pending
      else if v = ''fanout'' then Some Fanout
      else if v = ''claimed'' then Some Claimed
      else if v = ''done'' then Some Done
      else if v = ''failed'' then Some Failed
      else None)"

datatype queue_error = Substrate string | Corrupt string

record job_row =
  r_id :: sql_value
  r_name :: sql_value
  r_args :: sql_value
  r_principal :: sql_value
  r_state :: sql_value
  r_run_at :: sql_value
  r_attempts :: sql_value
  r_max_attempts :: sql_value
  r_lease_until :: sql_value
  r_cursor :: sql_value
  r_last_error :: sql_value
  r_created_at :: sql_value
  r_updated_at :: sql_value

record claimed_job =
  cj_id :: string
  cj_name :: string
  cj_args :: string
  cj_principal :: "string option"
  cj_attempts :: u32
  cj_max_attempts :: u32
  cj_cursor :: "string option"
  cj_is_fanout :: bool

record enqueue_request =
  eq_id :: string
  eq_name :: string
  eq_args :: string
  eq_principal :: "string option"
  eq_run_at_ms :: int
  eq_max_attempts :: u32
  eq_fanout :: bool

definition default_lease_ms :: int where "default_lease_ms = 5 * 60 * 1000"
definition backoff_base_ms :: int where "backoff_base_ms = 1000"
definition backoff_max_ms :: int where "backoff_max_ms = 60 * 60 * 1000"

section \<open>The substrate\<close>

record jobs_db =
  rows :: "job_row list"
  faults :: "string option list"

record queue_env =
  pick :: "job_row list \<Rightarrow> job_row option"
  between :: "job_row list \<Rightarrow> job_row list"

definition call_db :: "jobs_db \<Rightarrow> (queue_error + unit) \<times> jobs_db" where
  "call_db db =
     (case faults db of
        [] \<Rightarrow> (Inr (), db)
      | f # fs \<Rightarrow> ((case f of None \<Rightarrow> Inr () | Some reason \<Rightarrow> Inl (Substrate reason)), db\<lparr>faults := fs\<rparr>))"

definition then_db :: "(queue_error + 'a) \<times> jobs_db \<Rightarrow> ('a \<Rightarrow> jobs_db \<Rightarrow> (queue_error + 'b) \<times> jobs_db)
    \<Rightarrow> (queue_error + 'b) \<times> jobs_db" where
  \<comment> \<open>the \<open>?\<close> of the source: an error is returned at once\<close>
  "then_db r f = (case r of (Inl e, db) \<Rightarrow> (Inl e, db) | (Inr x, db) \<Rightarrow> f x db)"

definition execute_db :: "(job_row list \<Rightarrow> nat \<times> job_row list) \<Rightarrow> jobs_db \<Rightarrow> (queue_error + nat) \<times> jobs_db" where
  "execute_db stmt db =
     then_db (call_db db) (\<lambda>_ db. let (n, rs) = stmt (rows db) in (Inr n, db\<lparr>rows := rs\<rparr>))"

definition update_where :: "(job_row \<Rightarrow> bool) \<Rightarrow> (job_row \<Rightarrow> job_row) \<Rightarrow> job_row list \<Rightarrow> nat \<times> job_row list" where
  "update_where p f rs = (length (filter p rs), map (\<lambda>r. if p r then f r else r) rs)"

definition has_id :: "string \<Rightarrow> job_row \<Rightarrow> bool" where
  "has_id i r \<longleftrightarrow> r_id r = Text i"

definition in_state :: "job_state \<Rightarrow> job_row \<Rightarrow> bool" where
  "in_state s r \<longleftrightarrow> r_state r = Text (state_as_str s)"

fun sql_le :: "sql_value \<Rightarrow> int \<Rightarrow> bool" where
  \<comment> \<open>\<open>col <= ?\<close> is true: \<open>NULL\<close> compares to nothing, text and blobs sort after numbers\<close>
  "sql_le (Integer v) n = (v \<le> n)"
| "sql_le (Real v) n = (v \<le> of_int n)"
| "sql_le _ n = False"

fun sql_lt :: "sql_value \<Rightarrow> int \<Rightarrow> bool" where
  "sql_lt (Integer v) n = (v < n)"
| "sql_lt (Real v) n = (v < of_int n)"
| "sql_lt _ n = False"

section \<open>Identifiers and delays\<close>

text \<open>\<open>render\<close> is \<open>chrono\<close>'s rendering of an instant, or nothing when it is out of its range.\<close>

definition fire_id :: "(int \<Rightarrow> string option) \<Rightarrow> string \<Rightarrow> int \<Rightarrow> string" where
  "fire_id render name tick_ms =
     name @ ''@'' @ (case render tick_ms of Some stamp \<Rightarrow> stamp | None \<Rightarrow> show_int tick_ms)"

definition fanout_child_id :: "string \<Rightarrow> string \<Rightarrow> string" where
  "fanout_child_id fire who = fire @ ''#'' @ who"

text \<open>
  \<open>(capped as f64 * jitter) as i64\<close>: the exact product rounded to the nearest double, ties to
  even, then cut to an integer. The product is at least zero and below \<open>2 ^ 22\<close>; below one half
  the result is zero however it rounds.
\<close>

definition round_half_even :: "rat \<Rightarrow> int" where
  "round_half_even y =
     (let f = \<lfloor>y\<rfloor>; d = y - of_int f in
      if d < 1 / 2 then f else if 1 / 2 < d then f + 1 else if even f then f else f + 1)"

fun log2_floor :: "nat \<Rightarrow> nat" where
  "log2_floor n = (if n < 2 then 0 else Suc (log2_floor (n div 2)))"

declare log2_floor.simps [simp del]

definition f64_scale :: "rat \<Rightarrow> int" where
  \<comment> \<open>the number of doubles per unit near \<open>x\<close>\<close>
  "f64_scale x = 2 ^ (if x < 1 then 53 else 52 - log2_floor (nat \<lfloor>x\<rfloor>))"

definition f64_as_i64 :: "rat \<Rightarrow> int" where
  "f64_as_i64 x =
     (if x < 1 / 2 then 0 else round_half_even (x * of_int (f64_scale x)) div f64_scale x)"

definition backoff_ms :: "u32 \<Rightarrow> rat \<Rightarrow> int" where
  "backoff_ms attempts jitter =
     (let shift = min (unat attempts - 1) 32;
          raw = min i64_max (backoff_base_ms * 2 ^ shift);
          capped = min raw backoff_max_ms;
          jittered = f64_as_i64 (of_int capped * max 0 (min 1 jitter)) in
      max jittered (min backoff_base_ms capped))"

section \<open>Operations\<close>

definition text_or_null :: "string option \<Rightarrow> sql_value" where
  "text_or_null v = (case v of None \<Rightarrow> Null | Some s \<Rightarrow> Text s)"

definition new_row :: "enqueue_request \<Rightarrow> job_row" where
  "new_row q =
     \<lparr>r_id = Text (eq_id q), r_name = Text (eq_name q), r_args = Text (eq_args q),
      r_principal = text_or_null (eq_principal q),
      r_state = Text (state_as_str (if eq_fanout q then Fanout else Pending)),
      r_run_at = Integer (eq_run_at_ms q), r_attempts = Integer 0,
      r_max_attempts = Integer (int (unat (eq_max_attempts q))),
      r_lease_until = Null, r_cursor = Null, r_last_error = Null,
      r_created_at = Integer (eq_run_at_ms q), r_updated_at = Integer (eq_run_at_ms q)\<rparr>"

definition insert_or_ignore :: "job_row \<Rightarrow> job_row list \<Rightarrow> nat \<times> job_row list" where
  "insert_or_ignore r rs = (if r_id r \<in> r_id ` set rs then (0, rs) else (1, rs @ [r]))"

definition enqueue :: "enqueue_request \<Rightarrow> jobs_db \<Rightarrow> (queue_error + bool) \<times> jobs_db" where
  "enqueue q db = then_db (execute_db (insert_or_ignore (new_row q)) db) (\<lambda>n db. (Inr (0 < n), db))"

definition runnable :: "int \<Rightarrow> job_row \<Rightarrow> bool" where
  "runnable now r \<longleftrightarrow>
     in_state Pending r \<and> sql_le (r_run_at r) now \<or>
     in_state Fanout r \<and> sql_le (r_run_at r) now \<or>
     in_state Claimed r \<and> r_lease_until r \<noteq> Null \<and> sql_le (r_lease_until r) now"

fun need :: "string \<Rightarrow> 'a option \<Rightarrow> queue_error + 'a" where
  "need why None = Inl (Corrupt why)"
| "need why (Some x) = Inr x"

definition read_claim :: "job_row \<Rightarrow> queue_error + (claimed_job \<times> int \<times> string)" where
  \<comment> \<open>the columns of the found row, the new count of attempts and the state it was found in\<close>
  "read_claim r =
     (case need ''id is not text'' (as_str (r_id r)) of Inl e \<Rightarrow> Inl e | Inr i \<Rightarrow>
      case need ''name is not text'' (as_str (r_name r)) of Inl e \<Rightarrow> Inl e | Inr n \<Rightarrow>
      case need ''args is not text'' (as_str (r_args r)) of Inl e \<Rightarrow> Inl e | Inr a \<Rightarrow>
      case need ''attempts is not an integer'' (as_i64 (r_attempts r)) of Inl e \<Rightarrow> Inl e | Inr att \<Rightarrow>
      case need ''max_attempts is not an integer'' (as_i64 (r_max_attempts r)) of Inl e \<Rightarrow> Inl e | Inr mx \<Rightarrow>
      case need ''state is not text'' (as_str (r_state r)) of Inl e \<Rightarrow> Inl e | Inr st \<Rightarrow>
      let att' = i64_sat_add att 1 in
      Inr (\<lparr>cj_id = i, cj_name = n, cj_args = a, cj_principal = as_str (r_principal r),
            cj_attempts = u32_of_i64 att', cj_max_attempts = u32_of_i64 mx,
            cj_cursor = as_str (r_cursor r), cj_is_fanout = (st = state_as_str Fanout)\<rparr>, att', st))"

definition take_claim :: "int \<Rightarrow> int \<Rightarrow> string \<Rightarrow> int \<Rightarrow> string \<Rightarrow> job_row list \<Rightarrow> nat \<times> job_row list" where
  "take_claim now lease i att st =
     update_where (\<lambda>r. has_id i r \<and> r_state r = Text st)
       (\<lambda>r. r\<lparr>r_state := Text ''claimed'', r_lease_until := Integer (i64_sat_add now lease),
              r_attempts := Integer att, r_updated_at := Integer now\<rparr>)"

definition claim_due :: "queue_env \<Rightarrow> int \<Rightarrow> int \<Rightarrow> jobs_db \<Rightarrow> (queue_error + claimed_job option) \<times> jobs_db" where
  "claim_due env now lease db =
     then_db (call_db db) (\<lambda>_ db. \<comment> \<open>begin\<close>
     then_db (call_db db) (\<lambda>_ db. \<comment> \<open>the select\<close>
     case pick env (filter (runnable now) (rows db)) of
       None \<Rightarrow> (Inr None, snd (call_db db)) \<comment> \<open>rolled back, its own result ignored\<close>
     | Some r \<Rightarrow>
        (case read_claim r of
           Inl e \<Rightarrow> (Inl e, db)
         | Inr (job, att, st) \<Rightarrow>
            then_db (call_db db) (\<lambda>_ db. \<comment> \<open>the update, on what other writers left\<close>
            let others = between env (rows db); (n, rs) = take_claim now lease (cj_id job) att st others in
            if n = 0 then (Inr None, snd (call_db (db\<lparr>rows := others\<rparr>)))
            else then_db (call_db (db\<lparr>rows := others\<rparr>)) (\<lambda>_ db. \<comment> \<open>commit\<close>
                 (Inr (Some job), db\<lparr>rows := rs\<rparr>))))))"

definition complete :: "string \<Rightarrow> int \<Rightarrow> jobs_db \<Rightarrow> (queue_error + unit) \<times> jobs_db" where
  "complete i now db =
     then_db (execute_db (update_where (has_id i)
         (\<lambda>r. r\<lparr>r_state := Text ''done'', r_lease_until := Null, r_last_error := Null,
                r_updated_at := Integer now\<rparr>)) db)
       (\<lambda>_ db. (Inr (), db))"

definition redact_args :: "string \<Rightarrow> jobs_db \<Rightarrow> (queue_error + unit) \<times> jobs_db" where
  "redact_args i db =
     then_db (execute_db (update_where (has_id i) (\<lambda>r. r\<lparr>r_args := Text ''{}''\<rparr>)) db)
       (\<lambda>_ db. (Inr (), db))"

definition is_char_boundary :: "string \<Rightarrow> nat \<Rightarrow> bool" where
  \<comment> \<open>a position of a UTF-8 string that is its end or does not hold a continuation byte\<close>
  "is_char_boundary s i \<longleftrightarrow> i = 0 \<or> i = length s \<or> i < length s \<and> \<not> (128 \<le> byte (s ! i) \<and> byte (s ! i) < 192)"

fun cut_back :: "string \<Rightarrow> nat \<Rightarrow> nat" where
  "cut_back s 0 = 0"
| "cut_back s (Suc n) = (if is_char_boundary s (Suc n) then Suc n else cut_back s n)"

definition truncate_error :: "string \<Rightarrow> string" where
  "truncate_error e =
     (if length e \<le> 2000 then e else take (cut_back e 2000) e @ [CHR 0xE2, CHR 0x80, CHR 0xA6])"

definition fail_job :: "claimed_job \<Rightarrow> int \<Rightarrow> string \<Rightarrow> rat \<Rightarrow> jobs_db \<Rightarrow> (queue_error + int option) \<times> jobs_db" where
  "fail_job job now err jitter db =
     (let exhausted = cj_max_attempts job \<le> cj_attempts job;
          retry_at = (if exhausted then None
                      else Some (i64_sat_add now (backoff_ms (cj_attempts job) jitter))) in
      then_db (execute_db (update_where (has_id (cj_id job))
          (\<lambda>r. r\<lparr>r_state := Text (state_as_str (if exhausted then Failed else Pending)),
                 r_run_at := Integer (case retry_at of None \<Rightarrow> now | Some t \<Rightarrow> t),
                 r_lease_until := Null, r_last_error := Text (truncate_error err),
                 r_updated_at := Integer now\<rparr>)) db)
        (\<lambda>_ db. (Inr retry_at, db)))"

definition advance_fanout :: "string \<Rightarrow> string option \<Rightarrow> int \<Rightarrow> jobs_db \<Rightarrow> (queue_error + unit) \<times> jobs_db" where
  "advance_fanout i next_cursor now db =
     (let (st, cur) = (case next_cursor of Some c \<Rightarrow> (Fanout, Text c) | None \<Rightarrow> (Done, Null)) in
      then_db (execute_db (update_where (has_id i)
          (\<lambda>r. r\<lparr>r_state := Text (state_as_str st), r_cursor := cur, r_lease_until := Null,
                 r_run_at := Integer now, r_updated_at := Integer now\<rparr>)) db)
        (\<lambda>_ db. (Inr (), db)))"

definition waiting_instants :: "int \<Rightarrow> job_row list \<Rightarrow> int list" where
  \<comment> \<open>the values \<open>MIN(run_at)\<close> ranges over, on rows of the shape this module writes\<close>
  "waiting_instants now rs =
     map (\<lambda>r. the (as_i64 (r_run_at r)))
       (filter (\<lambda>r. (in_state Pending r \<or> in_state Fanout r) \<and>
                     (case as_i64 (r_run_at r) of None \<Rightarrow> False | Some t \<Rightarrow> now < t)) rs)"

definition next_due_after :: "int \<Rightarrow> jobs_db \<Rightarrow> (queue_error + int option) \<times> jobs_db" where
  "next_due_after now db =
     then_db (call_db db) (\<lambda>_ db.
       let ts = waiting_instants now (rows db) in
       (Inr (if ts = [] then None else Some (Min (set ts))), db))"

definition sweep_done :: "int \<Rightarrow> jobs_db \<Rightarrow> (queue_error + nat) \<times> jobs_db" where
  "sweep_done before db =
     execute_db (\<lambda>rs. let gone = (\<lambda>r. in_state Done r \<and> sql_lt (r_updated_at r) before) in
                      (length (filter gone rs), filter (\<lambda>r. \<not> gone r) rs)) db"

section \<open>All operations as steps\<close>

datatype job_op =
    Enqueue_job enqueue_request
  | Claim_job int int
  | Complete_job string int
  | Redact_job string
  | Fail_job claimed_job int string rat
  | Advance_job string "string option" int
  | Sweep_jobs int

datatype job_answer =
    Enqueued bool
  | Took "claimed_job option"
  | Finished
  | Retrying "int option"
  | Removed nat
  | Broke queue_error

definition answer :: "('a \<Rightarrow> job_answer) \<Rightarrow> (queue_error + 'a) \<times> jobs_db \<Rightarrow> job_answer \<times> jobs_db" where
  "answer f r = ((case fst r of Inl e \<Rightarrow> Broke e | Inr x \<Rightarrow> f x), snd r)"

fun apply_job :: "queue_env \<Rightarrow> job_op \<Rightarrow> jobs_db \<Rightarrow> job_answer \<times> jobs_db" where
  "apply_job env (Enqueue_job q) db = answer Enqueued (enqueue q db)"
| "apply_job env (Claim_job now lease) db = answer Took (claim_due env now lease db)"
| "apply_job env (Complete_job i now) db = answer (\<lambda>_. Finished) (complete i now db)"
| "apply_job env (Redact_job i) db = answer (\<lambda>_. Finished) (redact_args i db)"
| "apply_job env (Fail_job j now err jit) db = answer Retrying (fail_job j now err jit db)"
| "apply_job env (Advance_job i c now) db = answer (\<lambda>_. Finished) (advance_fanout i c now db)"
| "apply_job env (Sweep_jobs b) db = answer Removed (sweep_done b db)"

fun run_jobs :: "queue_env \<Rightarrow> job_op list \<Rightarrow> jobs_db \<Rightarrow> job_answer list \<times> jobs_db" where
  "run_jobs env [] db = ([], db)"
| "run_jobs env (x # xs) db =
     (let (a, db') = apply_job env x db; (bs, db'') = run_jobs env xs db' in (a # bs, db''))"

section \<open>The contract of the select, and the substrate that serialises writers\<close>

locale oldest_first =
  fixes pick :: "job_row list \<Rightarrow> job_row option"
  assumes pick_none: "pick rs = None \<longleftrightarrow> rs = []"
    and pick_in: "pick rs = Some r \<Longrightarrow> r \<in> set rs"
    and pick_oldest: "pick rs = Some r \<Longrightarrow> r' \<in> set rs \<Longrightarrow> r_run_at r = Integer t \<Longrightarrow>
                      r_run_at r' = Integer t' \<Longrightarrow> t \<le> t'"
begin

lemma pick_filter: "pick (filter P rs) = Some r \<Longrightarrow> r \<in> set rs \<and> P r"
  using pick_in by fastforce

lemma pick_some: "r \<in> set rs \<Longrightarrow> \<exists>r'. pick rs = Some r'"
  using pick_none [of rs] by (cases "pick rs") auto

end

definition run_at_key :: "job_row \<Rightarrow> int" where
  "run_at_key r = (case r_run_at r of Integer t \<Rightarrow> t | _ \<Rightarrow> i64_max)"

definition first_oldest :: "job_row list \<Rightarrow> job_row option" where
  "first_oldest rs = (if rs = [] then None else Some (arg_min_list run_at_key rs))"

interpretation table_order: oldest_first first_oldest
proof
  fix rs r r' t t'
  show "(first_oldest rs = None) = (rs = [])" by (simp add: first_oldest_def)
  assume p: "first_oldest rs = Some r"
  hence r: "rs \<noteq> []" "r = arg_min_list run_at_key rs" by (auto simp: first_oldest_def split: if_splits)
  thus "r \<in> set rs" by (simp add: arg_min_list_in)
  assume "r' \<in> set rs" and "r_run_at r = Integer t" and "r_run_at r' = Integer t'"
  moreover have "run_at_key r \<le> run_at_key r'"
    using r \<open>r' \<in> set rs\<close> by (simp add: f_arg_min_list_f)
  ultimately show "t \<le> t'" by (simp add: run_at_key_def)
qed

definition serial_env :: "(job_row list \<Rightarrow> job_row option) \<Rightarrow> queue_env" where
  "serial_env p = \<lparr>pick = p, between = (\<lambda>rs. rs)\<rparr>"

definition queue_demo_env :: queue_env where
  "queue_demo_env = serial_env first_oldest"

section \<open>What a call does to the table\<close>

lemma rows_call_db [simp]: "rows (snd (call_db db)) = rows db"
  by (auto simp: call_db_def split: list.splits)

lemma rows_update_same [simp]: "db\<lparr>rows := rows db\<rparr> = db"
  by (cases db) simp

lemma call_db_cases:
  obtains (ok) db1 where "call_db db = (Inr (), db1)" "rows db1 = rows db"
  | (broke) m db1 where "call_db db = (Inl (Substrate m), db1)" "rows db1 = rows db"
proof -
  have "rows (snd (call_db db)) = rows db" by simp
  moreover have "fst (call_db db) = Inr () \<or> (\<exists>m. fst (call_db db) = Inl (Substrate m))"
    by (auto simp: call_db_def split: list.splits option.splits)
  ultimately show thesis using that by (cases "call_db db") auto
qed

lemma call_db_quiet [simp]: "faults db = [] \<Longrightarrow> call_db db = (Inr (), db)"
  by (simp add: call_db_def)

lemma then_db_simps [simp]:
  "then_db (Inl e, db) f = (Inl e, db)" "then_db (Inr x, db) f = f x db"
  by (simp_all add: then_db_def)

lemma execute_db_quiet [simp]:
  "faults db = [] \<Longrightarrow> execute_db stmt db = (Inr (fst (stmt (rows db))), db\<lparr>rows := snd (stmt (rows db))\<rparr>)"
  by (simp add: execute_db_def split_beta)

lemma execute_db_cases:
  assumes "execute_db stmt db = (res, db')"
  obtains (broke) m where "res = Inl (Substrate m)" "rows db' = rows db"
  | (ok) "res = Inr (fst (stmt (rows db)))" "rows db' = snd (stmt (rows db))"
  using assms by (cases rule: call_db_cases [of db]) (auto simp: execute_db_def split_beta)

lemma one_write_cases:
  assumes "then_db (execute_db stmt db) (\<lambda>n db. (Inr (g n), db)) = (res, db')"
  obtains (broke) m where "res = Inl (Substrate m)" "rows db' = rows db"
  | (ok) "res = Inr (g (fst (stmt (rows db))))" "rows db' = snd (stmt (rows db))"
proof -
  obtain r1 db1 where e: "execute_db stmt db = (r1, db1)" by fastforce
  show thesis using e assms that by (cases rule: execute_db_cases [OF e]) auto
qed

text \<open>A claim on a serialised substrate: it fails, finds nothing or takes the picked row.\<close>

lemma claim_due_cases:
  assumes "claim_due (serial_env p) now lease db = (res, db')"
  obtains (broke) m where "res = Inl (Substrate m)" "rows db' = rows db"
  | (corrupt) r e where "p (filter (runnable now) (rows db)) = Some r" "read_claim r = Inl e"
      "res = Inl e" "rows db' = rows db"
  | (none) "res = Inr None" "rows db' = rows db"
  | (took) r job att st where "p (filter (runnable now) (rows db)) = Some r"
      "read_claim r = Inr (job, att, st)" "res = Inr (Some job)"
      "rows db' = snd (take_claim now lease (cj_id job) att st (rows db))"
proof (cases rule: call_db_cases [of db])
  case (broke m db1)
  thus thesis using assms that(1) by (auto simp: claim_due_def)
next
  case (ok db1)
  note b1 = this
  show thesis
  proof (cases rule: call_db_cases [of db1])
    case (broke m db2)
    thus thesis using b1 assms that(1) by (auto simp: claim_due_def)
  next
    case (ok db2)
    note b2 = this
    show thesis
    proof (cases "p (filter (runnable now) (rows db))")
      case None
      thus thesis using b1 b2 assms that(3) by (auto simp: claim_due_def serial_env_def)
    next
      case (Some r)
      show thesis
      proof (cases "read_claim r")
        case (Inl e)
        thus thesis using b1 b2 Some assms that(2) by (auto simp: claim_due_def serial_env_def)
      next
        case (Inr x)
        obtain job att st where x: "x = (job, att, st)" by (rule prod_cases3)
        have step: "claim_due (serial_env p) now lease db =
            then_db (call_db db2) (\<lambda>_ db.
              if fst (take_claim now lease (cj_id job) att st (rows db)) = 0
              then (Inr None, snd (call_db db))
              else then_db (call_db db) (\<lambda>_ db'. (Inr (Some job),
                     db'\<lparr>rows := snd (take_claim now lease (cj_id job) att st (rows db))\<rparr>)))"
          using b1 b2 Some Inr x by (simp add: claim_due_def serial_env_def split_beta Let_def cong: if_cong)
        show thesis
        proof (cases rule: call_db_cases [of db2])
          case (broke m db3)
          thus thesis using step b1 b2 assms that(1) by auto
        next
          case (ok db3)
          note b3 = this
          show thesis
          proof (cases rule: call_db_cases [of db3])
            case (broke m db4)
            thus thesis using step b1 b2 b3 assms that(1,3) by (auto split: if_splits)
          next
            case (ok db4)
            thus thesis using step b1 b2 b3 assms that(3) that(4) [OF Some] Inr x
              by (auto split: if_splits)
          qed
        qed
      qed
    qed
  qed
qed

section \<open>The shape of the table\<close>

definition row_wf :: "job_row \<Rightarrow> bool" where
  "row_wf r \<longleftrightarrow> as_str (r_id r) \<noteq> None \<and> as_str (r_name r) \<noteq> None \<and> as_str (r_args r) \<noteq> None \<and>
     as_i64 (r_run_at r) \<noteq> None \<and> as_i64 (r_attempts r) \<noteq> None \<and> as_i64 (r_max_attempts r) \<noteq> None \<and>
     r_state r \<in> (Text \<circ> state_as_str) ` {Pending, Fanout, Claimed, Done, Failed} \<and>
     (in_state Claimed r \<longrightarrow> as_i64 (r_lease_until r) \<noteq> None) \<and>
     (\<not> in_state Claimed r \<longrightarrow> r_lease_until r = Null)"

definition jobs_wf :: "jobs_db \<Rightarrow> bool" where
  "jobs_wf db \<longleftrightarrow> list_all row_wf (rows db) \<and> distinct (map r_id (rows db))"

lemma as_str_some [simp]: "as_str v = Some x \<longleftrightarrow> v = Text x"
  by (cases v) auto

lemma as_i64_some [simp]: "as_i64 v = Some x \<longleftrightarrow> v = Integer x"
  by (cases v) auto

lemma state_as_str_inj [simp]: "state_as_str a = state_as_str b \<longleftrightarrow> a = b"
  by (cases a; cases b; simp)

lemma state_text_simps [simp]:
  "''pending'' = state_as_str a \<longleftrightarrow> a = Pending" "''fanout'' = state_as_str a \<longleftrightarrow> a = Fanout"
  "''claimed'' = state_as_str a \<longleftrightarrow> a = Claimed" "''done'' = state_as_str a \<longleftrightarrow> a = Done"
  "''failed'' = state_as_str a \<longleftrightarrow> a = Failed"
  by (cases a; simp)+

lemma state_parse_round: "state_parse (state_as_str a) = Some a"
  by (cases a) (simp_all add: state_parse_def)

lemma update_where_rows: "snd (update_where P f rs) = map (\<lambda>r. if P r then f r else r) rs"
  by (simp add: update_where_def)

text \<open>An update that keeps the identifier and the shape of the rows it touches keeps the table's.\<close>

lemma update_where_wf:
  assumes "list_all row_wf rs" and "distinct (map r_id rs)"
    and "\<And>r. row_wf r \<Longrightarrow> P r \<Longrightarrow> row_wf (f r) \<and> r_id (f r) = r_id r"
  shows "list_all row_wf (snd (update_where P f rs)) \<and> distinct (map r_id (snd (update_where P f rs)))"
proof -
  have "map r_id (snd (update_where P f rs)) = map r_id rs"
    using assms(1,3) by (auto simp: update_where_rows list_all_iff)
  moreover have "list_all row_wf (snd (update_where P f rs))"
    using assms(1,3) by (auto simp: update_where_rows list_all_iff)
  ultimately show ?thesis using assms(2) by simp
qed

lemma new_row_wf: "row_wf (new_row q)"
  by (simp add: row_wf_def new_row_def in_state_def text_or_null_def)

lemma insert_or_ignore_wf:
  "list_all row_wf rs \<Longrightarrow> distinct (map r_id rs) \<Longrightarrow>
   list_all row_wf (snd (insert_or_ignore (new_row q) rs)) \<and>
   distinct (map r_id (snd (insert_or_ignore (new_row q) rs)))"
  by (auto simp: insert_or_ignore_def new_row_wf)

lemma take_claim_wf:
  "list_all row_wf rs \<Longrightarrow> distinct (map r_id rs) \<Longrightarrow>
   list_all row_wf (snd (take_claim now lease i att st rs)) \<and>
   distinct (map r_id (snd (take_claim now lease i att st rs)))"
  unfolding take_claim_def by (rule update_where_wf) (auto simp: row_wf_def in_state_def)

lemma read_claim_wf: "row_wf r \<Longrightarrow> read_claim r \<noteq> Inl e"
  by (auto simp: row_wf_def read_claim_def Let_def)

lemma read_claim_some:
  assumes "read_claim r = Inr (job, att, st)"
  shows "r_id r = Text (cj_id job) \<and> r_state r = Text st \<and> r_name r = Text (cj_name job) \<and>
         r_args r = Text (cj_args job) \<and> cj_principal job = as_str (r_principal r) \<and>
         cj_cursor job = as_str (r_cursor r) \<and> cj_is_fanout job = in_state Fanout r \<and>
         cj_attempts job = u32_of_i64 att \<and>
         (\<exists>a m. r_attempts r = Integer a \<and> att = i64_sat_add a 1 \<and>
                r_max_attempts r = Integer m \<and> cj_max_attempts job = u32_of_i64 m)"
  using assms
  by (auto simp: read_claim_def Let_def in_state_def elim!: need.elims split: sum.splits)

text \<open>Every operation but a claim is one statement: \<open>job_stmt\<close> is its effect on the rows.\<close>

fun job_stmt :: "job_op \<Rightarrow> job_row list \<Rightarrow> nat \<times> job_row list" where
  "job_stmt (Enqueue_job q) = insert_or_ignore (new_row q)"
| "job_stmt (Complete_job i now) = update_where (has_id i)
     (\<lambda>r. r\<lparr>r_state := Text ''done'', r_lease_until := Null, r_last_error := Null, r_updated_at := Integer now\<rparr>)"
| "job_stmt (Redact_job i) = update_where (has_id i) (\<lambda>r. r\<lparr>r_args := Text ''{}''\<rparr>)"
| "job_stmt (Fail_job job now err jitter) =
     (let exhausted = cj_max_attempts job \<le> cj_attempts job in
      update_where (has_id (cj_id job))
        (\<lambda>r. r\<lparr>r_state := Text (state_as_str (if exhausted then Failed else Pending)),
               r_run_at := Integer (if exhausted then now
                                    else i64_sat_add now (backoff_ms (cj_attempts job) jitter)),
               r_lease_until := Null, r_last_error := Text (truncate_error err), r_updated_at := Integer now\<rparr>))"
| "job_stmt (Advance_job i c now) = update_where (has_id i)
     (\<lambda>r. r\<lparr>r_state := Text (state_as_str (if c = None then Done else Fanout)), r_cursor := text_or_null c,
            r_lease_until := Null, r_run_at := Integer now, r_updated_at := Integer now\<rparr>)"
| "job_stmt (Sweep_jobs b) = (\<lambda>rs.
     (length (filter (\<lambda>r. in_state Done r \<and> sql_lt (r_updated_at r) b) rs),
      filter (\<lambda>r. \<not> (in_state Done r \<and> sql_lt (r_updated_at r) b)) rs))"
| "job_stmt (Claim_job now lease) = (\<lambda>rs. (0, rs))"

fun is_claim :: "job_op \<Rightarrow> bool" where
  "is_claim (Claim_job _ _) = True"
| "is_claim _ = False"

definition op_answer :: "job_op \<Rightarrow> nat \<Rightarrow> job_answer" where
  "op_answer x n =
     (case x of
        Enqueue_job q \<Rightarrow> Enqueued (0 < n)
      | Fail_job job now err jitter \<Rightarrow>
          Retrying (if cj_max_attempts job \<le> cj_attempts job then None
                    else Some (i64_sat_add now (backoff_ms (cj_attempts job) jitter)))
      | Sweep_jobs b \<Rightarrow> Removed n
      | Claim_job now lease \<Rightarrow> Took None
      | _ \<Rightarrow> Finished)"

lemma then_execute:
  "then_db (execute_db stmt db) (\<lambda>n db. (Inr (g n), db)) =
   (case call_db db of
      (Inl e, db1) \<Rightarrow> (Inl e, db1)
    | (Inr _, db1) \<Rightarrow> (Inr (g (fst (stmt (rows db1)))), db1\<lparr>rows := snd (stmt (rows db1))\<rparr>))"
  by (cases "call_db db") (auto simp: execute_db_def split_beta split: sum.splits)

lemma apply_job_one_statement:
  assumes "\<not> is_claim x"
  shows "apply_job env x db =
    (case call_db db of
       (Inl e, db1) \<Rightarrow> (Broke e, db1)
     | (Inr _, db1) \<Rightarrow> (op_answer x (fst (job_stmt x (rows db1))), db1\<lparr>rows := snd (job_stmt x (rows db1))\<rparr>))"
proof (cases x)
  case (Fail_job job now err jitter)
  thus ?thesis
    by (cases "call_db db"; cases "cj_max_attempts job \<le> cj_attempts job")
      (auto simp: fail_job_def Let_def then_execute [where g = "\<lambda>_. None"]
        then_execute [where g = "\<lambda>_. Some t" for t] answer_def op_answer_def split: sum.splits)
next
  case (Advance_job i c now)
  thus ?thesis
    by (cases "call_db db"; cases c)
      (auto simp: advance_fanout_def then_execute [where g = "\<lambda>_. ()"] answer_def op_answer_def
        text_or_null_def split: sum.splits)
next
  case (Sweep_jobs b)
  thus ?thesis
    by (cases "call_db db")
      (auto simp: sweep_done_def execute_db_def answer_def op_answer_def Let_def split: sum.splits)
next
  case (Enqueue_job q)
  thus ?thesis
    by (cases "call_db db")
      (auto simp: enqueue_def then_execute answer_def op_answer_def split: sum.splits)
qed (use assms in \<open>cases "call_db db";
      auto simp: complete_def redact_args_def then_execute [where g = "\<lambda>_. ()"] answer_def op_answer_def
           split: sum.splits\<close>)+

lemma apply_job_cases:
  assumes "apply_job env x db = (a, db')" and "\<not> is_claim x"
  obtains (broke) m where "a = Broke (Substrate m)" "rows db' = rows db"
  | (ok) "a = op_answer x (fst (job_stmt x (rows db)))" "rows db' = snd (job_stmt x (rows db))"
  using assms(1) unfolding apply_job_one_statement [OF assms(2)]
  by (cases rule: call_db_cases [of db]) auto

lemma job_stmt_wf:
  assumes "list_all row_wf rs" and "distinct (map r_id rs)"
  shows "list_all row_wf (snd (job_stmt x rs)) \<and> distinct (map r_id (snd (job_stmt x rs)))"
proof (cases x)
  case (Enqueue_job q)
  thus ?thesis using assms by (simp add: insert_or_ignore_wf)
next
  case (Fail_job job now err jitter)
  thus ?thesis unfolding Fail_job job_stmt.simps Let_def
    by (intro update_where_wf assms) (auto simp: row_wf_def in_state_def)
next
  case (Sweep_jobs b)
  thus ?thesis using assms by (auto simp: list_all_iff intro: distinct_map_filter)
next
  case (Advance_job i c now)
  thus ?thesis unfolding Advance_job job_stmt.simps
    by (intro update_where_wf assms) (auto simp: row_wf_def in_state_def)
next
  case (Complete_job i now)
  thus ?thesis unfolding Complete_job job_stmt.simps
    by (intro update_where_wf assms) (auto simp: row_wf_def in_state_def)
next
  case (Redact_job i)
  thus ?thesis unfolding Redact_job job_stmt.simps
    by (intro update_where_wf assms) (auto simp: row_wf_def in_state_def)
qed (use assms in simp)

lemma claim_due_wf:
  assumes "claim_due (serial_env p) now lease db = (res, db')" and "jobs_wf db"
  shows "jobs_wf db'"
  using assms(1)
  by (cases rule: claim_due_cases)
    (use assms(2) take_claim_wf in \<open>auto simp: jobs_wf_def\<close>)

lemma apply_claim: "apply_job env (Claim_job now lease) db = (a, db') \<Longrightarrow>
  \<exists>res. claim_due env now lease db = (res, db') \<and> a = (case res of Inl e \<Rightarrow> Broke e | Inr j \<Rightarrow> Took j)"
  by (cases "claim_due env now lease db") (auto simp: answer_def)

lemma apply_claim_took:
  "apply_job env (Claim_job now lease) db = (Took x, db') \<Longrightarrow> claim_due env now lease db = (Inr x, db')"
  by (cases "claim_due env now lease db") (auto simp: answer_def split: sum.splits)

lemma apply_job_wf:
  assumes "apply_job (serial_env p) x db = (a, db')" and "jobs_wf db"
  shows "jobs_wf db'"
proof (cases "is_claim x")
  case True
  then obtain now lease where "x = Claim_job now lease" by (cases x) auto
  thus ?thesis using apply_claim claim_due_wf assms by metis
next
  case False
  show ?thesis
    using assms(1) False
  proof (cases rule: apply_job_cases)
    case ok
    thus ?thesis using assms(2) job_stmt_wf unfolding jobs_wf_def by auto
  qed (use assms(2) in \<open>simp add: jobs_wf_def\<close>)
qed

context oldest_first
begin

lemma claim_not_corrupt:
  assumes "claim_due (serial_env pick) now lease db = (Inl e, db')" and "jobs_wf db"
  shows "\<exists>m. e = Substrate m \<and> rows db' = rows db"
  using assms(1)
proof (cases rule: claim_due_cases)
  case (corrupt r e')
  hence "r \<in> set (rows db)" using pick_filter by blast
  thus ?thesis using corrupt read_claim_wf assms(2) by (auto simp: jobs_wf_def list_all_iff)
qed auto

lemma apply_job_not_corrupt:
  assumes "apply_job (serial_env pick) x db = (Broke e, db')" and "jobs_wf db"
  shows "\<exists>m. e = Substrate m \<and> rows db' = rows db"
proof (cases "is_claim x")
  case True
  then obtain now lease where x: "x = Claim_job now lease" by (cases x) auto
  then obtain res where "claim_due (serial_env pick) now lease db = (res, db')"
      "Broke e = (case res of Inl e \<Rightarrow> Broke e | Inr j \<Rightarrow> Took j)"
    using apply_claim assms(1) by blast
  thus ?thesis using claim_not_corrupt assms(2) by (cases res) auto
next
  case False
  show ?thesis
    using assms(1) False
    by (cases rule: apply_job_cases) (auto simp: op_answer_def split: job_op.splits)
qed

lemma run_jobs_not_corrupt:
  "jobs_wf db \<Longrightarrow> jobs_wf (snd (run_jobs (serial_env pick) xs db)) \<and>
     Broke (Corrupt c) \<notin> set (fst (run_jobs (serial_env pick) xs db))"
proof (induction xs arbitrary: db)
  case (Cons x xs)
  obtain a db' where "apply_job (serial_env pick) x db = (a, db')" by fastforce
  moreover from this have "jobs_wf db'" "a \<noteq> Broke (Corrupt c)"
    using apply_job_wf apply_job_not_corrupt Cons.prems by blast+
  ultimately show ?case using Cons.IH [of db'] by (auto simp: split_beta)
qed simp

end

definition demo_request :: "string \<Rightarrow> bool \<Rightarrow> enqueue_request" where
  "demo_request i fan =
     \<lparr>eq_id = i, eq_name = ''digest'', eq_args = ''{}'', eq_principal = None, eq_run_at_ms = 10,
      eq_max_attempts = 3, eq_fanout = fan\<rparr>"

definition demo_db :: "job_row list \<Rightarrow> jobs_db" where
  "demo_db rs = \<lparr>rows = rs, faults = []\<rparr>"

text \<open>C29. The queue never misreads itself: started on rows of the shape it writes, no sequence of
  operations ends with a row of another shape or two rows of one identifier, and no claim ever
  reports a corrupt row; and an operation that fails, at whichever of its calls to the storage,
  leaves every row as it was.\<close>

theorem queue_never_corrupt:
  assumes "oldest_first p" and "jobs_wf db"
  shows "jobs_wf (snd (run_jobs (serial_env p) xs db))
    \<and> Broke (Corrupt c) \<notin> set (fst (run_jobs (serial_env p) xs db))
    \<and> (\<forall>x e db'. apply_job (serial_env p) x db = (Broke e, db') \<longrightarrow> rows db' = rows db)"
  using oldest_first.run_jobs_not_corrupt [OF assms]
    oldest_first.apply_job_not_corrupt [OF assms(1) _ assms(2)] by blast

lemma demo_db_wf: "jobs_wf (demo_db [new_row (demo_request ''a'' False)])"
  by (simp add: jobs_wf_def demo_db_def new_row_wf)

lemma queue_never_corrupt_witness:
  "jobs_wf (snd (run_jobs queue_demo_env [Claim_job 10 5, Complete_job ''a'' 11, Sweep_jobs 20]
     (demo_db [new_row (demo_request ''a'' False)])))"
  using queue_never_corrupt [OF table_order.oldest_first_axioms demo_db_wf]
  unfolding queue_demo_env_def by blast

section \<open>Exactly once\<close>

fun is_sweep :: "job_op \<Rightarrow> bool" where
  "is_sweep (Sweep_jobs _) = True"
| "is_sweep _ = False"

fun asks :: "string \<Rightarrow> job_op \<Rightarrow> job_answer \<Rightarrow> bool" where
  \<comment> \<open>an enqueue of this identifier that was answered, not refused by the storage\<close>
  "asks i (Enqueue_job q) (Enqueued b) = (eq_id q = i)"
| "asks i _ _ = False"

fun lands :: "string \<Rightarrow> job_op \<Rightarrow> job_answer \<Rightarrow> bool" where
  "lands i (Enqueue_job q) (Enqueued b) = (eq_id q = i \<and> b)"
| "lands i _ _ = False"

definition holds_id :: "string \<Rightarrow> jobs_db \<Rightarrow> bool" where
  "holds_id i db \<longleftrightarrow> list_ex (has_id i) (rows db)"

lemma update_where_ids:
  "(\<And>r. r_id (f r) = r_id r) \<Longrightarrow> list_ex (has_id i) (snd (update_where P f rs)) = list_ex (has_id i) rs"
  unfolding update_where_rows by (induction rs) (auto simp: has_id_def)

lemma take_claim_ids: "list_ex (has_id i) (snd (take_claim now lease j att st rs)) = list_ex (has_id i) rs"
  unfolding take_claim_def by (rule update_where_ids) simp

lemma job_stmt_ids:
  assumes "\<not> is_sweep x" and "\<nexists>q. x = Enqueue_job q"
  shows "list_ex (has_id i) (snd (job_stmt x rs)) = list_ex (has_id i) rs"
  using assms by (cases x) (auto simp: Let_def update_where_ids)

lemma insert_or_ignore_ids:
  "list_ex (has_id i) (snd (insert_or_ignore (new_row q) rs)) \<longleftrightarrow> list_ex (has_id i) rs \<or> eq_id q = i"
  "0 < fst (insert_or_ignore (new_row q) rs) \<longleftrightarrow> \<not> list_ex (has_id (eq_id q)) rs"
  by (auto simp: insert_or_ignore_def new_row_def has_id_def list_ex_iff image_iff)

lemma id_step:
  assumes "apply_job (serial_env p) x db = (a, db')" and "\<not> is_sweep x"
  shows "(holds_id i db' \<longleftrightarrow> holds_id i db \<or> asks i x a) \<and> (lands i x a \<longleftrightarrow> asks i x a \<and> \<not> holds_id i db)"
proof (cases "is_claim x")
  case True
  then obtain now lease res where x: "x = Claim_job now lease"
      and c: "claim_due (serial_env p) now lease db = (res, db')"
    using apply_claim assms(1) by (metis is_claim.elims(2))
  have "holds_id i db' = holds_id i db"
    using c by (cases rule: claim_due_cases) (simp_all add: holds_id_def take_claim_ids)
  thus ?thesis by (simp add: x)
next
  case False
  show ?thesis
    using assms(1) False
  proof (cases rule: apply_job_cases)
    case (broke m)
    thus ?thesis by (cases x) (simp_all add: holds_id_def)
  next
    case ok
    thus ?thesis
      using assms(2) insert_or_ignore_ids job_stmt_ids [of x i "rows db"]
      by (cases x) (auto simp: holds_id_def op_answer_def)
  qed
qed

text \<open>C4. Exactly once: among any number of enqueues of one identifier, interleaved with any
  other operations except the sweep of finished rows, exactly one lands if the table did not hold
  the identifier before, the first whose write the storage did not refuse, and none if it did;
  and from then on the table holds it.\<close>

theorem enqueue_exactly_once:
  assumes "list_all (\<lambda>x. \<not> is_sweep x) xs"
  shows "run_jobs (serial_env p) xs db = (as, db') \<Longrightarrow>
    length (filter (\<lambda>(x, a). lands i x a) (zip xs as)) =
      (if holds_id i db then 0 else if list_ex (\<lambda>(x, a). asks i x a) (zip xs as) then 1 else 0)
    \<and> (holds_id i db' \<longleftrightarrow> holds_id i db \<or> list_ex (\<lambda>(x, a). asks i x a) (zip xs as))"
  using assms
proof (induction xs arbitrary: db as)
  case (Cons x xs)
  obtain a db1 where s: "apply_job (serial_env p) x db = (a, db1)" by fastforce
  obtain bs where r: "run_jobs (serial_env p) xs db1 = (bs, db')" and "as = a # bs"
    using Cons.prems(1) s by (auto simp: split_beta prod_eq_iff)
  thus ?case using Cons.IH [OF r] Cons.prems(2) id_step [OF s, of i] by auto
qed simp

lemma enqueue_exactly_once_witness:
  "length (filter (\<lambda>(x, a). lands ''tick'' x a)
     (zip [Enqueue_job (demo_request ''tick'' False), Enqueue_job (demo_request ''tick'' False)]
        [Enqueued True, Enqueued False])) = 1"
proof -
  let ?xs = "[Enqueue_job (demo_request ''tick'' False), Enqueue_job (demo_request ''tick'' False)]"
  have "run_jobs (serial_env first_oldest) ?xs (demo_db []) =
      ([Enqueued True, Enqueued False], demo_db [new_row (demo_request ''tick'' False)])"
    by (simp add: enqueue_def insert_or_ignore_def answer_def demo_db_def)
  from enqueue_exactly_once [OF _ this, of "''tick''"] show ?thesis
    by (simp add: holds_id_def demo_db_def demo_request_def)
qed

section \<open>Claims\<close>

lemma same_id_same_row:
  "jobs_wf db \<Longrightarrow> r \<in> set (rows db) \<Longrightarrow> r' \<in> set (rows db) \<Longrightarrow> r_id r = r_id r' \<Longrightarrow> r = r'"
  by (auto simp: jobs_wf_def distinct_map dest: inj_onD)

definition held :: "int \<Rightarrow> int \<Rightarrow> int \<Rightarrow> job_row \<Rightarrow> job_row" where
  "held now lease att r =
     r\<lparr>r_state := Text ''claimed'', r_lease_until := Integer (i64_sat_add now lease),
       r_attempts := Integer att, r_updated_at := Integer now\<rparr>"

lemma take_claim_row:
  assumes "jobs_wf db" and "r \<in> set (rows db)" and "read_claim r = Inr (job, att, st)"
  shows "take_claim now lease (cj_id job) att st (rows db) =
         (1, map (\<lambda>x. if x = r then held now lease att r else x) (rows db))"
proof -
  have sel: "has_id (cj_id job) x \<and> r_state x = Text st \<longleftrightarrow> x = r" if "x \<in> set (rows db)" for x
    using read_claim_some [OF assms(3)] same_id_same_row [OF assms(1) that assms(2)]
    by (auto simp: has_id_def)
  have "distinct (rows db)" using assms(1) by (auto simp: jobs_wf_def distinct_map)
  hence "length (filter (\<lambda>x. x = r) (rows db)) = 1"
    using assms(2) by (simp add: distinct_length_filter Int_absorb2 conj_commute Collect_conv_if)
  moreover have "filter (\<lambda>x. has_id (cj_id job) x \<and> r_state x = Text st) (rows db) = filter (\<lambda>x. x = r) (rows db)"
    using sel by (intro filter_cong) auto
  ultimately show ?thesis
    using sel by (auto simp: take_claim_def update_where_def held_def)
qed

context oldest_first
begin

lemma claim_due_exact:
  assumes "jobs_wf db" and "faults db = []"
  shows "((\<forall>r\<in>set (rows db). \<not> runnable now r) \<and> claim_due (serial_env pick) now lease db = (Inr None, db)) \<or>
    (\<exists>r\<in>set (rows db). \<exists>job att st. runnable now r \<and>
       (\<forall>r'\<in>set (rows db). runnable now r' \<longrightarrow> the (as_i64 (r_run_at r)) \<le> the (as_i64 (r_run_at r'))) \<and>
       read_claim r = Inr (job, att, st) \<and>
       claim_due (serial_env pick) now lease db =
         (Inr (Some job), db\<lparr>rows := map (\<lambda>x. if x = r then held now lease att r else x) (rows db)\<rparr>))"
proof (cases "pick (filter (runnable now) (rows db))")
  case None
  thus ?thesis using pick_none [of "filter (runnable now) (rows db)"] assms(2)
    by (auto simp: claim_due_def serial_env_def filter_empty_conv)
next
  case (Some r)
  hence r: "r \<in> set (rows db)" "runnable now r" using pick_filter by blast+
  then obtain job att st where rc: "read_claim r = Inr (job, att, st)"
    using read_claim_wf assms(1) by (metis jobs_wf_def list_all_iff prod_cases3 sum.exhaust)
  have wf: "\<And>x. x \<in> set (rows db) \<Longrightarrow> \<exists>t. r_run_at x = Integer t"
    using assms(1) by (auto simp: jobs_wf_def list_all_iff row_wf_def)
  have "the (as_i64 (r_run_at r)) \<le> the (as_i64 (r_run_at r'))" if "r' \<in> set (rows db)" "runnable now r'" for r'
  proof -
    obtain t t' where "r_run_at r = Integer t" "r_run_at r' = Integer t'"
      using wf [OF \<open>r' \<in> set (rows db)\<close>] wf [OF r(1)] by blast
    thus ?thesis using pick_oldest [OF Some, of r'] that by simp
  qed
  moreover have "claim_due (serial_env pick) now lease db =
         (Inr (Some job), db\<lparr>rows := map (\<lambda>x. if x = r then held now lease att r else x) (rows db)\<rparr>)"
    using Some rc assms(2) take_claim_row [OF assms(1) r(1) rc, of now lease]
    by (simp add: claim_due_def serial_env_def)
  ultimately show ?thesis using r rc by blast
qed

end

text \<open>A claim takes exactly the oldest runnable row, and nothing else: with no fault of the
  storage it answers nothing if and only if no row is due or expired, and otherwise hands out one
  runnable row than which none is older, with that row's own name, arguments and principal and
  one more attempt, marks it held until the end of the lease and changes no other row.\<close>

theorem claim_takes_oldest:
  assumes "oldest_first p" and "jobs_wf db" and "faults db = []"
  shows "((\<forall>r\<in>set (rows db). \<not> runnable now r) \<and> claim_due (serial_env p) now lease db = (Inr None, db)) \<or>
    (\<exists>r\<in>set (rows db). \<exists>job a. runnable now r \<and>
       (\<forall>r'\<in>set (rows db). runnable now r' \<longrightarrow> the (as_i64 (r_run_at r)) \<le> the (as_i64 (r_run_at r'))) \<and>
       r_id r = Text (cj_id job) \<and> r_name r = Text (cj_name job) \<and> r_args r = Text (cj_args job) \<and>
       cj_principal job = as_str (r_principal r) \<and> r_attempts r = Integer a \<and>
       cj_attempts job = u32_of_i64 (i64_sat_add a 1) \<and>
       claim_due (serial_env p) now lease db =
         (Inr (Some job), db\<lparr>rows := map (\<lambda>x. if x = r then held now lease (i64_sat_add a 1) r else x) (rows db)\<rparr>))"
  using oldest_first.claim_due_exact [OF assms, of now lease]
proof (elim disjE bexE exE conjE)
  fix r job att st
  assume "r \<in> set (rows db)" "read_claim r = Inr (job, att, st)" "runnable now r"
    "\<forall>r'\<in>set (rows db). runnable now r' \<longrightarrow> the (as_i64 (r_run_at r)) \<le> the (as_i64 (r_run_at r'))"
    "claim_due (serial_env p) now lease db =
       (Inr (Some job), db\<lparr>rows := map (\<lambda>x. if x = r then held now lease att r else x) (rows db)\<rparr>)"
  thus ?thesis using read_claim_some [of r job att st] by blast
qed simp

lemma claim_takes_oldest_witness:
  "fst (claim_due queue_demo_env 9 5 (demo_db [new_row (demo_request ''a'' False)])) = Inr None"
  using claim_takes_oldest [OF table_order.oldest_first_axioms demo_db_wf, of 9 5]
  by (auto simp: queue_demo_env_def demo_db_def runnable_def in_state_def new_row_def demo_request_def)

fun touches :: "string \<Rightarrow> job_op \<Rightarrow> bool" where
  "touches i (Complete_job j _) = (j = i)"
| "touches i (Redact_job j) = (j = i)"
| "touches i (Fail_job j _ _ _) = (cj_id j = i)"
| "touches i (Advance_job j _ _) = (j = i)"
| "touches i _ = False"

lemma update_where_kept: "r \<in> set rs \<Longrightarrow> \<not> P r \<Longrightarrow> r \<in> set (snd (update_where P f rs))"
  by (force simp: update_where_rows)

lemma job_stmt_kept:
  assumes "r \<in> set rs" and "has_id i r" and "\<not> touches i x" and "\<not> in_state Done r"
  shows "r \<in> set (snd (job_stmt x rs))"
  using assms
  by (cases x) (auto simp: Let_def insert_or_ignore_def has_id_def intro!: update_where_kept)

text \<open>A row that no operation names, that is not finished and that no claim may take stays as it is.\<close>

lemma row_kept:
  assumes "apply_job (serial_env p) x db = (a, db')" and "oldest_first p" and "jobs_wf db"
    and "r \<in> set (rows db)" and "has_id i r" and "\<not> touches i x" and "\<not> in_state Done r"
    and "\<And>now lease. x = Claim_job now lease \<Longrightarrow> \<not> runnable now r"
  shows "r \<in> set (rows db') \<and> (\<forall>job. a = Took (Some job) \<longrightarrow> cj_id job \<noteq> i)"
proof (cases "is_claim x")
  case True
  then obtain now lease res where x: "x = Claim_job now lease"
      and c: "claim_due (serial_env p) now lease db = (res, db')"
      and a: "a = (case res of Inl e \<Rightarrow> Broke e | Inr j \<Rightarrow> Took j)"
    using apply_claim assms(1) by (metis is_claim.elims(2))
  show ?thesis
    using c
  proof (cases rule: claim_due_cases)
    case (took r' job att st)
    hence r': "r' \<in> set (rows db)" "runnable now r'"
      using oldest_first.pick_filter [OF assms(2)] by blast+
    hence ne: "r' \<noteq> r" using assms(8) x by blast
    hence "cj_id job \<noteq> i"
      using same_id_same_row [OF assms(3) r'(1) assms(4)] read_claim_some [OF took(2)] assms(5)
      by (auto simp: has_id_def)
    thus ?thesis
      using took(3,4) ne assms(4) a by (auto simp: take_claim_row [OF assms(3) r'(1) took(2)])
  qed (use a assms(4) in auto)
next
  case False
  show ?thesis
    using assms(1) False
  proof (cases rule: apply_job_cases)
    case ok
    moreover have "a \<noteq> Took (Some job)" for job
      using ok(1) by (cases x) (simp_all add: op_answer_def)
    ultimately show ?thesis using job_stmt_kept [OF assms(4-7)] by simp
  qed (use assms(4) in auto)
qed

lemma row_kept_run:
  assumes "oldest_first p"
  shows "jobs_wf db \<Longrightarrow> r \<in> set (rows db) \<Longrightarrow> has_id i r \<Longrightarrow> \<not> in_state Done r \<Longrightarrow>
    list_all (\<lambda>x. \<not> touches i x \<and> (\<forall>now lease. x = Claim_job now lease \<longrightarrow> \<not> runnable now r)) xs \<Longrightarrow>
    run_jobs (serial_env p) xs db = (as, db') \<Longrightarrow>
    r \<in> set (rows db') \<and> (\<forall>job. Took (Some job) \<in> set as \<longrightarrow> cj_id job \<noteq> i)"
proof (induction xs arbitrary: db as)
  case (Cons x xs)
  obtain a db1 where s: "apply_job (serial_env p) x db = (a, db1)" by fastforce
  obtain bs where t: "run_jobs (serial_env p) xs db1 = (bs, db')" and "as = a # bs"
    using Cons.prems s by (auto simp: split_beta prod_eq_iff)
  moreover have "r \<in> set (rows db1) \<and> (\<forall>job. a = Took (Some job) \<longrightarrow> cj_id job \<noteq> i)"
    using row_kept [OF s assms] Cons.prems by auto
  moreover have "jobs_wf db1" using apply_job_wf [OF s] Cons.prems by blast
  ultimately show ?case using Cons.IH [of db1 bs] Cons.prems by auto
qed simp

section \<open>Leases and dead letters\<close>

fun claims_before :: "int \<Rightarrow> job_op \<Rightarrow> bool" where
  "claims_before t (Claim_job now _) = (now < t)"
| "claims_before t _ = True"

text \<open>C9. A lease is exclusive: once a claim has handed a job out, no other claim, however many
  runners there are and whatever else they do to other rows, hands the same job out before the
  lease has run out, unless its holder reports on it.\<close>

theorem lease_exclusive:
  assumes "oldest_first p" and "jobs_wf db"
    and "apply_job (serial_env p) (Claim_job now lease) db = (Took (Some job), db1)"
    and "list_all (\<lambda>x. \<not> touches (cj_id job) x \<and> claims_before (i64_sat_add now lease) x) xs"
    and "run_jobs (serial_env p) xs db1 = (as, db2)" and "Took (Some job') \<in> set as"
  shows "cj_id job' \<noteq> cj_id job"
proof -
  note c = apply_claim_took [OF assms(3)]
  then obtain r att st where p: "p (filter (runnable now) (rows db)) = Some r"
      and rc: "read_claim r = Inr (job, att, st)"
      and rs: "rows db1 = snd (take_claim now lease (cj_id job) att st (rows db))"
    by (cases rule: claim_due_cases) auto
  have r: "r \<in> set (rows db)" using oldest_first.pick_filter [OF assms(1) p] by blast
  let ?h = "held now lease att r"
  have "?h \<in> set (rows db1)" using r by (auto simp: rs take_claim_row [OF assms(2) r rc])
  moreover have "has_id (cj_id job) ?h" "in_state Claimed ?h" "r_lease_until ?h = Integer (i64_sat_add now lease)"
    using read_claim_some [OF rc] by (auto simp: held_def has_id_def in_state_def)
  moreover from this have "\<not> in_state Done ?h \<and> (\<forall>t. t < i64_sat_add now lease \<longrightarrow> \<not> runnable t ?h)"
    by (auto simp: in_state_def runnable_def)
  moreover from this have "list_all (\<lambda>x. \<not> touches (cj_id job) x \<and>
      (\<forall>t l. x = Claim_job t l \<longrightarrow> \<not> runnable t ?h)) xs"
    using assms(4) by (auto simp: list_all_iff)
  ultimately show ?thesis
    using row_kept_run [OF assms(1) claim_due_wf [OF c assms(2)], of ?h "cj_id job" xs as db2] assms(5,6)
    by blast
qed

lemma demo_claim:
  "apply_job queue_demo_env (Claim_job 10 5) (demo_db [new_row (demo_request ''a'' fan), new_row (demo_request ''b'' fan)]) =
   (Took (Some \<lparr>cj_id = ''a'', cj_name = ''digest'', cj_args = ''{}'', cj_principal = None, cj_attempts = 1,
          cj_max_attempts = 3, cj_cursor = None, cj_is_fanout = fan\<rparr>),
    demo_db [held 10 5 1 (new_row (demo_request ''a'' fan)), new_row (demo_request ''b'' fan)])"
  by (cases fan)
    (simp_all add: claim_due_def queue_demo_env_def serial_env_def demo_db_def runnable_def in_state_def new_row_def
      demo_request_def first_oldest_def run_at_key_def read_claim_def u32_of_i64_def text_or_null_def Let_def
      i64_sat_add_def i64_max_def i64_min_def take_claim_def update_where_def has_id_def answer_def held_def)

lemma lease_exclusive_witness:
  "\<exists>as db2. run_jobs queue_demo_env [Claim_job 12 5]
      (demo_db [held 10 5 1 (new_row (demo_request ''a'' False)), new_row (demo_request ''b'' False)]) = (as, db2)
    \<and> (\<forall>job'. Took (Some job') \<in> set as \<longrightarrow> cj_id job' \<noteq> ''a'')"
proof -
  have wf: "jobs_wf (demo_db [new_row (demo_request ''a'' False), new_row (demo_request ''b'' False)])"
    by (simp add: jobs_wf_def demo_db_def new_row_wf) (simp add: new_row_def demo_request_def)
  have "list_all (\<lambda>x. \<not> touches ''a'' x \<and> claims_before (i64_sat_add 10 5) x) [Claim_job 12 5]"
    by (simp add: i64_sat_add_def i64_max_def i64_min_def)
  moreover obtain as db2 where "run_jobs queue_demo_env [Claim_job 12 5]
      (demo_db [held 10 5 1 (new_row (demo_request ''a'' False)), new_row (demo_request ''b'' False)]) = (as, db2)"
    by fastforce
  ultimately show ?thesis
    using lease_exclusive [OF table_order.oldest_first_axioms wf demo_claim [unfolded queue_demo_env_def],
        of "[Claim_job 12 5]" as db2]
    by (simp add: queue_demo_env_def del: run_jobs.simps)
qed

text \<open>A dead letter is kept: a row that has failed for good is never claimed again and stays
  in the table unchanged through any sequence of enqueues, claims, sweeps and reports on other
  rows. The sweep deletes finished rows only.\<close>

theorem dead_letter_kept:
  assumes "oldest_first p" and "jobs_wf db" and "r \<in> set (rows db)" and "has_id i r" and "in_state Failed r"
    and "list_all (\<lambda>x. \<not> touches i x) xs" and "run_jobs (serial_env p) xs db = (as, db')"
  shows "r \<in> set (rows db') \<and> (\<forall>job. Took (Some job) \<in> set as \<longrightarrow> cj_id job \<noteq> i)"
proof (rule row_kept_run [OF assms(1-4) _ _ assms(7)])
  show "\<not> in_state Done r" using assms(5) by (simp add: in_state_def)
  have "\<not> runnable now r" for now using assms(5) by (simp add: in_state_def runnable_def)
  thus "list_all (\<lambda>x. \<not> touches i x \<and> (\<forall>now lease. x = Claim_job now lease \<longrightarrow> \<not> runnable now r)) xs"
    using assms(6) by (simp add: list_all_iff)
qed

definition demo_dead :: job_row where
  "demo_dead = (new_row (demo_request ''a'' False))\<lparr>r_state := Text ''failed''\<rparr>"

lemma dead_letter_kept_witness:
  "demo_dead \<in> set (rows (snd (run_jobs queue_demo_env [Claim_job 12 5, Sweep_jobs 100] (demo_db [demo_dead]))))"
proof -
  have "jobs_wf (demo_db [demo_dead])"
    by (simp add: jobs_wf_def demo_db_def row_wf_def demo_dead_def in_state_def)
      (simp add: new_row_def demo_request_def)
  moreover have "has_id ''a'' demo_dead" "in_state Failed demo_dead"
    by (simp_all add: demo_dead_def new_row_def demo_request_def has_id_def in_state_def)
  ultimately show ?thesis
    using dead_letter_kept [OF table_order.oldest_first_axioms, of "demo_db [demo_dead]" demo_dead "''a''"
        "[Claim_job 12 5, Sweep_jobs 100]"]
    by (simp add: queue_demo_env_def demo_db_def del: run_jobs.simps)
      (metis prod.collapse)
qed

section \<open>Retries\<close>

lemma round_half_even_le: "y \<le> of_int m \<Longrightarrow> round_half_even y \<le> m"
proof -
  assume y: "y \<le> of_int m"
  hence "\<lfloor>y\<rfloor> \<le> m" by linarith
  moreover have "round_half_even y = m" if "\<lfloor>y\<rfloor> = m"
  proof -
    have "y = of_int m" using y that by linarith
    thus ?thesis by (simp add: round_half_even_def)
  qed
  ultimately show ?thesis by (cases "\<lfloor>y\<rfloor> = m") (auto simp: round_half_even_def Let_def)
qed

lemma round_half_even_int [simp]: "round_half_even (of_int m) = m"
  by (simp add: round_half_even_def)

lemma f64_scale_pos: "0 < f64_scale x"
  by (simp add: f64_scale_def)

lemma f64_as_i64_le:
  assumes "x \<le> of_int n" and "0 \<le> n"
  shows "f64_as_i64 x \<le> n"
proof -
  have "round_half_even (x * of_int s) div s \<le> n" if "0 < s" for s :: int
  proof -
    have "x * of_int s \<le> of_int n * of_int s" using assms(1) that by (intro mult_right_mono) simp_all
    hence "round_half_even (x * of_int s) \<le> n * s" by (intro round_half_even_le) simp
    thus ?thesis using that zdiv_mono1 [of _ "n * s" s] by fastforce
  qed
  thus ?thesis using assms(2) f64_scale_pos by (simp add: f64_as_i64_def)
qed

lemma f64_as_i64_int: "0 \<le> n \<Longrightarrow> f64_as_i64 (of_int n) = n"
proof -
  have "round_half_even (of_int n * of_int s) div s = n" if "0 < s" for s :: int
    using that round_half_even_int [of "n * s"] by simp
  moreover assume "0 \<le> n"
  ultimately show ?thesis
    using f64_scale_pos by (cases "n = 0") (auto simp: f64_as_i64_def)
qed

lemma backoff_capped: "backoff_base_ms \<le> min (min i64_max (backoff_base_ms * 2 ^ k)) backoff_max_ms"
proof -
  have "(1 :: int) \<le> 2 ^ k" by simp
  thus ?thesis by (simp add: backoff_base_ms_def backoff_max_ms_def i64_max_def)
qed

lemma backoff_bounds: "backoff_base_ms \<le> backoff_ms a j \<and> backoff_ms a j \<le> backoff_max_ms"
proof -
  define c where "c = min (min i64_max (backoff_base_ms * 2 ^ min (unat a - 1) 32)) backoff_max_ms"
  have c: "backoff_base_ms \<le> c" "c \<le> backoff_max_ms"
    using backoff_capped unfolding c_def by (blast, simp)
  hence "0 \<le> c" by (simp add: backoff_base_ms_def)
  moreover from this have "of_int c * max 0 (min 1 j) \<le> (of_int c :: rat)"
    by (intro mult_left_le) auto
  ultimately have "f64_as_i64 (of_int c * max 0 (min 1 j)) \<le> c"
    by (intro f64_as_i64_le)
  thus ?thesis using c unfolding backoff_ms_def Let_def c_def [symmetric] by linarith
qed

lemma backoff_full:
  "backoff_ms a 1 = min (backoff_base_ms * 2 ^ min (unat a - 1) 32) backoff_max_ms"
proof -
  define c where "c = min (min i64_max (backoff_base_ms * 2 ^ min (unat a - 1) 32)) backoff_max_ms"
  have "backoff_base_ms \<le> c" using backoff_capped unfolding c_def by blast
  hence "backoff_ms a 1 = c"
    unfolding backoff_ms_def Let_def c_def [symmetric] by (simp add: backoff_base_ms_def f64_as_i64_int)
  moreover have "c = min (backoff_base_ms * 2 ^ min (unat a - 1) 32) backoff_max_ms"
  proof -
    have "min (min a b) c = min b c" if "c \<le> a" for a b c :: int using that by linarith
    thus ?thesis unfolding c_def by (simp add: i64_max_def backoff_max_ms_def)
  qed
  ultimately show ?thesis by simp
qed

lemma u32_of_i64_le:
  "0 \<le> a \<Longrightarrow> a < 2 ^ 32 \<Longrightarrow> 0 \<le> b \<Longrightarrow> b < 2 ^ 32 \<Longrightarrow> (u32_of_i64 a \<le> u32_of_i64 b) = (a \<le> b)"
  by (simp add: u32_of_i64_def word_le_def uint_word_of_int)

text \<open>A row about to be claimed: attempts so far \<open>k\<close>, allowance \<open>m\<close>.\<close>

definition ready :: "string \<Rightarrow> int \<Rightarrow> int \<Rightarrow> job_row \<Rightarrow> bool" where
  "ready i k m r \<longleftrightarrow> has_id i r \<and> as_str (r_name r) \<noteq> None \<and> as_str (r_args r) \<noteq> None \<and>
     as_str (r_state r) \<noteq> None \<and> r_attempts r = Integer k \<and> r_max_attempts r = Integer m"

lemma ready_new_row: "ready (eq_id q) 0 (int (unat (eq_max_attempts q))) (new_row q)"
  by (simp add: ready_def new_row_def has_id_def)

lemma ready_held: "ready i k m r \<Longrightarrow> ready i (i64_sat_add k 1) m (held now lease (i64_sat_add k 1) r)"
  by (simp add: ready_def held_def has_id_def)

lemma i64_sat_add_id: "i64_min \<le> a + b \<Longrightarrow> a + b \<le> i64_max \<Longrightarrow> i64_sat_add a b = a + b"
  by (simp add: i64_sat_add_def)

context oldest_first
begin

lemma pick_single: "pick [r] = Some r"
  using pick_some [of r "[r]"] pick_in [of "[r]"] by force

text \<open>A claim on a table of one runnable row takes it.\<close>

lemma claim_single:
  assumes "ready i k m r" and "runnable now r"
  shows "\<exists>job. claim_due (serial_env pick) now lease \<lparr>rows = [r], faults = []\<rparr> =
      (Inr (Some job), \<lparr>rows = [held now lease (i64_sat_add k 1) r], faults = []\<rparr>) \<and>
    cj_id job = i \<and> cj_attempts job = u32_of_i64 (i64_sat_add k 1) \<and> cj_max_attempts job = u32_of_i64 m"
  using assms pick_single
  by (auto simp: ready_def claim_due_def serial_env_def read_claim_def Let_def has_id_def
      take_claim_def update_where_def held_def)

end

fun fail_rounds :: "queue_env \<Rightarrow> int \<Rightarrow> (int \<times> string \<times> rat) list \<Rightarrow> jobs_db \<Rightarrow> nat \<times> jobs_db" where
  \<comment> \<open>a runner whose job fails whenever it runs: a claim at each instant, and a failure reported\<close>
  "fail_rounds env lease [] db = (0, db)"
| "fail_rounds env lease ((now, err, jitter) # ts) db =
     (case claim_due env now lease db of
        (Inr (Some job), db1) \<Rightarrow>
          let (n, db2) = fail_rounds env lease ts (snd (fail_job job now err jitter db1)) in (Suc n, db2)
      | (_, db1) \<Rightarrow> fail_rounds env lease ts db1)"

fun spaced :: "int \<Rightarrow> (int \<times> string \<times> rat) list \<Rightarrow> bool" where
  "spaced t [] = True"
| "spaced t ((now, _) # ts) = (t \<le> now \<and> 0 \<le> now \<and> now + backoff_max_ms \<le> i64_max \<and> spaced (now + backoff_max_ms) ts)"

lemma spaced_mono: "t \<le> t' \<Longrightarrow> spaced t' ts \<Longrightarrow> spaced t ts"
  by (cases ts) auto

lemma fail_rounds_idle:
  assumes "oldest_first p" and "in_state Failed r"
  shows "fail_rounds (serial_env p) lease ts \<lparr>rows = [r], faults = []\<rparr> = (0, \<lparr>rows = [r], faults = []\<rparr>)"
proof (induction ts)
  case (Cons x ts)
  obtain now err j where x: "x = (now, err, j)" by (rule prod_cases3)
  have "\<not> runnable now r" using assms(2) by (simp add: in_state_def runnable_def)
  hence "claim_due (serial_env p) now lease \<lparr>rows = [r], faults = []\<rparr> = (Inr None, \<lparr>rows = [r], faults = []\<rparr>)"
    using oldest_first.pick_none [OF assms(1), of "[]"] by (simp add: claim_due_def serial_env_def)
  thus ?case using Cons.IH x by simp
qed simp

lemma fail_rounds_run:
  assumes p: "oldest_first p"
  shows "ready i (int k) (int m) r \<Longrightarrow> in_state Pending r \<Longrightarrow> r_run_at r = Integer t \<Longrightarrow> k < m \<Longrightarrow>
    m < 2 ^ 32 \<Longrightarrow> spaced t ts \<Longrightarrow>
    fail_rounds (serial_env p) lease ts \<lparr>rows = [r], faults = []\<rparr> = (n, db') \<Longrightarrow>
    n = min (length ts) (m - k) \<and> faults db' = [] \<and>
    (\<exists>r'. rows db' = [r'] \<and> r_attempts r' = Integer (int (k + n)) \<and>
          in_state (if m - k \<le> length ts then Failed else Pending) r')"
proof (induction ts arbitrary: k r t n)
  case Nil
  thus ?case by (auto simp: ready_def)
next
  case (Cons x ts)
  obtain now err j where x: "x = (now, err, j)" by (rule prod_cases3)
  have now: "t \<le> now" "0 \<le> now" "now + backoff_max_ms \<le> i64_max" "spaced (now + backoff_max_ms) ts"
    using Cons.prems x by auto
  have k1: "i64_sat_add (int k) 1 = int (Suc k)"
    using Cons.prems(4,5) by (simp add: i64_sat_add_def i64_max_def i64_min_def)
  obtain job where c: "claim_due (serial_env p) now lease \<lparr>rows = [r], faults = []\<rparr> =
      (Inr (Some job), \<lparr>rows = [held now lease (int (Suc k)) r], faults = []\<rparr>)"
    and job: "cj_id job = i" "cj_attempts job = u32_of_i64 (int (Suc k))" "cj_max_attempts job = u32_of_i64 (int m)"
    using oldest_first.claim_single [OF p Cons.prems(1), of now lease] Cons.prems(2,3) now(1) k1
    by (auto simp: runnable_def)
  have ex: "cj_max_attempts job \<le> cj_attempts job \<longleftrightarrow> m \<le> Suc k"
  proof -
    have "int m < 2 ^ 32" "int (Suc k) < 2 ^ 32" using Cons.prems(4,5) by simp_all
    thus ?thesis using u32_of_i64_le [of "int m" "int (Suc k)"] by (simp only: job) linarith
  qed
  let ?h = "held now lease (int (Suc k)) r"
  let ?u = "now + backoff_ms (cj_attempts job) j"
  have u: "i64_sat_add now (backoff_ms (cj_attempts job) j) = ?u"
    using backoff_bounds [of "cj_attempts job" j] now(2,3)
    by (intro i64_sat_add_id) (auto simp: backoff_base_ms_def i64_min_def)
  define r1 where "r1 = ?h\<lparr>r_state := Text (state_as_str (if m \<le> Suc k then Failed else Pending)),
      r_run_at := Integer (if m \<le> Suc k then now else ?u), r_lease_until := Null,
      r_last_error := Text (truncate_error err), r_updated_at := Integer now\<rparr>"
  have id: "has_id i ?h" using Cons.prems(1) by (simp add: ready_def held_def has_id_def)
  have f: "snd (fail_job job now err j \<lparr>rows = [?h], faults = []\<rparr>) = \<lparr>rows = [r1], faults = []\<rparr>"
    using id ex u job(1) by (simp add: fail_job_def Let_def update_where_def r1_def)
  obtain n1 where n1: "fail_rounds (serial_env p) lease ts \<lparr>rows = [r1], faults = []\<rparr> = (n1, db')" "n = Suc n1"
    using Cons.prems(7) x c f by (auto simp: split_beta prod_eq_iff)
  have rd: "ready i (int (Suc k)) (int m) r1"
    using Cons.prems(1) by (simp add: ready_def r1_def held_def has_id_def)
  show ?case
  proof (cases "m \<le> Suc k")
    case True
    hence "in_state Failed r1" by (simp add: r1_def in_state_def)
    thus ?thesis
      using n1 rd fail_rounds_idle [OF p] True Cons.prems(4) by (auto simp: ready_def)
  next
    case False
    have "in_state Pending r1" "r_run_at r1 = Integer ?u" using False by (simp_all add: r1_def in_state_def)
    moreover have "spaced ?u ts"
      using spaced_mono [OF _ now(4), of ?u] backoff_bounds [of "cj_attempts job" j] by linarith
    moreover have "m - k \<le> length (x # ts) \<longleftrightarrow> m - Suc k \<le> length ts"
      "min (length (x # ts)) (m - k) = Suc (min (length ts) (m - Suc k))" using False by auto
    ultimately show ?thesis
      using Cons.IH [OF rd _ _ _ Cons.prems(5) _ n1(1)] False n1(2) by (auto simp del: list.size)
  qed
qed

text \<open>A failing job is tried exactly as often as it is allowed to be and then becomes a dead
  letter: claimed and failed at instants one maximal delay apart, it runs once per instant until
  it has used up its attempts and never again, and it is in the state \<open>failed\<close> exactly from then
  on. Every delay in between is at least a second and at most an hour, and without jitter doubles
  from one second up to the hour.\<close>

theorem failing_job_dead_letters:
  assumes "oldest_first p" and "eq_max_attempts q \<noteq> 0" and "\<not> eq_fanout q" and "spaced (eq_run_at_ms q) ts"
    and "fail_rounds (serial_env p) lease ts \<lparr>rows = [new_row q], faults = []\<rparr> = (n, db')"
  shows "n = min (length ts) (unat (eq_max_attempts q))
    \<and> (\<exists>r. rows db' = [r] \<and> r_attempts r = Integer (int n)
          \<and> in_state (if unat (eq_max_attempts q) \<le> length ts then Failed else Pending) r)
    \<and> backoff_base_ms \<le> backoff_ms a j \<and> backoff_ms a j \<le> backoff_max_ms
    \<and> backoff_ms a 1 = min (backoff_base_ms * 2 ^ min (unat a - 1) 32) backoff_max_ms"
proof -
  have "in_state Pending (new_row q)" "r_run_at (new_row q) = Integer (eq_run_at_ms q)"
    using assms(3) by (simp_all add: new_row_def in_state_def)
  moreover have "0 < unat (eq_max_attempts q)" using assms(2) by (simp add: unat_gt_0)
  moreover have "unat (eq_max_attempts q) < 2 ^ 32" using unat_lt_32 by simp
  ultimately have "n = min (length ts) (unat (eq_max_attempts q)) \<and>
      (\<exists>r. rows db' = [r] \<and> r_attempts r = Integer (int n)
          \<and> in_state (if unat (eq_max_attempts q) \<le> length ts then Failed else Pending) r)"
    using fail_rounds_run [OF assms(1), of "eq_id q" 0 "unat (eq_max_attempts q)" "new_row q"]
      ready_new_row [of q] assms(4,5) by force
  thus ?thesis using backoff_bounds backoff_full by blast
qed

lemma failing_job_dead_letters_witness:
  "fst (fail_rounds queue_demo_env 5 (map (\<lambda>k. (4000000 * (int k + 1), ''down'', 1 / 2)) [0..<5])
     \<lparr>rows = [new_row (demo_request ''a'' False)], faults = []\<rparr>) = 3"
proof -
  let ?ts = "map (\<lambda>k. (4000000 * (int k + 1), ''down'', 1 / 2)) [0..<5]"
  have "spaced (eq_run_at_ms (demo_request ''a'' False)) ?ts"
    by (simp add: demo_request_def backoff_max_ms_def i64_max_def upt_rec)
  moreover obtain n db' where "fail_rounds queue_demo_env 5 ?ts
     \<lparr>rows = [new_row (demo_request ''a'' False)], faults = []\<rparr> = (n, db')" by fastforce
  ultimately show ?thesis
    using failing_job_dead_letters [OF table_order.oldest_first_axioms, of "demo_request ''a'' False" ?ts 5 n db']
    by (simp add: queue_demo_env_def demo_request_def)
qed

section \<open>What a lease that runs out does to a row\<close>

fun revives :: "string \<Rightarrow> job_op \<Rightarrow> bool" where
  "revives i (Enqueue_job q) = (eq_id q = i)"
| "revives i (Advance_job j _ _) = (j = i)"
| "revives i _ = False"

definition not_fanout :: "string \<Rightarrow> job_row list \<Rightarrow> bool" where
  "not_fanout i rs \<longleftrightarrow> list_all (\<lambda>r. has_id i r \<longrightarrow> \<not> in_state Fanout r) rs"

lemma not_fanout_update:
  assumes "not_fanout i rs" and "\<And>r. r_id (f r) = r_id r"
    and "\<And>r. P r \<Longrightarrow> has_id i r \<Longrightarrow> \<not> in_state Fanout r \<Longrightarrow> \<not> in_state Fanout (f r)"
  shows "not_fanout i (snd (update_where P f rs))"
  using assms by (auto simp: not_fanout_def update_where_rows list_all_iff has_id_def)

lemma not_fanout_stmt:
  assumes "not_fanout i rs" and "\<not> revives i x"
  shows "not_fanout i (snd (job_stmt x rs))"
proof (cases x)
  case (Enqueue_job q)
  thus ?thesis using assms by (auto simp: not_fanout_def insert_or_ignore_def new_row_def has_id_def)
next
  case (Sweep_jobs b)
  thus ?thesis using assms by (auto simp: not_fanout_def list_all_iff)
next
  case (Advance_job j c now)
  thus ?thesis unfolding Advance_job job_stmt.simps
    by (intro not_fanout_update assms) (use assms(2) Advance_job in \<open>auto simp: has_id_def\<close>)
next
  case (Fail_job job now err jitter)
  thus ?thesis unfolding Fail_job job_stmt.simps Let_def
    by (intro not_fanout_update assms) (auto simp: in_state_def)
next
  case (Complete_job j now)
  thus ?thesis unfolding Complete_job job_stmt.simps
    by (intro not_fanout_update assms) (auto simp: in_state_def)
next
  case (Redact_job j)
  thus ?thesis unfolding Redact_job job_stmt.simps
    by (intro not_fanout_update assms) (auto simp: in_state_def)
qed (use assms in simp)

lemma not_fanout_claim:
  "not_fanout i rs \<Longrightarrow> not_fanout i (snd (take_claim now lease j att st rs))"
  unfolding take_claim_def by (rule not_fanout_update) (auto simp: in_state_def)

lemma not_fanout_step:
  assumes "apply_job (serial_env p) x db = (a, db')" and "oldest_first p"
    and "not_fanout i (rows db)" and "\<not> revives i x"
  shows "not_fanout i (rows db') \<and> (\<forall>job. a = Took (Some job) \<and> cj_id job = i \<longrightarrow> \<not> cj_is_fanout job)"
proof (cases "is_claim x")
  case True
  then obtain now lease res where c: "claim_due (serial_env p) now lease db = (res, db')"
      and a: "a = (case res of Inl e \<Rightarrow> Broke e | Inr j \<Rightarrow> Took j)"
    using apply_claim assms(1) by (metis is_claim.elims(2))
  show ?thesis
    using c
  proof (cases rule: claim_due_cases)
    case (took r job att st)
    have "r \<in> set (rows db)" using oldest_first.pick_filter [OF assms(2) took(1)] by blast
    thus ?thesis
      using took(3,4) a assms(3) not_fanout_claim read_claim_some [OF took(2)]
      by (auto simp: not_fanout_def list_all_iff has_id_def)
  qed (use a assms(3) in auto)
next
  case False
  show ?thesis
    using assms(1) False
  proof (cases rule: apply_job_cases)
    case ok
    moreover have "a \<noteq> Took (Some job)" for job
      using ok(1) by (cases x) (simp_all add: op_answer_def)
    ultimately show ?thesis using not_fanout_stmt [OF assms(3,4)] by simp
  qed (use assms(3) in auto)
qed

lemma not_fanout_run:
  assumes "oldest_first p"
  shows "not_fanout i (rows db) \<Longrightarrow> list_all (\<lambda>x. \<not> revives i x) xs \<Longrightarrow>
    run_jobs (serial_env p) xs db = (as, db') \<Longrightarrow>
    \<forall>job. Took (Some job) \<in> set as \<and> cj_id job = i \<longrightarrow> \<not> cj_is_fanout job"
proof (induction xs arbitrary: db as)
  case (Cons x xs)
  obtain a db1 where s: "apply_job (serial_env p) x db = (a, db1)" by fastforce
  obtain bs where "run_jobs (serial_env p) xs db1 = (bs, db')" and "as = a # bs"
    using Cons.prems s by (auto simp: split_beta prod_eq_iff)
  thus ?case using not_fanout_step [OF s assms] Cons.prems Cons.IH [of db1 bs] by auto
qed simp

text \<open>The expansion of a fan-out does not survive an interruption: once a fan-out row has
  been claimed, then unless that very expansion is advanced (or the row is swept and enqueued
  anew), every later claim of it, after the lease ran out or after the expansion was reported as
  failed, hands it out as an ordinary job to be run once, for nobody.\<close>

theorem interrupted_fanout_lost:
  assumes "oldest_first p" and "jobs_wf db"
    and "apply_job (serial_env p) (Claim_job now lease) db = (Took (Some job), db1)"
    and "list_all (\<lambda>x. \<not> revives (cj_id job) x) xs" and "run_jobs (serial_env p) xs db1 = (as, db2)"
    and "Took (Some job') \<in> set as" and "cj_id job' = cj_id job"
  shows "\<not> cj_is_fanout job'"
proof -
  from apply_claim_took [OF assms(3)] obtain r att st where
      pr: "p (filter (runnable now) (rows db)) = Some r" and rc: "read_claim r = Inr (job, att, st)"
      and rs: "rows db1 = snd (take_claim now lease (cj_id job) att st (rows db))"
    by (cases rule: claim_due_cases) auto
  have r: "r \<in> set (rows db)" using oldest_first.pick_filter [OF assms(1) pr] by blast
  have "x = r" if "x \<in> set (rows db)" "has_id (cj_id job) x" for x
    using same_id_same_row [OF assms(2) that(1) r] that(2) read_claim_some [OF rc] by (simp add: has_id_def)
  hence "not_fanout (cj_id job) (rows db1)"
    by (auto simp: rs take_claim_row [OF assms(2) r rc] not_fanout_def list_all_iff held_def in_state_def)
  thus ?thesis using not_fanout_run [OF assms(1) _ assms(4,5)] assms(6,7) by blast
qed

lemma interrupted_fanout_lost_witness:
  "\<exists>as job'. Took (Some job') \<in> set as \<and> cj_id job' = ''a'' \<and> \<not> cj_is_fanout job' \<and>
     as = fst (run_jobs queue_demo_env [Claim_job 15 5]
       (demo_db [held 10 5 1 (new_row (demo_request ''a'' True)), new_row (demo_request ''b'' True)]))"
proof -
  let ?d = "demo_db [held 10 5 1 (new_row (demo_request ''a'' True)), new_row (demo_request ''b'' True)]"
  have wf: "jobs_wf (demo_db [new_row (demo_request ''a'' True), new_row (demo_request ''b'' True)])"
    by (simp add: jobs_wf_def demo_db_def new_row_wf) (simp add: new_row_def demo_request_def)
  obtain job' db2 where r: "run_jobs queue_demo_env [Claim_job 15 5] ?d = ([Took (Some job')], db2)"
      and i: "cj_id job' = ''a''"
    by (simp add: claim_due_def queue_demo_env_def serial_env_def demo_db_def runnable_def in_state_def new_row_def
      demo_request_def first_oldest_def run_at_key_def read_claim_def u32_of_i64_def text_or_null_def Let_def
      i64_sat_add_def i64_max_def i64_min_def take_claim_def update_where_def has_id_def answer_def held_def)
  have "\<not> cj_is_fanout job'"
    using interrupted_fanout_lost [OF table_order.oldest_first_axioms wf
        demo_claim [unfolded queue_demo_env_def] _ r [unfolded queue_demo_env_def], of job'] i
    by simp
  thus ?thesis using r i by (intro exI [of _ "[Took (Some job')]"] exI [of _ job']) simp
qed

definition overdue_claims :: "int \<Rightarrow> int list \<Rightarrow> bool" where
  \<comment> \<open>claim times each at or past the end of the lease the one before took\<close>
  "overdue_claims lease ts \<longleftrightarrow> sorted_wrt (\<lambda>t t'. t + lease \<le> t') ts \<and>
     list_all (\<lambda>t. 0 \<le> t \<and> t + lease \<le> i64_max) ts"

lemma reclaim_run:
  assumes p: "oldest_first p" and l: "0 \<le> lease"
  shows "ready i (int k) m r \<Longrightarrow> ts \<noteq> [] \<longrightarrow> runnable (hd ts) r \<Longrightarrow> overdue_claims lease ts \<Longrightarrow>
    k + length ts < 2 ^ 32 \<Longrightarrow>
    list_all2 (\<lambda>a n. \<exists>job. a = Took (Some job) \<and> cj_id job = i \<and> cj_attempts job = of_nat n \<and> cj_max_attempts job = u32_of_i64 m)
      (fst (run_jobs (serial_env p) (map (\<lambda>t. Claim_job t lease) ts) \<lparr>rows = [r], faults = []\<rparr>))
      [Suc k..<Suc (k + length ts)]"
proof (induction ts arbitrary: k r)
  case (Cons t ts)
  have k1: "i64_sat_add (int k) 1 = int (Suc k)"
    using Cons.prems(4) by (simp add: i64_sat_add_def i64_max_def i64_min_def)
  obtain job where c: "claim_due (serial_env p) t lease \<lparr>rows = [r], faults = []\<rparr> =
      (Inr (Some job), \<lparr>rows = [held t lease (int (Suc k)) r], faults = []\<rparr>)"
    and job: "cj_id job = i" "cj_attempts job = u32_of_i64 (int (Suc k))" "cj_max_attempts job = u32_of_i64 m"
    using oldest_first.claim_single [OF p Cons.prems(1), of t lease] Cons.prems(2) k1 by auto
  let ?h = "held t lease (int (Suc k)) r"
  have "u32_of_i64 (int (Suc k)) = of_nat (Suc k)"
    using Cons.prems(4) by (simp add: u32_of_i64_def)
  moreover have "ready i (int (Suc k)) m ?h" using ready_held [OF Cons.prems(1)] k1 by simp
  moreover have "ts \<noteq> [] \<longrightarrow> runnable (hd ts) ?h"
  proof
    assume "ts \<noteq> []"
    hence "t + lease \<le> hd ts" using Cons.prems(3) by (auto simp: overdue_claims_def)
    moreover have "i64_sat_add t lease = t + lease"
      using Cons.prems(3) l by (intro i64_sat_add_id) (auto simp: overdue_claims_def i64_min_def)
    ultimately show "runnable (hd ts) ?h" by (simp add: runnable_def in_state_def held_def)
  qed
  moreover have "overdue_claims lease ts" using Cons.prems(3) by (auto simp: overdue_claims_def)
  moreover have "[Suc k..<Suc (k + length (t # ts))] = Suc k # [Suc (Suc k)..<Suc (Suc k + length ts)]"
    by (simp add: upt_rec)
  ultimately show ?case
    using Cons.IH [of "Suc k" ?h] Cons.prems(4) c job by (simp add: answer_def split_beta)
qed simp

text \<open>A job that kills the process it runs in is never dead-lettered: claimed again each time
  its lease has run out and never reported on, it is handed out every single time, with one
  attempt more and however few it was allowed.\<close>

theorem crash_loop_unbounded:
  assumes "oldest_first p" and "0 \<le> lease" and "overdue_claims lease ts" and "ts \<noteq> []"
    and "eq_run_at_ms q \<le> hd ts" and "length ts < 2 ^ 32"
  shows "list_all2 (\<lambda>a n. \<exists>job. a = Took (Some job) \<and> cj_id job = eq_id q \<and> cj_attempts job = of_nat n
             \<and> cj_max_attempts job = eq_max_attempts q)
      (fst (run_jobs (serial_env p) (map (\<lambda>t. Claim_job t lease) ts) \<lparr>rows = [new_row q], faults = []\<rparr>))
      [1..<Suc (length ts)]"
proof -
  have "runnable (hd ts) (new_row q)"
    using assms(5) by (cases "eq_fanout q") (simp_all add: runnable_def in_state_def new_row_def)
  moreover have "u32_of_i64 (int (unat (eq_max_attempts q))) = eq_max_attempts q"
    using uint_lt2p [of "eq_max_attempts q"] by (simp add: u32_of_i64_def)
  ultimately show ?thesis
    using reclaim_run [OF assms(1,2), of "eq_id q" 0 "int (unat (eq_max_attempts q))" "new_row q" ts]
      ready_new_row [of q] assms(3,6) by (simp del: upt_Suc)
qed

lemma crash_loop_unbounded_witness:
  "list_all2 (\<lambda>a n. \<exists>job. a = Took (Some job) \<and> cj_id job = ''a'' \<and> cj_attempts job = of_nat n \<and> cj_max_attempts job = 3)
     (fst (run_jobs queue_demo_env (map (\<lambda>t. Claim_job t 5) [10, 20, 30, 40, 50])
       \<lparr>rows = [new_row (demo_request ''a'' False)], faults = []\<rparr>)) [1..<6]"
  using crash_loop_unbounded [OF table_order.oldest_first_axioms, of 5 "[10, 20, 30, 40, 50]" "demo_request ''a'' False"]
  by (simp add: queue_demo_env_def overdue_claims_def i64_max_def demo_request_def upt_rec del: run_jobs.simps)

section \<open>The guard of the claim\<close>

definition rival_claim :: "(job_row list \<Rightarrow> job_row option) \<Rightarrow> int \<Rightarrow> int \<Rightarrow> job_row list \<Rightarrow> job_row list" where
  \<comment> \<open>another runner's whole claim, between the two statements of ours\<close>
  "rival_claim p now lease rs = rows (snd (claim_due (serial_env p) now lease \<lparr>rows = rs, faults = []\<rparr>))"

text \<open>Without serialised writers the guard on the claim's update is half of the protection it
  is documented to be: when another runner's whole claim comes between our select and our update,
  our claim gives the row up if it was a new one, and both runners are handed the job if it was
  one whose lease had run out.\<close>

theorem claim_guard_half:
  assumes "oldest_first p" and "jobs_wf db" and "faults db = []"
    and "claim_due (serial_env p) now lease db = (Inr (Some job), db1)"
  shows "\<exists>r\<in>set (rows db). has_id (cj_id job) r \<and>
    fst (claim_due \<lparr>pick = p, between = rival_claim p now lease\<rparr> now lease db) =
      Inr (if in_state Claimed r then Some job else None)"
proof -
  from assms(4) obtain r att st where pr: "p (filter (runnable now) (rows db)) = Some r"
      and rc: "read_claim r = Inr (job, att, st)"
      and rs: "rows db1 = snd (take_claim now lease (cj_id job) att st (rows db))"
    by (cases rule: claim_due_cases) auto
  have r: "r \<in> set (rows db)" using oldest_first.pick_filter [OF assms(1) pr] by blast
  have db: "\<lparr>rows = rows db, faults = []\<rparr> = db" using assms(3) by (cases db) simp
  have rv: "rival_claim p now lease (rows db) = map (\<lambda>x. if x = r then held now lease att r else x) (rows db)"
    using rs assms(4) by (simp add: rival_claim_def db take_claim_row [OF assms(2) r rc])
  note rr = read_claim_some [OF rc]
  have "has_id (cj_id job) x \<longleftrightarrow> x = r" if "x \<in> set (rows db)" for x
    using same_id_same_row [OF assms(2) that r] rr by (auto simp: has_id_def)
  hence "fst (take_claim now lease (cj_id job) att st (rival_claim p now lease (rows db))) = 0 \<longleftrightarrow> \<not> in_state Claimed r"
    using r rr unfolding rv
    by (auto simp: take_claim_def update_where_def filter_empty_conv held_def in_state_def has_id_def)
  moreover have "has_id (cj_id job) r" using rr by (simp add: has_id_def)
  ultimately show ?thesis
    using r pr rc assms(3)
    by (intro bexI [of _ r]) (auto simp: claim_due_def split_beta Let_def)
qed

lemma claim_guard_half_witness:
  "fst (claim_due \<lparr>pick = first_oldest, between = rival_claim first_oldest 10 5\<rparr> 10 5
     (demo_db [new_row (demo_request ''a'' False), new_row (demo_request ''b'' False)])) = Inr None"
proof -
  let ?db = "demo_db [new_row (demo_request ''a'' False), new_row (demo_request ''b'' False)]"
  have wf: "jobs_wf ?db"
    by (simp add: jobs_wf_def demo_db_def new_row_wf) (simp add: new_row_def demo_request_def)
  obtain job db1 where "claim_due (serial_env first_oldest) 10 5 ?db = (Inr (Some job), db1)"
    using demo_claim [of False]
    by (cases "claim_due (serial_env first_oldest) 10 5 ?db")
      (auto simp: queue_demo_env_def answer_def split: sum.splits option.splits)
  from claim_guard_half [OF table_order.oldest_first_axioms wf _ this] obtain r where
    r: "r \<in> set (rows ?db)" "fst (claim_due \<lparr>pick = first_oldest, between = rival_claim first_oldest 10 5\<rparr> 10 5 ?db) =
      Inr (if in_state Claimed r then Some job else None)" by (auto simp: demo_db_def)
  have "\<not> in_state Claimed r" using r(1) by (auto simp: demo_db_def in_state_def new_row_def demo_request_def)
  thus ?thesis using r(2) by simp
qed

end
