(* ===== verification/Schedule.thy ===== *)
theory Schedule
  imports JobQueue "HOL-Library.Monad_Syntax"
begin

text \<open>
  When jobs run (\<open>src/jobs/schedule.rs\<close>): what a schedule string means and when a schedule fires
  next, with the two other durations an author writes, a job's timeout (\<open>src/jobs/declare.rs\<close>) and
  the delay of an enqueue (\<open>parse_delay_ms\<close> of \<open>crates/albedo-server/src/jobs.rs\<close>).

  The \<open>cron\<close> package and \<open>chrono\<close>'s range of instants are parameters (record \<open>cron_lib\<close>); what is
  relied on of the package is stated in the locale \<open>cron_laws\<close>. A duration is in nanoseconds.
\<close>

section \<open>Schedules\<close>

record 'c cron_lib =
  from_str :: "string \<Rightarrow> string + 'c" \<comment> \<open>the message of the error, or the expression\<close>
  upcoming :: "'c \<Rightarrow> bool" \<comment> \<open>whether any instant is still to come\<close>
  cron_after :: "'c \<Rightarrow> int \<Rightarrow> int option"
  in_range :: "int \<Rightarrow> bool"

datatype 'c schedule = Cron 'c | Every duration

datatype schedule_error =
    Unparseable string string
  | BadDuration string
  | TooFrequent string nat
  | NeverFires string

definition duration_from_secs :: "nat \<Rightarrow> duration" where
  "duration_from_secs n = n * 1000000000"

definition as_millis :: "duration \<Rightarrow> nat" where
  "as_millis d = d div 1000000"

definition min_period :: duration where "min_period = duration_from_secs 1"

text \<open>\<open>value.split_at(value.find(non-digit)?)\<close>: the leading digits and a non-empty rest.\<close>

definition split_digits :: "string \<Rightarrow> (string \<times> string) option" where
  "split_digits s =
     (let rest = dropWhile is_ascii_digit s in
      if rest = [] then None else Some (takeWhile is_ascii_digit s, rest))"

definition second_units :: "string list" where
  "second_units = [''s'', ''sec'', ''secs'', ''second'', ''seconds'']"
definition minute_units :: "string list" where
  "minute_units = [''m'', ''min'', ''mins'', ''minute'', ''minutes'']"
definition hour_units :: "string list" where
  "hour_units = [''h'', ''hr'', ''hrs'', ''hour'', ''hours'']"
definition day_units :: "string list" where
  "day_units = [''d'', ''day'', ''days'']"

definition unit_seconds :: "string \<Rightarrow> nat option" where
  "unit_seconds u =
     (if u \<in> set second_units then Some 1
      else if u \<in> set minute_units then Some 60
      else if u \<in> set hour_units then Some (60 * 60)
      else if u \<in> set day_units then Some (24 * 60 * 60)
      else None)"

definition parse_duration :: "string \<Rightarrow> duration option" where
  "parse_duration value = do {
     (number, unit) \<leftarrow> split_digits (trim value);
     n \<leftarrow> parse_u64 number;
     if n = 0 then None else do {
       seconds \<leftarrow> unit_seconds (trim unit);
       if n * seconds \<le> u64_max then Some (duration_from_secs (n * seconds)) else None }
   }"

definition normalise_cron :: "string \<Rightarrow> schedule_error + string" where
  "normalise_cron value =
     (let fields = length (split_whitespace value) in
      if fields = 5 then Inr (''0 '' @ value)
      else if fields = 6 \<or> fields = 7 then Inr value
      else Inl (Unparseable value
        (''a cron expression has five fields (minute hour day-of-month month day-of-week); this has ''
           @ show_nat fields)))"

definition alias_expression :: "string \<Rightarrow> string option" where
  "alias_expression rest =
     (if rest = ''minutely'' then Some ''0 * * * * *''
      else if rest = ''hourly'' then Some ''0 0 * * * *''
      else if rest = ''daily'' \<or> rest = ''midnight'' then Some ''0 0 0 * * *''
      else if rest = ''weekly'' then Some ''0 0 0 * * SUN''
      else if rest = ''monthly'' then Some ''0 0 0 1 * *''
      else if rest = ''yearly'' \<or> rest = ''annually'' then Some ''0 0 0 1 1 *''
      else None)"

text \<open>The outer option of a parse is \<open>None\<close> where the source panics (\<open>expect\<close> on an alias).\<close>

definition from_alias :: "'c cron_lib \<Rightarrow> string \<Rightarrow> string \<Rightarrow> (schedule_error + 'c schedule) option" where
  "from_alias lib rest original =
     (case alias_expression rest of
        None \<Rightarrow> Some (Inl (Unparseable original
          (CHR 0x60 # CHR ''@'' # rest @ CHR 0x60 # '' is not a known alias (@minutely, @hourly, @daily, @weekly, @monthly, @yearly)'')))
      | Some e \<Rightarrow> (case from_str lib e of Inl _ \<Rightarrow> None | Inr c \<Rightarrow> Some (Inr (Cron c))))"

definition from_interval :: "string \<Rightarrow> string \<Rightarrow> schedule_error + 'c schedule" where
  "from_interval rest original =
     (case parse_duration rest of
        None \<Rightarrow> Inl (BadDuration original)
      | Some period \<Rightarrow>
          if period < min_period then Inl (TooFrequent original (as_millis min_period))
          else Inr (Every period))"

definition parse_schedule :: "'c cron_lib \<Rightarrow> string \<Rightarrow> (schedule_error + 'c schedule) option" where
  "parse_schedule lib value =
     (let trimmed = trim value in
      case strip_prefix ''@'' trimmed of
        Some rest \<Rightarrow> from_alias lib rest trimmed
      | None \<Rightarrow>
          (case strip_prefix ''every '' trimmed of
             Some rest \<Rightarrow> Some (from_interval (trim rest) trimmed)
           | None \<Rightarrow> Some
               (case normalise_cron trimmed of
                  Inl e \<Rightarrow> Inl e
                | Inr normalised \<Rightarrow>
                    (case from_str lib normalised of
                       Inl reason \<Rightarrow> Inl (Unparseable trimmed reason)
                     | Inr c \<Rightarrow> if upcoming lib c then Inr (Cron c) else Inl (NeverFires trimmed)))))"

definition checked_i64 :: "int \<Rightarrow> int option" where
  "checked_i64 v = (if i64_min \<le> v \<and> v \<le> i64_max then Some v else None)"

fun next_after :: "'c cron_lib \<Rightarrow> 'c schedule \<Rightarrow> int \<Rightarrow> int option" where
  "next_after lib (Cron c) after_ms = (if in_range lib after_ms then cron_after lib c after_ms else None)"
| "next_after lib (Every period) after_ms = do {
     period_ms \<leftarrow> checked_i64 (int (as_millis period));
     if period_ms \<le> 0 then None else do {
       up \<leftarrow> checked_i64 (after_ms div period_ms + 1);
       checked_i64 (up * period_ms) }
   }"

section \<open>Delays and timeouts\<close>

definition parse_i64_digits :: "string \<Rightarrow> int option" where
  \<comment> \<open>\<open>str::parse::<i64>\<close> of a string of digits\<close>
  "parse_i64_digits s =
     (if s = [] then None
      else if int (nat_of_digits s) \<le> i64_max then Some (int (nat_of_digits s)) else None)"

definition parse_delay_ms :: "string \<Rightarrow> int option" where
  "parse_delay_ms value = do {
     (number, unit) \<leftarrow> split_digits (trim value);
     n \<leftarrow> parse_i64_digits number;
     if n < 0 then None else
       let u = trim unit in do {
       scale \<leftarrow> (if u = ''ms'' then Some 1
                 else if u \<in> set second_units then Some 1000
                 else if u \<in> set minute_units then Some 60000
                 else if u \<in> set hour_units then Some 3600000
                 else if u \<in> set day_units then Some 86400000
                 else None);
       checked_i64 (n * scale) }
   }"

datatype timeout_error = NoUnit string | Unreadable string | UnknownUnit string | Zero | TooLong

definition max_timeout_ms :: nat where "max_timeout_ms = 15 * 60 * 1000"
definition default_timeout_ms :: nat where "default_timeout_ms = 30000"

definition parse_timeout :: "string \<Rightarrow> timeout_error + nat" where
  "parse_timeout value =
     (let v = trim value in
      case split_digits v of
        None \<Rightarrow> Inl (NoUnit v)
      | Some (number, unit) \<Rightarrow>
          (case parse_u64 number of
             None \<Rightarrow> Inl (Unreadable v)
           | Some n \<Rightarrow>
               let u = trim unit;
                   ms = (if u = ''ms'' then Some n
                         else if u \<in> set second_units then Some (min u64_max (n * 1000))
                         else if u \<in> set minute_units then Some (min u64_max (n * 60000))
                         else None) in
               (case ms of
                  None \<Rightarrow> Inl (UnknownUnit u)
                | Some ms \<Rightarrow>
                    if ms = 0 then Inl Zero
                    else if max_timeout_ms < ms then Inl TooLong
                    else Inr ms)))"

section \<open>What the cron package promises\<close>

locale cron_laws =
  fixes lib :: "'c cron_lib"
  assumes cron_later: "cron_after lib c t = Some u \<Longrightarrow> t < u \<and> in_range lib u"
    and cron_first: "cron_after lib c t = Some u \<Longrightarrow> t \<le> t' \<Longrightarrow> t' < u \<Longrightarrow> cron_after lib c t' = Some u"
    and range_convex: "in_range lib s \<Longrightarrow> in_range lib u \<Longrightarrow> s \<le> t \<Longrightarrow> t \<le> u \<Longrightarrow> in_range lib t"

text \<open>A package that knows one expression, "every second", on the instants of a 64-bit clock.\<close>

definition secondly :: "unit cron_lib" where
  "secondly =
     \<lparr>from_str = (\<lambda>s. if length (split_whitespace s) = 6 then Inr () else Inl ''unsupported''),
      upcoming = (\<lambda>_. True),
      cron_after = (\<lambda>_ t. let u = (t div 1000 + 1) * 1000 in if 0 \<le> t \<and> u \<le> i64_max then Some u else None),
      in_range = (\<lambda>t. 0 \<le> t \<and> t \<le> i64_max)\<rparr>"

lemma grid_next: "0 < (p :: int) \<Longrightarrow> t < (t div p + 1) * p"
proof -
  assume "0 < p"
  hence "t div p * p + t mod p = t" "t mod p < p" by simp_all
  thus ?thesis unfolding distrib_right by linarith
qed

lemma grid_index: "0 < (p :: int) \<Longrightarrow> min t 0 \<le> t div p \<and> t div p \<le> max t 0"
proof -
  assume p: "0 < p"
  hence e: "t div p * p + t mod p = t" "0 \<le> t mod p" "t mod p < p" by simp_all
  show ?thesis
  proof (cases "0 \<le> t div p")
    case True
    hence "t div p * 1 \<le> t div p * p" using p by (intro mult_left_mono) auto
    thus ?thesis using True e by linarith
  next
    case False
    hence "(t div p + 1) * p \<le> (t div p + 1) * 1" using p by (intro mult_left_mono_neg) auto
    thus ?thesis using False e unfolding distrib_right by linarith
  qed
qed

lemma grid_first: "0 < (p :: int) \<Longrightarrow> t \<le> t' \<Longrightarrow> t' < (t div p + 1) * p \<Longrightarrow> t' div p = t div p"
proof -
  assume p: "0 < p" "t \<le> t'" "t' < (t div p + 1) * p"
  hence "t' div p * p + t' mod p = t'" "0 \<le> t' mod p" by simp_all
  hence "t' div p * p < (t div p + 1) * p" using p(3) by linarith
  hence "t' div p < t div p + 1" using p(1) by (simp only: mult_less_cancel_right)
  moreover have "t div p \<le> t' div p" using p by (simp add: zdiv_mono1)
  ultimately show ?thesis by simp
qed

interpretation secondly: cron_laws secondly
proof
  fix c t u t'
  assume a: "cron_after secondly c t = Some u"
  hence u: "u = (t div 1000 + 1) * 1000" "0 \<le> t" "u \<le> i64_max"
    by (auto simp: secondly_def Let_def split: if_splits)
  thus "t < u \<and> in_range secondly u" using grid_next [of 1000 t] by (simp add: secondly_def)
  assume "t \<le> t'" "t' < u"
  hence "t' div 1000 = t div 1000" using grid_first [of 1000 t t'] u by simp
  thus "cron_after secondly c t' = Some u"
    using u \<open>t \<le> t'\<close> by (simp add: secondly_def)
qed (simp add: secondly_def)

section \<open>When schedules fire\<close>

lemma bind_some: "Option.bind x f = Some y \<longleftrightarrow> (\<exists>z. x = Some z \<and> f z = Some y)"
  by (cases x) auto

lemma checked_some: "checked_i64 v = Some w \<longleftrightarrow> w = v \<and> i64_min \<le> v \<and> v \<le> i64_max"
  by (auto simp: checked_i64_def)

lemma next_every:
  "next_after lib (Every d) t = Some u \<longleftrightarrow>
   (let p = int (as_millis d) in 0 < p \<and> p \<le> i64_max \<and> i64_min \<le> t div p + 1 \<and> t div p + 1 \<le> i64_max \<and>
      u = (t div p + 1) * p \<and> i64_min \<le> u \<and> u \<le> i64_max)"
  by (auto simp: bind_some checked_some Let_def i64_min_def)

declare next_after.simps(2) [simp del]

text \<open>Every process computes the same fire times: whatever the two instants two processes
  start from, if one computes that the next fire is at \<open>u\<close>, any other at a time before \<open>u\<close> and
  not before the first computes \<open>u\<close> too; the fire is strictly later than the instant it is
  computed from, so a tick never derives itself again; and an interval fires on multiples of its
  period, never more than one period away.\<close>

theorem fires_agree:
  assumes "cron_laws lib" and "next_after lib s t = Some u" and "t \<le> t'" and "t' < u"
  shows "t < u \<and> next_after lib s t' = Some u
    \<and> (\<forall>d. s = Every d \<longrightarrow> int (as_millis d) dvd u \<and> u - t \<le> int (as_millis d))"
proof (cases s)
  case (Cron c)
  hence c: "cron_after lib c t = Some u" "in_range lib t" using assms(2) by (auto split: if_splits)
  hence "in_range lib t'"
    using cron_laws.cron_later [OF assms(1) c(1)] cron_laws.range_convex [OF assms(1) c(2)] assms(3,4) by simp
  thus ?thesis
    using Cron c cron_laws.cron_later [OF assms(1) c(1)] cron_laws.cron_first [OF assms(1) c(1) assms(3,4)] by simp
next
  case (Every d)
  define p where "p = int (as_millis d)"
  have n: "0 < p" "u = (t div p + 1) * p" using assms(2) Every by (simp_all add: next_every Let_def p_def)
  have "t' div p = t div p" using grid_first n assms(3,4) by simp
  hence "next_after lib s t' = Some u"
    using assms(2) unfolding Every next_every Let_def p_def [symmetric] by simp
  moreover have "u - t \<le> p"
  proof -
    have "t div p * p + t mod p = t" "0 \<le> t mod p" using n(1) by simp_all
    thus ?thesis unfolding n(2) distrib_right by linarith
  qed
  moreover have "p dvd u" using n(2) by simp
  ultimately show ?thesis using assms(3,4) Every by (simp add: p_def)
qed

lemma fires_agree_witness:
  "next_after secondly (Every (duration_from_secs 300)) 299999 = Some 300000"
  using fires_agree [OF secondly.cron_laws_axioms, of "Every (duration_from_secs 300)" 1 300000 299999]
  by (simp add: next_every Let_def duration_from_secs_def as_millis_def i64_min_def i64_max_def)

text \<open>Trimming leaves alone a string that begins and ends in printing ASCII characters.\<close>

definition solid :: "char \<Rightarrow> bool" where
  "solid c \<longleftrightarrow> 33 \<le> byte c \<and> byte c < 128"

lemma lead_code_none:
  "s \<noteq> [] \<Longrightarrow> list_all (\<lambda>w. w \<noteq> [] \<and> \<not> solid (hd w)) codes \<Longrightarrow> solid (hd s) \<Longrightarrow> lead_code codes s = None"
  by (auto simp: lead_code_def find_None_iff list_all_iff neq_Nil_conv)

lemma codes_not_solid:
  "list_all (\<lambda>w. w \<noteq> [] \<and> \<not> solid (hd w)) whitespace_codes"
  "list_all (\<lambda>w. w \<noteq> [] \<and> \<not> solid (hd w)) (map rev whitespace_codes)"
  by (simp_all add: whitespace_codes_def solid_def)

lemma drop_codes_none: "lead_code codes s = None \<Longrightarrow> drop_codes codes s = s"
  by (subst drop_codes.simps) simp

lemma trim_solid:
  assumes "s \<noteq> []" and "solid (hd s)" and "solid (last s)"
  shows "trim s = s"
proof -
  have "trim_start s = s"
    unfolding trim_start_def by (rule drop_codes_none [OF lead_code_none [OF assms(1) codes_not_solid(1) assms(2)]])
  moreover have "drop_codes (map rev whitespace_codes) (rev s) = rev s"
    by (rule drop_codes_none [OF lead_code_none [OF _ codes_not_solid(2)]]) (use assms in \<open>simp_all add: hd_rev\<close>)
  ultimately show ?thesis unfolding trim_def trim_end_def by simp
qed

lemma digit_solid: "is_ascii_digit c \<Longrightarrow> solid c"
  by (simp add: is_ascii_digit_def solid_def)

lemma show_nat_solid: "solid (hd (show_nat n))"
  using show_nat_digits [of n] by (cases "show_nat n") (auto intro: digit_solid)

lemma units_solid:
  "list_all (\<lambda>u. u \<noteq> [] \<and> list_all solid u \<and> \<not> is_ascii_digit (hd u))
     (second_units @ minute_units @ hour_units @ day_units)"
  by code_simp

lemma unit_shape:
  "unit_seconds u = Some k \<Longrightarrow> u \<noteq> [] \<and> list_all solid u \<and> \<not> is_ascii_digit (hd u) \<and> 0 < k"
  using units_solid by (auto simp: unit_seconds_def list_all_iff split: if_splits)

lemma split_digits_show:
  assumes "u \<noteq> []" and "\<not> is_ascii_digit (hd u)"
  shows "split_digits (show_nat n @ u) = Some (show_nat n, u)"
proof -
  have d: "\<And>c. c \<in> set (show_nat n) \<Longrightarrow> is_ascii_digit c" using show_nat_digits [of n] by (simp add: list_all_iff)
  have "takeWhile is_ascii_digit u = []" "dropWhile is_ascii_digit u = u" using assms by (cases u; simp)+
  thus ?thesis
    using d assms(1) by (simp add: split_digits_def takeWhile_append2 dropWhile_append2)
qed

lemma parse_duration_show:
  assumes "0 < n" and "unit_seconds u = Some k" and "n * k \<le> u64_max"
  shows "parse_duration (show_nat n @ u) = Some (duration_from_secs (n * k))"
proof -
  note u = unit_shape [OF assms(2)]
  have "trim (show_nat n @ u) = show_nat n @ u"
    using u show_nat_solid [of n] by (intro trim_solid) (auto simp: list_all_iff)
  moreover have "trim u = u" using u by (intro trim_solid) (auto simp: list_all_iff)
  moreover have "n < 2 ^ 64"
  proof -
    have "n * 1 \<le> n * k" using u by (intro mult_le_mono2) simp
    also have "\<dots> < 2 ^ 64" using assms(3) by simp
    finally show ?thesis by simp
  qed
  ultimately show ?thesis
    using assms u split_digits_show [of u n] parse_show_u64 [of n] by (simp add: parse_duration_def)
qed

text \<open>An interval means what it says: \<open>every N<unit>\<close> is accepted for every positive number
  of units whose seconds fit 64 bits, and then fires exactly on the multiples of that period,
  except that a period of more than \<open>2 ^ 63 - 1\<close> milliseconds, though accepted, never fires.\<close>

theorem interval_schedule_exact:
  assumes "0 < n" and "unit_seconds u = Some k" and "n * k \<le> u64_max"
    and "i64_min \<le> t" and "t < i64_max"
  shows "\<exists>s. parse_schedule lib (''every '' @ show_nat n @ u) = Some (Inr s) \<and>
    (let p = int (n * k * 1000); v = (t div p + 1) * p in
     next_after lib s t = (if p \<le> i64_max \<and> v \<le> i64_max then Some v else None))"
proof -
  note u = unit_shape [OF assms(2)]
  have "trim (''every '' @ show_nat n @ u) = ''every '' @ show_nat n @ u"
    using u by (intro trim_solid) (auto simp: list_all_iff solid_def)
  moreover have "trim (show_nat n @ u) = show_nat n @ u"
    using u show_nat_solid [of n] by (intro trim_solid) (auto simp: list_all_iff)
  moreover have "\<not> duration_from_secs (n * k) < min_period"
    using assms(1) u by (simp add: duration_from_secs_def min_period_def)
  ultimately have "parse_schedule lib (''every '' @ show_nat n @ u) = Some (Inr (Every (duration_from_secs (n * k))))"
    using parse_duration_show [OF assms(1-3)]
    by (simp add: parse_schedule_def strip_prefix_def from_interval_def)
  moreover have "next_after lib (Every (duration_from_secs (n * k))) t =
      (let p = int (n * k * 1000); v = (t div p + 1) * p in if p \<le> i64_max \<and> v \<le> i64_max then Some v else None)"
  proof -
    define p where "p = int (n * k * 1000)"
    have ms: "int (as_millis (duration_from_secs (n * k))) = p"
      by (simp add: as_millis_def duration_from_secs_def p_def)
    have p: "1000 \<le> p"
    proof -
      have "1 \<le> n * k" using assms(1) u by simp
      thus ?thesis unfolding p_def by linarith
    qed
    have v: "t < (t div p + 1) * p" using grid_next p by simp
    have q: "i64_min \<le> t div p + 1" "t div p + 1 \<le> i64_max"
    proof -
      have "min t 0 \<le> t div p \<and> t div p \<le> max t 0" using p by (intro grid_index) simp
      thus "i64_min \<le> t div p + 1" "t div p + 1 \<le> i64_max"
        using assms(4,5) by (auto simp: i64_min_def i64_max_def)
    qed
    show ?thesis
      using p v q assms(4) unfolding next_after.simps(2) ms p_def [symmetric] Let_def
      by (simp add: checked_i64_def i64_min_def)
  qed
  ultimately show ?thesis
    unfolding Let_def by (intro exI [of _ "Every (duration_from_secs (n * k))"] conjI)
qed

lemma interval_schedule_exact_witness:
  "\<exists>s. parse_schedule secondly ''every 5m'' = Some (Inr s) \<and> next_after secondly s 1 = Some 300000"
proof -
  have "''every '' @ show_nat 5 @ ''m'' = ''every 5m''" by code_simp
  thus ?thesis
    using interval_schedule_exact [of 5 "''m''" 60 1 secondly]
    by (simp add: unit_seconds_def second_units_def minute_units_def i64_min_def i64_max_def)
qed

end
