(* ===== verification/JobRunner.thy ===== *)
theory JobRunner
  imports Schedule "HOL-Library.List_Lexorder" "HOL-Library.Char_ord"
begin

text \<open>
  The job runner (\<open>crates/albedo-server/src/jobs.rs\<close>) with the framework's own jobs
  (\<open>src/jobs/builtin.rs\<close>) and the declarations it looks jobs up in (\<open>src/jobs/declare.rs\<close>): it
  turns due fires into rows, claims what is due, expands fan-outs page by page, runs bodies,
  applies what they recorded and reports how it went.

  Everything that happens elsewhere is a field of \<open>runner_env\<close>: the engine that runs a body, the
  writes to FORGE, mail, random draws and the texts of messages. What may answer differently from
  one call to the next takes the number of such calls so far. JSON values are a type parameter.
\<close>

section \<open>Declarations and built-in jobs\<close>

record 'c job_decl =
  jd_name :: string
  jd_schedule :: "'c schedule option"
  jd_fan_out :: bool
  jd_max_attempts :: u32
  jd_timeout_ms :: nat

definition find_decl :: "'c job_decl list \<Rightarrow> string \<Rightarrow> 'c job_decl option" where
  "find_decl jobs name = find (\<lambda>j. jd_name j = name) jobs"

definition scheduled_decls :: "'c job_decl list \<Rightarrow> 'c job_decl list" where
  "scheduled_decls jobs = filter (\<lambda>j. jd_schedule j \<noteq> None) jobs"

datatype builtin = ExpireSessions | SendEmail

definition all_builtins :: "builtin list" where
  "all_builtins = [ExpireSessions, SendEmail]"

fun builtin_name :: "builtin \<Rightarrow> string" where
  "builtin_name ExpireSessions = ''albedo:expire_sessions''"
| "builtin_name SendEmail = ''albedo:send_email''"

fun builtin_schedule :: "builtin \<Rightarrow> string option" where
  \<comment> \<open>the schedule as written; parsed where the runner is built\<close>
  "builtin_schedule ExpireSessions = Some ''@hourly''"
| "builtin_schedule SendEmail = None"

fun builtin_max_attempts :: "builtin \<Rightarrow> u32" where
  "builtin_max_attempts ExpireSessions = 3"
| "builtin_max_attempts SendEmail = 13"

fun is_enqueueable :: "builtin \<Rightarrow> bool" where
  "is_enqueueable SendEmail = True"
| "is_enqueueable ExpireSessions = False"

definition is_builtin :: "string \<Rightarrow> bool" where
  "is_builtin name = starts_with ''albedo:'' name"

definition builtin_from_name :: "string \<Rightarrow> builtin option" where
  "builtin_from_name name = find (\<lambda>b. builtin_name b = name) all_builtins"

definition fanout_batch :: nat where "fanout_batch = 500"

section \<open>Effects and the world outside\<close>

datatype 'j forge_write = Append string 'j | Update string 'j 'j | Delete string 'j

datatype 'j handler_effect =
    SlotSet
  | Broadcast string
  | ForgeAppend string 'j
  | ForgeUpdate string 'j 'j
  | ForgeDelete string 'j
  | EnqueueEffect string 'j "string option" "string option"

record 'j enqueue_intent =
  in_name :: string
  in_args :: 'j
  in_id :: "string option"
  in_delay :: "string option"

datatype send_outcome = Accepted | Retry string | Reject string

datatype refusal =
    NoEmailBlock | BadMessage string | BadAttachment string | FrameworkJob string
  | UndeclaredJob string | BadDelay string string | EnqueueFailed string queue_error
  | SlotEffect | BadPrincipal string | WriteFailed string | BodyFailed string
  | NoLongerDeclared | NoJobsFile | NoLongerBuiltin | PrincipalsUnread queue_error
  | NoEmailAnyMore | UnreadableEmail | SendRetry string | SendReject string | SweepFailed string

record ('j, 'c) runner_env =
  e_cron :: "'c cron_lib"
  e_queue :: queue_env
  e_render :: "int \<Rightarrow> string option"
  e_message :: "refusal \<Rightarrow> string"
  e_random_hex :: "nat \<Rightarrow> string"
  e_jitter :: "nat \<Rightarrow> rat"
  e_email :: bool \<comment> \<open>an email block is installed\<close>
  e_authored :: "'j \<Rightarrow> string + string" \<comment> \<open>a message validated, and queued as text\<close>
  e_attachments :: "nat \<Rightarrow> string option \<Rightarrow> 'j \<Rightarrow> string option" \<comment> \<open>what is wrong with them\<close>
  e_json :: "'j \<Rightarrow> string"
  e_principal_ok :: "string \<Rightarrow> bool"
  e_body :: "nat \<Rightarrow> 'c job_decl \<Rightarrow> claimed_job \<Rightarrow> string + 'j handler_effect list"
  e_forge :: "nat \<Rightarrow> 'j forge_write list \<Rightarrow> string option \<Rightarrow> string option" \<comment> \<open>the failure, if any\<close>
  e_read_email :: "string \<Rightarrow> bool option" \<comment> \<open>whether a queued email is sensitive\<close>
  e_deliver :: "nat \<Rightarrow> claimed_job \<Rightarrow> send_outcome"
  e_sweep :: "nat \<Rightarrow> string option"
  e_stop :: "nat \<Rightarrow> bool" \<comment> \<open>shutdown was asked for\<close>

record 'c scheduled =
  sc_name :: string
  sc_schedule :: "'c schedule"
  sc_max_attempts :: u32
  sc_fanout :: bool

record ('j, 'c) runner =
  rn_plan :: "'c job_decl list option"
  rn_scheduled :: "'c scheduled list"
  rn_next_fire :: "int option list"
  rn_passes :: u32
  rn_db :: jobs_db
  rn_users :: "string list" \<comment> \<open>the principals of the users table\<close>
  rn_writes :: "('j forge_write list \<times> string option) list" \<comment> \<open>writes that landed, and for whom\<close>
  rn_calls :: nat \<comment> \<open>calls to the world outside so far\<close>

definition outside :: "(nat \<Rightarrow> 'a) \<Rightarrow> ('j, 'c) runner \<Rightarrow> 'a \<times> ('j, 'c) runner" where
  "outside f s = (f (rn_calls s), s\<lparr>rn_calls := Suc (rn_calls s)\<rparr>)"

definition on_queue :: "(jobs_db \<Rightarrow> 'a \<times> jobs_db) \<Rightarrow> ('j, 'c) runner \<Rightarrow> 'a \<times> ('j, 'c) runner" where
  "on_queue f s = (let (a, db) = f (rn_db s) in (a, s\<lparr>rn_db := db\<rparr>))"

section \<open>Writing a row for an enqueue\<close>

definition intent_row :: "('j, 'c) runner_env \<Rightarrow> 'j enqueue_intent \<Rightarrow> string option \<Rightarrow> ('j, 'c) runner \<Rightarrow>
    (refusal + u32 \<times> string) \<times> ('j, 'c) runner" where
  \<comment> \<open>the attempts and the argument of the row, for a job that may be queued\<close>
  "intent_row env intent who s =
     (case builtin_from_name (in_name intent) of
        Some b \<Rightarrow>
          if is_enqueueable b then
            if \<not> e_email env then (Inl NoEmailBlock, s)
            else (case e_authored env (in_args intent) of
                    Inl err \<Rightarrow> (Inl (BadMessage err), s)
                  | Inr args \<Rightarrow>
                      let (bad, s1) = outside (\<lambda>n. e_attachments env n who (in_args intent)) s in
                      case bad of Some err \<Rightarrow> (Inl (BadAttachment err), s1)
                                | None \<Rightarrow> (Inr (builtin_max_attempts b, args), s1))
          else (Inl (FrameworkJob (in_name intent)), s)
      | None \<Rightarrow>
          (case (case rn_plan s of None \<Rightarrow> None | Some jobs \<Rightarrow> find_decl jobs (in_name intent)) of
             Some j \<Rightarrow> (Inr (jd_max_attempts j, e_json env (in_args intent)), s)
           | None \<Rightarrow> (Inl (UndeclaredJob (in_name intent)), s)))"

definition intent_delay :: "'j enqueue_intent \<Rightarrow> refusal + int" where
  "intent_delay intent =
     (case in_delay intent of
        None \<Rightarrow> Inr 0
      | Some written \<Rightarrow>
          (case parse_delay_ms written of
             None \<Rightarrow> Inl (BadDelay (in_name intent) written) | Some d \<Rightarrow> Inr d))"

definition intent_id :: "('j, 'c) runner_env \<Rightarrow> 'j enqueue_intent \<Rightarrow> ('j, 'c) runner \<Rightarrow> string \<times> ('j, 'c) runner" where
  "intent_id env intent s =
     (case in_id intent of
        Some i \<Rightarrow> (i, s)
      | None \<Rightarrow> let (h, s1) = outside (e_random_hex env) s in (in_name intent @ '':'' @ h, s1))"

definition write_enqueue :: "('j, 'c) runner_env \<Rightarrow> 'j enqueue_intent \<Rightarrow> string option \<Rightarrow> int \<Rightarrow>
    ('j, 'c) runner \<Rightarrow> (refusal + unit) \<times> ('j, 'c) runner" where
  "write_enqueue env intent who now s =
     (let (row, s1) = intent_row env intent who s in
      case row of
        Inl e \<Rightarrow> (Inl e, s1)
      | Inr (attempts, args) \<Rightarrow>
          (case intent_delay intent of
             Inl e \<Rightarrow> (Inl e, s1)
           | Inr delay \<Rightarrow>
               let (i, s2) = intent_id env intent s1;
                   (res, s3) = on_queue (enqueue \<lparr>eq_id = i, eq_name = in_name intent, eq_args = args,
                     eq_principal = who, eq_run_at_ms = i64_sat_add now delay,
                     eq_max_attempts = attempts, eq_fanout = False\<rparr>) s2 in
               (case res of Inl e \<Rightarrow> (Inl (EnqueueFailed (in_name intent) e), s3) | Inr _ \<Rightarrow> (Inr (), s3))))"

fun write_enqueues :: "('j, 'c) runner_env \<Rightarrow> 'j enqueue_intent list \<Rightarrow> string option \<Rightarrow> int \<Rightarrow>
    ('j, 'c) runner \<Rightarrow> (refusal + unit) \<times> ('j, 'c) runner" where
  "write_enqueues env [] who now s = (Inr (), s)"
| "write_enqueues env (x # xs) who now s =
     (case write_enqueue env x who now s of
        (Inl e, s1) \<Rightarrow> (Inl e, s1)
      | (Inr _, s1) \<Rightarrow> write_enqueues env xs who now s1)"

section \<open>Applying what a body recorded\<close>

fun sort_effects :: "'j handler_effect list \<Rightarrow> refusal + ('j forge_write list \<times> 'j enqueue_intent list)" where
  "sort_effects [] = Inr ([], [])"
| "sort_effects (SlotSet # es) = Inl SlotEffect"
| "sort_effects (Broadcast t # es) = Inl SlotEffect"
| "sort_effects (ForgeAppend c r # es) =
     (case sort_effects es of Inl e \<Rightarrow> Inl e | Inr (ws, qs) \<Rightarrow> Inr (Append c r # ws, qs))"
| "sort_effects (ForgeUpdate c k f # es) =
     (case sort_effects es of Inl e \<Rightarrow> Inl e | Inr (ws, qs) \<Rightarrow> Inr (Update c k f # ws, qs))"
| "sort_effects (ForgeDelete c k # es) =
     (case sort_effects es of Inl e \<Rightarrow> Inl e | Inr (ws, qs) \<Rightarrow> Inr (Delete c k # ws, qs))"
| "sort_effects (EnqueueEffect n a i d # es) =
     (case sort_effects es of
        Inl e \<Rightarrow> Inl e
      | Inr (ws, qs) \<Rightarrow> Inr (ws, \<lparr>in_name = n, in_args = a, in_id = i, in_delay = d\<rparr> # qs))"

definition apply_writes :: "('j, 'c) runner_env \<Rightarrow> 'j forge_write list \<Rightarrow> string option \<Rightarrow>
    ('j, 'c) runner \<Rightarrow> (refusal + unit) \<times> ('j, 'c) runner" where
  \<comment> \<open>one call, for the principal the run is for; what lands is logged\<close>
  "apply_writes env ws who s =
     (if ws = [] then (Inr (), s)
      else case who of
        Some raw \<Rightarrow>
          if \<not> e_principal_ok env raw then (Inl (BadPrincipal raw), s)
          else (case outside (\<lambda>n. e_forge env n ws who) s of
                  (Some err, s1) \<Rightarrow> (Inl (WriteFailed err), s1)
                | (None, s1) \<Rightarrow> (Inr (), s1\<lparr>rn_writes := rn_writes s1 @ [(ws, who)]\<rparr>))
      | None \<Rightarrow>
          (case outside (\<lambda>n. e_forge env n ws None) s of
             (Some err, s1) \<Rightarrow> (Inl (WriteFailed err), s1)
           | (None, s1) \<Rightarrow> (Inr (), s1\<lparr>rn_writes := rn_writes s1 @ [(ws, None)]\<rparr>)))"

definition apply_effects :: "('j, 'c) runner_env \<Rightarrow> claimed_job \<Rightarrow> 'j handler_effect list \<Rightarrow> int \<Rightarrow>
    ('j, 'c) runner \<Rightarrow> (refusal + unit) \<times> ('j, 'c) runner" where
  "apply_effects env job effects now s =
     (if effects = [] then (Inr (), s)
      else case sort_effects effects of
        Inl e \<Rightarrow> (Inl e, s)
      | Inr (ws, qs) \<Rightarrow>
          (case apply_writes env ws (cj_principal job) s of
             (Inl e, s1) \<Rightarrow> (Inl e, s1)
           | (Inr _, s1) \<Rightarrow> write_enqueues env qs (cj_principal job) now s1))"

section \<open>Reporting\<close>

definition record_success :: "claimed_job \<Rightarrow> int \<Rightarrow> ('j, 'c) runner \<Rightarrow> ('j, 'c) runner" where
  "record_success job now s = snd (on_queue (complete (cj_id job) now) s)"

definition record_failure :: "('j, 'c) runner_env \<Rightarrow> claimed_job \<Rightarrow> int \<Rightarrow> refusal \<Rightarrow> ('j, 'c) runner \<Rightarrow> ('j, 'c) runner" where
  "record_failure env job now why s =
     (let (j, s1) = outside (e_jitter env) s in
      snd (on_queue (fail_job job now (e_message env why) j) s1))"

definition record_terminal :: "('j, 'c) runner_env \<Rightarrow> claimed_job \<Rightarrow> int \<Rightarrow> refusal \<Rightarrow> ('j, 'c) runner \<Rightarrow> ('j, 'c) runner" where
  "record_terminal env job now why s =
     record_failure env (job\<lparr>cj_attempts := cj_max_attempts job\<rparr>) now why s"

definition redact :: "claimed_job \<Rightarrow> ('j, 'c) runner \<Rightarrow> ('j, 'c) runner" where
  "redact job s = snd (on_queue (redact_args (cj_id job)) s)"

section \<open>Running one row\<close>

definition send_email :: "('j, 'c) runner_env \<Rightarrow> claimed_job \<Rightarrow> int \<Rightarrow> ('j, 'c) runner \<Rightarrow> ('j, 'c) runner" where
  "send_email env job now s =
     (if \<not> e_email env then record_terminal env job now NoEmailAnyMore s
      else case e_read_email env (cj_args job) of
        None \<Rightarrow> record_terminal env job now UnreadableEmail s
      | Some sensitive \<Rightarrow>
          let (outcome, s1) = outside (\<lambda>n. e_deliver env n job) s in
          (case outcome of
             Accepted \<Rightarrow> redact job (record_success job now s1)
           | Retry reason \<Rightarrow>
               let dead = cj_max_attempts job \<le> cj_attempts job;
                   s2 = record_failure env job now (SendRetry reason) s1 in
               if dead \<and> sensitive then redact job s2 else s2
           | Reject reason \<Rightarrow>
               let s2 = record_terminal env job now (SendReject reason) s1 in
               if sensitive then redact job s2 else s2))"

definition run_builtin :: "('j, 'c) runner_env \<Rightarrow> builtin \<Rightarrow> ('j, 'c) runner \<Rightarrow> (refusal + unit) \<times> ('j, 'c) runner" where
  "run_builtin env b s =
     (case b of
        ExpireSessions \<Rightarrow>
          (case outside (e_sweep env) s of (Some err, s1) \<Rightarrow> (Inl (SweepFailed err), s1) | (None, s1) \<Rightarrow> (Inr (), s1))
      | SendEmail \<Rightarrow> (Inl (FrameworkJob (builtin_name SendEmail)), s))"

definition execute :: "('j, 'c) runner_env \<Rightarrow> claimed_job \<Rightarrow> int \<Rightarrow> ('j, 'c) runner \<Rightarrow> ('j, 'c) runner" where
  "execute env job now s =
     (if builtin_from_name (cj_name job) = Some SendEmail then send_email env job now s
      else case builtin_from_name (cj_name job) of
        Some b \<Rightarrow>
          (case run_builtin env b s of
             (Inr _, s1) \<Rightarrow> record_success job now s1
           | (Inl why, s1) \<Rightarrow> record_failure env job now why s1)
      | None \<Rightarrow>
          if is_builtin (cj_name job) then record_terminal env job now NoLongerBuiltin s
          else case rn_plan s of
            None \<Rightarrow> record_terminal env job now NoJobsFile s
          | Some jobs \<Rightarrow>
              (case find_decl jobs (cj_name job) of
                 None \<Rightarrow> record_terminal env job now NoLongerDeclared s
               | Some decl \<Rightarrow>
                   let (ran, s1) = outside (\<lambda>n. e_body env n decl job) s in
                   (case ran of
                      Inl why \<Rightarrow> record_failure env job now (BodyFailed why) s1
                    | Inr effects \<Rightarrow>
                        (case apply_effects env job effects now s1 of
                           (Inl why, s2) \<Rightarrow> record_failure env job now why s2
                         | (Inr _, s2) \<Rightarrow> record_success job now s2))))"

section \<open>Expanding one page of a fan-out\<close>

text \<open>\<open>SELECT principal FROM users WHERE principal > ? ORDER BY principal LIMIT ?\<close>, on bytes.\<close>

definition page_after :: "string list \<Rightarrow> string option \<Rightarrow> nat \<Rightarrow> string list" where
  "page_after users cursor limit =
     take limit (filter (\<lambda>u. (case cursor of None \<Rightarrow> '''' | Some c \<Rightarrow> c) < u) (sort users))"

definition principals_after :: "string option \<Rightarrow> nat \<Rightarrow> ('j, 'c) runner \<Rightarrow> (queue_error + string list) \<times> ('j, 'c) runner" where
  "principals_after cursor limit s =
     (case on_queue call_db s of
        (Inl e, s1) \<Rightarrow> (Inl e, s1) | (Inr _, s1) \<Rightarrow> (Inr (page_after (rn_users s) cursor limit), s1))"

definition child_of :: "'c job_decl \<Rightarrow> claimed_job \<Rightarrow> int \<Rightarrow> string \<Rightarrow> enqueue_request" where
  "child_of decl job now who =
     \<lparr>eq_id = fanout_child_id (cj_id job) who, eq_name = jd_name decl, eq_args = ''{}'', eq_principal = Some who,
      eq_run_at_ms = now, eq_max_attempts = jd_max_attempts decl, eq_fanout = False\<rparr>"

definition enqueue_child :: "'c job_decl \<Rightarrow> claimed_job \<Rightarrow> int \<Rightarrow> string \<Rightarrow> ('j, 'c) runner \<Rightarrow> ('j, 'c) runner" where
  \<comment> \<open>a child that cannot be queued is only warned about\<close>
  "enqueue_child decl job now who s = snd (on_queue (enqueue (child_of decl job now who)) s)"

definition expand :: "('j, 'c) runner_env \<Rightarrow> claimed_job \<Rightarrow> int \<Rightarrow> ('j, 'c) runner \<Rightarrow> ('j, 'c) runner" where
  "expand env job now s =
     (case (case rn_plan s of None \<Rightarrow> None | Some jobs \<Rightarrow> find_decl jobs (cj_name job)) of
        None \<Rightarrow> record_terminal env job now NoLongerDeclared s
      | Some decl \<Rightarrow>
          (case principals_after (cj_cursor job) fanout_batch s of
             (Inl e, s1) \<Rightarrow> record_failure env job now (PrincipalsUnread e) s1
           | (Inr page, s1) \<Rightarrow>
               let exhausted = length page < fanout_batch;
                   s2 = fold (enqueue_child decl job now) page s1;
                   next_cursor = (if exhausted then None else Some (last page)) in
               snd (on_queue (advance_fanout (cj_id job) next_cursor now) s2)))"

section \<open>The loop\<close>

fun drain :: "('j, 'c) runner_env \<Rightarrow> nat \<Rightarrow> int \<Rightarrow> ('j, 'c) runner \<Rightarrow> ('j, 'c) runner option" where
  \<comment> \<open>\<open>None\<close> when the fuel ran out: bodies that keep queueing due work can keep it going\<close>
  "drain env 0 now s = None"
| "drain env (Suc fuel) now s =
     (let (stop, s0) = outside (e_stop env) s in
      if stop then Some s0
      else case on_queue (claim_due (e_queue env) now default_lease_ms) s0 of
        (Inr (Some job), s1) \<Rightarrow>
          drain env fuel now (if cj_is_fanout job then expand env job now s1 else execute env job now s1)
      | (_, s1) \<Rightarrow> Some s1)"

definition materialize_one :: "('j, 'c) runner_env \<Rightarrow> int \<Rightarrow> nat \<Rightarrow> ('j, 'c) runner \<Rightarrow> ('j, 'c) runner" where
  "materialize_one env now i s =
     (case rn_next_fire s ! i of
        None \<Rightarrow> s
      | Some fire_at \<Rightarrow>
          if now < fire_at then s
          else
            let entry = rn_scheduled s ! i;
                s1 = snd (on_queue (enqueue \<lparr>eq_id = fire_id (e_render env) (sc_name entry) fire_at,
                  eq_name = sc_name entry, eq_args = ''{}'', eq_principal = None, eq_run_at_ms = fire_at,
                  eq_max_attempts = sc_max_attempts entry, eq_fanout = sc_fanout entry\<rparr>) s) in
            s1\<lparr>rn_next_fire := (rn_next_fire s1)[i := next_after (e_cron env) (sc_schedule entry) fire_at]\<rparr>)"

definition materialize_due_fires :: "('j, 'c) runner_env \<Rightarrow> int \<Rightarrow> ('j, 'c) runner \<Rightarrow> ('j, 'c) runner" where
  "materialize_due_fires env now s = fold (materialize_one env now) [0..<length (rn_scheduled s)] s"

definition max_sleep_ms :: int where "max_sleep_ms = 300 * 1000"
definition done_retention_ms :: int where "done_retention_ms = 7 * 24 * 60 * 60 * 1000"
definition sweep_every :: u32 where "sweep_every = 64"

definition run_pass :: "('j, 'c) runner_env \<Rightarrow> nat \<Rightarrow> int \<Rightarrow> ('j, 'c) runner \<Rightarrow> ('j, 'c) runner option" where
  \<comment> \<open>one turn of \<open>run\<close>, up to its sleep\<close>
  "run_pass env fuel now s =
     (case drain env fuel now (materialize_due_fires env now s) of
        None \<Rightarrow> None
      | Some s1 \<Rightarrow>
          let s2 = s1\<lparr>rn_passes := rn_passes s1 + 1\<rparr> in
          Some (if rn_passes s2 mod sweep_every = 0
                then snd (on_queue (sweep_done (now - done_retention_ms)) s2) else s2))"

fun sooner :: "int option \<Rightarrow> int option \<Rightarrow> int option" where
  "sooner (Some a) (Some b) = Some (min a b)"
| "sooner (Some a) None = Some a"
| "sooner None b = b"

definition next_fire_of :: "int option list \<Rightarrow> int option" where
  "next_fire_of ts = fold sooner ts None"

fun sleep_until :: "int \<Rightarrow> int option \<Rightarrow> int" where
  "sleep_until now None = max_sleep_ms"
| "sleep_until now (Some instant) =
     min (max (max i64_min (min i64_max (instant - now))) 0) max_sleep_ms"

definition sleep_for :: "int \<Rightarrow> ('j, 'c) runner \<Rightarrow> int \<times> ('j, 'c) runner" where
  \<comment> \<open>in milliseconds\<close>
  "sleep_for now s =
     (let next_schedule = next_fire_of (rn_next_fire s);
          (res, s1) = on_queue (next_due_after now) s;
          next_queued = (case res of Inl _ \<Rightarrow> None | Inr t \<Rightarrow> t) in
      (sleep_until now (sooner next_schedule next_queued), s1))"

fun built_in_entries :: "'c cron_lib \<Rightarrow> builtin list \<Rightarrow> 'c scheduled list option" where
  \<comment> \<open>\<open>None\<close> where the source panics, on a schedule of its own that does not parse\<close>
  "built_in_entries lib [] = Some []"
| "built_in_entries lib (b # bs) =
     (case builtin_schedule b of
        None \<Rightarrow> built_in_entries lib bs
      | Some source \<Rightarrow>
          (case parse_schedule lib source of
             Some (Inr sch) \<Rightarrow>
               (case built_in_entries lib bs of
                  None \<Rightarrow> None
                | Some es \<Rightarrow> Some (\<lparr>sc_name = builtin_name b, sc_schedule = sch,
                               sc_max_attempts = builtin_max_attempts b, sc_fanout = False\<rparr> # es))
           | _ \<Rightarrow> None))"

definition declared_entries :: "'c job_decl list \<Rightarrow> 'c scheduled list" where
  "declared_entries jobs =
     map (\<lambda>j. \<lparr>sc_name = jd_name j, sc_schedule = the (jd_schedule j), sc_max_attempts = jd_max_attempts j,
               sc_fanout = jd_fan_out j\<rparr>) (scheduled_decls jobs)"

definition new_runner :: "('j, 'c) runner_env \<Rightarrow> 'c job_decl list option \<Rightarrow> jobs_db \<Rightarrow> string list \<Rightarrow> int \<Rightarrow>
    ('j, 'c) runner option" where
  "new_runner env plan db users now =
     (case built_in_entries (e_cron env) all_builtins of
        None \<Rightarrow> None
      | Some own \<Rightarrow>
          let es = own @ (case plan of None \<Rightarrow> [] | Some jobs \<Rightarrow> declared_entries jobs) in
          Some \<lparr>rn_plan = plan, rn_scheduled = es,
                rn_next_fire = map (\<lambda>e. next_after (e_cron env) (sc_schedule e) now) es,
                rn_passes = 0, rn_db = db, rn_users = users, rn_writes = [], rn_calls = 0\<rparr>)"

section \<open>Whose work a row is\<close>

definition principals_of :: "jobs_db \<Rightarrow> sql_value set" where
  "principals_of db = insert Null (r_principal ` set (rows db))"

text \<open>\<open>grants who s s'\<close>: going from \<open>s\<close> to \<open>s'\<close> no row and no write was made for anybody who is
  neither in \<open>who\<close> nor already the principal of a row.\<close>

definition grants :: "sql_value set \<Rightarrow> ('j, 'c) runner \<Rightarrow> ('j, 'c) runner \<Rightarrow> bool" where
  "grants who s s' \<longleftrightarrow> principals_of (rn_db s') \<subseteq> principals_of (rn_db s) \<union> who \<and>
     (\<exists>new. rn_writes s' = rn_writes s @ new \<and>
            list_all (\<lambda>(_, w). text_or_null w \<in> principals_of (rn_db s) \<union> who) new) \<and>
     rn_users s' = rn_users s"

lemma grants_refl [simp]: "grants who s s"
  by (simp add: grants_def)

lemma grants_trans: "grants who s s' \<Longrightarrow> grants who s' s'' \<Longrightarrow> grants who s s''"
  unfolding grants_def by (fastforce simp: list_all_iff)

lemma grants_mono: "grants who s s' \<Longrightarrow> who \<subseteq> who' \<Longrightarrow> grants who' s s'"
  unfolding grants_def by (fastforce simp: list_all_iff)

lemma grants_outside: "outside f s = (a, s') \<Longrightarrow> grants who s s'"
  by (auto simp: outside_def grants_def)

lemma grants_queue:
  assumes "on_queue f s = (a, s')" and "\<And>db b db'. f db = (b, db') \<Longrightarrow> principals_of db' \<subseteq> principals_of db \<union> who"
  shows "grants who s s'"
proof -
  obtain db where "f (rn_db s) = (a, db)" "s' = s\<lparr>rn_db := db\<rparr>"
    using assms(1) by (auto simp: on_queue_def split: prod.splits)
  thus ?thesis using assms(2) by (simp add: grants_def)
qed

lemma principals_update:
  assumes "\<And>r. r_principal (f r) = r_principal r"
  shows "r_principal ` set (snd (update_where P f rs)) = r_principal ` set rs"
proof -
  have "map r_principal (snd (update_where P f rs)) = map r_principal rs"
    using assms by (simp add: update_where_rows)
  thus ?thesis by (metis list.set_map)
qed

lemma principals_same: "rows db' = rows db \<Longrightarrow> principals_of db' = principals_of db"
  by (simp add: principals_of_def)

lemma principals_stmt:
  "r_principal ` set (snd (job_stmt x rs)) \<subseteq>
   r_principal ` set rs \<union> (case x of Enqueue_job q \<Rightarrow> {text_or_null (eq_principal q)} | _ \<Rightarrow> {})"
proof (cases x)
  case (Enqueue_job q)
  thus ?thesis by (auto simp: insert_or_ignore_def new_row_def)
next
  case (Sweep_jobs b)
  thus ?thesis by auto
qed (simp_all add: principals_update Let_def)

lemma principals_op:
  assumes "apply_job env x db = (a, db')" and "\<not> is_claim x"
  shows "principals_of db' \<subseteq> principals_of db \<union> (case x of Enqueue_job q \<Rightarrow> {text_or_null (eq_principal q)} | _ \<Rightarrow> {})"
  using assms
proof (cases rule: apply_job_cases)
  case ok
  thus ?thesis using principals_stmt [of x "rows db"] unfolding principals_of_def by auto
next
  case (broke m)
  thus ?thesis using principals_same [OF broke(2)] by auto
qed

text \<open>The operations of the queue as the runner calls them.\<close>

lemma queue_ops:
  "enqueue q db = (b, db') \<Longrightarrow> principals_of db' \<subseteq> principals_of db \<union> {text_or_null (eq_principal q)}"
  "complete i now db = (c, db') \<Longrightarrow> principals_of db' \<subseteq> principals_of db"
  "fail_job job now err j db = (d, db') \<Longrightarrow> principals_of db' \<subseteq> principals_of db"
  "redact_args i db = (c, db') \<Longrightarrow> principals_of db' \<subseteq> principals_of db"
  "advance_fanout i cur now db = (c, db') \<Longrightarrow> principals_of db' \<subseteq> principals_of db"
  "sweep_done t db = (e, db') \<Longrightarrow> principals_of db' \<subseteq> principals_of db"
  using principals_op [of undefined "Enqueue_job q" db] principals_op [of undefined "Complete_job i now" db]
    principals_op [of undefined "Fail_job job now err j" db] principals_op [of undefined "Redact_job i" db]
    principals_op [of undefined "Advance_job i cur now" db] principals_op [of undefined "Sweep_jobs t" db]
  by (simp_all add: answer_def)

lemma grants_enqueue:
  "on_queue (enqueue q) s = (a, s') \<Longrightarrow> text_or_null (eq_principal q) \<in> who \<Longrightarrow> grants who s s'"
  by (erule grants_queue) (use queue_ops(1) in blast)

lemma grants_snd_queue:
  assumes "\<And>db b db'. f db = (b, db') \<Longrightarrow> principals_of db' \<subseteq> principals_of db"
  shows "grants who s (snd (on_queue f s))"
proof (rule grants_queue [OF surjective_pairing])
  fix db b db'
  assume "f db = (b, db')"
  thus "principals_of db' \<subseteq> principals_of db \<union> who" using assms by fast
qed

lemma grants_reports:
  "grants who s (record_success job now s)" "grants who s (redact job s)"
  "grants who s (snd (on_queue (advance_fanout i c now) s))" "grants who s (snd (on_queue (sweep_done t) s))"
  unfolding record_success_def redact_def by (rule grants_snd_queue, erule queue_ops)+

lemma grants_failure: "grants who s (record_failure env job now why s)"
proof -
  obtain j s1 where o: "outside (e_jitter env) s = (j, s1)" by fastforce
  have "grants who s1 (snd (on_queue (fail_job job now (e_message env why) j) s1))"
    by (rule grants_queue [OF surjective_pairing]) (use queue_ops(3) in blast)
  thus ?thesis using grants_trans [OF grants_outside [OF o]] by (simp add: record_failure_def o)
qed

lemma grants_terminal: "grants who s (record_terminal env job now why s)"
  by (simp add: record_terminal_def grants_failure)

lemma grants_write_enqueue:
  assumes "write_enqueue env intent who now s = (res, s')"
  shows "grants {text_or_null who} s s'"
proof -
  obtain row s1 where r: "intent_row env intent who s = (row, s1)" by fastforce
  hence g1: "grants {text_or_null who} s s1"
    by (auto simp: intent_row_def intro: grants_outside split: option.splits if_splits sum.splits prod.splits)
  obtain i s2 where i: "intent_id env intent s1 = (i, s2)" by fastforce
  hence "grants {text_or_null who} s1 s2"
    by (auto simp: intent_id_def intro: grants_outside split: option.splits prod.splits)
  hence g2: "grants {text_or_null who} s s2" using g1 grants_trans by blast
  show ?thesis
  proof (cases row)
    case (Inl e)
    thus ?thesis using assms r g1 by (simp add: write_enqueue_def)
  next
    case (Inr x)
    obtain attempts args where x: "x = (attempts, args)" by fastforce
    show ?thesis
    proof (cases "intent_delay intent")
      case (Inl e)
      thus ?thesis using assms r g1 Inr x by (simp add: write_enqueue_def)
    next
      case (Inr d)
      let ?q = "\<lparr>eq_id = i, eq_name = in_name intent, eq_args = args, eq_principal = who,
        eq_run_at_ms = i64_sat_add now d, eq_max_attempts = attempts, eq_fanout = False\<rparr>"
      obtain b s3 where b: "on_queue (enqueue ?q) s2 = (b, s3)" by fastforce
      hence "s' = s3" using assms r i Inr \<open>row = Inr x\<close> x
        by (auto simp: write_enqueue_def split: sum.splits)
      moreover have "grants {text_or_null who} s2 s3" by (rule grants_enqueue [OF b]) simp
      ultimately show ?thesis using g2 grants_trans by blast
    qed
  qed
qed

lemma grants_write_enqueues:
  "write_enqueues env xs who now s = (res, s') \<Longrightarrow> grants {text_or_null who} s s'"
proof (induction xs arbitrary: s)
  case (Cons x xs)
  obtain r s1 where w: "write_enqueue env x who now s = (r, s1)" by fastforce
  show ?case
    using Cons w grants_write_enqueue [OF w] by (auto intro: grants_trans split: sum.splits)
qed simp

lemma grants_apply_writes:
  "apply_writes env ws who s = (res, s') \<Longrightarrow> grants {text_or_null who} s s'"
  by (auto simp: apply_writes_def outside_def grants_def split: if_splits option.splits)

lemma grants_apply_effects:
  assumes "apply_effects env job es now s = (res, s')"
  shows "grants {text_or_null (cj_principal job)} s s'"
proof (cases "es = [] \<or> (\<exists>e. sort_effects es = Inl e)")
  case True
  thus ?thesis using assms by (auto simp: apply_effects_def split: if_splits)
next
  case False
  then obtain ws qs where e: "es \<noteq> []" "sort_effects es = Inr (ws, qs)" by (cases "sort_effects es") auto
  obtain r s1 where w: "apply_writes env ws (cj_principal job) s = (r, s1)" by fastforce
  note g = grants_apply_writes [OF w]
  show ?thesis
  proof (cases r)
    case (Inl e')
    thus ?thesis using assms e w g by (simp add: apply_effects_def)
  next
    case (Inr u)
    hence "write_enqueues env qs (cj_principal job) now s1 = (res, s')"
      using assms e w by (simp add: apply_effects_def)
    thus ?thesis using g grants_write_enqueues grants_trans by blast
  qed
qed

lemma grants_send_email: "grants who s (send_email env job now s)"
proof -
  obtain o1 s1 where o: "outside (\<lambda>n. e_deliver env n job) s = (o1, s1)" by fastforce
  note g = grants_outside [OF o, of who]
  have "grants who s (redact job (record_success job now s1))"
    "grants who s (record_failure env job now w s1)" "grants who s (redact job (record_failure env job now w s1))"
    "grants who s (record_terminal env job now w s1)" "grants who s (redact job (record_terminal env job now w s1))" for w
    using g grants_reports(1,2) grants_failure grants_terminal by (meson grants_trans)+
  thus ?thesis
    by (simp add: send_email_def o Let_def grants_terminal split: option.split send_outcome.split)
qed

lemma grants_execute: "grants {text_or_null (cj_principal job)} s (execute env job now s)"
proof -
  have b: "grants who s (case run_builtin env b s of (Inr _, s1) \<Rightarrow> record_success job now s1
       | (Inl why, s1) \<Rightarrow> record_failure env job now why s1)" for b who
  proof -
    obtain r s1 where r: "run_builtin env b s = (r, s1)" by fastforce
    hence "grants who s s1"
      by (auto simp: run_builtin_def intro: grants_outside split: builtin.splits prod.splits option.splits)
    hence "grants who s (record_success job now s1)" "grants who s (record_failure env job now w s1)" for w
      using grants_reports(1) grants_failure grants_trans by blast+
    thus ?thesis by (simp add: r split: sum.split)
  qed
  have a: "grants {text_or_null (cj_principal job)} s
      (let (ran, s1) = outside (\<lambda>n. e_body env n decl job) s in
       case ran of Inl why \<Rightarrow> record_failure env job now (BodyFailed why) s1
       | Inr effects \<Rightarrow> (case apply_effects env job effects now s1 of
           (Inl why, s2) \<Rightarrow> record_failure env job now why s2 | (Inr _, s2) \<Rightarrow> record_success job now s2))" for decl
  proof -
    obtain ran s1 where o: "outside (\<lambda>n. e_body env n decl job) s = (ran, s1)" by fastforce
    note g = grants_outside [OF o]
    show ?thesis
    proof (cases ran)
      case (Inl why)
      thus ?thesis using o grants_trans [OF g grants_failure] by simp
    next
      case (Inr es)
      obtain r s2 where r: "apply_effects env job es now s1 = (r, s2)" by fastforce
      have "grants {text_or_null (cj_principal job)} s s2"
        using g grants_apply_effects [OF r] grants_trans by blast
      hence "grants {text_or_null (cj_principal job)} s (record_success job now s2)"
        "grants {text_or_null (cj_principal job)} s (record_failure env job now w s2)" for w
        using grants_reports(1) grants_failure grants_trans by blast+
      thus ?thesis by (simp add: o Inr r split: sum.split)
    qed
  qed
  show ?thesis
    using a b by (simp add: execute_def grants_send_email grants_terminal split: option.split)
qed

lemma grants_absorb: "grants {w} s s' \<Longrightarrow> w \<in> principals_of (rn_db s) \<Longrightarrow> grants {} s s'"
  unfolding grants_def by (simp add: insert_absorb)

lemma page_after_users: "set (page_after users cursor limit) \<subseteq> set users"
  by (auto simp: page_after_def dest: in_set_takeD)

definition user_principals :: "('j, 'c) runner \<Rightarrow> sql_value set" where
  "user_principals s = Text ` set (rn_users s)"

lemma principals_after_grants:
  assumes "principals_after cursor limit s = (res, s')"
  shows "grants who s s' \<and> (\<forall>page. res = Inr page \<longrightarrow> set page \<subseteq> set (rn_users s'))"
proof -
  obtain r s1 where r: "on_queue call_db s = (r, s1)" by fastforce
  have "grants who s s1"
    by (rule grants_queue [OF r]) (metis Un_upper1 principals_same rows_call_db snd_conv)
  moreover from this have "rn_users s1 = rn_users s" by (simp add: grants_def)
  ultimately show ?thesis
    using assms r page_after_users by (auto simp: principals_after_def split: sum.splits)
qed

lemma grants_children:
  "set page \<subseteq> set (rn_users s) \<Longrightarrow> grants (Text ` set (rn_users s)) s (fold (enqueue_child decl job now) page s)"
proof (induction page arbitrary: s)
  case (Cons w ws)
  let ?s1 = "enqueue_child decl job now w s"
  have g: "grants (Text ` set (rn_users s)) s ?s1"
    unfolding enqueue_child_def
    by (rule grants_enqueue [OF surjective_pairing]) (use Cons.prems in \<open>simp add: child_of_def text_or_null_def\<close>)
  hence "rn_users ?s1 = rn_users s" by (simp add: grants_def)
  thus ?case using Cons.IH [of ?s1] Cons.prems grants_trans [OF g] by simp
qed simp

lemma grants_expand: "grants (user_principals s) s (expand env job now s)"
proof -
  obtain r s1 where p: "principals_after (cj_cursor job) fanout_batch s = (r, s1)" by fastforce
  note g = principals_after_grants [OF p]
  have g1: "grants (user_principals s) s s1" using g by blast
  have u: "rn_users s1 = rn_users s" using g1 by (simp add: grants_def)
  have "grants (user_principals s) s (record_failure env job now w s1)" for w
    using grants_trans [OF g1 grants_failure] .
  moreover have "grants (user_principals s) s (snd (on_queue (advance_fanout i c now)
      (fold (enqueue_child decl job now) page s1)))" if "r = Inr page" for page i c decl
  proof -
    have "grants (user_principals s) s1 (fold (enqueue_child decl job now) page s1)"
      using grants_children [of page s1] g that u by (simp add: user_principals_def)
    thus ?thesis using g1 grants_reports(3) grants_trans by blast
  qed
  ultimately show ?thesis
    by (simp add: expand_def p Let_def grants_terminal split: option.split sum.split)
qed

lemma claimed_principal:
  assumes "oldest_first p" and "claim_due (serial_env p) now lease db = (res, db')"
  shows "principals_of db' \<subseteq> principals_of db \<and>
    (\<forall>job. res = Inr (Some job) \<longrightarrow> text_or_null (cj_principal job) \<in> principals_of db')"
  using assms(2)
proof (cases rule: claim_due_cases)
  case (took r job att st)
  have r: "r \<in> set (rows db)" using oldest_first.pick_filter [OF assms(1) took(1)] by blast
  have e: "r_principal ` set (rows db') = r_principal ` set (rows db)"
    unfolding took(4) take_claim_def by (intro principals_update) simp
  have "text_or_null (cj_principal job) \<in> {Null, r_principal r}"
    using read_claim_some [OF took(2)] by (cases "r_principal r") (auto simp: text_or_null_def)
  thus ?thesis using took(3) r e by (auto simp: principals_of_def)
qed (auto dest: principals_same)

lemma grants_drain:
  assumes "oldest_first p" and "e_queue env = serial_env p"
  shows "drain env fuel now s = Some s' \<Longrightarrow> grants (user_principals s) s s'"
proof (induction fuel arbitrary: s)
  case (Suc fuel)
  obtain stop s0 where o: "outside (e_stop env) s = (stop, s0)" by fastforce
  note g0 = grants_outside [OF o, of "user_principals s"]
  obtain r s1 where c: "on_queue (claim_due (e_queue env) now default_lease_ms) s0 = (r, s1)" by fastforce
  obtain db' where q: "claim_due (serial_env p) now default_lease_ms (rn_db s0) = (r, db')" "s1 = s0\<lparr>rn_db := db'\<rparr>"
    using c assms(2) by (auto simp: on_queue_def split: prod.splits)
  note cp = claimed_principal [OF assms(1) q(1)]
  have "grants (user_principals s) s0 s1" using cp q(2) by (auto simp: grants_def)
  hence g1: "grants (user_principals s) s s1" using g0 grants_trans by blast
  hence u: "user_principals s1 = user_principals s" by (simp add: user_principals_def grants_def)
  show ?case
  proof (cases "stop \<or> (\<nexists>job. r = Inr (Some job))")
    case True
    hence "s' = s0 \<or> s' = s1"
    proof (cases stop)
      case False
      hence "r = Inr None \<or> (\<exists>e. r = Inl e)" using True by (cases r) (auto intro: option.exhaust)
      thus ?thesis using Suc.prems o c False by auto
    qed (use Suc.prems o in simp)
    thus ?thesis using g0 g1 by blast
  next
    case False
    then obtain job where r: "r = Inr (Some job)" "\<not> stop" by blast
    define s2 where "s2 = (if cj_is_fanout job then expand env job now s1 else execute env job now s1)"
    have "text_or_null (cj_principal job) \<in> principals_of (rn_db s1)" using cp r q(2) by simp
    hence "grants {} s1 (execute env job now s1)" using grants_execute grants_absorb by blast
    hence "grants (user_principals s1) s1 s2"
      using grants_expand [of s1 env job now] grants_mono [of "{}" s1] unfolding s2_def by simp
    moreover have "drain env fuel now s2 = Some s'" using Suc.prems o c r by (simp add: s2_def)
    moreover from calculation have "user_principals s2 = user_principals s1" by (simp add: user_principals_def grants_def)
    ultimately show ?thesis using Suc.IH [of s2] g1 u grants_trans by metis
  qed
qed simp

lemma grants_materialize_one: "grants who s (materialize_one env now i s)"
proof -
  have "grants who s (snd (on_queue (enqueue q) s))" if "eq_principal q = None" for q
    by (rule grants_queue [OF surjective_pairing])
      (use queue_ops(1) [of q] that in \<open>fastforce simp: principals_of_def text_or_null_def\<close>)
  thus ?thesis
    by (auto simp: materialize_one_def Let_def grants_def split: option.split)
qed

lemma grants_materialize: "grants who s (materialize_due_fires env now s)"
proof -
  have "grants who s (fold (materialize_one env now) js s)" for js
    by (induction js arbitrary: s) (auto intro: grants_trans grants_materialize_one)
  thus ?thesis by (simp add: materialize_due_fires_def)
qed


section \<open>The pages of a fan-out\<close>

lemma filter_after_last:
  fixes ys zs :: "string list"
  assumes "sorted (ys @ zs)" and "distinct (ys @ zs)" and "ys \<noteq> []"
  shows "filter (\<lambda>u. last ys < u) (ys @ zs) = zs"
proof -
  have "\<not> last ys < u" if "u \<in> set ys" for u
  proof -
    have "sorted (butlast ys @ [last ys])" using assms(1,3) by (simp add: sorted_append)
    moreover have "u \<in> set (butlast ys @ [last ys])" using that assms(3) by simp
    ultimately have "u \<le> last ys" by (auto simp: sorted_append)
    thus ?thesis by simp
  qed
  moreover have "last ys < u" if "u \<in> set zs" for u
  proof -
    have "last ys \<in> set ys" using assms(3) by simp
    hence "last ys \<le> u" "last ys \<noteq> u" using assms(1,2) that by (auto simp: sorted_append)
    thus ?thesis by simp
  qed
  ultimately show ?thesis by (simp add: filter_False)
qed

definition after_cursor :: "string list \<Rightarrow> string option \<Rightarrow> string list" where
  "after_cursor users cursor = filter (\<lambda>u. (case cursor of None \<Rightarrow> '''' | Some c \<Rightarrow> c) < u) (sort users)"

lemma page_after_take: "page_after users cursor n = take n (after_cursor users cursor)"
  by (simp add: page_after_def after_cursor_def)

lemma next_page:
  assumes "distinct users" and "page_after users cursor n = page" and "page \<noteq> []"
  shows "after_cursor users (Some (last page)) = drop n (after_cursor users cursor)"
proof -
  let ?c = "case cursor of None \<Rightarrow> '''' | Some c \<Rightarrow> c"
  define L where "L = after_cursor users cursor"
  have p: "page = take n L" using assms(2) by (simp add: page_after_take L_def)
  have "last page \<in> set L" using assms(3) p by (metis in_set_takeD last_in_set)
  hence "?c < last page" by (simp add: L_def after_cursor_def)
  hence "filter (\<lambda>u. last page < u) (sort users) = filter (\<lambda>u. last page < u) L"
    by (auto simp: L_def after_cursor_def intro!: filter_cong)
  also have "\<dots> = drop n L"
  proof -
    have "sorted L" "distinct L" using assms(1) by (simp_all add: L_def after_cursor_def sorted_wrt_filter)
    thus ?thesis using filter_after_last [of "take n L" "drop n L"] assms(3) by (simp add: p)
  qed
  finally show ?thesis by (simp add: after_cursor_def L_def)
qed

text \<open>The rows of the children, on a storage that answers.\<close>

definition child_rows :: "'c job_decl \<Rightarrow> claimed_job \<Rightarrow> int \<Rightarrow> string list \<Rightarrow> job_row list \<Rightarrow> job_row list" where
  "child_rows decl job now page rs =
     fold (\<lambda>u rs. snd (insert_or_ignore (new_row (child_of decl job now u)) rs)) page rs"

lemma enqueue_children:
  "faults (rn_db s) = [] \<Longrightarrow> fold (enqueue_child decl job now) page s =
     s\<lparr>rn_db := (rn_db s)\<lparr>rows := child_rows decl job now page (rows (rn_db s))\<rparr>\<rparr>"
proof (induction page arbitrary: s)
  case (Cons u page)
  have "enqueue_child decl job now u s =
      s\<lparr>rn_db := (rn_db s)\<lparr>rows := snd (insert_or_ignore (new_row (child_of decl job now u)) (rows (rn_db s)))\<rparr>\<rparr>"
    using Cons.prems by (simp add: enqueue_child_def on_queue_def enqueue_def)
  thus ?case using Cons.IH [of "enqueue_child decl job now u s"] Cons.prems by (simp add: child_rows_def)
qed (simp add: child_rows_def)

lemma child_rows_keep: "r \<in> set rs \<Longrightarrow> r \<in> set (child_rows decl job now page rs)"
  by (induction page arbitrary: rs) (auto simp: child_rows_def insert_or_ignore_def)

lemma child_rows_wf:
  "list_all row_wf rs \<and> distinct (map r_id rs) \<Longrightarrow>
   list_all row_wf (child_rows decl job now page rs) \<and> distinct (map r_id (child_rows decl job now page rs))"
  by (induction page arbitrary: rs) (simp_all add: child_rows_def insert_or_ignore_wf)

lemma child_rows_new:
  "r \<in> set (child_rows decl job now page rs) \<Longrightarrow> r \<in> set rs \<or> (\<exists>u\<in>set page. r = new_row (child_of decl job now u))"
proof (induction page arbitrary: rs)
  case (Cons u page)
  show ?case
    using Cons.IH [of "snd (insert_or_ignore (new_row (child_of decl job now u)) rs)"] Cons.prems
    by (auto simp: child_rows_def insert_or_ignore_def split: if_splits)
qed (simp add: child_rows_def)

lemma child_rows_all:
  "u \<in> set page \<Longrightarrow> list_ex (has_id (fanout_child_id (cj_id job) u)) (child_rows decl job now page rs)"
proof (induction page arbitrary: rs)
  case (Cons v page)
  let ?rs = "snd (insert_or_ignore (new_row (child_of decl job now v)) rs)"
  show ?case
  proof (cases "u = v")
    case True
    hence "list_ex (has_id (fanout_child_id (cj_id job) u)) ?rs"
      using insert_or_ignore_ids(1) [of "fanout_child_id (cj_id job) u" "child_of decl job now v" rs]
      by (simp add: child_of_def)
    then obtain r where "r \<in> set ?rs" "has_id (fanout_child_id (cj_id job) u) r" by (auto simp: list_ex_iff)
    thus ?thesis using child_rows_keep [of r ?rs decl job now page]
      by (auto simp: child_rows_def list_ex_iff)
  next
    case False
    thus ?thesis using Cons by (simp add: child_rows_def)
  qed
qed simp

lemma child_id_other: "fanout_child_id i u \<noteq> i"
  by (simp add: fanout_child_id_def)

definition advanced :: "string \<Rightarrow> string option \<Rightarrow> int \<Rightarrow> job_row \<Rightarrow> job_row" where
  "advanced i c now r =
     (if has_id i r
      then r\<lparr>r_state := Text (state_as_str (if c = None then Done else Fanout)), r_cursor := text_or_null c,
             r_lease_until := Null, r_run_at := Integer now, r_updated_at := Integer now\<rparr>
      else r)"

lemma advanced_id [simp]: "r_id (advanced i c now r) = r_id r"
  by (simp add: advanced_def)

lemma expand_exact:
  assumes "rn_plan s = Some jobs" and "find_decl jobs (cj_name job) = Some decl" and "faults (rn_db s) = []"
    and "page = page_after (rn_users s) (cj_cursor job) fanout_batch"
    and "c = (if length page < fanout_batch then None else Some (last page))"
  shows "expand env job now s =
    s\<lparr>rn_db := (rn_db s)\<lparr>rows := map (advanced (cj_id job) c now) (child_rows decl job now page (rows (rn_db s)))\<rparr>\<rparr>"
proof -
  have p: "principals_after (cj_cursor job) fanout_batch s = (Inr page, s)"
    using assms(3,4) by (simp add: principals_after_def on_queue_def)
  show ?thesis
    using assms(1,2,3) p enqueue_children [OF assms(3), of decl job now page] assms(5)
    by (cases c) (auto simp: expand_def Let_def on_queue_def advance_fanout_def update_where_def advanced_def
        text_or_null_def split: if_splits)
qed

fun expansions :: "nat \<Rightarrow> ('j, 'c) runner_env \<Rightarrow> claimed_job \<Rightarrow> int \<Rightarrow> ('j, 'c) runner \<Rightarrow> ('j, 'c) runner" where
  \<comment> \<open>the expansions of one row, each from the cursor the one before left in it\<close>
  "expansions 0 env job now s = s"
| "expansions (Suc n) env job now s =
     (let s1 = expand env job now s in
      case find (\<lambda>r. has_id (cj_id job) r \<and> in_state Fanout r) (rows (rn_db s1)) of
        None \<Rightarrow> s1
      | Some r \<Rightarrow> expansions n env (job\<lparr>cj_cursor := as_str (r_cursor r)\<rparr>) now s1)"

lemma fanout_batch_pos: "0 < fanout_batch"
  by (simp add: fanout_batch_def)

lemma advanced_wf:
  assumes "list_all row_wf rs \<and> distinct (map r_id rs)"
  shows "list_all row_wf (map (advanced i c now) rs) \<and> distinct (map r_id (map (advanced i c now) rs))"
proof -
  have "map r_id (map (advanced i c now) rs) = map r_id rs" by simp
  moreover have "row_wf r \<Longrightarrow> row_wf (advanced i c now r)" for r
    by (auto simp: row_wf_def advanced_def in_state_def)
  ultimately show ?thesis using assms by (auto simp: list_all_iff simp del: map_map)
qed

definition expanded_from :: "'c job_decl \<Rightarrow> claimed_job \<Rightarrow> int \<Rightarrow> string list \<Rightarrow> jobs_db \<Rightarrow> jobs_db \<Rightarrow> bool" where
  \<comment> \<open>no row but the fan-out's own is changed or lost, and the rows that are new are children\<close>
  "expanded_from decl job now users db db' \<longleftrightarrow>
     (\<forall>r\<in>set (rows db). has_id (cj_id job) r \<or> r \<in> set (rows db')) \<and>
     (\<forall>r\<in>set (rows db'). has_id (cj_id job) r \<or> r \<in> set (rows db) \<or>
        (\<exists>u\<in>set users. r = new_row (child_of decl job now u)))"

lemma expanded_trans:
  "expanded_from decl job now users a b \<Longrightarrow> expanded_from decl job now users b c \<Longrightarrow>
   expanded_from decl job now users a c"
  unfolding expanded_from_def by blast

lemma advanced_rows:
  assumes "page = page_after users cursor fanout_batch"
  shows "expanded_from decl job now users db
           (db\<lparr>rows := map (advanced (cj_id job) c now) (child_rows decl job now page (rows db))\<rparr>)"
proof -
  have a: "advanced (cj_id job) c now r = r" if "\<not> has_id (cj_id job) r" for r
    using that by (simp add: advanced_def)
  have b: "has_id (cj_id job) (advanced (cj_id job) c now r) = has_id (cj_id job) r" for r
    by (simp add: has_id_def)
  have u: "set page \<subseteq> set users" using page_after_users assms by blast
  show ?thesis
    unfolding expanded_from_def
  proof (intro conjI ballI)
    fix r assume "r \<in> set (rows db)"
    thus "has_id (cj_id job) r \<or> r \<in> set (rows (db\<lparr>rows :=
        map (advanced (cj_id job) c now) (child_rows decl job now page (rows db))\<rparr>))"
      using a [of r] child_rows_keep [of r "rows db" decl job now page] by (auto intro: rev_image_eqI)
  next
    fix r assume "r \<in> set (rows (db\<lparr>rows := map (advanced (cj_id job) c now) (child_rows decl job now page (rows db))\<rparr>))"
    then obtain x where "x \<in> set (child_rows decl job now page (rows db))" "r = advanced (cj_id job) c now x" by auto
    thus "has_id (cj_id job) r \<or> r \<in> set (rows db) \<or> (\<exists>u\<in>set users. r = new_row (child_of decl job now u))"
      using a [of x] b [of x] child_rows_new [of x decl job now page "rows db"] u by fastforce
  qed
qed

lemma expansions_run:
  assumes plan: "rn_plan s = Some jobs" and decl: "find_decl jobs (cj_name job) = Some decl"
    and dist: "distinct (rn_users s)"
  shows "faults (rn_db s) = [] \<Longrightarrow> jobs_wf (rn_db s) \<Longrightarrow> holds_id (cj_id job) (rn_db s) \<Longrightarrow>
    length (after_cursor (rn_users s) (cj_cursor job)) div fanout_batch < n \<Longrightarrow>
    s' = expansions n env job now s \<Longrightarrow>
    jobs_wf (rn_db s') \<and> expanded_from decl job now (rn_users s) (rn_db s) (rn_db s') \<and>
    (\<forall>u\<in>set (after_cursor (rn_users s) (cj_cursor job)). holds_id (fanout_child_id (cj_id job) u) (rn_db s')) \<and>
    (\<forall>r\<in>set (rows (rn_db s')). has_id (cj_id job) r \<longrightarrow> in_state Done r)"
  using plan decl dist
proof (induction n arbitrary: s job)
  case (Suc n)
  let ?i = "cj_id job" and ?L = "after_cursor (rn_users s) (cj_cursor job)"
  define page where "page = page_after (rn_users s) (cj_cursor job) fanout_batch"
  define c where "c = (if length page < fanout_batch then None else Some (last page))"
  define s1 where "s1 = expand env job now s"
  have s1: "s1 = s\<lparr>rn_db := (rn_db s)\<lparr>rows := map (advanced ?i c now) (child_rows decl job now page (rows (rn_db s)))\<rparr>\<rparr>"
    unfolding s1_def by (rule expand_exact [OF Suc.prems(6,7,1) page_def c_def])
  have wf1: "jobs_wf (rn_db s1)"
    using advanced_wf [OF child_rows_wf [OF Suc.prems(2) [unfolded jobs_wf_def]], of ?i c now decl job now page]
    unfolding jobs_wf_def s1 by simp
  have x1: "expanded_from decl job now (rn_users s) (rn_db s) (rn_db s1)"
    using advanced_rows [OF page_def] by (simp add: s1)
  have row: "r_state r = Text (state_as_str (if c = None then Done else Fanout)) \<and> r_cursor r = text_or_null c"
    if "r \<in> set (rows (rn_db s1))" "has_id ?i r" for r
    using that by (auto simp: s1 advanced_def has_id_def)
  have kept: "list_ex (has_id i) rs \<Longrightarrow> list_ex (has_id i) (map (advanced ?i c now) rs)" for i rs
    by (auto simp: list_ex_iff has_id_def)
  have pg: "\<forall>u\<in>set page. holds_id (fanout_child_id ?i u) (rn_db s1)"
  proof
    fix u assume "u \<in> set page"
    thus "holds_id (fanout_child_id ?i u) (rn_db s1)"
      using kept [OF child_rows_all [of u page job decl now "rows (rn_db s)"]] by (simp add: holds_id_def s1)
  qed
  have "\<exists>r\<in>set (child_rows decl job now page (rows (rn_db s))). has_id ?i r"
    using Suc.prems(3) child_rows_keep by (fastforce simp: holds_id_def list_ex_iff)
  hence h1: "holds_id ?i (rn_db s1)" using kept [of ?i] by (simp add: holds_id_def s1 list_ex_iff)
  have pageL: "page = take fanout_batch ?L" by (simp add: page_def page_after_take)
  show ?case
  proof (cases "length page < fanout_batch")
    case True
    hence "page = ?L" using pageL by simp
    moreover have "find (\<lambda>r. has_id ?i r \<and> in_state Fanout r) (rows (rn_db s1)) = None"
      using row True by (auto simp: find_None_iff in_state_def c_def)
    hence "s' = s1" using Suc.prems(5) by (simp add: s1_def)
    ultimately show ?thesis using wf1 x1 pg row True by (simp add: in_state_def c_def)
  next
    case False
    hence full: "fanout_batch \<le> length ?L" "page \<noteq> []" using pageL fanout_batch_pos by auto
    obtain r where r: "find (\<lambda>r. has_id ?i r \<and> in_state Fanout r) (rows (rn_db s1)) = Some r"
      "r \<in> set (rows (rn_db s1))" "has_id ?i r"
    proof -
      have "\<exists>r\<in>set (rows (rn_db s1)). has_id ?i r \<and> in_state Fanout r"
        using h1 row False by (auto simp: holds_id_def list_ex_iff in_state_def c_def)
      hence "find (\<lambda>r. has_id ?i r \<and> in_state Fanout r) (rows (rn_db s1)) \<noteq> None"
        unfolding find_None_iff by blast
      then obtain q where q: "find (\<lambda>r. has_id ?i r \<and> in_state Fanout r) (rows (rn_db s1)) = Some q" by blast
      hence "q \<in> set (rows (rn_db s1))" "has_id ?i q" unfolding find_Some_iff by auto
      thus thesis using that q by blast
    qed
    let ?job = "job\<lparr>cj_cursor := Some (last page)\<rparr>"
    have cur: "as_str (r_cursor r) = Some (last page)" using row [OF r(2,3)] False by (simp add: c_def text_or_null_def)
    have e: "s' = expansions n env ?job now s1" using Suc.prems(5) r(1) cur by (simp add: s1_def [symmetric] Let_def)
    have L1: "after_cursor (rn_users s1) (cj_cursor ?job) = drop fanout_batch ?L"
      using next_page [OF Suc.prems(8) page_def [symmetric] full(2)] by (simp add: s1)
    have ch: "child_of decl ?job now = child_of decl job now" by (intro ext) (simp add: child_of_def)
    have "length (drop fanout_batch ?L) div fanout_batch < n"
      using Suc.prems(4) full(1) fanout_batch_pos by (simp add: div_if [of "length ?L"])
    hence ih: "jobs_wf (rn_db s') \<and> expanded_from decl ?job now (rn_users s1) (rn_db s1) (rn_db s') \<and>
        (\<forall>u\<in>set (drop fanout_batch ?L). holds_id (fanout_child_id ?i u) (rn_db s')) \<and>
        (\<forall>r\<in>set (rows (rn_db s')). has_id ?i r \<longrightarrow> in_state Done r)"
      using Suc.IH [OF _ wf1 _ _ e] Suc.prems(1,6,7,8) h1 L1 by (simp add: s1)
    have x2: "expanded_from decl job now (rn_users s) (rn_db s1) (rn_db s')"
      using ih by (simp add: expanded_from_def ch s1)
    have "\<forall>u\<in>set page. holds_id (fanout_child_id ?i u) (rn_db s')"
    proof
      fix u assume "u \<in> set page"
      then obtain q where q: "q \<in> set (rows (rn_db s1))" "has_id (fanout_child_id ?i u) q"
        using pg by (auto simp: holds_id_def list_ex_iff)
      hence "\<not> has_id ?i q" using child_id_other [of ?i u] by (auto simp: has_id_def)
      hence "q \<in> set (rows (rn_db s'))" using x2 q(1) by (auto simp: expanded_from_def)
      thus "holds_id (fanout_child_id ?i u) (rn_db s')" using q(2) by (auto simp: holds_id_def list_ex_iff)
    qed
    hence "\<forall>u\<in>set ?L. holds_id (fanout_child_id ?i u) (rn_db s')"
      using ih pageL by (metis Un_iff append_take_drop_id set_append)
    thus ?thesis using ih expanded_trans [OF x1 x2] by blast
  qed
qed simp


section \<open>Finished means applied, and the sleep\<close>

definition done_ids :: "jobs_db \<Rightarrow> sql_value set" where
  "done_ids db = r_id ` set (filter (in_state Done) (rows db))"

lemma done_ids_stmt:
  assumes "rows db' = rows db \<or> rows db' = snd (job_stmt x (rows db))"
    and "(\<exists>q. x = Enqueue_job q) \<or> (\<exists>job now err j. x = Fail_job job now err j)"
  shows "done_ids db' \<subseteq> done_ids db"
  using assms
  by (auto simp: done_ids_def insert_or_ignore_def new_row_def in_state_def update_where_rows Let_def split: if_splits)

lemma done_ids_op:
  assumes "apply_job env x db = (a, db')"
    and "(\<exists>q. x = Enqueue_job q) \<or> (\<exists>job now err j. x = Fail_job job now err j)"
  shows "done_ids db' \<subseteq> done_ids db"
proof -
  have "\<not> is_claim x" using assms(2) by auto
  with assms(1) have "rows db' = rows db \<or> rows db' = snd (job_stmt x (rows db))"
    by (cases rule: apply_job_cases) blast+
  thus ?thesis by (rule done_ids_stmt [OF _ assms(2)])
qed

lemma done_ids_enqueue: "enqueue q db = (a, db') \<Longrightarrow> done_ids db' \<subseteq> done_ids db"
  by (rule done_ids_op [of undefined "Enqueue_job q" db "fst (answer Enqueued (a, db'))"])
    (simp_all add: answer_def)

lemma done_ids_fail: "fail_job job now err j db = (a, db') \<Longrightarrow> done_ids db' \<subseteq> done_ids db"
  by (rule done_ids_op [of undefined "Fail_job job now err j" db "fst (answer Retrying (a, db'))"])
    (simp_all add: answer_def)

definition no_more_done :: "('j, 'c) runner \<Rightarrow> ('j, 'c) runner \<Rightarrow> bool" where
  "no_more_done s s' \<longleftrightarrow> done_ids (rn_db s') \<subseteq> done_ids (rn_db s)"

lemma no_more_done_trans: "no_more_done s s' \<Longrightarrow> no_more_done s' s'' \<Longrightarrow> no_more_done s s''"
  by (auto simp: no_more_done_def)

lemma no_more_done_outside: "outside f s = (a, s') \<Longrightarrow> no_more_done s s'"
  by (auto simp: outside_def no_more_done_def)

lemma no_more_done_failure: "no_more_done s (record_failure env job now why s)"
proof -
  obtain j s1 where o: "outside (e_jitter env) s = (j, s1)" by fastforce
  obtain a db where f: "fail_job job now (e_message env why) j (rn_db s1) = (a, db)" by fastforce
  have "no_more_done s1 (s1\<lparr>rn_db := db\<rparr>)" using done_ids_fail [OF f] by (simp add: no_more_done_def)
  thus ?thesis
    using no_more_done_trans [OF no_more_done_outside [OF o]] by (simp add: record_failure_def o on_queue_def f)
qed

lemma no_more_done_terminal: "no_more_done s (record_terminal env job now why s)"
  by (simp add: record_terminal_def no_more_done_failure)

lemma no_more_done_write_enqueue:
  assumes "write_enqueue env intent who now s = (res, s')"
  shows "no_more_done s s'"
proof -
  obtain row s1 where r: "intent_row env intent who s = (row, s1)" by fastforce
  hence 1: "rn_db s1 = rn_db s"
    by (auto simp: intent_row_def outside_def split: option.splits if_splits sum.splits)
  obtain i s2 where i: "intent_id env intent s1 = (i, s2)" by fastforce
  hence 2: "rn_db s2 = rn_db s1" by (auto simp: intent_id_def outside_def split: option.splits)
  show ?thesis
  proof (cases "\<exists>attempts args d. row = Inr (attempts, args) \<and> intent_delay intent = Inr d")
    case True
    then obtain attempts args d where rd: "row = Inr (attempts, args)" "intent_delay intent = Inr d" by blast
    let ?q = "\<lparr>eq_id = i, eq_name = in_name intent, eq_args = args, eq_principal = who,
        eq_run_at_ms = i64_sat_add now d, eq_max_attempts = attempts, eq_fanout = False\<rparr>"
    obtain a db where q: "enqueue ?q (rn_db s2) = (a, db)" by fastforce
    hence "rn_db s' = db"
      using assms r i rd by (auto simp: write_enqueue_def on_queue_def split: sum.splits)
    thus ?thesis using done_ids_enqueue [OF q] 1 2 by (simp add: no_more_done_def)
  next
    case False
    hence "s' = s1" using assms r by (auto simp: write_enqueue_def split: sum.splits prod.splits)
    thus ?thesis using 1 by (simp add: no_more_done_def)
  qed
qed

lemma no_more_done_write_enqueues: "write_enqueues env xs who now s = (res, s') \<Longrightarrow> no_more_done s s'"
proof (induction xs arbitrary: s)
  case (Cons x xs)
  obtain r s1 where w: "write_enqueue env x who now s = (r, s1)" by fastforce
  note n = no_more_done_write_enqueue [OF w]
  show ?case
  proof (cases r)
    case (Inl e)
    thus ?thesis using Cons.prems w n by simp
  next
    case (Inr u)
    thus ?thesis using Cons.prems w no_more_done_trans [OF n Cons.IH] by simp
  qed
qed (simp add: no_more_done_def)

lemma no_more_done_effects:
  assumes "apply_effects env job es now s = (res, s')"
  shows "no_more_done s s'"
proof (cases "es = [] \<or> (\<exists>e. sort_effects es = Inl e)")
  case True
  thus ?thesis using assms by (auto simp: apply_effects_def no_more_done_def split: if_splits)
next
  case False
  then obtain ws qs where e: "es \<noteq> []" "sort_effects es = Inr (ws, qs)" by (cases "sort_effects es") auto
  obtain r s1 where w: "apply_writes env ws (cj_principal job) s = (r, s1)" by fastforce
  hence "rn_db s1 = rn_db s"
    by (auto simp: apply_writes_def outside_def split: if_splits option.splits)
  hence n: "no_more_done s s1" by (simp add: no_more_done_def)
  show ?thesis
  proof (cases r)
    case (Inl e')
    thus ?thesis using assms e w n by (simp add: apply_effects_def)
  next
    case (Inr u)
    thus ?thesis
      using assms e w no_more_done_trans [OF n no_more_done_write_enqueues] by (simp add: apply_effects_def)
  qed
qed


definition no_later :: "int option \<Rightarrow> int \<Rightarrow> bool" where
  "no_later w t \<longleftrightarrow> (\<exists>u. w = Some u \<and> u \<le> t)"

lemma no_later_sooner: "no_later a t \<Longrightarrow> no_later (sooner a b) t" "no_later b t \<Longrightarrow> no_later (sooner a b) t"
  by (cases a; cases b; auto simp: no_later_def)+

lemma no_later_fold: "no_later w t \<or> Some t \<in> set ts \<Longrightarrow> no_later (fold sooner ts w) t"
proof (induction ts arbitrary: w)
  case (Cons x ts)
  have "no_later (sooner x w) t \<or> Some t \<in> set ts"
    using Cons.prems no_later_sooner [of _ t] by (auto simp: no_later_def)
  thus ?case using Cons.IH by simp
qed simp

lemma no_later_fires: "Some t \<in> set ts \<Longrightarrow> no_later (next_fire_of ts) t"
  by (simp add: next_fire_of_def no_later_fold)

lemma sleep_until_le: "no_later w t \<Longrightarrow> sleep_until now w \<le> max 0 (t - now)"
  by (auto simp: no_later_def i64_min_def)

lemma sleep_until_range: "0 \<le> sleep_until now w \<and> sleep_until now w \<le> max_sleep_ms"
  by (cases w) (auto simp: max_sleep_ms_def)

text \<open>The runner never oversleeps: it sleeps at most five minutes, never past the next fire of
  any schedule, and, when the storage answers, never past the instant a waiting row comes due.\<close>

theorem sleep_not_past_due:
  assumes "sleep_for now s = (d, s')"
  shows "0 \<le> d \<and> d \<le> max_sleep_ms
    \<and> (\<forall>t. Some t \<in> set (rn_next_fire s) \<longrightarrow> d \<le> max 0 (t - now))
    \<and> (faults (rn_db s) = [] \<longrightarrow> (\<forall>r\<in>set (rows (rn_db s)). \<forall>t. (in_state Pending r \<or> in_state Fanout r) \<and>
         r_run_at r = Integer t \<and> now < t \<longrightarrow> d \<le> t - now))"
proof -
  obtain res db where nd: "next_due_after now (rn_db s) = (res, db)" by fastforce
  define b where "b = (case res of Inl _ \<Rightarrow> None | Inr t \<Rightarrow> t)"
  have d: "d = sleep_until now (sooner (next_fire_of (rn_next_fire s)) b)"
    using assms by (auto simp: sleep_for_def on_queue_def nd b_def)
  have "d \<le> max 0 (t - now)" if "Some t \<in> set (rn_next_fire s)" for t
    using no_later_sooner [of "next_fire_of (rn_next_fire s)" t b] no_later_fires [OF that] sleep_until_le
    by (simp add: d)
  moreover have "d \<le> t - now"
    if "faults (rn_db s) = []" "r \<in> set (rows (rn_db s))" "in_state Pending r \<or> in_state Fanout r"
      "r_run_at r = Integer t" "now < t" for r t
  proof -
    define ts where "ts = waiting_instants now (rows (rn_db s))"
    have t: "t \<in> set ts" using that by (force simp: waiting_instants_def ts_def)
    hence "ts \<noteq> []" by auto
    hence "res = Inr (Some (Min (set ts)))"
      using nd that(1) by (simp add: next_due_after_def ts_def [symmetric])
    hence "no_later b t" using t by (simp add: b_def no_later_def)
    hence "d \<le> max 0 (t - now)" unfolding d by (intro sleep_until_le no_later_sooner(2))
    thus ?thesis using that(5) by linarith
  qed
  moreover have "0 \<le> d \<and> d \<le> max_sleep_ms" using sleep_until_range by (simp add: d)
  ultimately show ?thesis by blast
qed

section \<open>A concrete runner\<close>

definition demo_runner_env :: "(nat, unit) runner_env" where
  "demo_runner_env =
     \<lparr>e_cron = secondly, e_queue = serial_env first_oldest, e_render = (\<lambda>_. None), e_message = (\<lambda>_. ''failed''),
      e_random_hex = (\<lambda>_. ''00''), e_jitter = (\<lambda>_. 1), e_email = False, e_authored = (\<lambda>_. Inl ''none''),
      e_attachments = (\<lambda>_ _ _. None), e_json = show_nat, e_principal_ok = (\<lambda>_. True),
      e_body = (\<lambda>_ _ _. Inr [ForgeAppend ''posts'' 1]), e_forge = (\<lambda>_ _ _. None), e_read_email = (\<lambda>_. None),
      e_deliver = (\<lambda>_ _. Accepted), e_sweep = (\<lambda>_. None), e_stop = (\<lambda>_. False)\<rparr>"

definition demo_decl :: "unit job_decl" where
  "demo_decl = \<lparr>jd_name = ''digest'', jd_schedule = None, jd_fan_out = False, jd_max_attempts = 1,
     jd_timeout_ms = default_timeout_ms\<rparr>"

definition demo_runner :: "job_row list \<Rightarrow> (nat, unit) runner" where
  "demo_runner rs = \<lparr>rn_plan = Some [demo_decl], rn_scheduled = [], rn_next_fire = [Some 900], rn_passes = 0,
     rn_db = demo_db rs, rn_users = [''ann'', ''bob''], rn_writes = [], rn_calls = 0\<rparr>"

definition demo_job :: claimed_job where
  "demo_job = \<lparr>cj_id = ''a'', cj_name = ''digest'', cj_args = ''{}'', cj_principal = None, cj_attempts = 1,
     cj_max_attempts = 3, cj_cursor = None, cj_is_fanout = False\<rparr>"




lemma sleep_not_past_due_witness:
  "fst (sleep_for 10 (demo_runner [])) \<le> 890"
  using sleep_not_past_due [OF surjective_pairing, of 10 "demo_runner []"]
  by (fastforce simp: demo_runner_def)

section \<open>Where a fan-out or a lease falls short\<close>

text \<open>A child whose row the storage refuses once is lost: the page moves on and the row is done.\<close>

lemma refused_child_lost:
  assumes "rn_plan s = Some jobs" and "find_decl jobs (cj_name job) = Some decl" and "rn_users s = [u]"
    and "u \<noteq> []" and "cj_cursor job = None" and "faults (rn_db s) = [None, Some m, None]"
  shows "rows (rn_db (expand env job now s)) = map (advanced (cj_id job) None now) (rows (rn_db s))"
proof -
  have "[] < u" using assms(4) by (cases u) simp_all
  hence "page_after [u] None fanout_batch = [u]" by (simp add: page_after_def fanout_batch_def)
  moreover define s1 where "s1 = s\<lparr>rn_db := (rn_db s)\<lparr>faults := [Some m, None]\<rparr>\<rparr>"
  ultimately have p: "principals_after (cj_cursor job) fanout_batch s = (Inr [u], s1)"
    using assms(3,5,6) by (simp add: principals_after_def on_queue_def call_db_def)
  define s2 where "s2 = s1\<lparr>rn_db := (rn_db s1)\<lparr>faults := [None]\<rparr>\<rparr>"
  have e: "fold (enqueue_child decl job now) [u] s1 = s2"
    by (simp add: enqueue_child_def on_queue_def enqueue_def execute_db_def call_db_def s1_def s2_def)
  have "expand env job now s = snd (on_queue (advance_fanout (cj_id job) None now) s2)"
    using assms(1,2) p e by (simp add: expand_def fanout_batch_def Let_def)
  also have "rows (rn_db \<dots>) = map (advanced (cj_id job) None now) (rows (rn_db s))"
    by (simp add: on_queue_def advance_fanout_def execute_db_def call_db_def s1_def s2_def update_where_def
        advanced_def text_or_null_def fun_eq_iff)
  finally show ?thesis .
qed

text \<open>An accepted timeout may be longer than the lease, which is not renewed while a body runs.\<close>

lemma timeout_outlives_lease:
  "parse_timeout ''10m'' = Inr 600000 \<and> default_lease_ms < 600000"
proof -
  have "trim ''10m'' = ''10m''" "trim ''m'' = ''m''" by (simp_all add: trim_solid solid_def)
  moreover have "parse_u64 ''10'' = Some 10"
    by (simp add: parse_u64_def is_ascii_digit_def nat_of_digits_def digit_val_def)
  ultimately show ?thesis
    by (simp add: parse_timeout_def split_digits_def is_ascii_digit_def second_units_def minute_units_def
        max_timeout_ms_def default_lease_ms_def)
qed

end
