(* ===== verification/Journal.thy ===== *)
theory Journal
  imports JobQueue
begin

text \<open>
  The log of one workflow (\<open>src/aperture/journal.rs\<close>) and the tables that keep it when the process
  dies (\<open>src/aperture/ledger.rs\<close>). A step's position in the log is the idempotency key of the request
  it records. JSON values are a type parameter; writing one as text and reading it back is the
  record \<open>json_codec\<close>, whose round trip is the locale \<open>json_laws\<close>.
\<close>

section \<open>The log\<close>

definition default_step_cap :: nat where "default_step_cap = 64"
definition default_pass_cap :: nat where "default_pass_cap = 34"

datatype step_kind = Fetch

fun step_kind_as_str :: "step_kind \<Rightarrow> string" where
  "step_kind_as_str Fetch = ''fetch''"

datatype 'j step_outcome = Completed 'j | StepFailed string | Unknown

record 'j step =
  st_index :: u32
  st_kind :: step_kind
  st_digest :: string
  st_outcome :: "'j step_outcome"

datatype journal_error =
    OutOfOrder u32 u32
  | StepCap nat
  | AlreadySettled u32
  | Diverged u32 string string

record 'j journal =
  jn_workflow_id :: string
  jn_build_id :: string
  jn_steps :: "'j step list"
  jn_step_cap :: nat

definition journal_new :: "string \<Rightarrow> string \<Rightarrow> 'j journal" where
  "journal_new w b = \<lparr>jn_workflow_id = w, jn_build_id = b, jn_steps = [], jn_step_cap = default_step_cap\<rparr>"

definition with_step_cap :: "nat \<Rightarrow> 'j journal \<Rightarrow> 'j journal" where
  "with_step_cap cap j = j\<lparr>jn_step_cap := cap\<rparr>"

definition journal_len :: "'j journal \<Rightarrow> nat" where
  "journal_len j = length (jn_steps j)"

definition journal_get :: "u32 \<Rightarrow> 'j journal \<Rightarrow> 'j step option" where
  "journal_get i j = (if unat i < length (jn_steps j) then Some (jn_steps j ! unat i) else None)"

definition u32_of_len :: "nat \<Rightarrow> u32" where
  "u32_of_len n = (if n < 2 ^ 32 then of_nat n else - 1)"

definition journal_append :: "u32 \<Rightarrow> step_kind \<Rightarrow> string \<Rightarrow> 'j step_outcome \<Rightarrow> 'j journal \<Rightarrow> journal_error + 'j journal" where
  "journal_append i kind digest outcome j =
     (let expected = u32_of_len (length (jn_steps j)) in
      if i \<noteq> expected then Inl (OutOfOrder expected i)
      else if jn_step_cap j \<le> length (jn_steps j) then Inl (StepCap (jn_step_cap j))
      else Inr (j\<lparr>jn_steps := jn_steps j @
             [\<lparr>st_index = i, st_kind = kind, st_digest = digest, st_outcome = outcome\<rparr>]\<rparr>))"

definition journal_settle :: "u32 \<Rightarrow> string \<Rightarrow> 'j step_outcome \<Rightarrow> 'j journal \<Rightarrow> journal_error + 'j journal" where
  "journal_settle i digest outcome j =
     (case journal_get i j of
        None \<Rightarrow> Inl (OutOfOrder (u32_of_len (length (jn_steps j))) i)
      | Some s \<Rightarrow>
          if st_digest s \<noteq> digest then Inl (Diverged i (st_digest s) digest)
          else if st_outcome s \<noteq> Unknown then Inl (AlreadySettled i)
          else Inr (j\<lparr>jn_steps := (jn_steps j)[unat i := s\<lparr>st_outcome := outcome\<rparr>]\<rparr>))"

definition journal_holds :: "u32 \<Rightarrow> 'j journal \<Rightarrow> bool" where
  "journal_holds i j \<longleftrightarrow> unat i < length (jn_steps j)"

definition idempotency_key :: "string \<Rightarrow> u32 \<Rightarrow> string" where
  "idempotency_key workflow i = workflow @ '':'' @ show_nat (unat i)"

text \<open>What the handler script sees: one slot per step, an unsettled one empty.\<close>

datatype 'j script_slot = Answer string 'j | Threw string string

fun slot_of_step :: "'j step \<Rightarrow> 'j script_slot option" where
  "slot_of_step s = (case st_outcome s of
      Completed v \<Rightarrow> Some (Answer (st_digest s) v)
    | StepFailed e \<Rightarrow> Some (Threw (st_digest s) e)
    | Unknown \<Rightarrow> None)"

definition to_script_value :: "'j journal \<Rightarrow> 'j script_slot option list" where
  "to_script_value j = map slot_of_step (jn_steps j)"

section \<open>The tables\<close>

record 'j json_codec =
  jc_text :: "'j \<Rightarrow> string"
  jc_parse :: "string \<Rightarrow> 'j option"
  jc_null :: 'j

locale json_laws =
  fixes codec :: "'j json_codec"
  assumes parse_text: "jc_parse codec (jc_text codec v) = Some v"

record step_row =
  sr_workflow :: sql_value
  sr_step :: sql_value
  sr_build_id :: sql_value
  sr_kind :: sql_value
  sr_digest :: sql_value
  sr_state :: sql_value
  sr_value :: sql_value
  sr_started_at :: sql_value
  sr_settled_at :: sql_value

record result_row =
  rr_workflow :: sql_value
  rr_build_id :: sql_value
  rr_instructions :: sql_value
  rr_completed_at :: sql_value

record ledger =
  lg_steps :: "step_row list"
  lg_results :: "result_row list"

definition state_unknown :: string where "state_unknown = ''unknown''"
definition state_completed :: string where "state_completed = ''completed''"
definition state_failed :: string where "state_failed = ''failed''"

definition sql_u32 :: "u32 \<Rightarrow> sql_value" where
  "sql_u32 i = Integer (int (unat i))"

definition same_step :: "string \<Rightarrow> u32 \<Rightarrow> step_row \<Rightarrow> bool" where
  "same_step w i r \<longleftrightarrow> sr_workflow r = Text w \<and> sr_step r = sql_u32 i"

definition begin_step :: "string \<Rightarrow> string \<Rightarrow> u32 \<Rightarrow> step_kind \<Rightarrow> string \<Rightarrow> int \<Rightarrow> ledger \<Rightarrow> ledger" where
  \<comment> \<open>\<open>INSERT OR IGNORE\<close> on the primary key (workflow, step)\<close>
  "begin_step w b i kind digest now l =
     (if list_ex (same_step w i) (lg_steps l) then l
      else l\<lparr>lg_steps := lg_steps l @
        [\<lparr>sr_workflow = Text w, sr_step = sql_u32 i, sr_build_id = Text b, sr_kind = Text (step_kind_as_str kind),
          sr_digest = Text digest, sr_state = Text state_unknown, sr_value = Null,
          sr_started_at = Integer now, sr_settled_at = Null\<rparr>]\<rparr>)"

fun settled_columns :: "'j json_codec \<Rightarrow> 'j step_outcome \<Rightarrow> (string \<times> sql_value) option" where
  "settled_columns codec (Completed v) = Some (state_completed, Text (jc_text codec v))"
| "settled_columns codec (StepFailed e) = Some (state_failed, Text e)"
| "settled_columns codec Unknown = None"

definition settle_step :: "'j json_codec \<Rightarrow> string \<Rightarrow> u32 \<Rightarrow> 'j step_outcome \<Rightarrow> int \<Rightarrow> ledger \<Rightarrow> ledger" where
  "settle_step codec w i outcome now l =
     (case settled_columns codec outcome of
        None \<Rightarrow> l
      | Some (st, v) \<Rightarrow>
          l\<lparr>lg_steps := map (\<lambda>r. if same_step w i r \<and> sr_state r = Text state_unknown
              then r\<lparr>sr_state := Text st, sr_value := v, sr_settled_at := Integer now\<rparr> else r) (lg_steps l)\<rparr>)"

definition step_order :: "step_row \<Rightarrow> int" where
  "step_order r = (case sr_step r of Integer i \<Rightarrow> i | _ \<Rightarrow> 0)"

fun read_outcome :: "'j json_codec \<Rightarrow> string \<Rightarrow> string option \<Rightarrow> 'j step_outcome" where
  "read_outcome codec st v =
     (if st = state_completed
      then Completed (case Option.bind v (jc_parse codec) of None \<Rightarrow> jc_null codec | Some x \<Rightarrow> x)
      else if st = state_failed then StepFailed (case v of None \<Rightarrow> '''' | Some e \<Rightarrow> e)
      else Unknown)"

fun load_rows :: "'j json_codec \<Rightarrow> step_row list \<Rightarrow> 'j journal \<Rightarrow> 'j journal option" where
  \<comment> \<open>\<open>None\<close> for a row of another shape and for a gap or a repeat: the workflow starts over\<close>
  "load_rows codec [] j = Some j"
| "load_rows codec (r # rs) j =
     (case (as_i64 (sr_step r), as_str (sr_digest r), as_str (sr_state r)) of
        (Some i, Some digest, Some st) \<Rightarrow>
          (case journal_append (u32_of_i64 i) Fetch digest (read_outcome codec st (as_str (sr_value r))) j of
             Inl _ \<Rightarrow> None
           | Inr j' \<Rightarrow> load_rows codec rs j')
      | _ \<Rightarrow> None)"

definition load_journal :: "'j json_codec \<Rightarrow> string \<Rightarrow> ledger \<Rightarrow> 'j journal option" where
  "load_journal codec w l =
     (case sort_key step_order (filter (\<lambda>r. sr_workflow r = Text w) (lg_steps l)) of
        [] \<Rightarrow> None
      | r # rs \<Rightarrow> (case as_str (sr_build_id r) of None \<Rightarrow> None | Some b \<Rightarrow> load_rows codec (r # rs) (journal_new w b)))"

definition ledger_sweep :: "int \<Rightarrow> ledger \<Rightarrow> nat \<times> ledger" where
  "ledger_sweep cutoff l =
     (length (filter (\<lambda>r. sql_lt (sr_started_at r) cutoff) (lg_steps l)) +
      length (filter (\<lambda>r. sql_lt (rr_completed_at r) cutoff) (lg_results l)),
      \<lparr>lg_steps = filter (\<lambda>r. \<not> sql_lt (sr_started_at r) cutoff) (lg_steps l),
       lg_results = filter (\<lambda>r. \<not> sql_lt (rr_completed_at r) cutoff) (lg_results l)\<rparr>)"

definition ledger_complete :: "string \<Rightarrow> string \<Rightarrow> 8 word list \<Rightarrow> int \<Rightarrow> ledger \<Rightarrow> ledger" where
  "ledger_complete w b instructions now l =
     (if list_ex (\<lambda>r. rr_workflow r = Text w) (lg_results l) then l
      else l\<lparr>lg_results := lg_results l @ [\<lparr>rr_workflow = Text w, rr_build_id = Text b,
             rr_instructions = Blob instructions, rr_completed_at = Integer now\<rparr>]\<rparr>)"

definition ledger_completed :: "string \<Rightarrow> string \<Rightarrow> ledger \<Rightarrow> 8 word list option" where
  "ledger_completed w b l =
     (case find (\<lambda>r. rr_workflow r = Text w \<and> rr_build_id r = Text b) (lg_results l) of
        None \<Rightarrow> None
      | Some r \<Rightarrow> (case rr_instructions r of Blob bytes \<Rightarrow> Some bytes | _ \<Rightarrow> None))"

section \<open>The log only grows\<close>

datatype 'j journal_op =
    Append_step u32 string "'j step_outcome"
  | Settle_at u32 string "'j step_outcome"

fun journal_step :: "'j journal_op \<Rightarrow> 'j journal \<Rightarrow> 'j journal" where
  \<comment> \<open>an operation that is refused changes nothing\<close>
  "journal_step (Append_step i d oc) j = (case journal_append i Fetch d oc j of Inl _ \<Rightarrow> j | Inr j' \<Rightarrow> j')"
| "journal_step (Settle_at i d oc) j = (case journal_settle i d oc j of Inl _ \<Rightarrow> j | Inr j' \<Rightarrow> j')"

definition journal_wf :: "'j journal \<Rightarrow> bool" where
  "journal_wf j \<longleftrightarrow> length (jn_steps j) \<le> jn_step_cap j \<and> jn_step_cap j < 2 ^ 32 \<and>
     (\<forall>k < length (jn_steps j). st_index (jn_steps j ! k) = of_nat k)"

definition extends_log :: "'j journal \<Rightarrow> 'j journal \<Rightarrow> bool" where
  \<comment> \<open>the same workflow, with every answer, digest and position kept\<close>
  "extends_log j j' \<longleftrightarrow> jn_workflow_id j' = jn_workflow_id j \<and> jn_build_id j' = jn_build_id j \<and>
     jn_step_cap j' = jn_step_cap j \<and> length (jn_steps j) \<le> length (jn_steps j') \<and>
     (\<forall>k < length (jn_steps j).
        st_digest (jn_steps j' ! k) = st_digest (jn_steps j ! k) \<and>
        (st_outcome (jn_steps j ! k) \<noteq> Unknown \<longrightarrow> jn_steps j' ! k = jn_steps j ! k))"

lemma extends_refl [simp]: "extends_log j j"
  by (simp add: extends_log_def)

lemma extends_trans: "extends_log a b \<Longrightarrow> extends_log b c \<Longrightarrow> extends_log a c"
  unfolding extends_log_def by (auto dest: less_le_trans)

lemma append_extends: "journal_append i kd d oc j = Inr j' \<Longrightarrow> extends_log j j'"
  by (auto simp: journal_append_def Let_def extends_log_def nth_append split: if_splits)

lemma settle_extends: "journal_settle i d oc j = Inr j' \<Longrightarrow> extends_log j j'"
  by (auto simp: journal_settle_def journal_get_def extends_log_def nth_list_update split: if_splits)

lemma append_wf: "journal_append i kd d oc j = Inr j' \<Longrightarrow> journal_wf j \<Longrightarrow> journal_wf j'"
  by (auto simp: journal_append_def Let_def journal_wf_def nth_append u32_of_len_def less_Suc_eq split: if_splits)

lemma settle_wf: "journal_settle i d oc j = Inr j' \<Longrightarrow> journal_wf j \<Longrightarrow> journal_wf j'"
  by (auto simp: journal_settle_def journal_get_def journal_wf_def nth_list_update split: if_splits)

lemma journal_step_ok: "journal_wf j \<Longrightarrow> journal_wf (journal_step x j) \<and> extends_log j (journal_step x j)"
  by (cases x) (auto split: sum.split dest: append_wf settle_wf append_extends settle_extends)

lemma journal_run_ok: "journal_wf j \<Longrightarrow> journal_wf (fold journal_step xs j) \<and> extends_log j (fold journal_step xs j)"
proof (induction xs arbitrary: j)
  case (Cons x xs)
  note s = journal_step_ok [OF Cons.prems, of x]
  thus ?case using Cons.IH [of "journal_step x j"] extends_trans by auto
qed simp

text \<open>Two different steps never share a key, even of workflows whose identifiers contain colons.\<close>

lemma key_inj: "idempotency_key w i = idempotency_key w' i' \<longleftrightarrow> w = w' \<and> i = i'"
proof
  assume e: "idempotency_key w i = idempotency_key w' i'"
  have split: "takeWhile (\<lambda>c. c \<noteq> CHR '':'') (rev (idempotency_key w i)) = rev (show_nat (unat i)) \<and>
      drop (Suc (length (show_nat (unat i)))) (rev (idempotency_key w i)) = rev w" for w and i :: u32
  proof -
    have "CHR '':'' \<notin> set (show_nat (unat i))" by (rule digits_no_char) (simp add: is_ascii_digit_def)
    hence "takeWhile (\<lambda>c. c \<noteq> CHR '':'') (rev (show_nat (unat i)) @ CHR '':'' # rev w) = rev (show_nat (unat i))"
      by (subst takeWhile_append2) auto
    thus ?thesis by (simp add: idempotency_key_def)
  qed
  have n: "show_nat (unat i) = show_nat (unat i')" using split [of w i] split [of w' i'] e by (metis rev_rev_ident)
  hence "w = w'" using e by (simp add: idempotency_key_def)
  moreover have "i = i'" using n unfolding word_eq_unat by (simp only: show_nat_inj)
  ultimately show "w = w' \<and> i = i'" by blast
qed simp

text \<open>The log is append-only in the sense that matters: through any sequence of appends and
  settles, in any order and whatever they carry, step \<open>k\<close> stays at position \<open>k\<close> with the request
  it was recorded for, an answer once given is never changed, and the key a step's request
  carries is the key of no other step of any workflow.\<close>

theorem settled_never_changes:
  assumes "journal_wf j"
  shows "journal_wf (fold journal_step xs j) \<and> extends_log j (fold journal_step xs j)
    \<and> (idempotency_key w i = idempotency_key w' i' \<longleftrightarrow> w = w' \<and> i = i')"
  using journal_run_ok [OF assms] key_inj by blast

lemma journal_new_wf: "journal_wf (journal_new w b)"
  by (simp add: journal_wf_def journal_new_def default_step_cap_def)

lemma settled_never_changes_witness:
  "journal_wf (fold journal_step [Append_step 0 ''d'' Unknown, Settle_at 0 ''d'' (Completed (7 :: nat)),
     Settle_at 0 ''d'' (Completed 8)] (journal_new ''w'' ''b''))"
  using settled_never_changes [OF journal_new_wf] by blast

section \<open>The tables hold the log\<close>

text \<open>What the ledger records of one workflow, as the list of its steps.\<close>

datatype 'j ledger_op =
    Begin string string u32 string int
  | Settle string u32 "'j step_outcome" int

fun ledger_step :: "'j json_codec \<Rightarrow> 'j ledger_op \<Rightarrow> ledger \<Rightarrow> ledger" where
  "ledger_step codec (Begin w b i d now) l = begin_step w b i Fetch d now l"
| "ledger_step codec (Settle w i oc now) l = settle_step codec w i oc now l"

fun log_step :: "string \<Rightarrow> 'j ledger_op \<Rightarrow> 'j step list \<Rightarrow> 'j step list" where
  "log_step v (Begin w b i d now) ss =
     (if w = v \<and> length ss \<le> unat i
      then ss @ [\<lparr>st_index = i, st_kind = Fetch, st_digest = d, st_outcome = Unknown\<rparr>] else ss)"
| "log_step v (Settle w i oc now) ss =
     (if w = v \<and> unat i < length ss \<and> st_outcome (ss ! unat i) = Unknown
      then ss[unat i := (ss ! unat i)\<lparr>st_outcome := oc\<rparr>] else ss)"

fun in_turn :: "string \<Rightarrow> 'j ledger_op list \<Rightarrow> 'j step list \<Rightarrow> bool" where
  \<comment> \<open>each begin of workflow \<open>v\<close> is of a step it has or of the next one\<close>
  "in_turn v [] ss = True"
| "in_turn v (x # xs) ss =
     ((case x of Begin w b i d now \<Rightarrow> w = v \<longrightarrow> unat i \<le> length ss | _ \<Rightarrow> True) \<and> in_turn v xs (log_step v x ss))"

definition row_of_step :: "'j json_codec \<Rightarrow> string \<Rightarrow> 'j step \<Rightarrow> step_row \<Rightarrow> bool" where
  "row_of_step codec w s r \<longleftrightarrow> sr_workflow r = Text w \<and> sr_step r = sql_u32 (st_index s) \<and>
     sr_digest r = Text (st_digest s) \<and> as_str (sr_build_id r) \<noteq> None \<and>
     (\<exists>st. sr_state r = Text st \<and> read_outcome codec st (as_str (sr_value r)) = st_outcome s \<and>
           (st = state_unknown \<longleftrightarrow> st_outcome s = Unknown))"

definition holds_log :: "'j json_codec \<Rightarrow> string \<Rightarrow> ledger \<Rightarrow> 'j step list \<Rightarrow> bool" where
  "holds_log codec w l ss \<longleftrightarrow>
     list_all2 (row_of_step codec w) ss (filter (\<lambda>r. sr_workflow r = Text w) (lg_steps l)) \<and>
     (\<forall>k < length ss. st_index (ss ! k) = of_nat k \<and> st_kind (ss ! k) = Fetch) \<and> length ss \<le> 2 ^ 32"

definition begun_by :: "'j json_codec \<Rightarrow> string \<Rightarrow> 'j ledger_op list \<Rightarrow> ledger \<times> 'j step list" where
  "begun_by codec w ops = (fold (ledger_step codec) ops \<lparr>lg_steps = [], lg_results = []\<rparr>, fold (log_step w) ops [])"

lemma sql_u32_inj [simp]: "sql_u32 i = sql_u32 i' \<longleftrightarrow> i = i'"
  by (simp add: sql_u32_def word_uint_eq_iff)

lemma u32_of_nat: "k < 2 ^ 32 \<Longrightarrow> unat (of_nat k :: u32) = k"
  by (simp add: unat_of_nat)

lemma u32_nat: "unat i = k \<Longrightarrow> (of_nat k :: u32) = i"
  by (simp add: word_eq_unat unat_of_nat) (metis mod_less unat_lt_32)

lemma u32_uint: "k < 2 ^ 32 \<Longrightarrow> uint (of_nat k :: u32) = int k"
  using u32_of_nat [of k] by (simp only: uint_nat)

lemma u32_of_sql [simp]: "u32_of_i64 (uint i) = i"
  using uint_lt2p [of i] by (simp add: u32_of_i64_def)

context json_laws
begin

lemma read_settled:
  "settled_columns codec oc = Some (st, v) \<Longrightarrow>
   st \<noteq> state_unknown \<and> read_outcome codec st (as_str v) = oc \<and> oc \<noteq> Unknown"
  by (cases oc) (auto simp: state_unknown_def state_completed_def state_failed_def parse_text)

lemma row_at:
  assumes "holds_log codec w l ss" and "r \<in> set (lg_steps l)" and "sr_workflow r = Text w"
  shows "\<exists>k < length ss. row_of_step codec w (ss ! k) r \<and> sr_step r = sql_u32 (of_nat k)"
proof -
  have "r \<in> set (filter (\<lambda>r. sr_workflow r = Text w) (lg_steps l))" using assms(2,3) by simp
  then obtain k where "k < length (filter (\<lambda>r. sr_workflow r = Text w) (lg_steps l))"
      "filter (\<lambda>r. sr_workflow r = Text w) (lg_steps l) ! k = r" unfolding in_set_conv_nth by blast
  moreover have "k < length ss" "row_of_step codec w (ss ! k) r" "st_index (ss ! k) = of_nat k"
    using assms(1) calculation by (auto simp: holds_log_def list_all2_conv_all_nth)
  ultimately show ?thesis by (intro exI [of _ k]) (simp add: row_of_step_def)
qed

lemma begin_present:
  assumes "holds_log codec w l ss"
  shows "list_ex (same_step w i) (lg_steps l) \<longleftrightarrow> unat i < length ss"
proof
  assume "list_ex (same_step w i) (lg_steps l)"
  then obtain r where "r \<in> set (lg_steps l)" "sr_workflow r = Text w" "sr_step r = sql_u32 i"
    by (auto simp: list_ex_iff same_step_def)
  with row_at [OF assms] obtain k where "k < length ss" "i = of_nat k" by fastforce
  thus "unat i < length ss" using assms u32_of_nat [of k] by (simp add: holds_log_def)
next
  assume i: "unat i < length ss"
  let ?f = "filter (\<lambda>r. sr_workflow r = Text w) (lg_steps l)"
  have "length ?f = length ss" "row_of_step codec w (ss ! unat i) (?f ! unat i)" "st_index (ss ! unat i) = i"
    using assms i by (auto simp: holds_log_def list_all2_conv_all_nth)
  moreover from this i have "?f ! unat i \<in> set ?f" by (simp del: set_filter)
  ultimately show "list_ex (same_step w i) (lg_steps l)"
    by (auto simp: list_ex_iff same_step_def row_of_step_def intro!: bexI [of _ "?f ! unat i"])
qed

lemma begin_holds:
  assumes "holds_log codec v l ss" and "w = v \<longrightarrow> unat i \<le> length ss"
  shows "holds_log codec v (begin_step w b i Fetch d now l) (log_step v (Begin w b i d now) ss)"
proof (cases "w = v")
  case True
  show ?thesis
  proof (cases "unat i < length ss")
    case True
    thus ?thesis using begin_present [OF assms(1), of i] assms(1) \<open>w = v\<close> by (simp add: begin_step_def)
  next
    case False
    hence i: "unat i = length ss" using assms(2) True by simp
    hence "of_nat (length ss) = i" by (rule u32_nat)
    moreover have "length ss < 2 ^ 32" using i unat_lt_32 [of i] by simp
    ultimately show ?thesis
      using begin_present [OF assms(1), of i] assms(1) True i
      by (auto simp: begin_step_def holds_log_def row_of_step_def nth_append less_Suc_eq state_unknown_def
          state_completed_def state_failed_def intro!: list_all2_appendI)
  qed
next
  case False
  thus ?thesis using assms(1) by (simp add: begin_step_def holds_log_def)
qed

end

context json_laws
begin

lemma settle_holds:
  assumes "holds_log codec v l ss"
  shows "holds_log codec v (settle_step codec w i oc now l) (log_step v (Settle w i oc now) ss)"
proof (cases "settled_columns codec oc")
  case None
  hence "oc = Unknown" by (cases oc) auto
  hence "log_step v (Settle w i oc now) ss = ss" by (auto intro: list_update_id [THEN trans [rotated]] simp: list_update_same_conv)
  thus ?thesis using assms None by (simp add: settle_step_def)
next
  case (Some x)
  obtain st c where x: "x = (st, c)" by fastforce
  note rs = read_settled [OF Some [unfolded x]]
  define f where "f = (\<lambda>r. if same_step w i r \<and> sr_state r = Text state_unknown
      then r\<lparr>sr_state := Text st, sr_value := c, sr_settled_at := Integer now\<rparr> else r)"
  let ?R = "filter (\<lambda>r. sr_workflow r = Text v) (lg_steps l)"
  have "sr_workflow (f r) = sr_workflow r" for r by (simp add: f_def)
  hence R: "filter (\<lambda>r. sr_workflow r = Text v) (lg_steps (settle_step codec w i oc now l)) = map f ?R"
    using Some x by (simp add: settle_step_def f_def [symmetric] filter_map comp_def)
  have len: "length ?R = length ss" using assms by (auto simp: holds_log_def dest: list_all2_lengthD)
  let ?S = "log_step v (Settle w i oc now) ss"
  have row: "row_of_step codec v (?S ! k) (f (?R ! k)) \<and> st_index (?S ! k) = of_nat k \<and> st_kind (?S ! k) = Fetch"
    if k: "k < length ss" for k
  proof -
    have m: "row_of_step codec v (ss ! k) (?R ! k)" "st_index (ss ! k) = of_nat k" "st_kind (ss ! k) = Fetch"
      using assms k by (auto simp: holds_log_def list_all2_conv_all_nth)
    have "k < 2 ^ 32" using assms k by (simp add: holds_log_def)
    hence same: "same_step w i (?R ! k) \<longleftrightarrow> w = v \<and> unat i = k"
      using m u32_of_nat [of k] u32_nat [of i k] by (auto simp: row_of_step_def same_step_def)
    show ?thesis
    proof (cases "w = v \<and> unat i = k \<and> st_outcome (ss ! k) = Unknown")
      case True
      hence "f (?R ! k) = (?R ! k)\<lparr>sr_state := Text st, sr_value := c, sr_settled_at := Integer now\<rparr>"
        using same m(1) by (auto simp: f_def row_of_step_def)
      moreover have "?S ! k = (ss ! k)\<lparr>st_outcome := oc\<rparr>" using True k by simp
      ultimately show ?thesis using m rs by (auto simp: row_of_step_def)
    next
      case False
      hence "f (?R ! k) = ?R ! k" using same m(1) by (auto simp: f_def row_of_step_def)
      moreover have "?S ! k = ss ! k" using False k by (auto simp: nth_list_update)
      ultimately show ?thesis using m by simp
    qed
  qed
  have "length ?S = length ss" by simp
  thus ?thesis
    using row len assms unfolding holds_log_def R by (simp add: list_all2_conv_all_nth)
qed

lemma run_holds:
  "holds_log codec v l ss \<Longrightarrow> in_turn v ops ss \<Longrightarrow>
   holds_log codec v (fold (ledger_step codec) ops l) (fold (log_step v) ops ss)"
proof (induction ops arbitrary: l ss)
  case (Cons x ops)
  have "holds_log codec v (ledger_step codec x l) (log_step v x ss)"
  proof (cases x)
    case (Begin w b i d now)
    thus ?thesis using begin_holds [OF Cons.prems(1), of w i b d now] Cons.prems(2) by simp
  next
    case (Settle w i oc now)
    thus ?thesis using settle_holds [OF Cons.prems(1)] by simp
  qed
  thus ?case using Cons.IH Cons.prems(2) by simp
qed simp

lemma sort_key_sorted: "sorted (map f xs) \<Longrightarrow> sort_key f xs = xs"
  by (induction xs) (simp_all add: insort_is_Cons)

lemma load_rows_holds:
  "list_all2 (row_of_step codec w) ss rs \<Longrightarrow>
   \<forall>k < length ss. st_index (ss ! k) = of_nat (length (jn_steps j) + k) \<and> st_kind (ss ! k) = Fetch \<Longrightarrow>
   length (jn_steps j) + length ss \<le> jn_step_cap j \<Longrightarrow> jn_step_cap j < 2 ^ 32 \<Longrightarrow>
   load_rows codec rs j = Some (j\<lparr>jn_steps := jn_steps j @ ss\<rparr>)"
proof (induction ss arbitrary: rs j)
  case (Cons s ss)
  obtain r rs' where rs: "rs = r # rs'" "row_of_step codec w s r" "list_all2 (row_of_step codec w) ss rs'"
    using Cons.prems(1) by (auto simp: list_all2_Cons1)
  let ?n = "length (jn_steps j)"
  have s: "st_index s = of_nat ?n" "st_kind s = Fetch" using Cons.prems(2) by (auto dest: spec [of _ 0])
  obtain st where st: "sr_state r = Text st" "read_outcome codec st (as_str (sr_value r)) = st_outcome s"
      and r: "sr_step r = sql_u32 (st_index s)" "sr_digest r = Text (st_digest s)"
    using rs(2) by (auto simp: row_of_step_def)
  have u: "u32_of_i64 (int (unat (st_index s))) = of_nat ?n" using s by simp
  let ?j = "j\<lparr>jn_steps := jn_steps j @ [s]\<rparr>"
  have sv: "\<lparr>st_index = of_nat ?n, st_kind = Fetch, st_digest = st_digest s, st_outcome = st_outcome s\<rparr> = s"
    using s by (cases s) simp
  have ap: "journal_append (of_nat ?n) Fetch (st_digest s) (st_outcome s) j = Inr ?j"
    using Cons.prems(3,4) by (simp add: journal_append_def u32_of_len_def sv)
  have step: "load_rows codec rs j = load_rows codec rs' ?j"
    unfolding rs(1) load_rows.simps st(1) r
    using st(2) ap u by (simp add: sql_u32_def del: read_outcome.simps)
  have "\<forall>k < length ss. st_index (ss ! k) = of_nat (length (jn_steps ?j) + k) \<and> st_kind (ss ! k) = Fetch"
  proof (intro allI impI)
    fix k assume "k < length ss"
    thus "st_index (ss ! k) = of_nat (length (jn_steps ?j) + k) \<and> st_kind (ss ! k) = Fetch"
      using Cons.prems(2) by (auto dest: spec [of _ "Suc k"])
  qed
  thus ?case
    using Cons.IH [OF rs(3), of ?j] Cons.prems(3,4) step by simp
qed simp

lemma load_holds:
  assumes "holds_log codec w l ss" and "ss \<noteq> []" and "length ss \<le> default_step_cap"
  shows "\<exists>b. load_journal codec w l = Some ((journal_new w b)\<lparr>jn_steps := ss\<rparr>)"
proof -
  let ?R = "filter (\<lambda>r. sr_workflow r = Text w) (lg_steps l)"
  have R: "list_all2 (row_of_step codec w) ss ?R" using assms(1) by (simp add: holds_log_def)
  have len: "length ?R = length ss" using list_all2_lengthD [OF R] by simp
  have "step_order (?R ! k) = int k" if "k < length ss" for k
  proof -
    have "row_of_step codec w (ss ! k) (?R ! k)" "st_index (ss ! k) = of_nat k"
      using assms(1) that by (auto simp: holds_log_def list_all2_conv_all_nth)
    moreover have "k < 2 ^ 32" using assms(1) that by (simp add: holds_log_def)
    ultimately show ?thesis using u32_uint [of k] by (simp add: row_of_step_def step_order_def sql_u32_def)
  qed
  hence "sort_key step_order ?R = ?R"
    by (intro sort_key_sorted) (simp add: sorted_iff_nth_mono len)
  moreover obtain r rs where rs: "?R = r # rs" using assms(2) len by (cases ?R) auto
  moreover obtain b where "sr_build_id r = Text b"
    using R assms(2) unfolding rs by (auto simp: row_of_step_def list_all2_Cons2)
  moreover have "load_rows codec ?R (journal_new w b) = Some ((journal_new w b)\<lparr>jn_steps := ss\<rparr>)" for b
    using load_rows_holds [OF R, of "journal_new w b"] assms(1,3)
    by (simp add: holds_log_def journal_new_def default_step_cap_def)
  ultimately show ?thesis by (auto simp: load_journal_def)
qed

lemma load_none: "holds_log codec w l [] \<Longrightarrow> load_journal codec w l = None"
  by (simp add: holds_log_def load_journal_def)

end

definition demo_codec :: "nat json_codec" where
  "demo_codec = \<lparr>jc_text = show_nat, jc_parse = (\<lambda>s. Some (nat_of_digits s)), jc_null = 0\<rparr>"

interpretation demo_json: json_laws demo_codec
  by unfold_locales (simp add: demo_codec_def nat_of_digits_show)

text \<open>C8. The tables hold the log: after any begins and settles of any number of workflows mixed in
  any order, as long as each begin of a workflow is of a step it has or of its next one, loading a
  workflow gives back exactly its own steps, a begun and unsettled one as \<open>Unknown\<close> at its own
  position, each settled one with the first outcome it was given; and a workflow nothing was begun
  for loads as nothing.\<close>

theorem load_gives_log_back:
  assumes "json_laws codec" and "in_turn w ops []" and "(l, ss) = begun_by codec w ops"
    and "length ss \<le> default_step_cap"
  shows "if ss = [] then load_journal codec w l = None
         else \<exists>b. load_journal codec w l = Some ((journal_new w b)\<lparr>jn_steps := ss\<rparr>)"
proof -
  have "holds_log codec w \<lparr>lg_steps = [], lg_results = []\<rparr> []" by (simp add: holds_log_def)
  hence "holds_log codec w l ss"
    using json_laws.run_holds [OF assms(1) _ assms(2)] assms(3) by (simp add: begun_by_def)
  thus ?thesis using json_laws.load_holds [OF assms(1)] json_laws.load_none [OF assms(1)] assms(4) by auto
qed

lemma load_gives_log_back_witness:
  "\<exists>b. load_journal demo_codec ''w'' (fst (begun_by demo_codec ''w'' [Begin ''w'' ''b'' 0 ''d'' 1, Settle ''w'' 0 (Completed 7) 2,
       Begin ''v'' ''b'' 0 ''x'' 3, Begin ''w'' ''b'' 1 ''e'' 4])) =
     Some ((journal_new ''w'' b)\<lparr>jn_steps :=
       [\<lparr>st_index = 0, st_kind = Fetch, st_digest = ''d'', st_outcome = Completed 7\<rparr>,
        \<lparr>st_index = 1, st_kind = Fetch, st_digest = ''e'', st_outcome = Unknown\<rparr>]\<rparr>)"
  using load_gives_log_back [OF demo_json.json_laws_axioms _ surjective_pairing [symmetric],
      of "''w''" "[Begin ''w'' ''b'' 0 ''d'' 1, Settle ''w'' 0 (Completed 7) 2, Begin ''v'' ''b'' 0 ''x'' 3, Begin ''w'' ''b'' 1 ''e'' 4]"]
  by (simp add: begun_by_def default_step_cap_def)

text \<open>The results table is keyed by the workflow alone: once an earlier build has recorded a result,
  no later build's result is ever recorded, so under it the workflow never reads as finished.\<close>

lemma old_result_blocks_new:
  assumes "\<exists>r\<in>set (lg_results l). rr_workflow r = Text w \<and> rr_build_id r = Text old"
    and "\<forall>r\<in>set (lg_results l). rr_workflow r = Text w \<longrightarrow> rr_build_id r = Text old" and "new \<noteq> old"
  shows "ledger_completed w new (ledger_complete w new bytes now l) = None"
proof -
  have "list_ex (\<lambda>r. rr_workflow r = Text w) (lg_results l)" using assms(1) by (auto simp: list_ex_iff)
  moreover have "find (\<lambda>r. rr_workflow r = Text w \<and> rr_build_id r = Text new) (lg_results l) = None"
    using assms(2,3) by (auto simp: find_None_iff)
  ultimately show ?thesis by (simp add: ledger_completed_def ledger_complete_def)
qed

end
