(* ===== verification/Workflow.thy ===== *)
theory Workflow
  imports Journal
begin

text \<open>
  The driver of a suspended action (\<open>src/aperture/workflow.rs\<close>): it runs passes of a body until the
  body finishes, sends what each pass staged, and writes the log down around every call so that a
  crash between sending and answering leaves a row.

  Outside: the body (\<open>w_pass\<close>), the client that sends (\<open>w_send\<close>), the clocks, the declared
  credentials, the admission of a call, and the texts. What may answer differently each time takes
  the number of outside calls so far. \<open>wd_events\<close> is the order in which the world saw writes and
  requests: a crash at any point leaves a prefix of it. Requests of one pass are sent together; they
  appear in the order they were staged.
\<close>

record pending_request =
  pd_step :: u32
  pd_method :: string
  pd_url :: string
  pd_body :: "string option"
  pd_headers :: "(string \<times> string) list"
  pd_digest :: string

record aperture_request =
  rq_method :: string
  rq_url :: string
  rq_headers :: "(string \<times> string) list"
  rq_body :: "string option"

datatype workflow_error =
    Deadline nat nat
  | PassCap nat
  | JournalFailed journal_error
  | BuildChanged string string
  | NoProgress nat
  | Durability string string
  | JournalDesync u32 nat
  | PassFailed string
  | Refused string string

datatype ('i, 'x) action_pass = CompletedPass 'i 'x | Suspended "pending_request list" u32

datatype client_answer =
    Responded nat "(string \<times> string) list" "string option" \<comment> \<open>no body when it is not text\<close>
  | SendError string

record workflow_limits =
  wl_deadline :: nat
  wl_max_passes :: nat

definition default_limits_of_workflow :: workflow_limits where
  "default_limits_of_workflow = \<lparr>wl_deadline = 30 * 1000000000, wl_max_passes = default_pass_cap\<rparr>"

record durability =
  du_workflow :: string
  du_build :: string

record ('j, 'i, 'x) workflow_env =
  w_pass :: "nat \<Rightarrow> 'j journal \<Rightarrow> workflow_error + ('i, 'x) action_pass"
  w_send :: "nat \<Rightarrow> aperture_request \<Rightarrow> client_answer"
  w_now :: "nat \<Rightarrow> int"
  w_elapsed :: "nat \<Rightarrow> nat"
  w_admit :: "nat \<Rightarrow> pending_request \<Rightarrow> workflow_error option"
  w_credential :: "string \<Rightarrow> (string \<times> (string \<times> string) list) option" \<comment> \<open>the source covering a URL\<close>
  w_conflict :: "string \<Rightarrow> string \<Rightarrow> string \<Rightarrow> string \<Rightarrow> string"
  w_not_text :: "string \<Rightarrow> string \<Rightarrow> string"
  w_record :: "string \<Rightarrow> nat \<Rightarrow> (string \<times> string) list \<Rightarrow> string \<Rightarrow> 'j"

datatype 'j event = Wrote "'j ledger_op" | Sent pending_request aperture_request

record 'j world =
  wd_calls :: nat
  wd_faults :: "string option list"
  wd_events :: "'j event list"
  wd_seen :: "'j journal list" \<comment> \<open>the logs the passes were handed, in order\<close>

definition call_out :: "(nat \<Rightarrow> 'a) \<Rightarrow> 'j world \<Rightarrow> 'a \<times> 'j world" where
  "call_out f wd = (f (wd_calls wd), wd\<lparr>wd_calls := Suc (wd_calls wd)\<rparr>)"

definition saw :: "'j event \<Rightarrow> 'j world \<Rightarrow> 'j world" where
  "saw e wd = wd\<lparr>wd_events := wd_events wd @ [e]\<rparr>"

definition ledger_write :: "'j ledger_op \<Rightarrow> 'j world \<Rightarrow> string option \<times> 'j world" where
  \<comment> \<open>the storage's refusal, or the write\<close>
  "ledger_write x wd =
     (case wd_faults wd of
        [] \<Rightarrow> (None, saw (Wrote x) wd)
      | None # fs \<Rightarrow> (None, saw (Wrote x) (wd\<lparr>wd_faults := fs\<rparr>))
      | Some reason # fs \<Rightarrow> (Some reason, wd\<lparr>wd_faults := fs\<rparr>))"

section \<open>One request\<close>

definition idempotency_key_header :: string where "idempotency_key_header = ''Idempotency-Key''"

definition eq_ignore_ascii_case :: "string \<Rightarrow> string \<Rightarrow> bool" where
  "eq_ignore_ascii_case a b \<longleftrightarrow> to_ascii_lowercase a = to_ascii_lowercase b"

definition safe_methods :: "string list" where
  "safe_methods = [''GET'', ''HEAD'', ''OPTIONS'', ''TRACE'']"

definition authored_key :: "pending_request \<Rightarrow> bool" where
  "authored_key p \<longleftrightarrow> list_ex (\<lambda>(n, _). eq_ignore_ascii_case n idempotency_key_header) (pd_headers p)"

definition wire_request :: "pending_request \<Rightarrow> 'j journal \<Rightarrow> aperture_request" where
  "wire_request p j =
     (let headers = (if pd_method p \<notin> set safe_methods \<and> \<not> authored_key p
                     then pd_headers p @ [(idempotency_key_header, idempotency_key (jn_workflow_id j) (pd_step p))]
                     else pd_headers p) in
      \<lparr>rq_method = pd_method p, rq_url = pd_url p, rq_headers = headers, rq_body = pd_body p\<rparr>)"

fun attach :: "(string \<Rightarrow> string) \<Rightarrow> (string \<times> string) list \<Rightarrow> aperture_request \<Rightarrow> string + aperture_request" where
  "attach conflict [] r = Inr r"
| "attach conflict ((name, value) # hs) r =
     (if list_ex (\<lambda>(authored, _). eq_ignore_ascii_case authored name) (rq_headers r) then Inl (conflict name)
      else attach conflict hs (r\<lparr>rq_headers := rq_headers r @ [(name, value)]\<rparr>))"

definition with_source_credential :: "('j, 'i, 'x) workflow_env \<Rightarrow> aperture_request \<Rightarrow> string + aperture_request" where
  "with_source_credential env r =
     (case w_credential env (rq_url r) of
        None \<Rightarrow> Inr r
      | Some (source, headers) \<Rightarrow>
          attach (\<lambda>name. w_conflict env (rq_method r) (rq_url r) name source) headers r)"

fun add_header :: "string \<Rightarrow> string \<Rightarrow> (string \<times> string) list \<Rightarrow> (string \<times> string) list" where
  "add_header k v [] = [(k, v)]"
| "add_header k v ((k', v') # hs) =
     (if k = k' then (k', v' @ '', '' @ v) # hs else (k', v') # add_header k v hs)"

definition response_record :: "('j, 'i, 'x) workflow_env \<Rightarrow> string \<Rightarrow> nat \<Rightarrow> (string \<times> string) list \<Rightarrow> string \<Rightarrow> 'j" where
  "response_record env url status headers body =
     w_record env url status (fold (\<lambda>(n, v). add_header (to_ascii_lowercase n) v) headers []) body"

definition resolve_one :: "('j, 'i, 'x) workflow_env \<Rightarrow> pending_request \<Rightarrow> aperture_request \<Rightarrow> 'j world \<Rightarrow>
    'j step_outcome \<times> 'j world" where
  "resolve_one env p r wd =
     (let (a, wd1) = call_out (\<lambda>n. w_send env n r) (saw (Sent p r) wd) in
      ((case a of
          Responded status headers (Some text) \<Rightarrow> Completed (response_record env (rq_url r) status headers text)
        | Responded status headers None \<Rightarrow> StepFailed (w_not_text env (rq_method r) (rq_url r))
        | SendError e \<Rightarrow> StepFailed e), wd1))"

section \<open>Everything one pass asked for\<close>

fun begin_all :: "durability \<Rightarrow> int \<Rightarrow> pending_request list \<Rightarrow> 'j world \<Rightarrow> workflow_error option \<times> 'j world" where
  "begin_all d now [] wd = (None, wd)"
| "begin_all d now (p # ps) wd =
     (case ledger_write (Begin (du_workflow d) (du_build d) (pd_step p) (pd_digest p) now) wd of
        (Some reason, wd1) \<Rightarrow> (Some (Durability ''record the intent to call'' reason), wd1)
      | (None, wd1) \<Rightarrow> begin_all d now ps wd1)"

fun send_all :: "('j, 'i, 'x) workflow_env \<Rightarrow> (pending_request \<times> (string + aperture_request)) list \<Rightarrow> 'j world \<Rightarrow>
    'j step_outcome list \<times> 'j world" where
  "send_all env [] wd = ([], wd)"
| "send_all env ((p, Inl reason) # qs) wd =
     (let (os, wd1) = send_all env qs wd in (StepFailed reason # os, wd1))"
| "send_all env ((p, Inr r) # qs) wd =
     (let (oc, wd1) = resolve_one env p r wd; (os, wd2) = send_all env qs wd1 in (oc # os, wd2))"

definition log_outcome :: "pending_request \<Rightarrow> 'j step_outcome \<Rightarrow> 'j journal \<Rightarrow> journal_error + 'j journal" where
  "log_outcome p oc j =
     (if journal_holds (pd_step p) j then journal_settle (pd_step p) (pd_digest p) oc j
      else journal_append (pd_step p) Fetch (pd_digest p) oc j)"

definition settle_one :: "('j, 'i, 'x) workflow_env \<Rightarrow> durability option \<Rightarrow> pending_request \<Rightarrow> 'j step_outcome \<Rightarrow>
    'j world \<Rightarrow> workflow_error option \<times> 'j world" where
  "settle_one env d p oc wd =
     (case d of
        None \<Rightarrow> (None, wd)
      | Some d \<Rightarrow>
          let (now, wd1) = call_out (w_now env) wd in
          if oc = Unknown then (None, wd1)
          else (case ledger_write (Settle (du_workflow d) (pd_step p) oc now) wd1 of
                  (Some reason, wd2) \<Rightarrow> (Some (Durability ''record the outcome of a call'' reason), wd2)
                | (None, wd2) \<Rightarrow> (None, wd2)))"

fun settle_all :: "('j, 'i, 'x) workflow_env \<Rightarrow> durability option \<Rightarrow> (pending_request \<times> 'j step_outcome) list \<Rightarrow>
    'j journal \<Rightarrow> 'j world \<Rightarrow> (workflow_error + 'j journal) \<times> 'j world" where
  "settle_all env d [] j wd = (Inr j, wd)"
| "settle_all env d ((p, oc) # qs) j wd =
     (case settle_one env d p oc wd of
        (Some e, wd1) \<Rightarrow> (Inl e, wd1)
      | (None, wd1) \<Rightarrow>
          (case log_outcome p oc j of
             Inl e \<Rightarrow> (Inl (JournalFailed e), wd1)
           | Inr j' \<Rightarrow> settle_all env d qs j' wd1))"

definition begin_pending :: "('j, 'i, 'x) workflow_env \<Rightarrow> durability option \<Rightarrow> pending_request list \<Rightarrow> 'j world \<Rightarrow>
    workflow_error option \<times> 'j world" where
  "begin_pending env d ps wd =
     (case d of
        None \<Rightarrow> (None, wd)
      | Some d \<Rightarrow> let (now, wd1) = call_out (w_now env) wd in begin_all d now ps wd1)"

definition resolve_pending :: "('j, 'i, 'x) workflow_env \<Rightarrow> durability option \<Rightarrow> 'j journal \<Rightarrow> pending_request list \<Rightarrow>
    'j world \<Rightarrow> (workflow_error + 'j journal) \<times> 'j world" where
  "resolve_pending env d j ps wd =
     (let requests = map (\<lambda>p. (p, with_source_credential env (wire_request p j))) ps in
      case begin_pending env d ps wd of
        (Some e, wd1) \<Rightarrow> (Inl e, wd1)
      | (None, wd1) \<Rightarrow>
          let (outcomes, wd2) = send_all env requests wd1 in
          settle_all env d (zip ps outcomes) j wd2)"

section \<open>Passes until the body finishes\<close>

fun admit_all :: "('j, 'i, 'x) workflow_env \<Rightarrow> pending_request list \<Rightarrow> 'j world \<Rightarrow> workflow_error option \<times> 'j world" where
  "admit_all env [] wd = (None, wd)"
| "admit_all env (p # ps) wd =
     (case call_out (\<lambda>n. w_admit env n p) wd of
        (Some e, wd1) \<Rightarrow> (Some e, wd1)
      | (None, wd1) \<Rightarrow> admit_all env ps wd1)"

definition run_one_pass :: "('j, 'i, 'x) workflow_env \<Rightarrow> 'j journal \<Rightarrow> 'j world \<Rightarrow> (workflow_error + ('i, 'x) action_pass) \<times> 'j world" where
  "run_one_pass env j wd = call_out (\<lambda>n. w_pass env n j) (wd\<lparr>wd_seen := wd_seen wd @ [j]\<rparr>)"

definition go_out :: "('j, 'i, 'x) workflow_env \<Rightarrow> workflow_limits \<Rightarrow> durability option \<Rightarrow> nat \<Rightarrow> 'j journal \<Rightarrow>
    pending_request list \<Rightarrow> u32 \<Rightarrow> 'j world \<Rightarrow> (workflow_error + 'j journal) \<times> 'j world" where
  \<comment> \<open>from a suspended pass to the log the next pass is handed\<close>
  "go_out env limits d passes j pending jlen wd =
     (if unat jlen \<noteq> length (jn_steps j) then (Inl (JournalDesync jlen (length (jn_steps j))), wd)
      else if pending = [] then (Inl (NoProgress passes), wd)
      else
        let (elapsed, wd1) = call_out (w_elapsed env) wd in
        if wl_deadline limits \<le> elapsed then (Inl (Deadline (wl_deadline limits) passes), wd1)
        else case admit_all env pending wd1 of
          (Some e, wd2) \<Rightarrow> (Inl e, wd2)
        | (None, wd2) \<Rightarrow> resolve_pending env d j pending wd2)"

fun drive :: "('j, 'i, 'x) workflow_env \<Rightarrow> workflow_limits \<Rightarrow> string \<Rightarrow> durability option \<Rightarrow> nat \<Rightarrow> 'j journal \<Rightarrow>
    'j world \<Rightarrow> (workflow_error + ('i \<times> 'x)) \<times> 'j world" where
  \<comment> \<open>with this many passes left\<close>
  "drive env limits build d 0 j wd =
     (if jn_build_id j \<noteq> build then (Inl (BuildChanged (jn_build_id j) build), wd)
      else (Inl (PassCap (wl_max_passes limits)), wd))"
| "drive env limits build d (Suc left) j wd =
     (if jn_build_id j \<noteq> build then (Inl (BuildChanged (jn_build_id j) build), wd)
      else case run_one_pass env j wd of
        (Inl e, wd1) \<Rightarrow> (Inl e, wd1)
      | (Inr (CompletedPass i x), wd1) \<Rightarrow> (Inr (i, x), wd1)
      | (Inr (Suspended pending jlen), wd1) \<Rightarrow>
          (case go_out env limits d (wl_max_passes limits - left) j pending jlen wd1 of
             (Inl e, wd2) \<Rightarrow> (Inl e, wd2)
           | (Inr j', wd2) \<Rightarrow> drive env limits build d left j' wd2))"

definition drive_workflow :: "('j, 'i, 'x) workflow_env \<Rightarrow> workflow_limits \<Rightarrow> string \<Rightarrow> durability option \<Rightarrow> 'j journal \<Rightarrow>
    'j world \<Rightarrow> (workflow_error + ('i \<times> 'x)) \<times> 'j world" where
  "drive_workflow env limits build d j wd = drive env limits build d (wl_max_passes limits) j wd"

section \<open>What a prefix of the events holds\<close>

fun writes :: "'j event list \<Rightarrow> 'j ledger_op list" where
  "writes [] = []"
| "writes (Wrote x # es) = x # writes es"
| "writes (Sent p r # es) = writes es"

fun begun :: "string \<Rightarrow> 'j event list \<Rightarrow> u32 set" where
  "begun w [] = {}"
| "begun w (Wrote (Begin v b i dg now) # es) = (if v = w then {i} else {}) \<union> begun w es"
| "begun w (e # es) = begun w es"

definition keyed :: "string \<Rightarrow> pending_request \<Rightarrow> aperture_request \<Rightarrow> bool" where
  "keyed w p r \<longleftrightarrow> (pd_method p \<notin> set safe_methods \<and> \<not> authored_key p \<longrightarrow>
     (idempotency_key_header, idempotency_key w (pd_step p)) \<in> set (rq_headers r))"

fun bracketed :: "string \<Rightarrow> u32 set \<Rightarrow> 'j event list \<Rightarrow> bool" where
  \<comment> \<open>every request that left was recorded before it, and carries the key of its step\<close>
  "bracketed w B [] = True"
| "bracketed w B (Sent p r # es) = (pd_step p \<in> B \<and> keyed w p r \<and> bracketed w B es)"
| "bracketed w B (Wrote x # es) = bracketed w (B \<union> begun w [Wrote x]) es"

lemma begun_append: "begun w (xs @ ys) = begun w xs \<union> begun w ys"
  by (induction w xs rule: begun.induct) auto

lemma begun_cons: "begun w (e # es) = begun w [e] \<union> begun w es"
  using begun_append [of w "[e]" es] by simp

lemma bracketed_append: "bracketed w B (xs @ ys) \<longleftrightarrow> bracketed w B xs \<and> bracketed w (B \<union> begun w xs) ys"
proof (induction w B xs rule: bracketed.induct)
  case (3 w B x es)
  have "B \<union> begun w [Wrote x] \<union> begun w es = B \<union> begun w (Wrote x # es)" using begun_cons [of w "Wrote x" es] by auto
  thus ?case using 3 by simp
qed auto

lemma bracketed_mono: "bracketed w B es \<Longrightarrow> B \<subseteq> B' \<Longrightarrow> bracketed w B' es"
proof (induction w B es arbitrary: B' rule: bracketed.induct)
  case (3 w B x es)
  thus ?case by (metis (no_types, lifting) Un_mono bracketed.simps(3) order_refl)
qed auto

lemma bracketed_take: "bracketed w B es \<Longrightarrow> bracketed w B (take k es)"
  using bracketed_append [of w B "take k es" "drop k es"] by simp

lemma bracketed_sent: "bracketed w B es \<Longrightarrow> Sent p r \<in> set es \<Longrightarrow> pd_step p \<in> B \<union> begun w es \<and> keyed w p r"
proof (induction w B es rule: bracketed.induct)
  case (3 w B x es)
  thus ?case using begun_cons [of w "Wrote x" es] by auto
qed auto

definition grew :: "('j event list \<Rightarrow> bool) \<Rightarrow> 'j world \<Rightarrow> 'j world \<Rightarrow> bool" where
  "grew P wd wd' \<longleftrightarrow> (\<exists>es. wd_events wd' = wd_events wd @ es \<and> P es) \<and> wd_seen wd' = wd_seen wd"

lemma grew_same: "wd_events wd' = wd_events wd \<Longrightarrow> wd_seen wd' = wd_seen wd \<Longrightarrow> P [] \<Longrightarrow> grew P wd wd'"
  by (auto simp: grew_def)

lemma grew_bracketed:
  "grew (bracketed w B) a b \<Longrightarrow> grew (bracketed w B) b c \<Longrightarrow> grew (bracketed w B) a c"
  unfolding grew_def by (metis (no_types, lifting) append.assoc bracketed_append bracketed_mono sup_ge1)

lemma grew_call_out: "call_out f wd = (a, wd') \<Longrightarrow> grew (bracketed w B) wd wd'"
  by (auto simp: call_out_def intro: grew_same)

lemma ledger_write_events:
  "ledger_write x wd = (r, wd') \<Longrightarrow>
   wd_events wd' = wd_events wd @ (if r = None then [Wrote x] else []) \<and> wd_seen wd' = wd_seen wd"
  by (auto simp: ledger_write_def saw_def split: list.splits option.splits)

lemma begin_all_grew:
  assumes "begin_all d now ps wd = (res, wd')"
  shows "grew (\<lambda>es. bracketed (du_workflow d) B es \<and>
    (res = None \<longrightarrow> pd_step ` set ps \<subseteq> begun (du_workflow d) es)) wd wd'"
  using assms
proof (induction ps arbitrary: wd B)
  case Nil
  thus ?case by (auto simp: grew_def)
next
  case (Cons p ps)
  let ?x = "Begin (du_workflow d) (du_build d) (pd_step p) (pd_digest p) now"
  obtain r wd1 where w: "ledger_write ?x wd = (r, wd1)" by fastforce
  note e = ledger_write_events [OF w]
  show ?case
  proof (cases r)
    case None
    have "begin_all d now ps wd1 = (res, wd')" using Cons.prems w None by simp
    from Cons.IH [OF this, of "insert (pd_step p) B"] obtain es where
      "wd_events wd' = wd_events wd1 @ es" "bracketed (du_workflow d) (insert (pd_step p) B) es"
      "res = None \<longrightarrow> pd_step ` set ps \<subseteq> begun (du_workflow d) es" "wd_seen wd' = wd_seen wd1"
      by (auto simp: grew_def)
    thus ?thesis using e None by (auto simp: grew_def intro!: exI [of _ "Wrote ?x # es"])
  next
    case (Some reason)
    thus ?thesis using Cons.prems w e by (auto simp: grew_def)
  qed
qed

lemma send_all_grew:
  assumes "send_all env qs wd = (os, wd')"
    and "\<And>p r. (p, Inr r) \<in> set qs \<Longrightarrow> pd_step p \<in> B \<and> keyed w p r"
  shows "grew (bracketed w B) wd wd' \<and> length os = length qs \<and> Unknown \<notin> set os"
  using assms
proof (induction env qs wd arbitrary: os wd' rule: send_all.induct)
  case (1 env wd)
  thus ?case by (auto simp: grew_def)
next
  case (2 env p reason qs wd)
  obtain os1 wd1 where s: "send_all env qs wd = (os1, wd1)" by fastforce
  thus ?case using 2 by auto
next
  case (3 env p r qs wd)
  obtain oc wd1 where o: "resolve_one env p r wd = (oc, wd1)" by fastforce
  obtain os1 wd2 where s: "send_all env qs wd1 = (os1, wd2)" by fastforce
  have "wd_events wd1 = wd_events wd @ [Sent p r]" "wd_seen wd1 = wd_seen wd" "oc \<noteq> Unknown"
    using o by (auto simp: resolve_one_def call_out_def saw_def split: client_answer.splits option.splits)
  moreover have "pd_step p \<in> B \<and> keyed w p r" by (rule "3.prems"(2)) simp
  ultimately have "grew (bracketed w B) wd wd1" "oc \<noteq> Unknown" by (auto simp: grew_def)
  moreover have "grew (bracketed w B) wd1 wd2 \<and> length os1 = length qs \<and> Unknown \<notin> set os1"
    by (rule "3.IH" [OF o [symmetric] refl s]) (rule "3.prems"(2), simp)
  ultimately show ?case using "3.prems"(1) o s by (auto intro: grew_bracketed)
qed

lemma settle_one_grew: "settle_one env d p oc wd = (r, wd') \<Longrightarrow> grew (bracketed w B) wd wd'"
proof (cases d)
  case (Some dd)
  assume s: "settle_one env d p oc wd = (r, wd')"
  obtain now wd1 where c: "call_out (w_now env) wd = (now, wd1)" by fastforce
  obtain r2 wd2 where l: "ledger_write (Settle (du_workflow dd) (pd_step p) oc now) wd1 = (r2, wd2)" by fastforce
  have "wd' = wd1 \<or> wd' = wd2" using s c l Some by (auto simp: settle_one_def split: if_splits option.splits)
  moreover have "grew (bracketed w B) wd1 wd2"
    using ledger_write_events [OF l] by (auto simp: grew_def split: if_splits)
  ultimately show ?thesis using grew_call_out [OF c] grew_bracketed by blast
qed (auto simp: settle_one_def grew_def)

lemma settle_all_grew: "settle_all env d qs j wd = (r, wd') \<Longrightarrow> grew (bracketed w B) wd wd'"
proof (induction env d qs j wd rule: settle_all.induct)
  case (2 env d p oc qs j wd)
  obtain r1 wd1 where s: "settle_one env d p oc wd = (r1, wd1)" by fastforce
  note g = settle_one_grew [OF s, of w B]
  show ?case
  proof (cases "r1 = None \<and> (\<exists>j'. log_outcome p oc j = Inr j')")
    case True
    then obtain j' where "log_outcome p oc j = Inr j'" "r1 = None" by blast
    thus ?thesis using 2 s g grew_bracketed by fastforce
  next
    case False
    hence "wd' = wd1" using "2.prems" s by (cases r1) (auto split: sum.splits)
    thus ?thesis using g by simp
  qed
qed (auto simp: grew_def)

lemma wire_keyed: "keyed (jn_workflow_id j) p (wire_request p j)"
  by (simp add: keyed_def wire_request_def Let_def)

lemma attach_keeps: "attach c hs r = Inr r' \<Longrightarrow> set (rq_headers r) \<subseteq> set (rq_headers r')"
  by (induction c hs r rule: attach.induct) (auto split: if_splits)

lemma credential_keyed:
  "with_source_credential env (wire_request p j) = Inr r \<Longrightarrow> keyed (jn_workflow_id j) p r"
  using wire_keyed [of j p] attach_keeps
  by (fastforce simp: with_source_credential_def keyed_def split: option.splits prod.splits)

lemma resolve_grew:
  assumes "resolve_pending env (Some d) j ps wd = (r, wd')" and "du_workflow d = jn_workflow_id j"
  shows "grew (bracketed (du_workflow d) B) wd wd'"
proof -
  let ?w = "du_workflow d"
  obtain b wd1 where b: "begin_pending env (Some d) ps wd = (b, wd1)" by fastforce
  obtain now wd0 where c: "call_out (w_now env) wd = (now, wd0)" by fastforce
  have "begin_all d now ps wd0 = (b, wd1)" using b c by (simp add: begin_pending_def)
  note g1 = begin_all_grew [OF this, of B]
  have e0: "wd_events wd0 = wd_events wd" "wd_seen wd0 = wd_seen wd" using c by (auto simp: call_out_def)
  obtain es where es: "wd_events wd1 = wd_events wd @ es" "bracketed ?w B es" "wd_seen wd1 = wd_seen wd"
      "b = None \<longrightarrow> pd_step ` set ps \<subseteq> begun ?w es"
    using g1 e0 by (auto simp: grew_def)
  show ?thesis
  proof (cases b)
    case (Some e)
    thus ?thesis using assms(1) b es by (auto simp: resolve_pending_def grew_def)
  next
    case None
    let ?q = "map (\<lambda>p. (p, with_source_credential env (wire_request p j))) ps"
    obtain os wd2 where s: "send_all env ?q wd1 = (os, wd2)" by fastforce
    have "grew (bracketed ?w (B \<union> begun ?w es)) wd1 wd2"
    proof (rule conjunct1 [OF send_all_grew [OF s]])
      fix p r
      assume "(p, Inr r) \<in> set ?q"
      hence "p \<in> set ps" "with_source_credential env (wire_request p j) = Inr r" by auto
      thus "pd_step p \<in> B \<union> begun ?w es \<and> keyed ?w p r"
        using es(4) None credential_keyed assms(2) by fastforce
    qed
    moreover have "settle_all env (Some d) (zip ps os) j wd2 = (r, wd')"
      using assms(1) b None s by (simp add: resolve_pending_def)
    hence "grew (bracketed ?w (B \<union> begun ?w es)) wd2 wd'" by (rule settle_all_grew)
    ultimately have "grew (bracketed ?w (B \<union> begun ?w es)) wd1 wd'" by (rule grew_bracketed)
    then obtain fs where "wd_events wd' = wd_events wd1 @ fs" "bracketed ?w (B \<union> begun ?w es) fs"
        "wd_seen wd' = wd_seen wd1" by (auto simp: grew_def)
    thus ?thesis using es by (auto simp: grew_def bracketed_append)
  qed
qed

section \<open>What a pass stages\<close>

unbundle bit_operations_syntax

text \<open>The \<open>fetch\<close> the body calls (\<open>src/runtime/bridge.rs\<close>). A body may call it any number of times,
  whatever it does with the answers; \<open>run_calls\<close> is the calls it makes, in order. The digest is
  over the UTF-16 code units of the text, here characters below 256.\<close>

record script_state =
  sc_step :: nat
  sc_pending :: "pending_request list"
  sc_suspended :: bool

record script_call =
  ca_method :: string
  ca_target :: string
  ca_body :: "string option"
  ca_headers :: "(string \<times> string) list"

datatype 'j script_answer = Resolves 'j | Throws string | ThrowsDiverged nat | ThrowsSuspend

definition hex_digit :: "nat \<Rightarrow> char" where
  "hex_digit n = ''0123456789abcdef'' ! n"

fun show_hex :: "nat \<Rightarrow> string" where
  "show_hex n = (if n < 16 then [hex_digit n] else show_hex (n div 16) @ [hex_digit (n mod 16)])"

declare show_hex.simps [simp del]

definition albedo_digest :: "string \<Rightarrow> string" where
  "albedo_digest s = show_hex (unat (fold (\<lambda>c h. (h XOR (of_nat (of_char c) :: u32)) * 16777619) s 2166136261))"

definition call_digest :: "script_call \<Rightarrow> string" where
  "call_digest c = albedo_digest (ca_method c @ [CHR 0x0A] @ ca_target c @ [CHR 0x0A] @
     (case ca_body c of None \<Rightarrow> [] | Some b \<Rightarrow> b))"

definition fetch_builtin :: "'j script_slot option list \<Rightarrow> script_call \<Rightarrow> script_state \<Rightarrow> 'j script_answer \<times> script_state" where
  "fetch_builtin slots c st =
     (let step = sc_step st; digest = call_digest c; st1 = st\<lparr>sc_step := Suc step\<rparr> in
      case (if step < length slots then slots ! step else None) of
        Some (Answer d v) \<Rightarrow> ((if d \<noteq> digest then ThrowsDiverged step else Resolves v), st1)
      | Some (Threw d e) \<Rightarrow> ((if d \<noteq> digest then ThrowsDiverged step else Throws e), st1)
      | None \<Rightarrow> (ThrowsSuspend, st1\<lparr>sc_suspended := True, sc_pending := sc_pending st @
          [\<lparr>pd_step = of_nat step, pd_method = ca_method c, pd_url = ca_target c, pd_body = ca_body c,
            pd_headers = ca_headers c, pd_digest = digest\<rparr>]\<rparr>))"

definition script_start :: script_state where
  "script_start = \<lparr>sc_step = 0, sc_pending = [], sc_suspended = False\<rparr>"

definition run_calls :: "'j journal \<Rightarrow> script_call list \<Rightarrow> script_state" where
  "run_calls j cs = fold (\<lambda>c st. snd (fetch_builtin (to_script_value j) c st)) cs script_start"

fun steps_in_turn :: "nat \<Rightarrow> u32 list \<Rightarrow> bool" where
  \<comment> \<open>each is of a step the log has or of its next one\<close>
  "steps_in_turn n [] = True"
| "steps_in_turn n (i # is) = (unat i \<le> n \<and> steps_in_turn (if n \<le> unat i then Suc n else n) is)"

definition grow :: "u32 \<Rightarrow> nat \<Rightarrow> nat" where "grow i n = (if n \<le> unat i then Suc n else n)"

lemma steps_in_turn_append:
  "steps_in_turn n (xs @ ys) \<longleftrightarrow> steps_in_turn n xs \<and> steps_in_turn (fold grow xs n) ys"
  by (induction xs arbitrary: n) (auto simp: grow_def)

lemma fetch_builtin_steps:
  assumes "st' = snd (fetch_builtin (to_script_value j) c st)" and "sc_step st < 2 ^ 32"
    and "steps_in_turn (length (jn_steps j)) (map pd_step (sc_pending st))"
    and "fold grow (map pd_step (sc_pending st)) (length (jn_steps j)) = max (length (jn_steps j)) (sc_step st)"
  shows "sc_step st' = Suc (sc_step st)
    \<and> steps_in_turn (length (jn_steps j)) (map pd_step (sc_pending st'))
    \<and> fold grow (map pd_step (sc_pending st')) (length (jn_steps j)) = max (length (jn_steps j)) (sc_step st')"
proof -
  let ?n = "length (jn_steps j)"
  have u: "unat (of_nat (sc_step st) :: u32) = sc_step st" using assms(2) by (rule u32_of_nat)
  show ?thesis
  proof (cases "if sc_step st < length (to_script_value j) then to_script_value j ! sc_step st else None")
    case None
    let ?p = "\<lparr>pd_step = of_nat (sc_step st), pd_method = ca_method c, pd_url = ca_target c, pd_body = ca_body c,
            pd_headers = ca_headers c, pd_digest = call_digest c\<rparr>"
    have st: "sc_pending st' = sc_pending st @ [?p]" "sc_step st' = Suc (sc_step st)"
      using None by (simp_all add: assms(1) fetch_builtin_def Let_def)
    have "map pd_step (sc_pending st') = map pd_step (sc_pending st) @ [of_nat (sc_step st)]" unfolding st(1) by simp
    moreover have "steps_in_turn (max ?n (sc_step st)) [of_nat (sc_step st)]" using u by simp
    moreover have "grow (of_nat (sc_step st)) (max ?n (sc_step st)) = max ?n (Suc (sc_step st))"
      unfolding grow_def u by (simp add: max_def)
    ultimately show ?thesis using assms(3,4) st(2) by (simp only: steps_in_turn_append fold_append comp_apply fold_simps)
  next
    case (Some s)
    hence "sc_step st < ?n" by (auto simp: to_script_value_def split: if_splits)
    moreover have "sc_pending st' = sc_pending st \<and> sc_step st' = Suc (sc_step st)"
      using assms(1) Some by (auto simp: fetch_builtin_def Let_def split: script_slot.splits)
    ultimately show ?thesis using assms by simp
  qed
qed

lemma run_calls_steps:
  assumes "length cs \<le> 2 ^ 32"
  shows "sc_step (run_calls j cs) = length cs
    \<and> steps_in_turn (length (jn_steps j)) (map pd_step (sc_pending (run_calls j cs)))
    \<and> fold grow (map pd_step (sc_pending (run_calls j cs))) (length (jn_steps j))
      = max (length (jn_steps j)) (length cs)"
  using assms
proof (induction cs rule: rev_induct)
  case (snoc c cs)
  have "run_calls j (cs @ [c]) = snd (fetch_builtin (to_script_value j) c (run_calls j cs))"
    by (simp add: run_calls_def)
  note step = fetch_builtin_steps [OF this]
  have ih: "sc_step (run_calls j cs) = length cs"
    "steps_in_turn (length (jn_steps j)) (map pd_step (sc_pending (run_calls j cs)))"
    "fold grow (map pd_step (sc_pending (run_calls j cs))) (length (jn_steps j)) = max (length (jn_steps j)) (length cs)"
    using snoc.IH snoc.prems by simp_all
  have "sc_step (run_calls j cs) < 2 ^ 32" using snoc.prems unfolding ih(1) by simp
  from step [OF this ih(2)] ih(1,3) show ?case unfolding length_append by simp
qed (simp add: run_calls_def script_start_def)

section \<open>The log on disk and the log in memory\<close>

definition pass_in_turn :: "('j, 'i, 'x) workflow_env \<Rightarrow> bool" where
  "pass_in_turn env \<longleftrightarrow> (\<forall>n j ps k. w_pass env n j = Inr (Suspended ps k) \<longrightarrow>
     steps_in_turn (length (jn_steps j)) (map pd_step ps))"

definition turned :: "string \<Rightarrow> 'j step list \<Rightarrow> 'j step list \<Rightarrow> 'j world \<Rightarrow> 'j world \<Rightarrow> bool" where
  "turned w ss ss' wd wd' \<longleftrightarrow> (\<exists>es. wd_events wd' = wd_events wd @ es \<and> in_turn w (writes es) ss \<and>
     fold (log_step w) (writes es) ss = ss')"

lemma writes_append [simp]: "writes (xs @ ys) = writes xs @ writes ys"
  by (induction xs rule: writes.induct) auto

lemma in_turn_append: "in_turn w (xs @ ys) ss \<longleftrightarrow> in_turn w xs ss \<and> in_turn w ys (fold (log_step w) xs ss)"
  by (induction xs arbitrary: ss) auto

lemma turned_trans: "turned w a b x y \<Longrightarrow> turned w b c y z \<Longrightarrow> turned w a c x z"
  unfolding turned_def by (metis append.assoc fold_append comp_apply in_turn_append writes_append)

lemma turned_same: "wd_events wd' = wd_events wd \<Longrightarrow> turned w ss ss wd wd'"
  by (auto simp: turned_def)

lemma log_step_len: "length (log_step w (Begin w b i d now) ss) = grow i (length ss)"
  "length (log_step w (Settle v i oc now) ss) = length ss"
  by (simp_all add: grow_def)

lemma begin_all_turned:
  assumes "begin_all d now ps wd = (res, wd')" and "steps_in_turn (length ss) (map pd_step ps)"
  shows "\<exists>ss'. turned (du_workflow d) ss ss' wd wd' \<and>
    (res = None \<longrightarrow> length ss' = fold grow (map pd_step ps) (length ss))"
  using assms
proof (induction ps arbitrary: wd ss)
  case Nil
  thus ?case by (auto intro: turned_same)
next
  case (Cons p ps)
  let ?x = "Begin (du_workflow d) (du_build d) (pd_step p) (pd_digest p) now"
  let ?s = "log_step (du_workflow d) ?x ss"
  obtain r wd1 where w: "ledger_write ?x wd = (r, wd1)" by fastforce
  note e = ledger_write_events [OF w]
  show ?case
  proof (cases r)
    case None
    have "begin_all d now ps wd1 = (res, wd')" using Cons.prems(1) w None by simp
    moreover have "steps_in_turn (length ?s) (map pd_step ps)" using Cons.prems(2) by auto
    ultimately obtain ss' where "turned (du_workflow d) ?s ss' wd1 wd'"
        "res = None \<longrightarrow> length ss' = fold grow (map pd_step ps) (length ?s)" using Cons.IH by blast
    moreover have "turned (du_workflow d) ss ?s wd wd1"
      using e None Cons.prems(2) by (auto simp: turned_def)
    ultimately have "turned (du_workflow d) ss ss' wd wd'" by (blast intro: turned_trans)
    moreover have "fold grow (map pd_step (p # ps)) (length ss) = fold grow (map pd_step ps) (length ?s)"
      unfolding log_step_len(1) by simp
    ultimately show ?thesis
      using \<open>res = None \<longrightarrow> length ss' = fold grow (map pd_step ps) (length ?s)\<close> by metis
  next
    case (Some reason)
    thus ?thesis using Cons.prems(1) w e by (auto intro: turned_same)
  qed
qed

lemma send_all_turned: "send_all env qs wd = (os, wd') \<Longrightarrow> turned w ss ss wd wd'"
proof (induction env qs wd arbitrary: os wd' rule: send_all.induct)
  case (3 env p r qs wd)
  obtain oc wd1 where o: "resolve_one env p r wd = (oc, wd1)" by fastforce
  obtain os1 wd2 where s: "send_all env qs wd1 = (os1, wd2)" by fastforce
  have "turned w ss ss wd1 wd2" by (rule "3.IH" [OF o [symmetric] refl s])
  moreover have "turned w ss ss wd wd1"
    using o by (auto simp: resolve_one_def call_out_def saw_def turned_def)
  ultimately show ?case using "3.prems" o s turned_trans by fastforce
qed (auto intro: turned_same split: prod.splits)

lemma settle_one_turned: "settle_one env d p oc wd = (r, wd') \<Longrightarrow> \<exists>ss'. turned w ss ss' wd wd' \<and> length ss' = length ss"
proof (cases d)
  case (Some dd)
  assume s: "settle_one env d p oc wd = (r, wd')"
  obtain now wd1 where c: "call_out (w_now env) wd = (now, wd1)" by fastforce
  let ?x = "Settle (du_workflow dd) (pd_step p) oc now"
  obtain r2 wd2 where l: "ledger_write ?x wd1 = (r2, wd2)" by fastforce
  have e1: "wd_events wd1 = wd_events wd" using c by (auto simp: call_out_def)
  have "wd' = wd1 \<or> wd' = wd2" using s c l Some by (auto simp: settle_one_def split: if_splits option.splits)
  moreover have "\<exists>ss'. turned w ss ss' wd wd2 \<and> length ss' = length ss"
  proof (cases r2)
    case None
    have "turned w ss (log_step w ?x ss) wd wd2"
      using ledger_write_events [OF l] None e1 by (simp add: turned_def)
    thus ?thesis using log_step_len(2) by blast
  next
    case (Some x)
    hence "turned w ss ss wd wd2" using ledger_write_events [OF l] e1 by (intro turned_same) simp
    thus ?thesis by blast
  qed
  ultimately show ?thesis using turned_same [OF e1] by blast
qed (auto simp: settle_one_def intro: turned_same)

lemma log_outcome_len: "log_outcome p oc j = Inr j' \<Longrightarrow> length (jn_steps j') = grow (pd_step p) (length (jn_steps j))"
  by (auto simp: log_outcome_def journal_holds_def journal_append_def journal_settle_def Let_def grow_def
      split: if_splits option.splits)

lemma log_outcome_extends: "log_outcome p oc j = Inr j' \<Longrightarrow> extends_log j j'"
  unfolding log_outcome_def using append_extends settle_extends by (simp split: if_splits) blast+

lemma settle_all_turned:
  "settle_all env d qs j wd = (r, wd') \<Longrightarrow> \<exists>ss'. turned w ss ss' wd wd' \<and> length ss' = length ss"
proof (induction env d qs j wd arbitrary: ss rule: settle_all.induct)
  case (2 env d p oc qs j wd)
  obtain r1 wd1 where s: "settle_one env d p oc wd = (r1, wd1)" by fastforce
  obtain s1 where g: "turned w ss s1 wd wd1" "length s1 = length ss" using settle_one_turned [OF s] by blast
  show ?case
  proof (cases "r1 = None \<and> (\<exists>j'. log_outcome p oc j = Inr j')")
    case True
    then obtain j' where j': "log_outcome p oc j = Inr j'" "r1 = None" by blast
    have "settle_all env d qs j' wd1 = (r, wd')" using "2.prems" s j' by simp
    from "2.IH" [OF s [symmetric] j'(2) j'(1) this, of s1] show ?thesis
      using g turned_trans by (metis (no_types))
  next
    case False
    hence "wd' = wd1" using "2.prems" s by (cases r1) (auto split: sum.splits)
    thus ?thesis using g by blast
  qed
qed (auto intro: turned_same)

lemma settle_all_log:
  "settle_all env d qs j wd = (Inr j', wd') \<Longrightarrow> extends_log j j' \<and>
   length (jn_steps j') = fold grow (map (pd_step \<circ> fst) qs) (length (jn_steps j))"
proof (induction env d qs j wd rule: settle_all.induct)
  case (2 env d p oc qs j wd)
  obtain wd1 where s: "settle_one env d p oc wd = (None, wd1)"
    using "2.prems" by (auto split: prod.splits option.splits)
  obtain j1 where j1: "log_outcome p oc j = Inr j1" using "2.prems" s by (auto split: sum.splits)
  have "settle_all env d qs j1 wd1 = (Inr j', wd')" using "2.prems" s j1 by simp
  from "2.IH" [OF s [symmetric] refl j1 this] show ?case
    using log_outcome_len [OF j1] log_outcome_extends [OF j1] extends_trans by auto
qed auto

lemma send_all_len: "send_all env qs wd = (os, wd') \<Longrightarrow> length os = length qs"
  by (induction env qs wd arbitrary: os wd' rule: send_all.induct) (auto split: prod.splits)

lemma resolve_log:
  assumes "resolve_pending env d j ps wd = (Inr j', wd')"
  shows "extends_log j j' \<and> length (jn_steps j') = fold grow (map pd_step ps) (length (jn_steps j))"
proof -
  let ?q = "map (\<lambda>p. (p, with_source_credential env (wire_request p j))) ps"
  obtain wd1 where b: "begin_pending env d ps wd = (None, wd1)"
    using assms by (auto simp: resolve_pending_def split: prod.splits option.splits)
  obtain os wd2 where s: "send_all env ?q wd1 = (os, wd2)" by fastforce
  have "settle_all env d (zip ps os) j wd2 = (Inr j', wd')" using assms b s by (simp add: resolve_pending_def)
  moreover have "map (pd_step \<circ> fst) (zip ps os) = map pd_step ps"
    using send_all_len [OF s] by (simp only: map_map [symmetric] length_map) simp
  ultimately show ?thesis using settle_all_log by metis
qed

lemma resolve_turned:
  assumes "resolve_pending env (Some d) j ps wd = (r, wd')"
    and "steps_in_turn (length ss) (map pd_step ps)" and "length ss = length (jn_steps j)"
  shows "\<exists>ss'. turned (du_workflow d) ss ss' wd wd' \<and> (\<forall>j'. r = Inr j' \<longrightarrow> length ss' = length (jn_steps j'))"
proof -
  let ?w = "du_workflow d"
  obtain b wd1 where b: "begin_pending env (Some d) ps wd = (b, wd1)" by fastforce
  obtain now wd0 where c: "call_out (w_now env) wd = (now, wd0)" by fastforce
  have "begin_all d now ps wd0 = (b, wd1)" using b c by (simp add: begin_pending_def)
  from begin_all_turned [OF this assms(2)] obtain s1 where
    s1: "turned ?w ss s1 wd0 wd1" "b = None \<longrightarrow> length s1 = fold grow (map pd_step ps) (length ss)" by blast
  have "turned ?w ss ss wd wd0" using c by (auto simp: call_out_def intro: turned_same)
  hence t1: "turned ?w ss s1 wd wd1" using s1(1) turned_trans by blast
  show ?thesis
  proof (cases b)
    case (Some e)
    hence "r = Inl e" "wd' = wd1" using assms(1) b by (auto simp: resolve_pending_def)
    thus ?thesis using t1 by blast
  next
    case None
    let ?q = "map (\<lambda>p. (p, with_source_credential env (wire_request p j))) ps"
    obtain os wd2 where s: "send_all env ?q wd1 = (os, wd2)" by fastforce
    have "settle_all env (Some d) (zip ps os) j wd2 = (r, wd')"
      using assms(1) b None s by (simp add: resolve_pending_def)
    from settle_all_turned [OF this] obtain s2 where
      "turned ?w s1 s2 wd2 wd'" "length s2 = length s1" by blast
    moreover have "turned ?w s1 s1 wd1 wd2" by (rule send_all_turned [OF s])
    ultimately have "turned ?w ss s2 wd wd'" "length s2 = length s1" using t1 turned_trans by blast+
    moreover have "length s1 = length (jn_steps j')" if "r = Inr j'" for j'
      using resolve_log assms(1,3) s1(2) None that by metis
    ultimately show ?thesis by metis
  qed
qed

lemma admit_all_same: "admit_all env ps wd = (r, wd') \<Longrightarrow> wd_events wd' = wd_events wd \<and> wd_seen wd' = wd_seen wd"
  by (induction env ps wd rule: admit_all.induct) (auto simp: call_out_def split: option.splits)

lemma go_out_cases:
  assumes "go_out env limits d n j ps k wd = (r, wd')"
  shows "(\<exists>e. r = Inl e \<and> wd_events wd' = wd_events wd \<and> wd_seen wd' = wd_seen wd) \<or>
    (\<exists>wd0. wd_events wd0 = wd_events wd \<and> wd_seen wd0 = wd_seen wd \<and>
      resolve_pending env d j ps wd0 = (r, wd') \<and> (\<forall>p\<in>set ps. \<exists>n. w_admit env n p = None))"
proof -
  obtain el wd1 where c: "call_out (w_elapsed env) wd = (el, wd1)" by fastforce
  obtain a wd2 where a: "admit_all env ps wd1 = (a, wd2)" by fastforce
  have e1: "wd_events wd1 = wd_events wd" "wd_seen wd1 = wd_seen wd" using c by (auto simp: call_out_def)
  have e2: "wd_events wd2 = wd_events wd" "wd_seen wd2 = wd_seen wd" using admit_all_same [OF a] e1 by simp_all
  have ok: "admit_all env ps v = (None, v') \<Longrightarrow> \<forall>p\<in>set ps. \<exists>n. w_admit env n p = None" for v v'
    by (induction env ps v rule: admit_all.induct) (auto simp: call_out_def split: option.splits)
  show ?thesis
    using assms c a e1 e2 ok [of wd1 wd2]
    by (cases a) (auto simp: go_out_def Let_def split: if_splits)
qed

lemma run_one_pass_same:
  "run_one_pass env j wd = (x, wd') \<Longrightarrow> wd_events wd' = wd_events wd \<and> wd_seen wd' = wd_seen wd @ [j] \<and>
   (\<exists>n. w_pass env n j = x)"
  by (auto simp: run_one_pass_def call_out_def)

lemma drive_cases:
  assumes "drive env limits build d (Suc left) j wd = (r, wd')"
  obtains "\<exists>e. r = Inl e" "wd' = wd"
  | wd1 where "wd_events wd' = wd_events wd" "wd_seen wd' = wd_seen wd @ [j]" "\<exists>e. r = Inl e"
  | n i x where "wd_events wd' = wd_events wd" "wd_seen wd' = wd_seen wd @ [j]" "r = Inr (i, x)"
      "w_pass env n j = Inr (CompletedPass i x)"
  | n ps k wd1 e where "w_pass env n j = Inr (Suspended ps k)" "wd_events wd1 = wd_events wd"
      "wd_seen wd1 = wd_seen wd @ [j]" "r = Inl e" "resolve_pending env d j ps wd1 = (Inl e, wd')"
  | n ps k wd1 wd2 j' where "w_pass env n j = Inr (Suspended ps k)" "wd_events wd1 = wd_events wd"
      "wd_seen wd1 = wd_seen wd @ [j]" "resolve_pending env d j ps wd1 = (Inr j', wd2)"
      "drive env limits build d left j' wd2 = (r, wd')"
proof (cases "jn_build_id j \<noteq> build")
  case True
  thus ?thesis using assms that(1) by auto
next
  case False
  obtain x wda where p: "run_one_pass env j wd = (x, wda)" by fastforce
  note pa = run_one_pass_same [OF p]
  show ?thesis
  proof (cases x)
    case (Inl e)
    thus ?thesis using assms False p pa that(2) by auto
  next
    case (Inr y)
    show ?thesis
    proof (cases y)
      case (CompletedPass i z)
      thus ?thesis using assms False p pa Inr that(3) by auto
    next
      case (Suspended ps k)
      obtain g wdb where g: "go_out env limits d (wl_max_passes limits - left) j ps k wda = (g, wdb)" by fastforce
      obtain n where n: "w_pass env n j = Inr (Suspended ps k)" using pa Inr Suspended by blast
      from go_out_cases [OF g] show ?thesis
      proof
        assume "\<exists>e. g = Inl e \<and> wd_events wdb = wd_events wda \<and> wd_seen wdb = wd_seen wda"
        thus ?thesis using assms False p pa Inr Suspended g that(2) by auto
      next
        assume "\<exists>wd0. wd_events wd0 = wd_events wda \<and> wd_seen wd0 = wd_seen wda \<and>
          resolve_pending env d j ps wd0 = (g, wdb) \<and> (\<forall>p\<in>set ps. \<exists>n. w_admit env n p = None)"
        then obtain wd0 where z: "wd_events wd0 = wd_events wd" "wd_seen wd0 = wd_seen wd @ [j]"
          "resolve_pending env d j ps wd0 = (g, wdb)" using pa by auto
        show ?thesis
        proof (cases g)
          case (Inl e)
          have "r = Inl e" "wd' = wdb" using assms False p \<open>x = Inr y\<close> Suspended g Inl by simp_all
          thus ?thesis using that(4) [OF n z(1,2)] z(3) Inl by blast
        next
          case (Inr j')
          have "drive env limits build d left j' wdb = (r, wd')"
            using assms False p \<open>x = Inr y\<close> Suspended g Inr by simp
          thus ?thesis using that(5) [OF n z(1,2)] z(3) Inr by blast
        qed
      qed
    qed
  qed
qed

lemma drive_grew:
  "drive env limits build (Some d) left j wd = (r, wd') \<Longrightarrow> du_workflow d = jn_workflow_id j \<Longrightarrow>
   \<exists>es. wd_events wd' = wd_events wd @ es \<and> bracketed (du_workflow d) B es"
proof (induction left arbitrary: j wd)
  case 0
  thus ?case by (auto split: if_splits)
next
  case (Suc left)
  from Suc.prems(1) show ?case
  proof (cases rule: drive_cases)
    case (4 n ps k wd1 e)
    thus ?thesis using resolve_grew [OF 4(5) Suc.prems(2), of B] by (auto simp: grew_def)
  next
    case (5 n ps k wd1 wd2 j')
    have "jn_workflow_id j' = jn_workflow_id j" using resolve_log [OF 5(4)] by (simp add: extends_log_def)
    from Suc.IH [OF 5(5)] this Suc.prems(2) obtain fs where
      fs: "wd_events wd' = wd_events wd2 @ fs" "bracketed (du_workflow d) B fs" by auto
    obtain es where "wd_events wd2 = wd_events wd1 @ es" "bracketed (du_workflow d) B es"
      using resolve_grew [OF 5(4) Suc.prems(2), of B] by (auto simp: grew_def)
    moreover have "bracketed (du_workflow d) (B \<union> begun (du_workflow d) es) fs"
      using bracketed_mono [OF fs(2)] by blast
    ultimately show ?thesis using fs(1) 5(2) by (auto simp: bracketed_append)
  qed auto
qed

lemma drive_turned:
  "drive env limits build (Some d) left j wd = (r, wd') \<Longrightarrow> pass_in_turn env \<Longrightarrow> length ss = length (jn_steps j) \<Longrightarrow>
   \<exists>ss'. turned (du_workflow d) ss ss' wd wd'"
proof (induction left arbitrary: j wd ss)
  case 0
  thus ?case by (auto split: if_splits intro: turned_same)
next
  case (Suc left)
  note pt = Suc.prems(2) [unfolded pass_in_turn_def, rule_format]
  from Suc.prems(1) show ?case
  proof (cases rule: drive_cases)
    case (4 n ps k wd1 e)
    have "turned (du_workflow d) ss ss wd wd1" using 4(2) by (rule turned_same)
    moreover have "\<exists>s2. turned (du_workflow d) ss s2 wd1 wd'"
      using resolve_turned [OF 4(5) _ Suc.prems(3)] pt [OF 4(1)] Suc.prems(3) by auto
    ultimately show ?thesis using turned_trans by blast
  next
    case (5 n ps k wd1 wd2 j')
    have "turned (du_workflow d) ss ss wd wd1" using 5(2) by (rule turned_same)
    moreover obtain s2 where "turned (du_workflow d) ss s2 wd1 wd2" "length s2 = length (jn_steps j')"
      using resolve_turned [OF 5(4) _ Suc.prems(3)] pt [OF 5(1)] Suc.prems(3) by auto
    moreover from this obtain s3 where "turned (du_workflow d) s2 s3 wd2 wd'"
      using Suc.IH [OF 5(5) Suc.prems(2)] by blast
    ultimately show ?thesis using turned_trans by blast
  qed (auto intro: turned_same)
qed

lemma resolve_seen:
  assumes "resolve_pending env d j ps wd = (r, wd')"
  shows "wd_seen wd' = wd_seen wd"
proof -
  obtain b wd1 where b: "begin_pending env d ps wd = (b, wd1)" by fastforce
  have s1: "wd_seen wd1 = wd_seen wd"
  proof (cases d)
    case None
    thus ?thesis using b by (simp add: begin_pending_def)
  next
    case (Some dd)
    obtain now wd0 where c: "call_out (w_now env) wd = (now, wd0)" by fastforce
    have "begin_all dd now ps wd0 = (b, wd1)" using b c Some by (simp add: begin_pending_def)
    from begin_all_grew [OF this, of UNIV] have "wd_seen wd1 = wd_seen wd0" by (simp add: grew_def)
    thus ?thesis using c by (auto simp: call_out_def)
  qed
  show ?thesis
  proof (cases b)
    case (Some e)
    thus ?thesis using assms b s1 by (auto simp: resolve_pending_def)
  next
    case None
    let ?q = "map (\<lambda>p. (p, with_source_credential env (wire_request p j))) ps"
    obtain os wd2 where s: "send_all env ?q wd1 = (os, wd2)" by fastforce
    have "grew (bracketed (jn_workflow_id j) UNIV) wd1 wd2"
      by (rule conjunct1 [OF send_all_grew [OF s]]) (auto intro: credential_keyed [OF sym])
    moreover have "settle_all env d (zip ps os) j wd2 = (r, wd')"
      using assms b None s by (simp add: resolve_pending_def)
    hence "grew (bracketed (jn_workflow_id j) UNIV) wd2 wd'" by (rule settle_all_grew)
    ultimately show ?thesis using s1 by (auto simp: grew_def)
  qed
qed

definition pass_chain :: "('j, 'i, 'x) workflow_env \<Rightarrow> nat \<Rightarrow> 'j journal \<Rightarrow> (workflow_error + ('i \<times> 'x)) \<Rightarrow> 'j journal list \<Rightarrow> bool" where
  \<comment> \<open>the logs the passes were handed grow, there are few enough of them, and a result is the last pass's\<close>
  "pass_chain env cap j r js \<longleftrightarrow> length js \<le> cap \<and> sorted_wrt extends_log (j # js) \<and>
     (\<forall>i x. r = Inr (i, x) \<longrightarrow> js \<noteq> [] \<and> (\<exists>n. w_pass env n (last js) = Inr (CompletedPass i x)))"

lemma drive_seen:
  "drive env limits build d left j wd = (r, wd') \<Longrightarrow>
   \<exists>js. wd_seen wd' = wd_seen wd @ js \<and> pass_chain env left j r js"
proof (induction left arbitrary: j wd)
  case 0
  thus ?case by (auto simp: pass_chain_def split: if_splits)
next
  case (Suc left)
  from Suc.prems show ?case
  proof (cases rule: drive_cases)
    case (3 n i x)
    thus ?thesis by (auto simp: pass_chain_def intro!: exI [of _ "[j]"])
  next
    case (4 n ps k wd1 e)
    thus ?thesis using resolve_seen [OF 4(5)] by (auto simp: pass_chain_def intro!: exI [of _ "[j]"])
  next
    case (5 n ps k wd1 wd2 j')
    have e: "extends_log j j'" using resolve_log [OF 5(4)] by blast
    obtain js where js: "wd_seen wd' = wd_seen wd2 @ js" "pass_chain env left j' r js"
      using Suc.IH [OF 5(5)] by blast
    have "pass_chain env (Suc left) j r (j # js)"
      using js(2) e extends_trans [of j j'] by (auto simp: pass_chain_def)
    moreover have "wd_seen wd' = wd_seen wd @ j # js" using js(1) resolve_seen [OF 5(4)] 5(3) by simp
    ultimately show ?thesis by blast
  qed (auto simp: pass_chain_def intro!: exI [of _ "[j]"])
qed

lemma log_step_mono: "length ss \<le> length (log_step w x ss)"
  by (cases x) auto

lemma log_run_mono: "length ss \<le> length (fold (log_step w) xs ss)"
proof (induction xs arbitrary: ss)
  case (Cons x xs)
  thus ?case using log_step_mono [of ss w x] le_trans by (metis fold_simps(2))
qed simp

lemma begun_held:
  "i \<in> begun w es \<Longrightarrow> in_turn w (writes es) ss \<Longrightarrow> unat i < length (fold (log_step w) (writes es) ss)"
proof (induction w es arbitrary: ss rule: begun.induct)
  case (2 w v b k dg now es)
  let ?s = "log_step w (Begin v b k dg now) ss"
  show ?case
  proof (cases "v = w \<and> i = k")
    case True
    have "unat i < length ?s" using True "2.prems"(2) by auto
    thus ?thesis using log_run_mono [of ?s w "writes es"] by simp
  next
    case False
    thus ?thesis using 2 by (auto split: if_splits)
  qed
qed auto

lemma in_turn_take: "in_turn w (writes es) ss \<Longrightarrow> in_turn w (writes (take k es)) ss"
  using in_turn_append [of w "writes (take k es)" "writes (drop k es)" ss]
  unfolding writes_append [symmetric] append_take_drop_id by blast

section \<open>Properties\<close>

text \<open>C2. No outside call is ever forgotten. Let the process die at any moment of a durable run: for
  every request that had left by then, loading the workflow from the tables gives a log that holds
  the request's step, under the same workflow, so that a retry asks for it under the same
  idempotency key, the one the request carried (unless its method is safe or its author wrote a
  key of its own).\<close>

theorem crash_keeps_the_key:
  assumes "json_laws codec" and "holds_log codec w l0 (jn_steps j)"
    and "du_workflow d = w" and "jn_workflow_id j = w" and "pass_in_turn env"
    and "drive_workflow env limits build (Some d) j wd = (r, wd')" and "wd_events wd = []"
    and "Sent p rq \<in> set (take k (wd_events wd'))"
    and "l = fold (ledger_step codec) (writes (take k (wd_events wd'))) l0"
    and "length (filter (\<lambda>r. sr_workflow r = Text w) (lg_steps l)) \<le> default_step_cap"
  shows "\<exists>j'. load_journal codec w l = Some j' \<and> jn_workflow_id j' = w \<and> journal_holds (pd_step p) j' \<and> keyed w p rq"
proof -
  let ?es = "take k (wd_events wd')"
  let ?ss = "fold (log_step w) (writes ?es) (jn_steps j)"
  note dr = assms(6) [unfolded drive_workflow_def]
  have "bracketed w {} (wd_events wd')" using drive_grew [OF dr, of "{}"] assms(3,4,7) by auto
  hence "bracketed w {} ?es" by (rule bracketed_take)
  hence p: "pd_step p \<in> begun w ?es" "keyed w p rq" using bracketed_sent assms(8) by blast+
  have "in_turn w (writes (wd_events wd')) (jn_steps j)"
    using drive_turned [OF dr assms(5) refl] assms(3,7) by (auto simp: turned_def)
  hence t: "in_turn w (writes ?es) (jn_steps j)" by (rule in_turn_take)
  have h: "holds_log codec w l ?ss"
    unfolding assms(9) by (rule json_laws.run_holds [OF assms(1,2) t])
  have "length ?ss \<le> default_step_cap"
    using assms(10) list_all2_lengthD [OF h [unfolded holds_log_def, THEN conjunct1]] by simp
  moreover have i: "unat (pd_step p) < length ?ss" by (rule begun_held [OF p(1) t])
  moreover from i have "?ss \<noteq> []" by auto
  ultimately obtain b where "load_journal codec w l = Some ((journal_new w b)\<lparr>jn_steps := ?ss\<rparr>)"
    using json_laws.load_holds [OF assms(1) h] by blast
  thus ?thesis using i p(2) by (simp add: journal_holds_def journal_new_def)
qed

text \<open>C30. The driver stops and replays faithfully: it runs at most \<open>max_passes\<close> passes, hands each a log
  that extends the one before with every answer kept, and returns instructions only as the result
  of a pass that completed, the last one it ran.\<close>

theorem driver_safe:
  "\<exists>js. wd_seen (snd (drive_workflow env limits build d j wd)) = wd_seen wd @ js \<and>
     pass_chain env (wl_max_passes limits) j (fst (drive_workflow env limits build d j wd)) js"
  unfolding drive_workflow_def by (rule drive_seen) (rule prod.collapse [symmetric])

text \<open>A pass refused admission leaves nothing: when one of its calls is refused, no row is written
  and no request of the pass is sent, so a retry finds no step whose outcome is unknown.\<close>

theorem refused_pass_leaves_nothing:
  assumes "p \<in> set ps" and "\<forall>n. w_admit env n p \<noteq> None"
  shows "(\<exists>e. fst (go_out env limits d passes j ps k wd) = Inl e) \<and>
    wd_events (snd (go_out env limits d passes j ps k wd)) = wd_events wd"
proof -
  have "\<not> (\<forall>p\<in>set ps. \<exists>n. w_admit env n p = None)" using assms by blast
  thus ?thesis using go_out_cases [OF prod.collapse [symmetric], of env limits d passes j ps k wd] by blast
qed

text \<open>Whatever a body does, the calls it makes stage its steps in turn, which is what the driver relies on.\<close>

lemma calls_in_turn: "length cs \<le> 2 ^ 32 \<Longrightarrow> steps_in_turn (length (jn_steps j)) (map pd_step (sc_pending (run_calls j cs)))"
  using run_calls_steps by blast

text \<open>A body that makes one call after another and then finishes, and a world for it.\<close>

definition body_pass :: "script_call list \<Rightarrow> 'j journal \<Rightarrow> workflow_error + (string, unit) action_pass" where
  "body_pass cs j =
     (let st = run_calls j cs in
      if sc_suspended st then Inr (Suspended (sc_pending st) (of_nat (length (jn_steps j))))
      else Inr (CompletedPass ''ok'' ()))"

definition demo_call :: "string \<Rightarrow> script_call" where
  "demo_call body = \<lparr>ca_method = ''POST'', ca_target = ''https://pay'', ca_body = Some body, ca_headers = []\<rparr>"

definition demo_env :: "script_call list \<Rightarrow> (nat, string, unit) workflow_env" where
  "demo_env cs = \<lparr>w_pass = (\<lambda>_. body_pass cs), w_send = (\<lambda>_ _. Responded 200 [] (Some ''paid'')),
     w_now = int, w_elapsed = (\<lambda>_. 0), w_admit = (\<lambda>_ _. None), w_credential = (\<lambda>_. None),
     w_conflict = (\<lambda>_ _ _ _. ''''), w_not_text = (\<lambda>_ _. ''''), w_record = (\<lambda>_ s _ _. s)\<rparr>"

definition quiet_world :: "nat world" where
  "quiet_world = \<lparr>wd_calls = 0, wd_faults = [], wd_events = [], wd_seen = []\<rparr>"

definition demo_durability :: durability where
  "demo_durability = \<lparr>du_workflow = ''w'', du_build = ''b''\<rparr>"

lemma body_in_turn: "length cs \<le> 2 ^ 32 \<Longrightarrow> w_pass env = (\<lambda>_. body_pass cs) \<Longrightarrow> pass_in_turn env"
  using calls_in_turn by (auto simp: pass_in_turn_def body_pass_def Let_def split: if_splits)

lemmas run_eval = demo_env_def quiet_world_def demo_durability_def demo_call_def body_pass_def run_calls_def
  script_start_def fetch_builtin_def to_script_value_def journal_new_def drive_workflow_def run_one_pass_def
  call_out_def go_out_def resolve_pending_def begin_pending_def ledger_write_def saw_def with_source_credential_def
  wire_request_def safe_methods_def authored_key_def resolve_one_def response_record_def settle_one_def
  log_outcome_def journal_holds_def journal_append_def u32_of_len_def default_step_cap_def Let_def

lemma crash_keeps_the_key_witness:
  "\<exists>p rq j'. pd_method p = ''POST'' \<and>
     load_journal demo_codec ''w'' (fold (ledger_step demo_codec) (writes (take 2 (wd_events (snd
       (drive_workflow (demo_env [demo_call ''x'']) \<lparr>wl_deadline = 9, wl_max_passes = Suc (Suc 0)\<rparr> ''b''
         (Some demo_durability) (journal_new ''w'' ''b'') quiet_world))))) \<lparr>lg_steps = [], lg_results = []\<rparr>) = Some j'
     \<and> journal_holds (pd_step p) j' \<and> keyed ''w'' p rq"
proof -
  let ?run = "drive_workflow (demo_env [demo_call ''x'']) \<lparr>wl_deadline = 9, wl_max_passes = Suc (Suc 0)\<rparr> ''b''
     (Some demo_durability) (journal_new ''w'' ''b'') quiet_world"
  let ?l0 = "\<lparr>lg_steps = [], lg_results = []\<rparr>"
  define p where "p = \<lparr>pd_step = 0, pd_method = ''POST'', pd_url = ''https://pay'', pd_body = Some ''x'',
      pd_headers = [], pd_digest = call_digest (demo_call ''x'')\<rparr>"
  define rq where "rq = \<lparr>rq_method = ''POST'', rq_url = ''https://pay'',
      rq_headers = [(idempotency_key_header, idempotency_key ''w'' 0)], rq_body = Some ''x''\<rparr>"
  have p: "take 2 (wd_events (snd ?run)) = [Wrote (Begin ''w'' ''b'' 0 (pd_digest p) 3), Sent p rq]"
      "pd_method p = ''POST''"
    by (simp_all add: run_eval p_def rq_def)
  obtain r wd' where run: "?run = (r, wd')" by (metis surj_pair)
  have turn: "pass_in_turn (demo_env [demo_call ''x''])"
    by (rule body_in_turn [of "[demo_call ''x'']"]) (simp_all add: demo_env_def)
  have "\<exists>j'. load_journal demo_codec ''w'' (fold (ledger_step demo_codec) (writes (take 2 (wd_events wd'))) ?l0) = Some j'
      \<and> jn_workflow_id j' = ''w'' \<and> journal_holds (pd_step p) j' \<and> keyed ''w'' p rq"
  proof (rule crash_keeps_the_key [OF demo_json.json_laws_axioms _ _ _ turn run _ _ refl])
    show "holds_log demo_codec ''w'' ?l0 (jn_steps (journal_new ''w'' ''b''))"
      by (simp add: holds_log_def journal_new_def)
    show "Sent p rq \<in> set (take 2 (wd_events wd'))" using p(1) run by simp
    show "length (filter (\<lambda>r. sr_workflow r = Text ''w'') (lg_steps (fold (ledger_step demo_codec)
        (writes (take 2 (wd_events wd'))) ?l0))) \<le> default_step_cap"
      using p(1) run by (simp add: begin_step_def default_step_cap_def)
  qed (simp_all add: demo_durability_def journal_new_def quiet_world_def)
  thus ?thesis using p(2) run by auto
qed

lemma refused_pass_leaves_nothing_witness:
  "wd_events (snd (go_out ((demo_env [])\<lparr>w_admit := \<lambda>_ p. Some (Refused (pd_url p) ''limit'')\<rparr>)
     \<lparr>wl_deadline = 9, wl_max_passes = 2\<rparr> (Some demo_durability) 1 (journal_new ''w'' ''b'')
     (sc_pending (run_calls (journal_new ''w'' ''b'' :: nat journal) [demo_call ''x''])) 0 quiet_world)) = []"
  using refused_pass_leaves_nothing [of "hd (sc_pending (run_calls (journal_new ''w'' ''b'' :: nat journal) [demo_call ''x'']))"
      "sc_pending (run_calls (journal_new ''w'' ''b'' :: nat journal) [demo_call ''x''])"
      "(demo_env [])\<lparr>w_admit := \<lambda>_ p. Some (Refused (pd_url p) ''limit'')\<rparr>"]
  by (simp add: run_eval)

text \<open>A diverging re-run is refused too late. A workflow resumed after a crash whose body asks for
  another request at the step whose outcome is unknown has that other request sent, under the
  idempotency key of the recorded one, and its answer written to the recorded step's row, under
  the recorded step's digest; only then is the run refused as diverged.\<close>

theorem divergent_call_already_sent:
  assumes "unat (pd_step p) < length (jn_steps j)" and "jn_steps j ! unat (pd_step p) = s"
    and "st_outcome s = Unknown" and "st_digest s \<noteq> pd_digest p" and "wd_faults wd = []"
    and "with_source_credential env (wire_request p j) = Inr r" and "du_workflow d = jn_workflow_id j"
  shows "fst (resolve_pending env (Some d) j [p] wd) = Inl (JournalFailed (Diverged (pd_step p) (st_digest s) (pd_digest p)))
    \<and> keyed (jn_workflow_id j) p r
    \<and> (\<exists>es oc. wd_events (snd (resolve_pending env (Some d) j [p] wd)) = wd_events wd @ es \<and> Sent p r \<in> set es
        \<and> oc \<noteq> Unknown
        \<and> fold (log_step (jn_workflow_id j)) (writes es) (jn_steps j) = (jn_steps j)[unat (pd_step p) := s\<lparr>st_outcome := oc\<rparr>])"
proof -
  obtain oc wd1 where o: "resolve_one env p r (saw (Wrote (Begin (du_workflow d) (du_build d) (pd_step p) (pd_digest p)
      (w_now env (wd_calls wd)))) (wd\<lparr>wd_calls := Suc (wd_calls wd)\<rparr>)) = (oc, wd1)" by fastforce
  have oc: "oc \<noteq> Unknown" "wd_faults wd1 = []" "wd_events wd1 = wd_events wd @
      [Wrote (Begin (du_workflow d) (du_build d) (pd_step p) (pd_digest p) (w_now env (wd_calls wd))), Sent p r]"
    using o assms(5) by (auto simp: resolve_one_def call_out_def saw_def split: client_answer.splits option.splits)
  have lo: "log_outcome p oc j = Inl (Diverged (pd_step p) (st_digest s) (pd_digest p))"
    using assms(1,2,4) by (simp add: log_outcome_def journal_holds_def journal_settle_def journal_get_def)
  have run: "resolve_pending env (Some d) j [p] wd =
      (Inl (JournalFailed (Diverged (pd_step p) (st_digest s) (pd_digest p))),
       saw (Wrote (Settle (du_workflow d) (pd_step p) oc (w_now env (wd_calls wd1)))) (wd1\<lparr>wd_calls := Suc (wd_calls wd1)\<rparr>))"
    using assms(5,6) o oc(1,2) lo
    by (simp add: resolve_pending_def begin_pending_def call_out_def ledger_write_def settle_one_def Let_def)
  let ?es = "[Wrote (Begin (du_workflow d) (du_build d) (pd_step p) (pd_digest p) (w_now env (wd_calls wd))), Sent p r,
      Wrote (Settle (du_workflow d) (pd_step p) oc (w_now env (wd_calls wd1)))]"
  have "fold (log_step (jn_workflow_id j)) (writes ?es) (jn_steps j) = (jn_steps j)[unat (pd_step p) := s\<lparr>st_outcome := oc\<rparr>]"
    using assms(1-3,7) by simp
  moreover have "wd_events (snd (resolve_pending env (Some d) j [p] wd)) = wd_events wd @ ?es"
    using oc(3) unfolding run by (simp add: saw_def)
  ultimately show ?thesis
    using run oc(1) credential_keyed [OF assms(6)] by (metis fst_conv list.set_intros)
qed

lemma divergent_call_already_sent_witness:
  "fst (resolve_pending (demo_env []) (Some demo_durability)
     ((journal_new ''w'' ''b'')\<lparr>jn_steps := [\<lparr>st_index = 0, st_kind = Fetch, st_digest = ''one'', st_outcome = Unknown\<rparr>]\<rparr>)
     [\<lparr>pd_step = 0, pd_method = ''POST'', pd_url = ''https://pay'', pd_body = None, pd_headers = [], pd_digest = ''two''\<rparr>]
     quiet_world) = Inl (JournalFailed (Diverged 0 ''one'' ''two''))"
proof -
  let ?j = "(journal_new ''w'' ''b'' :: nat journal)\<lparr>jn_steps := [\<lparr>st_index = 0, st_kind = Fetch, st_digest = ''one'', st_outcome = Unknown\<rparr>]\<rparr>"
  let ?p = "\<lparr>pd_step = 0, pd_method = ''POST'', pd_url = ''https://pay'', pd_body = None, pd_headers = [], pd_digest = ''two''\<rparr>"
  obtain r where "with_source_credential (demo_env []) (wire_request ?p ?j) = Inr r"
    by (simp add: run_eval)
  from divergent_call_already_sent [OF _ refl _ _ _ this, of quiet_world demo_durability] show ?thesis
    by (simp add: run_eval)
qed

end
