(* ===== verification/Matcher.thy ===== *)
theory Matcher
  imports Strings
begin

text \<open>
  Which requests enter a middleware (\<open>src/middleware/matcher.rs\<close>), and how the router reads a
  captured part of the same path (\<open>decode_route_param\<close> of \<open>crates/albedo-server/src/routing.rs\<close>).
  \<open>String::from_utf8_lossy\<close> and \<open>String::from_utf8\<close> are modelled on bytes. Refusals carry what the
  message names instead of its text. A subtraction that would underflow is \<open>None\<close>.
\<close>

section \<open>Bytes and text\<close>

definition is_cont :: "char \<Rightarrow> bool" where "is_cont c \<longleftrightarrow> 128 \<le> byte c \<and> byte c < 192"

definition utf8_width :: "char \<Rightarrow> nat" where
  "utf8_width c =
     (if byte c < 128 then 1
      else if byte c < 194 then 0
      else if byte c < 224 then 2
      else if byte c < 240 then 3
      else if byte c < 245 then 4 else 0)"

definition second_ok :: "char \<Rightarrow> char \<Rightarrow> bool" where
  "second_ok c d \<longleftrightarrow> is_cont d \<and> (byte c = 224 \<longrightarrow> 160 \<le> byte d) \<and> (byte c = 237 \<longrightarrow> byte d < 160) \<and>
     (byte c = 240 \<longrightarrow> 144 \<le> byte d) \<and> (byte c = 244 \<longrightarrow> byte d < 144)"

definition utf8_run :: "char \<Rightarrow> string \<Rightarrow> nat" where
  \<comment> \<open>how many of the bytes after \<open>c\<close> belong to the character it begins\<close>
  "utf8_run c s =
     (case s of
        [] \<Rightarrow> 0
      | d # s' \<Rightarrow>
          if 2 \<le> utf8_width c \<and> second_ok c d
          then Suc (length (takeWhile is_cont (take (utf8_width c - 2) s'))) else 0)"

definition replacement :: string where "replacement = [CHR 0xEF, CHR 0xBF, CHR 0xBD]"

function from_utf8_lossy :: "string \<Rightarrow> string" where
  "from_utf8_lossy [] = []"
| "from_utf8_lossy (c # s) =
     (let n = utf8_run c s in
      (if Suc n = utf8_width c then c # take n s else replacement) @ from_utf8_lossy (drop n s))"
  by pat_completeness auto
termination by (relation "measure length") auto

function valid_utf8 :: "string \<Rightarrow> bool" where
  "valid_utf8 [] = True"
| "valid_utf8 (c # s) = (let n = utf8_run c s in Suc n = utf8_width c \<and> valid_utf8 (drop n s))"
  by pat_completeness auto
termination by (relation "measure length") auto

definition from_utf8 :: "string \<Rightarrow> string option" where
  "from_utf8 s = (if valid_utf8 s then Some s else None)"

definition hex_val :: "char \<Rightarrow> nat option" where
  "hex_val c =
     (if 48 \<le> byte c \<and> byte c < 58 then Some (byte c - 48)
      else if 97 \<le> byte c \<and> byte c < 103 then Some (byte c - 87)
      else if 65 \<le> byte c \<and> byte c < 71 then Some (byte c - 55) else None)"

definition escape :: "char \<Rightarrow> char \<Rightarrow> char \<Rightarrow> char option" where
  "escape c h l =
     (if c = CHR ''%'' then
        (case (hex_val h, hex_val l) of (Some hi, Some lo) \<Rightarrow> Some (char_of (hi * 16 + lo)) | _ \<Rightarrow> None)
      else None)"

fun percent_decode_bytes :: "string \<Rightarrow> string" where
  "percent_decode_bytes (c # h # l # s) =
     (case escape c h l of
        Some d \<Rightarrow> d # percent_decode_bytes s
      | None \<Rightarrow> c # percent_decode_bytes (h # l # s))"
| "percent_decode_bytes s = s"

definition percent_decode_path :: "string \<Rightarrow> string" where
  "percent_decode_path raw = from_utf8_lossy (percent_decode_bytes raw)"

definition path_segments :: "string \<Rightarrow> string list" where
  "path_segments s = filter (\<lambda>x. x \<noteq> []) (split_on CHR ''/'' s)"

section \<open>Patterns\<close>

datatype segment = Literal string | Param | Optional | Rest bool

record pattern =
  pt_source :: string
  pt_segments :: "segment list"

datatype pattern_error =
    NotRooted
  | RegexSyntax char
  | NotAParameter string
  | NotLast string
  | SegmentWildcard char string
  | DotSegment

definition regex_chars :: string where
  "regex_chars = [CHR 0x28, CHR 0x29, CHR 0x5B, CHR 0x5D, CHR 0x7B, CHR 0x7D, CHR 0x5C, CHR 0x7C, CHR 0x5E, CHR 0x24]"

definition wildcard_chars :: string where "wildcard_chars = ''*+?:''"

definition param_kind :: "string \<Rightarrow> string \<times> segment" where
  "param_kind param =
     (if param = [] then (param, Param)
      else if last param = CHR ''*'' then (butlast param, Rest False)
      else if last param = CHR ''+'' then (butlast param, Rest True)
      else if last param = CHR ''?'' then (butlast param, Optional)
      else (param, Param))"

definition name_char :: "char \<Rightarrow> bool" where
  "name_char c \<longleftrightarrow> is_ascii_alphanumeric c \<or> c = CHR ''_''"

definition parse_segment :: "bool \<Rightarrow> string \<Rightarrow> pattern_error + segment" where
  "parse_segment is_last part =
     (case strip_prefix '':'' part of
        Some param \<Rightarrow>
          let (name, kind) = param_kind param in
          if name = [] \<or> \<not> list_all name_char name then Inl (NotAParameter param)
          else if \<not> is_last \<and> kind \<noteq> Param then Inl (NotLast param)
          else Inr kind
      | None \<Rightarrow>
          (case find (\<lambda>c. c \<in> set wildcard_chars) part of
             Some bad \<Rightarrow> Inl (SegmentWildcard bad part)
           | None \<Rightarrow> if part = ''.'' \<or> part = ''..'' then Inl DotSegment else Inr (Literal part)))"

fun parse_segments :: "string list \<Rightarrow> pattern_error + segment list" where
  "parse_segments [] = Inr []"
| "parse_segments (p # ps) =
     (case parse_segment (ps = []) p of
        Inl e \<Rightarrow> Inl e
      | Inr s \<Rightarrow> (case parse_segments ps of Inl e \<Rightarrow> Inl e | Inr ss \<Rightarrow> Inr (s # ss)))"

definition parse_pattern :: "string \<Rightarrow> pattern_error + pattern" where
  "parse_pattern source =
     (if \<not> starts_with ''/'' source then Inl NotRooted
      else case find (\<lambda>c. c \<in> set regex_chars) source of
        Some bad \<Rightarrow> Inl (RegexSyntax bad)
      | None \<Rightarrow>
          (case parse_segments (path_segments source) of
             Inl e \<Rightarrow> Inl e
           | Inr ss \<Rightarrow> Inr \<lparr>pt_source = source, pt_segments = ss\<rparr>))"

fun matches_from :: "segment list \<Rightarrow> nat \<Rightarrow> string list \<Rightarrow> bool option" where
  "matches_from [] i path = Some (i = length path)"
| "matches_from (Literal l # ss) i path =
     (if i < length path \<and> path ! i = l then matches_from ss (Suc i) path else Some False)"
| "matches_from (Param # ss) i path = (if i < length path then matches_from ss (Suc i) path else Some False)"
| "matches_from (Optional # ss) i path = (if length path < i then None else Some (length path - i \<le> 1))"
| "matches_from (Rest at_least_one # ss) i path = Some (\<not> at_least_one \<or> i < length path)"

definition matches_segments :: "pattern \<Rightarrow> string list \<Rightarrow> bool option" where
  "matches_segments p path = matches_from (pt_segments p) 0 path"

section \<open>Matchers\<close>

record matcher =
  mt_patterns :: "pattern list option"

datatype compile_error = Refusals "(string \<times> pattern_error) list" | EmptyList

definition matcher_all :: matcher where "matcher_all = \<lparr>mt_patterns = None\<rparr>"

fun compile_each :: "string list \<Rightarrow> pattern list \<times> (string \<times> pattern_error) list" where
  "compile_each [] = ([], [])"
| "compile_each (s # ss) =
     (let (ps, es) = compile_each ss in
      case parse_pattern s of Inr p \<Rightarrow> (p # ps, es) | Inl e \<Rightarrow> (ps, (s, e) # es))"

definition compile_matcher :: "string list \<Rightarrow> compile_error + matcher" where
  "compile_matcher sources =
     (let (ps, es) = compile_each sources in
      if es \<noteq> [] then Inl (Refusals es)
      else if ps = [] then Inl EmptyList
      else Inr \<lparr>mt_patterns = Some ps\<rparr>)"

fun any_matches :: "pattern list \<Rightarrow> string list \<Rightarrow> bool option" where
  "any_matches [] segs = Some False"
| "any_matches (p # ps) segs =
     (case matches_segments p segs of
        None \<Rightarrow> None
      | Some True \<Rightarrow> Some True
      | Some False \<Rightarrow> any_matches ps segs)"

definition matcher_matches :: "matcher \<Rightarrow> string \<Rightarrow> bool option" where
  "matcher_matches m raw =
     (case mt_patterns m of
        None \<Rightarrow> Some True
      | Some ps \<Rightarrow> any_matches ps (path_segments (percent_decode_path raw)))"

definition matcher_sources :: "matcher \<Rightarrow> string list option" where
  "matcher_sources m = map_option (map pt_source) (mt_patterns m)"

section \<open>What the router does with the same path\<close>

fun join_slash :: "string list \<Rightarrow> string" where
  "join_slash [] = []"
| "join_slash [s] = s"
| "join_slash (s # ss) = s @ CHR ''/'' # join_slash ss"

fun decode_each :: "string list \<Rightarrow> string list option" where
  "decode_each [] = Some []"
| "decode_each (s # ss) =
     (case (from_utf8 (percent_decode_bytes s), decode_each ss) of (Some x, Some xs) \<Rightarrow> Some (x # xs) | _ \<Rightarrow> None)"

definition decode_route_param :: "string \<Rightarrow> string option" where
  "decode_route_param raw = map_option join_slash (decode_each (split_on CHR ''/'' raw))"

section \<open>Decoding and splitting\<close>

lemma run_le: "utf8_run c s \<le> length s"
  by (auto simp: utf8_run_def split: list.splits intro: le_trans [OF length_takeWhile_le])

lemma takeWhile_take_cut:
  "\<not> P d \<Longrightarrow> takeWhile P (take k (xs @ d # ys)) = takeWhile P (take k xs)"
  by (induction xs arbitrary: k) (case_tac k; simp)+

lemma slash_cont [simp]: "\<not> is_cont CHR ''/''" "utf8_run CHR ''/'' s = 0" "utf8_width CHR ''/'' = 1"
  by (simp_all add: is_cont_def utf8_run_def utf8_width_def split: list.splits)

lemma run_cut: "utf8_run c (s @ CHR ''/'' # t) = utf8_run c s"
  by (cases s) (auto simp: utf8_run_def second_ok_def takeWhile_take_cut simp del: take_append)

lemma run_conts: "d \<in> set (take (utf8_run c s) s) \<Longrightarrow> is_cont d"
proof (cases s)
  case (Cons e s')
  assume d: "d \<in> set (take (utf8_run c s) s)"
  let ?n = "length (takeWhile is_cont (take (utf8_width c - 2) s'))"
  have "take ?n s' = takeWhile is_cont (take (utf8_width c - 2) s')"
    by (metis append_take_drop_id take_append takeWhile_dropWhile_id diff_is_0_eq length_takeWhile_le
        append_eq_conv_conj take_take min_def length_take nat_le_linear)
  thus ?thesis using d Cons by (auto simp: utf8_run_def second_ok_def dest: set_takeWhileD split: if_splits)
qed simp

lemma lossy_cut: "from_utf8_lossy (s @ CHR ''/'' # t) = from_utf8_lossy s @ CHR ''/'' # from_utf8_lossy t"
proof (induction s rule: from_utf8_lossy.induct)
  case (2 c s)
  have "drop (utf8_run c s) (s @ CHR ''/'' # t) = drop (utf8_run c s) s @ CHR ''/'' # t"
    using run_le [of c s] by simp
  moreover have "take (utf8_run c s) (s @ CHR ''/'' # t) = take (utf8_run c s) s"
    using run_le [of c s] by simp
  ultimately show ?case using 2 [OF refl] by (simp add: run_cut Let_def)
qed simp

lemma replacement_plain [simp]: "CHR ''/'' \<notin> set replacement" "replacement \<noteq> []"
  by (simp_all add: replacement_def)

lemma lossy_slash: "CHR ''/'' \<in> set (from_utf8_lossy s) \<longleftrightarrow> CHR ''/'' \<in> set s"
proof (cases "CHR ''/'' \<in> set s")
  case True
  then obtain a b where "s = a @ CHR ''/'' # b" using split_list by metis
  thus ?thesis by (simp add: lossy_cut)
next
  case False
  have "CHR ''/'' \<notin> set (from_utf8_lossy s)" using False
  proof (induction s rule: from_utf8_lossy.induct)
    case (2 c s)
    thus ?case using "2.IH" [OF refl] by (auto simp: Let_def dest: in_set_takeD in_set_dropD)
  qed simp
  thus ?thesis using False by simp
qed

lemma lossy_empty [simp]: "from_utf8_lossy s = [] \<longleftrightarrow> s = []"
  by (cases s) (auto simp: Let_def)

lemma lossy_valid: "valid_utf8 s \<Longrightarrow> from_utf8_lossy s = s"
  by (induction s rule: valid_utf8.induct) (auto simp: Let_def)

lemma ascii_valid: "list_all (\<lambda>c. byte c < 128) s \<Longrightarrow> valid_utf8 s"
proof (induction s rule: valid_utf8.induct)
  case (2 c s)
  have "utf8_run c s = 0" using 2 by (auto simp: utf8_run_def utf8_width_def split: list.splits)
  thus ?case using 2 by (simp add: utf8_width_def)
qed simp

lemma slash_hex [simp]: "hex_val CHR ''/'' = None"
  by (simp add: hex_val_def)

lemma escape_slash [simp]: "escape c CHR ''/'' l = None" "escape c h CHR ''/'' = None" "escape CHR ''/'' h l = None"
  by (auto simp: escape_def split: option.splits)

lemma decode_head_slash: "percent_decode_bytes (CHR ''/'' # t) = CHR ''/'' # percent_decode_bytes t"
  by (cases t rule: percent_decode_bytes.cases; case_tac "tl t") auto

lemma decode_one_slash: "percent_decode_bytes (v # CHR ''/'' # t) = v # CHR ''/'' # percent_decode_bytes t"
  by (cases t) (auto simp: decode_head_slash)

lemma decode_cut:
  "percent_decode_bytes (s @ CHR ''/'' # t) = percent_decode_bytes s @ CHR ''/'' # percent_decode_bytes t"
proof (induction s rule: percent_decode_bytes.induct)
  case (1 c h l s)
  thus ?case by (cases "escape c h l") auto
qed (simp_all add: decode_head_slash decode_one_slash)

lemma decode_plain: "CHR ''%'' \<notin> set s \<Longrightarrow> percent_decode_bytes s = s"
  by (induction s rule: percent_decode_bytes.induct) (auto simp: escape_def)

lemma decode_empty [simp]: "percent_decode_bytes s = [] \<longleftrightarrow> s = []"
  by (cases s rule: percent_decode_bytes.cases) (auto split: option.splits)

lemma decode_path_cut:
  "percent_decode_path (s @ CHR ''/'' # t) = percent_decode_path s @ CHR ''/'' # percent_decode_path t"
  by (simp add: percent_decode_path_def decode_cut lossy_cut)

lemma decode_path_empty [simp]: "percent_decode_path s = [] \<longleftrightarrow> s = []"
  by (simp add: percent_decode_path_def)

lemma split_slash_cases:
  obtains "CHR ''/'' \<notin> set s" | p t where "s = p @ CHR ''/'' # t" "CHR ''/'' \<notin> set p"
  using split_list_first by metis

lemma split_decode:
  "\<forall>x\<in>set (split_on CHR ''/'' raw). CHR ''/'' \<notin> set (percent_decode_bytes x) \<Longrightarrow>
   split_on CHR ''/'' (percent_decode_path raw) = map percent_decode_path (split_on CHR ''/'' raw)"
proof (induction raw rule: length_induct)
  case (1 raw)
  have plain: "CHR ''/'' \<notin> set (percent_decode_path x)" if "x \<in> set (split_on CHR ''/'' raw)" for x
    using "1.prems" that by (simp add: percent_decode_path_def lossy_slash)
  show ?case
  proof (cases raw rule: split_slash_cases)
    case 1
    thus ?thesis using plain by (simp add: split_on_none)
  next
    case (2 p t)
    hence "split_on CHR ''/'' (percent_decode_path t) = map percent_decode_path (split_on CHR ''/'' t)"
      using "1.IH" "1.prems" by (simp add: split_on_append)
    moreover have "CHR ''/'' \<notin> set (percent_decode_path p)" using plain 2 by (simp add: split_on_append)
    ultimately show ?thesis using 2 by (simp add: decode_path_cut split_on_append)
  qed
qed

lemma segments_decode:
  assumes "\<forall>x\<in>set (path_segments raw). CHR ''/'' \<notin> set (percent_decode_bytes x)"
  shows "path_segments (percent_decode_path raw) = map percent_decode_path (path_segments raw)"
proof -
  have "\<forall>x\<in>set (split_on CHR ''/'' raw). CHR ''/'' \<notin> set (percent_decode_bytes x)"
    using assms by (force simp: path_segments_def)
  thus ?thesis by (simp add: path_segments_def split_decode filter_map comp_def)
qed

section \<open>What a pattern describes\<close>

text \<open>A pattern as a language: each segment describes lists of path segments, a pattern their
  concatenations.\<close>

fun lang :: "segment \<Rightarrow> string list set" where
  "lang (Literal l) = {[l]}"
| "lang Param = {[s] |s. s \<noteq> []}"
| "lang Optional = insert [] {[s] |s. s \<noteq> []}"
| "lang (Rest at_least_one) = {ss. [] \<notin> set ss \<and> (at_least_one \<longrightarrow> ss \<noteq> [])}"

fun denotes :: "segment list \<Rightarrow> string list \<Rightarrow> bool" where
  "denotes [] path = (path = [])"
| "denotes (s # ss) path = (\<exists>a b. path = a @ b \<and> a \<in> lang s \<and> denotes ss b)"

fun fixed_segment :: "segment \<Rightarrow> bool" where
  "fixed_segment (Literal l) = True"
| "fixed_segment Param = True"
| "fixed_segment _ = False"

lemma parse_segment_fixed: "parse_segment False p = Inr s \<Longrightarrow> fixed_segment s"
  by (auto simp: parse_segment_def split: option.splits prod.splits if_splits)

lemma parse_segments_fixed: "parse_segments ps = Inr ss \<Longrightarrow> length ss = length ps \<and> list_all fixed_segment (butlast ss)"
proof (induction ps arbitrary: ss)
  case (Cons p ps)
  obtain s t where st: "parse_segment (ps = []) p = Inr s" "parse_segments ps = Inr t" "ss = s # t"
    using Cons.prems by (auto split: sum.splits)
  note ih = Cons.IH [OF st(2)]
  show ?case
  proof (cases "ps = []")
    case True
    hence "t = []" using ih by simp
    thus ?thesis using True st(3) by simp
  next
    case False
    hence "t \<noteq> []" using ih by auto
    moreover have "fixed_segment s" using parse_segment_fixed st(1) False by simp
    ultimately show ?thesis using ih st(3) by simp
  qed
qed simp

lemma denotes_fixed:
  "denotes (Literal l # ss) path \<longleftrightarrow> path \<noteq> [] \<and> hd path = l \<and> denotes ss (tl path)"
  "denotes (Param # ss) path \<longleftrightarrow> path \<noteq> [] \<and> hd path \<noteq> [] \<and> denotes ss (tl path)"
proof -
  have s: "(\<exists>a b. path = a @ b \<and> (\<exists>y. a = [y] \<and> P y) \<and> Q b) \<longleftrightarrow> path \<noteq> [] \<and> P (hd path) \<and> Q (tl path)"
    for P :: "string \<Rightarrow> bool" and Q
  proof
    assume "path \<noteq> [] \<and> P (hd path) \<and> Q (tl path)"
    moreover from this have "path = [hd path] @ tl path" by simp
    ultimately show "\<exists>a b. path = a @ b \<and> (\<exists>y. a = [y] \<and> P y) \<and> Q b" by blast
  qed auto
  show "denotes (Literal l # ss) path \<longleftrightarrow> path \<noteq> [] \<and> hd path = l \<and> denotes ss (tl path)"
    using s [of "\<lambda>y. y = l" "denotes ss"] by simp
  show "denotes (Param # ss) path \<longleftrightarrow> path \<noteq> [] \<and> hd path \<noteq> [] \<and> denotes ss (tl path)"
    using s [of "\<lambda>y. y \<noteq> []" "denotes ss"] by simp
qed

lemma drop_nonempty: "i < length path \<Longrightarrow> drop i path \<noteq> [] \<and> hd (drop i path) = path ! i \<and> tl (drop i path) = drop (Suc i) path"
  by (simp add: hd_drop_conv_nth drop_Suc tl_drop)

lemma matches_from_denotes:
  "list_all fixed_segment (butlast ss) \<Longrightarrow> i \<le> length path \<Longrightarrow> [] \<notin> set path \<Longrightarrow>
   matches_from ss i path = Some (denotes ss (drop i path))"
proof (induction ss i path rule: matches_from.induct)
  case (1 i path)
  thus ?case by auto
next
  case (2 l ss i path)
  thus ?case using drop_nonempty [of i path] unfolding denotes_fixed
    by (cases "i < length path \<and> path ! i = l") (auto split: if_splits)
next
  case (3 ss i path)
  have "i < length path \<Longrightarrow> path ! i \<noteq> []" using 3 nth_mem by metis
  thus ?case using 3 drop_nonempty [of i path] unfolding denotes_fixed
    by (cases "i < length path") (auto split: if_splits)
next
  case (4 ss i path)
  hence "ss = []" by (cases ss) auto
  moreover have "length (drop i path) \<le> 1 \<longleftrightarrow> drop i path = [] \<or> (\<exists>s. drop i path = [s] \<and> s \<noteq> [])"
    using 4(3) in_set_dropD [of _ i path] by (cases "drop i path" rule: list.exhaust; cases "tl (drop i path)") auto
  ultimately show ?case using 4 by auto
next
  case (5 b ss i path)
  hence "ss = []" by (cases ss) auto
  moreover have "[] \<notin> set (drop i path)" using 5(3) in_set_dropD by metis
  ultimately show ?case using 5 by auto
qed

lemma parse_pattern_ok:
  "parse_pattern s = Inr p \<Longrightarrow> pt_source p = s \<and> list_all fixed_segment (butlast (pt_segments p))"
  by (auto simp: parse_pattern_def split: if_splits option.splits sum.splits dest: parse_segments_fixed)

lemma compile_each_ok:
  "compile_each ss = (ps, []) \<Longrightarrow> map pt_source ps = ss \<and> list_all (\<lambda>p. parse_pattern (pt_source p) = Inr p) ps"
proof (induction ss arbitrary: ps)
  case (Cons s ss)
  obtain qs es where q: "compile_each ss = (qs, es)" by fastforce
  then obtain p where "parse_pattern s = Inr p" "es = []" "ps = p # qs"
    using Cons.prems by (auto split: sum.splits)
  thus ?case using Cons.IH [of qs] q parse_pattern_ok by auto
qed simp

lemma any_matches_exact:
  "list_all (\<lambda>p. parse_pattern (pt_source p) = Inr p) ps \<Longrightarrow> [] \<notin> set path \<Longrightarrow>
   any_matches ps path = Some (list_ex (\<lambda>p. denotes (pt_segments p) path) ps)"
  by (induction ps)
    (auto simp: matches_segments_def matches_from_denotes dest: parse_pattern_ok split: bool.splits)

lemma segments_nonempty: "[] \<notin> set (path_segments s)"
  by (simp add: path_segments_def)

lemma compile_matcher_ok:
  assumes "compile_matcher sources = Inr m"
  obtains ps where "mt_patterns m = Some ps" "map pt_source ps = sources" "ps \<noteq> []"
    "list_all (\<lambda>p. parse_pattern (pt_source p) = Inr p) ps"
  using assms compile_each_ok by (auto simp: compile_matcher_def split: prod.splits if_splits)

text \<open>C21. The compiled matcher decides exactly the language of its patterns: whenever a list of
  sources compiles, every source is kept, at least one is there, the comparison never underflows,
  and a request enters the middleware exactly when the segments of its decoded path are a
  concatenation of what some pattern's segments describe.\<close>

theorem matcher_exact:
  assumes "compile_matcher sources = Inr m"
  shows "\<exists>ps. mt_patterns m = Some ps \<and> map pt_source ps = sources \<and> sources \<noteq> [] \<and>
    matcher_matches m raw =
      Some (list_ex (\<lambda>p. denotes (pt_segments p) (path_segments (percent_decode_path raw))) ps)"
proof -
  obtain ps where ps: "mt_patterns m = Some ps" "map pt_source ps = sources" "ps \<noteq> []"
    "list_all (\<lambda>p. parse_pattern (pt_source p) = Inr p) ps" using compile_matcher_ok [OF assms] .
  thus ?thesis using any_matches_exact [OF ps(4) segments_nonempty] by (auto simp: matcher_matches_def)
qed

lemma matcher_exact_witness:
  "\<exists>m. compile_matcher [''/admin/:path*''] = Inr m \<and> matcher_matches m ''/%61dmin/x/y'' = Some True"
proof -
  let ?m = "\<lparr>mt_patterns = Some [\<lparr>pt_source = ''/admin/:path*'', pt_segments = [Literal ''admin'', Rest False]\<rparr>]\<rparr>"
  have m: "compile_matcher [''/admin/:path*''] = Inr ?m"
    by (simp add: compile_matcher_def parse_pattern_def path_segments_def parse_segment_def strip_prefix_def
        starts_with_def param_kind_def name_char_def is_ascii_alphanumeric_def is_ascii_digit_def is_ascii_alpha_def
        regex_chars_def wildcard_chars_def Let_def)
  have "path_segments (percent_decode_path ''/%61dmin/x/y'') = [''admin'', ''x'', ''y'']"
    by (simp add: percent_decode_path_def escape_def hex_val_def path_segments_def Let_def utf8_run_def utf8_width_def char_of_def bit_0)
  thus ?thesis using matcher_exact [OF m, of "''/%61dmin/x/y''"] m by (auto intro: exI [of _ "[''admin'']"])
qed

section \<open>Encoded spellings\<close>

fun literal_of :: "segment \<Rightarrow> string list" where
  "literal_of (Literal l) = [l]"
| "literal_of _ = []"

lemma lang_map:
  assumes "list_all (\<lambda>l. f l = l) (literal_of s)" and "a \<in> lang s" and "\<And>x. f x = [] \<longleftrightarrow> x = []"
  shows "map f a \<in> lang s"
proof -
  have "[] \<notin> f ` set a" if "[] \<notin> set a" using that assms(3) by (metis imageE)
  moreover have "f x \<noteq> []" if "x \<noteq> []" for x using that assms(3) by blast
  ultimately show ?thesis using assms(1,2) by (cases s) force+
qed

lemma denotes_map:
  "list_all (\<lambda>s. list_all (\<lambda>l. f l = l) (literal_of s)) ss \<Longrightarrow> (\<And>x. f x = [] \<longleftrightarrow> x = []) \<Longrightarrow>
   denotes ss path \<Longrightarrow> denotes ss (map f path)"
proof (induction ss arbitrary: path)
  case (Cons s ss)
  obtain a b where ab: "path = a @ b" "a \<in> lang s" "denotes ss b" using Cons.prems(3) by auto
  have "map f a \<in> lang s" using lang_map Cons.prems(1,2) ab(2) by simp
  moreover have "denotes ss (map f b)" using Cons.IH Cons.prems(1,2) ab(3) by simp
  ultimately show ?case using ab(1) by auto
qed simp

definition plain_literals :: "pattern \<Rightarrow> bool" where
  \<comment> \<open>written as text, not as an escape\<close>
  "plain_literals p \<longleftrightarrow>
     list_all (\<lambda>s. list_all (\<lambda>l. CHR ''%'' \<notin> set l \<and> valid_utf8 l) (literal_of s)) (pt_segments p)"

text \<open>What decoding the path before comparing it buys: as long as no segment of the request hides
  an encoded slash and the patterns are written as text, a path that fits a pattern as it stands
  fits it however its other characters are encoded, so the middleware runs.\<close>

theorem decoding_only_widens:
  assumes "compile_matcher sources = Inr m" and "mt_patterns m = Some ps" and "list_all plain_literals ps"
    and "list_ex (\<lambda>p. denotes (pt_segments p) (path_segments raw)) ps"
    and "list_all (\<lambda>s. CHR ''/'' \<notin> set (percent_decode_bytes s)) (path_segments raw)"
  shows "matcher_matches m raw = Some True"
proof -
  have d: "path_segments (percent_decode_path raw) = map percent_decode_path (path_segments raw)"
    using segments_decode assms(5) by (simp add: list_all_iff)
  obtain p where p: "p \<in> set ps" "denotes (pt_segments p) (path_segments raw)" using assms(4) by (auto simp: list_ex_iff)
  have "list_all (\<lambda>s. list_all (\<lambda>l. percent_decode_path l = l) (literal_of s)) (pt_segments p)"
    using assms(3) p(1) by (auto simp: plain_literals_def list_all_iff percent_decode_path_def decode_plain lossy_valid)
  hence "denotes (pt_segments p) (path_segments (percent_decode_path raw))"
    unfolding d using denotes_map p(2) decode_path_empty by metis
  moreover obtain ps' where "mt_patterns m = Some ps'" "list_all (\<lambda>p. parse_pattern (pt_source p) = Inr p) ps'"
    using compile_matcher_ok [OF assms(1)] by blast
  hence "matcher_matches m raw =
      Some (list_ex (\<lambda>p. denotes (pt_segments p) (path_segments (percent_decode_path raw))) ps)"
    using any_matches_exact [OF _ segments_nonempty] assms(2) by (simp add: matcher_matches_def)
  ultimately show ?thesis using p(1) by (auto simp: list_ex_iff)
qed

lemma alnum_plain:
  assumes "list_all is_ascii_alphanumeric s"
  shows "CHR ''/'' \<notin> set s" "CHR ''%'' \<notin> set s" "CHR '':'' \<notin> set s" "valid_utf8 s"
    "c \<in> set s \<Longrightarrow> c \<notin> set regex_chars" "c \<in> set s \<Longrightarrow> c \<notin> set wildcard_chars" "c \<in> set s \<Longrightarrow> c \<noteq> CHR ''.''"
proof -
  have c: "is_ascii_alphanumeric c" if "c \<in> set s" for c using assms that by (auto simp: list_all_iff)
  have no: "\<not> is_ascii_alphanumeric CHR ''/''" "\<not> is_ascii_alphanumeric CHR ''%''" "\<not> is_ascii_alphanumeric CHR '':''"
    "\<not> is_ascii_alphanumeric CHR ''.''"
    by (simp_all add: is_ascii_alphanumeric_def is_ascii_digit_def is_ascii_alpha_def)
  show "CHR ''/'' \<notin> set s" "CHR ''%'' \<notin> set s" "CHR '':'' \<notin> set s" "c \<in> set s \<Longrightarrow> c \<noteq> CHR ''.''"
    using c no by blast+
  have "list_all (\<lambda>c. byte c < 128) s"
    using c by (force simp: list_all_iff is_ascii_alphanumeric_def is_ascii_digit_def is_ascii_alpha_def)
  thus "valid_utf8 s" by (rule ascii_valid)
  show "c \<in> set s \<Longrightarrow> c \<notin> set regex_chars" "c \<in> set s \<Longrightarrow> c \<notin> set wildcard_chars"
    using c [of c] by (auto simp: regex_chars_def wildcard_chars_def is_ascii_alphanumeric_def is_ascii_digit_def is_ascii_alpha_def)
qed

lemma find_none: "(\<And>c. c \<in> set s \<Longrightarrow> \<not> P c) \<Longrightarrow> find P s = None"
  by (auto simp: find_None_iff)

lemma parse_one_param:
  assumes "lit \<noteq> []" and "name \<noteq> []" and "list_all is_ascii_alphanumeric lit" and "list_all is_ascii_alphanumeric name"
  shows "parse_pattern (''/'' @ lit @ ''/:'' @ name) =
    Inr \<lparr>pt_source = ''/'' @ lit @ ''/:'' @ name, pt_segments = [Literal lit, Param]\<rparr>"
proof -
  note l = alnum_plain [OF assms(3)] and n = alnum_plain [OF assms(4)]
  have "split_on CHR ''/'' (lit @ CHR ''/'' # CHR '':'' # name) = [lit, CHR '':'' # name]"
    using l n by (simp add: split_on_append split_on_none)
  hence segs: "path_segments (''/'' @ lit @ ''/:'' @ name) = [lit, CHR '':'' # name]"
    using assms(1) by (simp add: path_segments_def)
  have "CHR ''/'' \<notin> set regex_chars" "CHR '':'' \<notin> set regex_chars" by (simp_all add: regex_chars_def)
  hence regex: "find (\<lambda>c. c \<in> set regex_chars) (''/'' @ lit @ ''/:'' @ name) = None"
    using l(5) n(5) by (intro find_none) auto
  have wild: "find (\<lambda>c. c \<in> set wildcard_chars) lit = None" using l(6) by (intro find_none) auto
  have "lit \<noteq> ''.''" "lit \<noteq> ''..''" "strip_prefix '':'' lit = None"
    using l(3,7) assms(1) by (auto simp: strip_prefix_def, cases lit, auto)
  hence s1: "parse_segment False lit = Inr (Literal lit)" using wild by (simp add: parse_segment_def)
  have "last name \<notin> set wildcard_chars" using n(6) assms(2) by simp
  hence "param_kind name = (name, Param)" using assms(2) by (simp add: param_kind_def wildcard_chars_def)
  moreover have "list_all name_char name" using assms(4) by (auto simp: list_all_iff name_char_def)
  ultimately have s2: "parse_segment True (CHR '':'' # name) = Inr Param"
    using assms(2) by (simp add: parse_segment_def strip_prefix_def)
  show ?thesis using segs regex s1 s2 by (simp add: parse_pattern_def starts_with_def)
qed

lemma decode_escape:
  "CHR ''%'' \<notin> set a \<Longrightarrow>
   percent_decode_bytes (a @ ''%2F'' @ b) = percent_decode_bytes a @ CHR ''/'' # percent_decode_bytes b"
proof (induction a)
  case Nil
  show ?case by (simp add: escape_def hex_val_def char_of_def bit_0)
next
  case (Cons c a)
  have "percent_decode_bytes ((c # a) @ ''%2F'' @ b) = c # percent_decode_bytes (a @ ''%2F'' @ b)"
    using Cons.prems by (cases a; cases "tl a") (auto simp: escape_def)
  moreover have "percent_decode_bytes (c # a) = c # percent_decode_bytes a"
    using Cons.prems decode_plain [of a] decode_plain [of "c # a"] by simp
  ultimately show ?case using Cons by simp
qed

text \<open>An encoded slash steps around a guard: for every pattern of a fixed text and one parameter,
  and every identifier containing an encoded slash, the request's own segments fit the pattern and
  the router hands the page that identifier as the parameter, but the matcher, which splits the
  path after decoding it, sees one segment more and does not run the middleware.\<close>

theorem encoded_slash_bypasses:
  assumes "lit \<noteq> []" and "name \<noteq> []" and "a \<noteq> []" and "b \<noteq> []"
    and "list_all is_ascii_alphanumeric lit" and "list_all is_ascii_alphanumeric name"
    and "list_all is_ascii_alphanumeric a" and "list_all is_ascii_alphanumeric b"
  shows "\<exists>m ps. compile_matcher [''/'' @ lit @ ''/:'' @ name] = Inr m \<and> mt_patterns m = Some ps
    \<and> any_matches ps (path_segments (''/'' @ lit @ ''/'' @ a @ ''%2F'' @ b)) = Some True
    \<and> decode_route_param (a @ ''%2F'' @ b) = Some (a @ ''/'' @ b)
    \<and> matcher_matches m (''/'' @ lit @ ''/'' @ a @ ''%2F'' @ b) = Some False"
proof -
  let ?p = "\<lparr>pt_source = ''/'' @ lit @ ''/:'' @ name, pt_segments = [Literal lit, Param]\<rparr>"
  let ?raw = "''/'' @ lit @ ''/'' @ a @ ''%2F'' @ b"
  note la = alnum_plain [OF assms(5)] and aa = alnum_plain [OF assms(7)] and ba = alnum_plain [OF assms(8)]
  have m: "compile_matcher [''/'' @ lit @ ''/:'' @ name] = Inr \<lparr>mt_patterns = Some [?p]\<rparr>"
    using parse_one_param [OF assms(1,2,5,6)] by (simp add: compile_matcher_def)
  have "split_on CHR ''/'' (lit @ CHR ''/'' # a @ ''%2F'' @ b) = [lit, a @ ''%2F'' @ b]"
    using la aa ba by (simp add: split_on_append split_on_none)
  hence raw: "path_segments ?raw = [lit, a @ ''%2F'' @ b]" using assms(1) by (simp add: path_segments_def)
  have db: "percent_decode_bytes (a @ ''%2F'' @ b) = a @ CHR ''/'' # b"
    using decode_escape [of a b] aa ba by (simp add: decode_plain)
  have "percent_decode_bytes ?raw = ''/'' @ lit @ ''/'' @ a @ ''/'' @ b"
    using decode_cut [of "[]" "lit @ CHR ''/'' # a @ ''%2F'' @ b"] decode_cut [of lit "a @ ''%2F'' @ b"] db la
    by (simp add: decode_plain)
  hence "percent_decode_path ?raw = ''/'' @ lit @ ''/'' @ a @ ''/'' @ b"
    using lossy_cut [of "[]" "lit @ CHR ''/'' # a @ CHR ''/'' # b"] lossy_cut [of lit "a @ CHR ''/'' # b"]
      lossy_cut [of a b] la(4) aa(4) ba(4) by (simp add: percent_decode_path_def lossy_valid)
  moreover have "split_on CHR ''/'' (lit @ CHR ''/'' # a @ CHR ''/'' # b) = [lit, a, b]"
    using la aa ba by (simp add: split_on_append split_on_none)
  ultimately have dec: "path_segments (percent_decode_path ?raw) = [lit, a, b]"
    using assms(1,3,4) by (simp add: path_segments_def)
  have "valid_utf8 (a @ CHR ''/'' # b)"
  proof (rule ascii_valid)
    show "list_all (\<lambda>c. byte c < 128) (a @ CHR ''/'' # b)"
      using assms(7,8) by (force simp: list_all_iff is_ascii_alphanumeric_def is_ascii_digit_def is_ascii_alpha_def)
  qed
  hence "decode_route_param (a @ ''%2F'' @ b) = Some (a @ ''/'' @ b)"
    using aa ba db by (simp add: decode_route_param_def split_on_none from_utf8_def)
  thus ?thesis using m raw dec by (simp add: matcher_matches_def matches_segments_def)
qed

lemma encoded_slash_bypasses_witness:
  "\<exists>m. compile_matcher [''/post/:id''] = Inr m \<and> matcher_matches m ''/post/a%2Fb'' = Some False"
  using encoded_slash_bypasses [of "''post''" "''id''" "''a''" "''b''"]
  by (auto simp: is_ascii_alphanumeric_def is_ascii_digit_def is_ascii_alpha_def)

lemma decoding_only_widens_witness:
  "\<exists>m. compile_matcher [''/post/:id''] = Inr m \<and> matcher_matches m ''/post/%61%62'' = Some True"
proof -
  let ?m = "\<lparr>mt_patterns = Some [\<lparr>pt_source = ''/post/:id'', pt_segments = [Literal ''post'', Param]\<rparr>]\<rparr>"
  have m: "compile_matcher [''/post/:id''] = Inr ?m"
    using parse_one_param [of "''post''" "''id''"]
    by (simp add: compile_matcher_def is_ascii_alphanumeric_def is_ascii_digit_def is_ascii_alpha_def)
  have segs: "path_segments ''/post/%61%62'' = [''post'', ''%61%62'']" by (simp add: path_segments_def)
  have "matcher_matches ?m ''/post/%61%62'' = Some True"
  proof (rule decoding_only_widens [OF m])
    show "mt_patterns ?m = Some [\<lparr>pt_source = ''/post/:id'', pt_segments = [Literal ''post'', Param]\<rparr>]" by simp
    show "list_all plain_literals [\<lparr>pt_source = ''/post/:id'', pt_segments = [Literal ''post'', Param]\<rparr>]"
      by (simp add: plain_literals_def utf8_run_def utf8_width_def second_ok_def is_cont_def Let_def)
    show "list_ex (\<lambda>p. denotes (pt_segments p) (path_segments ''/post/%61%62''))
        [\<lparr>pt_source = ''/post/:id'', pt_segments = [Literal ''post'', Param]\<rparr>]"
      unfolding segs by (simp del: denotes.simps(2) add: denotes_fixed)
    show "list_all (\<lambda>s. CHR ''/'' \<notin> set (percent_decode_bytes s)) (path_segments ''/post/%61%62'')"
      unfolding segs by (simp add: escape_def hex_val_def char_of_def bit_0)
  qed
  thus ?thesis using m by blast
qed

end
