(* ===== verification/Middleware.thy ===== *)
theory Middleware
  imports Matcher
begin

text \<open>
  What a middleware decided (\<open>src/middleware/outcome.rs\<close>): its return value, a JSON value whose
  every field is checked, becomes an outcome the server acts on. Also which requests are in scope
  and the check on the session cookie (\<open>crates/albedo-server/src/middleware.rs\<close>). A JSON object is
  the association list of its members, a header map is a map; refusals carry what the message
  names instead of its text.
\<close>

datatype json_number = PosInt u64 | NegInt int | Float string

datatype json =
    JNull
  | JBool bool
  | JNumber json_number
  | JString string
  | JArray "json list"
  | JObject "(string \<times> json) list"

fun json_as_str :: "json \<Rightarrow> string option" where
  "json_as_str (JString s) = Some s"
| "json_as_str _ = None"

fun json_as_u64 :: "json \<Rightarrow> u64 option" where
  "json_as_u64 (JNumber (PosInt n)) = Some n"
| "json_as_u64 _ = None"

definition brand :: string where "brand = ''__albedo_middleware''"

definition transport_headers :: "string list" where
  "transport_headers = [''content-length'', ''transfer-encoding'', ''connection'', ''keep-alive'', ''upgrade'', ''te'', ''trailer'']"

definition framework_cookie_prefix :: string where "framework_cookie_prefix = ''__Host-albedo''"

definition set_cookie :: string where "set_cookie = ''set-cookie''"

type_synonym headers = "string \<rightharpoonup> string list"

datatype outcome =
    Next headers
  | Redirect string nat headers
  | Rewrite string "string option" headers
  | Respond nat string headers

fun outcome_headers :: "outcome \<Rightarrow> headers" where
  "outcome_headers (Next h) = h"
| "outcome_headers (Redirect l s h) = h"
| "outcome_headers (Rewrite p q h) = h"
| "outcome_headers (Respond s b h) = h"

datatype outcome_error =
    ReturnedValue json
  | ReturnedPlainObject
  | HeadersNotObject json
  | BadHeaderName string
  | TransportHeader string
  | CookieNotString json
  | HeaderNotString string json
  | HeaderLineBreak string
  | FrameworkCookie
  | NeedsString "json option"
  | BadStatus json
  | LocationLineBreak
  | BadLocation string
  | NotARedirect nat
  | RespondRange nat
  | BodyNotString json
  | RewriteChar string
  | RewriteNotAPath string
  | RewriteDots string
  | RewriteFramework string
  | UnknownOutcome string

definition breaks_line :: "string \<Rightarrow> bool" where
  "breaks_line s \<longleftrightarrow> list_ex (\<lambda>c. c = CHR 0x0D \<or> c = CHR 0x0A \<or> c = CHR 0x00) s"

definition is_token_byte :: "char \<Rightarrow> bool" where
  "is_token_byte c \<longleftrightarrow> is_ascii_alphanumeric c \<or> c \<in> set (''!#$%&*+-.^_|~'' @ [CHR 0x27, CHR 0x60])"

section \<open>Headers\<close>

fun cookie_values :: "json list \<Rightarrow> outcome_error + string list" where
  "cookie_values [] = Inr []"
| "cookie_values (x # xs) =
     (case json_as_str x of
        None \<Rightarrow> Inl (CookieNotString x)
      | Some s \<Rightarrow> (case cookie_values xs of Inl e \<Rightarrow> Inl e | Inr ss \<Rightarrow> Inr (s # ss)))"

definition header_values :: "string \<Rightarrow> string \<Rightarrow> json \<Rightarrow> outcome_error + string list" where
  "header_values name lower v =
     (case v of
        JString s \<Rightarrow> Inr [s]
      | JArray items \<Rightarrow> if lower = set_cookie then cookie_values items else Inl (HeaderNotString name v)
      | _ \<Rightarrow> Inl (HeaderNotString name v))"

fun check_values :: "string \<Rightarrow> string \<Rightarrow> string list \<Rightarrow> outcome_error option" where
  "check_values name lower [] = None"
| "check_values name lower (v # vs) =
     (if breaks_line v then Some (HeaderLineBreak name)
      else if lower = set_cookie \<and> starts_with framework_cookie_prefix (trim_start v) then Some FrameworkCookie
      else check_values name lower vs)"

fun decode_members :: "(string \<times> json) list \<Rightarrow> headers \<Rightarrow> outcome_error + headers" where
  "decode_members [] h = Inr h"
| "decode_members ((name, v) # ms) h =
     (let lower = to_ascii_lowercase name in
      if lower = [] \<or> \<not> list_all is_token_byte lower then Inl (BadHeaderName name)
      else if lower \<in> set transport_headers then Inl (TransportHeader name)
      else case header_values name lower v of
        Inl e \<Rightarrow> Inl e
      | Inr vs \<Rightarrow>
          (case check_values name lower vs of
             Some e \<Rightarrow> Inl e
           | None \<Rightarrow> decode_members ms
               (h(lower \<mapsto> (case h lower of None \<Rightarrow> [] | Some old \<Rightarrow> old) @ vs))))"

definition decode_headers :: "json option \<Rightarrow> outcome_error + headers" where
  "decode_headers v =
     (case v of
        None \<Rightarrow> Inr Map.empty
      | Some JNull \<Rightarrow> Inr Map.empty
      | Some (JObject ms) \<Rightarrow> decode_members ms Map.empty
      | Some other \<Rightarrow> Inl (HeadersNotObject other))"

section \<open>Targets\<close>

definition validate_location :: "string \<Rightarrow> outcome_error option" where
  "validate_location location =
     (if breaks_line location then Some LocationLineBreak
      else
        let lower = to_ascii_lowercase location;
            absolute = starts_with ''https://'' lower \<or> starts_with ''http://'' lower;
            path = starts_with ''/'' location \<and> \<not> starts_with ''//'' location \<and> \<not> starts_with [CHR ''/'', CHR 0x5C] location in
        if absolute \<or> path then None else Some (BadLocation location))"

definition split_once :: "char \<Rightarrow> string \<Rightarrow> (string \<times> string) option" where
  "split_once d s = (if d \<in> set s then Some (takeWhile (\<lambda>c. c \<noteq> d) s, tl (dropWhile (\<lambda>c. c \<noteq> d) s)) else None)"

definition dot_segment :: "string \<Rightarrow> bool" where
  "dot_segment s \<longleftrightarrow> s = ''.'' \<or> s = ''..'' \<or> CHR 0x5C \<in> set s"

definition is_framework_path :: "string \<Rightarrow> bool" where
  "is_framework_path path =
     (let decoded = percent_decode_path path in decoded = ''/_albedo'' \<or> starts_with ''/_albedo/'' decoded)"

definition validate_rewrite :: "string \<Rightarrow> outcome_error + (string \<times> string option)" where
  "validate_rewrite target =
     (let (path, query) = (case split_once CHR ''?'' target of Some (p, q) \<Rightarrow> (p, Some q) | None \<Rightarrow> (target, None)) in
      if breaks_line target \<or> CHR ''#'' \<in> set target then Inl (RewriteChar target)
      else if \<not> starts_with ''/'' path \<or> starts_with ''//'' path then Inl (RewriteNotAPath target)
      else
        let decoded = percent_decode_path path in
        if list_ex dot_segment (split_on CHR ''/'' decoded) then Inl (RewriteDots target)
        else if decoded = ''/_albedo'' \<or> starts_with ''/_albedo/'' decoded then Inl (RewriteFramework target)
        else Inr (path, query))"

definition string_field :: "(string \<times> json) list \<Rightarrow> string \<Rightarrow> outcome_error + string" where
  "string_field ms field =
     (case map_of ms field of
        Some (JString s) \<Rightarrow> if s \<noteq> [] then Inr s else Inl (NeedsString (Some (JString s)))
      | Some other \<Rightarrow> Inl (NeedsString (Some other))
      | None \<Rightarrow> Inl (NeedsString None))"

definition status_of :: "json \<Rightarrow> outcome_error + nat" where
  "status_of v =
     (case json_as_u64 v of
        None \<Rightarrow> Inl (BadStatus v)
      | Some n \<Rightarrow> if unat n < 2 ^ 16 then Inr (unat n) else Inl (BadStatus v))"

section \<open>The decision\<close>

definition redirect_statuses :: "nat list" where "redirect_statuses = [301, 302, 303, 307, 308]"

definition decode_redirect :: "(string \<times> json) list \<Rightarrow> headers \<Rightarrow> outcome_error + outcome" where
  "decode_redirect ms h =
     (case string_field ms ''location'' of
        Inl e \<Rightarrow> Inl e
      | Inr location \<Rightarrow>
          (case validate_location location of
             Some e \<Rightarrow> Inl e
           | None \<Rightarrow>
               (case map_of ms ''status'' of
                  None \<Rightarrow> Inr (Redirect location 307 h)
                | Some JNull \<Rightarrow> Inr (Redirect location 307 h)
                | Some v \<Rightarrow>
                    (case status_of v of
                       Inl e \<Rightarrow> Inl e
                     | Inr st \<Rightarrow>
                         if st \<notin> set redirect_statuses then Inl (NotARedirect st)
                         else Inr (Redirect location st h)))))"

definition decode_rewrite :: "(string \<times> json) list \<Rightarrow> headers \<Rightarrow> outcome_error + outcome" where
  "decode_rewrite ms h =
     (case string_field ms ''path'' of
        Inl e \<Rightarrow> Inl e
      | Inr target \<Rightarrow>
          (case validate_rewrite target of
             Inl e \<Rightarrow> Inl e
           | Inr (path, query) \<Rightarrow> Inr (Rewrite path query h)))"

definition decode_respond :: "(string \<times> json) list \<Rightarrow> headers \<Rightarrow> outcome_error + outcome" where
  "decode_respond ms h =
     (case status_of (case map_of ms ''status'' of None \<Rightarrow> JNull | Some v \<Rightarrow> v) of
        Inl e \<Rightarrow> Inl e
      | Inr st \<Rightarrow>
          if st < 200 \<or> 599 < st then Inl (RespondRange st)
          else case map_of ms ''body'' of
            None \<Rightarrow> Inr (Respond st [] h)
          | Some JNull \<Rightarrow> Inr (Respond st [] h)
          | Some (JString body) \<Rightarrow> Inr (Respond st body h)
          | Some other \<Rightarrow> Inl (BodyNotString other))"

definition decode_outcome :: "json \<Rightarrow> outcome_error + outcome" where
  "decode_outcome v =
     (case v of
        JNull \<Rightarrow> Inr (Next Map.empty)
      | JObject ms \<Rightarrow>
          (case Option.bind (map_of ms brand) json_as_str of
             None \<Rightarrow> Inl ReturnedPlainObject
           | Some kind \<Rightarrow>
               (case decode_headers (map_of ms ''headers'') of
                  Inl e \<Rightarrow> Inl e
                | Inr h \<Rightarrow>
                    if kind = ''next'' then Inr (Next h)
                    else if kind = ''redirect'' then decode_redirect ms h
                    else if kind = ''rewrite'' then decode_rewrite ms h
                    else if kind = ''respond'' then decode_respond ms h
                    else Inl (UnknownOutcome kind)))
      | other \<Rightarrow> Inl (ReturnedValue other))"

section \<open>Around a request\<close>

definition cookie_name :: "string \<Rightarrow> string" where
  "cookie_name v = (case split_once CHR ''='' (hd (split_on CHR '';'' v)) of None \<Rightarrow> [] | Some (name, _) \<Rightarrow> trim name)"

definition serve_prefix :: string where "serve_prefix = ''/_albedo/uploads/''"

definition in_scope :: "string \<Rightarrow> bool" where
  "in_scope path =
     (let decoded = percent_decode_path path in
      if decoded \<noteq> ''/_albedo'' \<and> \<not> starts_with ''/_albedo/'' decoded then True
      else decoded = ''/_albedo/action'' \<or> starts_with ''/_albedo/action/'' decoded \<or> starts_with serve_prefix decoded)"

definition applies_to :: "matcher \<Rightarrow> string \<Rightarrow> bool option" where
  "applies_to m path = (if in_scope path then matcher_matches m path else Some False)"

datatype run_error = DecodeFailed outcome_error | SetsSessionCookie string

definition finish_run :: "string option \<Rightarrow> json \<Rightarrow> run_error + outcome" where
  \<comment> \<open>a finished middleware's value, checked\<close>
  "finish_run session_cookie v =
     (case decode_outcome v of
        Inl e \<Rightarrow> Inl (DecodeFailed e)
      | Inr oc \<Rightarrow>
          (case (session_cookie, outcome_headers oc set_cookie) of
             (Some name, Some cookies) \<Rightarrow>
               if list_ex (\<lambda>c. cookie_name c = name) cookies then Inl (SetsSessionCookie name) else Inr oc
           | _ \<Rightarrow> Inr oc))"

section \<open>What a decision may hold\<close>

definition header_ok :: "string \<Rightarrow> string list \<Rightarrow> bool" where
  "header_ok k vs \<longleftrightarrow> k \<noteq> [] \<and> list_all is_token_byte k \<and> to_ascii_lowercase k = k \<and> k \<notin> set transport_headers \<and>
     \<not> list_ex breaks_line vs \<and>
     (k = set_cookie \<longrightarrow> \<not> list_ex (\<lambda>v. starts_with framework_cookie_prefix (trim_start v)) vs)"

definition headers_ok :: "headers \<Rightarrow> bool" where
  "headers_ok h \<longleftrightarrow> (\<forall>k vs. h k = Some vs \<longrightarrow> header_ok k vs)"

fun target_ok :: "outcome \<Rightarrow> bool" where
  "target_ok (Next h) = True"
| "target_ok (Redirect location st h) =
     (st \<in> set redirect_statuses \<and> \<not> breaks_line location \<and>
      (starts_with ''https://'' (to_ascii_lowercase location) \<or> starts_with ''http://'' (to_ascii_lowercase location) \<or>
       starts_with ''/'' location \<and> \<not> starts_with ''//'' location \<and> \<not> starts_with [CHR ''/'', CHR 0x5C] location))"
| "target_ok (Rewrite path query h) =
     (starts_with ''/'' path \<and> \<not> starts_with ''//'' path \<and> \<not> breaks_line path \<and>
      CHR ''#'' \<notin> set path \<and> CHR ''?'' \<notin> set path \<and> \<not> is_framework_path path \<and> in_scope path \<and>
      \<not> list_ex dot_segment (split_on CHR ''/'' (percent_decode_path path)))"
| "target_ok (Respond st body h) = (200 \<le> st \<and> st \<le> 599)"

lemma lowercase_idem [simp]: "to_ascii_lowercase (to_ascii_lowercase s) = to_ascii_lowercase s"
  by (auto simp: to_ascii_lowercase_def)

lemma check_values_ok:
  "check_values name lower vs = None \<Longrightarrow> \<not> list_ex breaks_line vs \<and>
   (lower = set_cookie \<longrightarrow> \<not> list_ex (\<lambda>v. starts_with framework_cookie_prefix (trim_start v)) vs)"
  by (induction name lower vs rule: check_values.induct) (auto split: if_splits)

lemma decode_members_ok: "decode_members ms h = Inr h' \<Longrightarrow> headers_ok h \<Longrightarrow> headers_ok h'"
proof (induction ms h rule: decode_members.induct)
  case (2 name v ms h)
  let ?l = "to_ascii_lowercase name"
  have l: "?l \<noteq> []" "list_all is_token_byte ?l" "?l \<notin> set transport_headers"
    using "2.prems"(1) by (auto simp: Let_def split: if_splits)
  obtain vs where vs: "header_values name ?l v = Inr vs"
    using "2.prems"(1) l by (auto simp: Let_def split: if_splits sum.splits)
  have c: "check_values name ?l vs = None"
    using "2.prems"(1) l vs by (auto simp: Let_def split: if_splits option.splits)
  let ?h = "h(?l \<mapsto> (case h ?l of None \<Rightarrow> [] | Some old \<Rightarrow> old) @ vs)"
  have "decode_members ms ?h = Inr h'" using "2.prems"(1) l vs c by (simp add: Let_def)
  moreover have "headers_ok ?h"
    using "2.prems"(2) l check_values_ok [OF c] by (auto simp: headers_ok_def header_ok_def split: option.splits)
  ultimately show ?case using "2.IH" [OF refl _ l(3) vs c] l(1,2) by blast
qed simp

lemma decode_headers_ok: "decode_headers v = Inr h \<Longrightarrow> headers_ok h"
  by (auto simp: decode_headers_def headers_ok_def split: option.splits json.splits
      dest!: decode_members_ok)

lemma split_once_no: "split_once d s = Some (a, b) \<Longrightarrow> d \<notin> set a \<and> set a \<subseteq> set s"
  by (auto simp: split_once_def split: if_splits dest: set_takeWhileD)

lemma validate_rewrite_ok:
  assumes "validate_rewrite t = Inr (p, q)"
  shows "target_ok (Rewrite p q h)"
proof -
  obtain path query where pq: "(case split_once CHR ''?'' t of Some (p, q) \<Rightarrow> (p, Some q) | None \<Rightarrow> (t, None)) = (path, query)"
    by fastforce
  hence sub: "set path \<subseteq> set t" "CHR ''?'' \<notin> set path"
    by (auto simp: split_once_def split: if_splits dest: set_takeWhileD)
  note v = assms [unfolded validate_rewrite_def pq, simplified Let_def prod.case]
  have p: "p = path" "\<not> breaks_line t" "CHR ''#'' \<notin> set t" "starts_with ''/'' path" "\<not> starts_with ''//'' path"
    "\<not> list_ex dot_segment (split_on CHR ''/'' (percent_decode_path path))"
    "percent_decode_path path \<noteq> ''/_albedo''" "\<not> starts_with ''/_albedo/'' (percent_decode_path path)"
    using v by (auto split: if_splits)
  have "\<not> breaks_line path" using p(2) sub(1) by (auto simp: breaks_line_def list_ex_iff)
  thus ?thesis using p sub by (auto simp: is_framework_path_def in_scope_def Let_def)
qed

lemma decode_kind_ok:
  "decode_redirect ms h = Inr oc \<Longrightarrow> target_ok oc \<and> outcome_headers oc = h"
  "decode_rewrite ms h = Inr oc \<Longrightarrow> target_ok oc \<and> outcome_headers oc = h"
  "decode_respond ms h = Inr oc \<Longrightarrow> target_ok oc \<and> outcome_headers oc = h"
proof -
  show "decode_redirect ms h = Inr oc \<Longrightarrow> target_ok oc \<and> outcome_headers oc = h"
    by (auto simp: decode_redirect_def validate_location_def Let_def redirect_statuses_def
        split: sum.splits option.splits json.splits if_splits)
  show "decode_rewrite ms h = Inr oc \<Longrightarrow> target_ok oc \<and> outcome_headers oc = h"
    using validate_rewrite_ok by (auto simp: decode_rewrite_def split: sum.splits prod.splits)
  show "decode_respond ms h = Inr oc \<Longrightarrow> target_ok oc \<and> outcome_headers oc = h"
    by (auto simp: decode_respond_def split: sum.splits option.splits json.splits if_splits)
qed

lemma decode_outcome_ok:
  assumes "decode_outcome v = Inr oc"
  shows "target_ok oc \<and> headers_ok (outcome_headers oc)"
proof (cases v)
  case JNull
  thus ?thesis using assms by (auto simp: decode_outcome_def headers_ok_def)
next
  case (JObject ms)
  obtain kind where k: "Option.bind (map_of ms brand) json_as_str = Some kind"
    using assms JObject by (auto simp: decode_outcome_def split: option.splits)
  obtain h where h: "decode_headers (map_of ms ''headers'') = Inr h"
    using assms JObject k by (auto simp: decode_outcome_def split: sum.splits)
  have "oc = Next h \<or> decode_redirect ms h = Inr oc \<or> decode_rewrite ms h = Inr oc \<or> decode_respond ms h = Inr oc"
    using assms JObject k h by (auto simp: decode_outcome_def split: if_splits)
  thus ?thesis using decode_kind_ok decode_headers_ok [OF h] by auto
qed (use assms in \<open>auto simp: decode_outcome_def\<close>)

text \<open>C6. Whatever value a middleware returns, what the server acts on is safe: every header has a
  lower-case token for a name, is none the transport owns, holds no line break and names no
  framework cookie; a redirect has a redirect status and goes to a path of this host or an
  absolute http(s) URL; a rewrite stays inside the app, on no framework lane, without a \<open>.\<close>, \<open>..\<close>
  or backslash segment however it is encoded; an answer has a final status; and no cookie the
  check reads the name of is the session's.\<close>

theorem decided_outcome_safe:
  assumes "finish_run session v = Inr oc"
  shows "target_ok oc \<and> headers_ok (outcome_headers oc) \<and>
    \<not> list_ex (\<lambda>c. session = Some (cookie_name c)) (case outcome_headers oc set_cookie of None \<Rightarrow> [] | Some cs \<Rightarrow> cs)"
proof -
  have "decode_outcome v = Inr oc"
    using assms by (auto simp: finish_run_def split: sum.splits option.splits if_splits)
  moreover from this have "\<not> list_ex (\<lambda>c. session = Some (cookie_name c))
      (case outcome_headers oc set_cookie of None \<Rightarrow> [] | Some cs \<Rightarrow> cs)"
    using assms by (auto simp: finish_run_def list_ex_iff split: option.splits if_splits)
  ultimately show ?thesis using decode_outcome_ok by blast
qed

lemma decided_outcome_safe_witness:
  "target_ok (Rewrite ''/shop'' (Some ''q=1'') Map.empty)"
proof -
  let ?v = "JObject [(brand, JString ''rewrite''), (''path'', JString ''/shop?q=1'')]"
  have "percent_decode_path ''/shop'' = ''/shop''"
    by (simp add: percent_decode_path_def escape_def Let_def utf8_run_def utf8_width_def)
  hence "finish_run None ?v = Inr (Rewrite ''/shop'' (Some ''q=1'') Map.empty)"
    by (simp add: finish_run_def decode_outcome_def decode_headers_def decode_rewrite_def string_field_def brand_def
        validate_rewrite_def split_once_def breaks_line_def starts_with_def dot_segment_def Let_def)
  from decided_outcome_safe [OF this] show ?thesis by blast
qed

text \<open>The session cookie is recognised by the text before the first equals sign, so a cookie written
  without a name is never recognised, whatever its value says.\<close>

lemma drop_codes_empty [simp]: "drop_codes codes [] = []"
  by (simp add: drop_codes.simps split: option.split list.split)

lemma nameless_cookie_unseen: "CHR '';'' \<notin> set name \<Longrightarrow> cookie_name (CHR ''='' # name @ ''=x'') = []"
  by (simp add: cookie_name_def split_on_none split_once_def trim_def trim_start_def trim_end_def)

text \<open>An encoded slash also steps out of a middleware's scope: a single segment the router would hand a
  page's parameter reads as a framework lane here.\<close>

lemma encoded_lane_out_of_scope:
  assumes "list_all is_ascii_alphanumeric rest" and "rest \<noteq> ''action''"
  shows "\<not> in_scope (''/_albedo%2F'' @ rest)" and "path_segments (''/_albedo%2F'' @ rest) = [''_albedo%2F'' @ rest]"
proof -
  note r = alnum_plain [OF assms(1)]
  have "percent_decode_bytes (''/_albedo%2F'' @ rest) = ''/_albedo/'' @ rest"
    using decode_escape [of "''/_albedo''" rest] r decode_plain by (simp add: escape_def)
  moreover have "from_utf8_lossy (''/_albedo/'' @ rest) = ''/_albedo/'' @ rest"
    using lossy_cut [of "''/_albedo''" rest] r lossy_valid
    by (simp add: Let_def utf8_run_def utf8_width_def)
  ultimately have d: "percent_decode_path (''/_albedo%2F'' @ rest) = ''/_albedo/'' @ rest"
    by (simp add: percent_decode_path_def)
  have "CHR ''/'' \<notin> set rest" by (rule r)
  hence "\<not> starts_with ''/_albedo/action/'' (''/_albedo/'' @ rest)" "\<not> starts_with serve_prefix (''/_albedo/'' @ rest)"
    by (auto simp: starts_with_def serve_prefix_def dest!: arg_cong [of _ _ set] in_set_takeD)
  thus "\<not> in_scope (''/_albedo%2F'' @ rest)"
    using d assms(2) by (simp add: in_scope_def starts_with_def)
  show "path_segments (''/_albedo%2F'' @ rest) = [''_albedo%2F'' @ rest]"
    using r by (simp add: path_segments_def split_on_none)
qed

end
