(* ===== verification/RespCache.thy ===== *)
theory RespCache
  imports Strings "HOL-Library.Multiset"
begin

text \<open>
  The shared cache of outbound responses (\<open>src/aperture/cache.rs\<close>): who may see an answer is part of
  its key, freshness is the caller's, and bytes are bounded by evicting what was read longest ago.
  The table is an association list with distinct keys; the tick, which counts reads and writes of
  one process, is a natural number; instants are nanoseconds.
\<close>

datatype cache_scope = Public | App | Principal string

definition to_ascii_uppercase :: "string \<Rightarrow> string" where
  "to_ascii_uppercase = map (\<lambda>c. if 97 \<le> byte c \<and> byte c \<le> 122 then char_of (byte c - 32) else c)"

fun scope_tag :: "cache_scope \<Rightarrow> string" where
  "scope_tag Public = ''public''"
| "scope_tag App = ''app''"
| "scope_tag (Principal i) = ''user:'' @ show_nat (length i) @ '':'' @ i"

definition resource_key :: "string \<Rightarrow> string \<Rightarrow> cache_scope \<Rightarrow> string" where
  "resource_key verb url scope = to_ascii_uppercase verb @ CHR 0x00 # url @ CHR 0x00 # scope_tag scope"

record validators =
  va_etag :: "string option"
  va_last_modified :: "string option"

definition validators_empty :: "validators \<Rightarrow> bool" where
  "validators_empty v \<longleftrightarrow> va_etag v = None \<and> va_last_modified v = None"

definition len_or_zero :: "string option \<Rightarrow> nat" where
  "len_or_zero x = (case x of None \<Rightarrow> 0 | Some s \<Rightarrow> length s)"

definition validators_footprint :: "validators \<Rightarrow> nat" where
  "validators_footprint v = len_or_zero (va_etag v) + len_or_zero (va_last_modified v)"

record cached_response =
  cr_status :: u16
  cr_body :: string
  cr_content_type :: "string option"
  cr_validators :: validators

definition response_footprint :: "cached_response \<Rightarrow> nat" where
  "response_footprint r = length (cr_body r) + len_or_zero (cr_content_type r) + validators_footprint (cr_validators r)"

record cache_entry =
  ce_response :: cached_response
  ce_touched :: nat
  ce_verified_at :: nat
  ce_footprint :: nat

datatype freshness = Fresh | Stale

record cache_hit =
  ht_response :: cached_response
  ht_freshness :: freshness
  ht_age :: nat

record response_cache =
  rc_entries :: "(string \<times> cache_entry) list"
  rc_tick :: nat
  rc_budget :: nat

definition default_response_budget :: nat where "default_response_budget = 64 * 1024 * 1024"

definition cache_new :: "nat \<Rightarrow> response_cache" where
  "cache_new budget = \<lparr>rc_entries = [], rc_tick = 0, rc_budget = budget\<rparr>"

definition drop_key :: "string \<Rightarrow> (string \<times> cache_entry) list \<Rightarrow> (string \<times> cache_entry) list" where
  "drop_key k es = filter (\<lambda>x. fst x \<noteq> k) es"

definition put_entry :: "string \<Rightarrow> cache_entry \<Rightarrow> response_cache \<Rightarrow> response_cache" where
  "put_entry k e c = c\<lparr>rc_entries := drop_key k (rc_entries c) @ [(k, e)], rc_tick := Suc (rc_tick c)\<rparr>"

definition cache_get :: "string \<Rightarrow> nat \<Rightarrow> nat \<Rightarrow> response_cache \<Rightarrow> cache_hit option \<times> response_cache" where
  "cache_get k ttl now c =
     (case map_of (rc_entries c) k of
        None \<Rightarrow> (None, c)
      | Some e \<Rightarrow>
          let age = now - ce_verified_at e in
          (Some \<lparr>ht_response = ce_response e, ht_freshness = (if age \<le> ttl then Fresh else Stale), ht_age = age\<rparr>,
           c\<lparr>rc_entries := map (\<lambda>x. if fst x = k then (k, (snd x)\<lparr>ce_touched := rc_tick c\<rparr>) else x) (rc_entries c),
             rc_tick := Suc (rc_tick c)\<rparr>))"

definition cache_validators :: "string \<Rightarrow> response_cache \<Rightarrow> validators option" where
  "cache_validators k c = map_option (cr_validators \<circ> ce_response) (map_of (rc_entries c) k)"

definition cache_insert :: "string \<Rightarrow> cached_response \<Rightarrow> nat \<Rightarrow> response_cache \<Rightarrow> response_cache" where
  "cache_insert k r now c =
     put_entry k \<lparr>ce_response = r, ce_touched = rc_tick c, ce_verified_at = now,
       ce_footprint = response_footprint r + length k\<rparr> c"

definition mark_revalidated :: "string \<Rightarrow> nat \<Rightarrow> response_cache \<Rightarrow> bool \<times> response_cache" where
  "mark_revalidated k now c =
     (case map_of (rc_entries c) k of
        None \<Rightarrow> (False, c)
      | Some e \<Rightarrow> (True, put_entry k (e\<lparr>ce_touched := rc_tick c, ce_verified_at := now\<rparr>) c))"

definition cache_remove :: "string \<Rightarrow> response_cache \<Rightarrow> response_cache" where
  "cache_remove k c = c\<lparr>rc_entries := drop_key k (rc_entries c)\<rparr>"

definition resident_bytes :: "response_cache \<Rightarrow> nat" where
  "resident_bytes c = sum_list (map (\<lambda>(_, e). ce_footprint e) (rc_entries c))"

fun evict :: "nat \<Rightarrow> nat \<Rightarrow> (nat \<times> string \<times> nat) list \<Rightarrow> (string \<times> cache_entry) list \<Rightarrow> nat \<Rightarrow>
    nat \<times> (string \<times> cache_entry) list" where
  "evict budget bytes [] es dropped = (dropped, es)"
| "evict budget bytes ((t, k, f) # cs) es dropped =
     (if bytes \<le> budget then (dropped, es)
      else if map_of es k \<noteq> None then evict budget (bytes - f) cs (drop_key k es) (Suc dropped)
      else evict budget bytes cs es dropped)"

definition enforce_byte_budget :: "response_cache \<Rightarrow> nat \<times> response_cache" where
  "enforce_byte_budget c =
     (let bytes = resident_bytes c in
      if bytes \<le> rc_budget c then (0, c)
      else
        let candidates = map (\<lambda>(k, e). (ce_touched e, k, ce_footprint e)) (rc_entries c);
            (dropped, es) = evict (rc_budget c) bytes (sort_key fst candidates) (rc_entries c) 0 in
        (dropped, c\<lparr>rc_entries := es\<rparr>))"

section \<open>Keys\<close>

lemma upper_nul: "CHR 0x00 \<notin> set m \<Longrightarrow> CHR 0x00 \<notin> set (to_ascii_uppercase m)"
proof
  assume m: "CHR 0x00 \<notin> set m" and "CHR 0x00 \<in> set (to_ascii_uppercase m)"
  then obtain c where c: "c \<in> set m" "CHR 0x00 = (if 97 \<le> byte c \<and> byte c \<le> 122 then char_of (byte c - 32) else c)"
    by (auto simp: to_ascii_uppercase_def simp del: of_char_of)
  show False
  proof (cases "97 \<le> byte c \<and> byte c \<le> 122")
    case True
    hence "byte (CHR 0x00) = byte (char_of (byte c - 32) :: char)" using c(2) by simp
    also have "\<dots> = byte c - 32" using True by (subst of_char_of) (rule mod_less, linarith)
    finally show False using True by simp
  next
    case False
    hence "(if 97 \<le> byte c \<and> byte c \<le> 122 then char_of (byte c - 32) else c) = c" by (rule if_not_P)
    hence "CHR 0x00 = c" using c(2) by (rule trans [OF _ _, rotated])
    thus False using c(1) m by simp
  qed
qed

lemma cut_at:
  "d \<notin> set a \<Longrightarrow> d \<notin> set b \<Longrightarrow> a @ d # x = b @ d # y \<longleftrightarrow> a = b \<and> x = y"
proof (induction a arbitrary: b)
  case Nil
  thus ?case by (cases b) auto
next
  case (Cons c a)
  thus ?case by (cases b) auto
qed

lemma tag_inj: "scope_tag s = scope_tag s' \<longleftrightarrow> s = s'"
proof -
  have d: "CHR '':'' \<notin> set (show_nat n)" for n by (rule digits_no_char) (simp add: is_ascii_digit_def)
  show ?thesis
    by (cases s; cases s') (auto simp: cut_at [OF d d] show_nat_inj)
qed

lemma resource_key_inj:
  assumes "CHR 0x00 \<notin> set m" "CHR 0x00 \<notin> set m'" "CHR 0x00 \<notin> set u" "CHR 0x00 \<notin> set u'"
  shows "resource_key m u s = resource_key m' u' s' \<longleftrightarrow> to_ascii_uppercase m = to_ascii_uppercase m' \<and> u = u' \<and> s = s'"
  unfolding resource_key_def
  using cut_at [OF upper_nul [OF assms(1)] upper_nul [OF assms(2)]] cut_at [OF assms(3,4)] tag_inj by auto

section \<open>Eviction\<close>

definition lru_order :: "response_cache \<Rightarrow> (nat \<times> string \<times> nat) list" where
  "lru_order c = sort_key fst (map (\<lambda>(k, e). (ce_touched e, k, ce_footprint e)) (rc_entries c))"

definition weight :: "(nat \<times> string \<times> nat) list \<Rightarrow> nat" where
  "weight cs = sum_list (map (\<lambda>(_, _, f). f) cs)"

definition keys_of :: "(nat \<times> string \<times> nat) list \<Rightarrow> string set" where
  "keys_of cs = (\<lambda>(_, k, _). k) ` set cs"

lemma weight_simps [simp]: "weight [] = 0" "weight ((t, k, f) # cs) = f + weight cs"
  by (simp_all add: weight_def)

lemma keys_simps [simp]: "keys_of [] = {}" "keys_of ((t, k, f) # cs) = insert k (keys_of cs)"
  by (auto simp: keys_of_def)

lemma drop_key_map: "k' \<noteq> k \<Longrightarrow> map_of (drop_key k es) k' = map_of es k'"
  by (induction es) (auto simp: drop_key_def)

lemma evict_spec:
  assumes "distinct (map (\<lambda>(_, k, _). k) cs)" and "\<forall>k\<in>keys_of cs. map_of es k \<noteq> None"
    and "evict budget (weight cs) cs es n = (n', es')"
  shows "\<exists>m \<le> length cs. n' = n + m \<and> weight (drop m cs) \<le> budget \<and>
    es' = filter (\<lambda>x. fst x \<notin> keys_of (take m cs)) es \<and> (0 < m \<longrightarrow> budget < weight (drop (m - 1) cs))"
  using assms
proof (induction cs arbitrary: es n)
  case Nil
  thus ?case by simp
next
  case (Cons x cs)
  obtain t k f where x: "x = (t, k, f)" by (cases x)
  show ?case
  proof (cases "weight (x # cs) \<le> budget")
    case True
    thus ?thesis using Cons.prems(3) x by (intro exI [of _ 0]) simp
  next
    case False
    have "evict budget (weight cs) cs (drop_key k es) (Suc n) = (n', es')"
      using Cons.prems(2,3) False x by (auto split: if_splits)
    moreover have "\<forall>k'\<in>keys_of cs. map_of (drop_key k es) k' \<noteq> None"
    proof
      fix k' assume k': "k' \<in> keys_of cs"
      have "k \<notin> keys_of cs" using Cons.prems(1) x by (simp add: keys_of_def)
      hence "k' \<noteq> k" using k' by blast
      thus "map_of (drop_key k es) k' \<noteq> None" using Cons.prems(2) k' x by (simp add: drop_key_map)
    qed
    ultimately obtain m where m: "m \<le> length cs" "n' = Suc n + m" "weight (drop m cs) \<le> budget"
      "es' = filter (\<lambda>x. fst x \<notin> keys_of (take m cs)) (drop_key k es)" "0 < m \<longrightarrow> budget < weight (drop (m - 1) cs)"
      using Cons.IH [of "drop_key k es" "Suc n"] Cons.prems(1) x by auto
    show ?thesis
    proof (intro exI [of _ "Suc m"] conjI)
      show "0 < Suc m \<longrightarrow> budget < weight (drop (Suc m - 1) (x # cs))"
        using m(5) False by (cases m) auto
    qed (use m x in \<open>auto simp: drop_key_def intro!: filter_cong\<close>)
  qed
qed

definition cache_wf :: "response_cache \<Rightarrow> bool" where
  "cache_wf c \<longleftrightarrow> distinct (map fst (rc_entries c))"

lemma lru_facts:
  "mset (map (\<lambda>(_, k, _). k) (lru_order c)) = mset (map fst (rc_entries c))"
  "weight (lru_order c) = resident_bytes c" "length (lru_order c) = length (rc_entries c)"
  "sorted (map fst (lru_order c))"
proof -
  let ?f = "\<lambda>(k, e). (ce_touched e, k, ce_footprint e)"
  have ms: "mset (lru_order c) = mset (map ?f (rc_entries c))" by (simp add: lru_order_def)
  hence "mset (map g (lru_order c)) = mset (map g (map ?f (rc_entries c)))" for g :: "nat \<times> string \<times> nat \<Rightarrow> 'a"
    by (simp only: mset_map)
  note mg = this
  show "mset (map (\<lambda>(_, k, _). k) (lru_order c)) = mset (map fst (rc_entries c))"
    unfolding mg by (simp add: comp_def split_beta)
  have "sum_mset (mset (map (\<lambda>(_, _, f). f) (lru_order c))) = sum_mset (mset (map (\<lambda>(_, _, f). f) (map ?f (rc_entries c))))"
    unfolding mg ..
  thus "weight (lru_order c) = resident_bytes c"
    by (simp only: weight_def resident_bytes_def sum_mset_sum_list) (simp add: comp_def case_prod_unfold)
  show "length (lru_order c) = length (rc_entries c)" "sorted (map fst (lru_order c))" by (simp_all add: lru_order_def)
qed

text \<open>Enforcing the byte budget drops exactly a shortest prefix of the entries in the order they
  were last used: what is left fits the budget, one entry fewer dropped would not have, every
  dropped entry was last used no later than any that stays, and the others stay unchanged.\<close>

theorem evicts_least_recent:
  assumes "cache_wf c" and "enforce_byte_budget c = (n, c')"
  shows "\<exists>m \<le> length (rc_entries c). n = m \<and> rc_budget c' = rc_budget c
    \<and> weight (drop m (lru_order c)) \<le> rc_budget c
    \<and> (0 < m \<longrightarrow> rc_budget c < weight (drop (m - 1) (lru_order c)))
    \<and> rc_entries c' = filter (\<lambda>x. fst x \<notin> keys_of (take m (lru_order c))) (rc_entries c)
    \<and> sorted (map fst (lru_order c)) \<and> weight (lru_order c) = resident_bytes c"
proof (cases "resident_bytes c \<le> rc_budget c")
  case True
  hence "c' = c" "n = 0" using assms(2) by (simp_all add: enforce_byte_budget_def Let_def)
  thus ?thesis using True lru_facts [of c] by (intro exI [of _ 0]) simp
next
  case False
  obtain d es where ev: "evict (rc_budget c) (weight (lru_order c)) (lru_order c) (rc_entries c) 0 = (d, es)" by fastforce
  hence r: "n = d" "c' = c\<lparr>rc_entries := es\<rparr>"
    using assms(2) False lru_facts(2) [of c] by (simp_all add: enforce_byte_budget_def Let_def lru_order_def)
  have "distinct (map (\<lambda>(_, k, _). k) (lru_order c))"
    using assms(1) mset_eq_imp_distinct_iff [OF lru_facts(1)] by (simp add: cache_wf_def)
  moreover have "keys_of (lru_order c) = fst ` set (rc_entries c)"
    using mset_eq_setD [OF lru_facts(1) [of c]] by (simp add: keys_of_def)
  hence "\<forall>k\<in>keys_of (lru_order c). map_of (rc_entries c) k \<noteq> None" by (simp add: map_of_eq_None_iff)
  ultimately show ?thesis using evict_spec [OF _ _ ev] r lru_facts [of c] by auto
qed

section \<open>Who sees what\<close>

datatype cache_op =
    Op_get string string cache_scope nat nat
  | Op_insert string string cache_scope cached_response nat
  | Op_revalidate string string cache_scope nat
  | Op_remove string string cache_scope
  | Op_enforce

fun cache_step :: "cache_op \<Rightarrow> response_cache \<Rightarrow> response_cache" where
  "cache_step (Op_get m u s ttl now) c = snd (cache_get (resource_key m u s) ttl now c)"
| "cache_step (Op_insert m u s r now) c = cache_insert (resource_key m u s) r now c"
| "cache_step (Op_revalidate m u s now) c = snd (mark_revalidated (resource_key m u s) now c)"
| "cache_step (Op_remove m u s) c = cache_remove (resource_key m u s) c"
| "cache_step Op_enforce c = snd (enforce_byte_budget c)"

fun op_plain :: "cache_op \<Rightarrow> bool" where
  "op_plain (Op_insert m u s r now) = (CHR 0x00 \<notin> set m \<and> CHR 0x00 \<notin> set u)"
| "op_plain _ = True"

definition from_history :: "cache_op list \<Rightarrow> response_cache \<Rightarrow> bool" where
  \<comment> \<open>every entry was put there by an insert under its key\<close>
  "from_history xs c \<longleftrightarrow> cache_wf c \<and>
     (\<forall>(k, e)\<in>set (rc_entries c). \<exists>m u s now. Op_insert m u s (ce_response e) now \<in> set xs \<and> k = resource_key m u s)"

lemma evict_sub: "evict b t cs es n = (n', es') \<Longrightarrow> set es' \<subseteq> set es \<and> (distinct (map fst es) \<longrightarrow> distinct (map fst es'))"
proof (induction b t cs es n rule: evict.induct)
  case (2 b bytes t k f cs es n)
  have "distinct (map fst es) \<Longrightarrow> distinct (map fst (drop_key k es))"
    unfolding drop_key_def by (rule distinct_map_filter)
  moreover have "set (drop_key k es) \<subseteq> set es" by (auto simp: drop_key_def)
  ultimately show ?case using 2 by (auto split: if_splits)
qed simp

lemma put_entry_history:
  assumes "from_history xs c" and "\<exists>m u s now. Op_insert m u s (ce_response e) now \<in> set (xs @ [x]) \<and> k = resource_key m u s"
  shows "from_history (xs @ [x]) (put_entry k e c)"
proof -
  have "distinct (map fst (drop_key k (rc_entries c)))"
    unfolding drop_key_def using assms(1) by (intro distinct_map_filter) (simp add: from_history_def cache_wf_def)
  moreover have "k \<notin> set (map fst (drop_key k (rc_entries c)))" by (auto simp: drop_key_def)
  ultimately have "cache_wf (put_entry k e c)" by (simp add: cache_wf_def put_entry_def)
  moreover have "\<exists>m u s now. Op_insert m u s (ce_response e') now \<in> set (xs @ [x]) \<and> k' = resource_key m u s"
    if "(k', e') \<in> set (rc_entries (put_entry k e c))" for k' e'
  proof (cases "(k', e') = (k, e)")
    case False
    hence "(k', e') \<in> set (rc_entries c)" using that by (auto simp: put_entry_def drop_key_def)
    thus ?thesis using assms(1) by (fastforce simp: from_history_def)
  qed (use assms(2) in auto)
  ultimately show ?thesis by (auto simp: from_history_def)
qed

lemma sub_history:
  assumes "from_history xs c" and "distinct (map fst (rc_entries c'))"
    and "\<And>k e. (k, e) \<in> set (rc_entries c') \<Longrightarrow> \<exists>e0. (k, e0) \<in> set (rc_entries c) \<and> ce_response e0 = ce_response e"
  shows "from_history (xs @ [x]) c'"
proof -
  have "\<exists>m u s now. Op_insert m u s (ce_response e) now \<in> set (xs @ [x]) \<and> k = resource_key m u s"
    if ke: "(k, e) \<in> set (rc_entries c')" for k e
  proof -
    obtain e0 where e0: "(k, e0) \<in> set (rc_entries c)" "ce_response e0 = ce_response e" using assms(3) [OF ke] by blast
    have "\<exists>m u s now. Op_insert m u s (ce_response e0) now \<in> set xs \<and> k = resource_key m u s"
      using assms(1) e0(1) by (auto simp: from_history_def)
    thus ?thesis using e0(2) by auto
  qed
  thus ?thesis using assms(2) by (auto simp: from_history_def cache_wf_def)
qed

lemma cache_step_history: "from_history xs c \<Longrightarrow> from_history (xs @ [x]) (cache_step x c)"
proof (cases x)
  case (Op_get m u s ttl now)
  assume h: "from_history xs c"
  let ?k = "resource_key m u s"
  let ?g = "\<lambda>x. if fst x = ?k then (?k, (snd x)\<lparr>ce_touched := rc_tick c\<rparr>) else x"
  have d: "map fst (map ?g (rc_entries c)) = map fst (rc_entries c)" by simp
  show ?thesis
  proof (rule sub_history [OF h])
    show "distinct (map fst (rc_entries (cache_step x c)))"
    proof (cases "map_of (rc_entries c) ?k")
      case None
      thus ?thesis using h Op_get by (simp add: cache_get_def from_history_def cache_wf_def)
    next
      case (Some e)
      hence "rc_entries (cache_step x c) = map ?g (rc_entries c)" using Op_get by (simp add: cache_get_def Let_def)
      thus ?thesis using h d unfolding from_history_def cache_wf_def by (simp del: map_map)
    qed
    fix k e
    assume "(k, e) \<in> set (rc_entries (cache_step x c))"
    hence "(k, e) \<in> set (rc_entries c) \<or> (k, e) \<in> ?g ` set (rc_entries c)"
      using Op_get by (auto simp: cache_get_def Let_def split: option.splits)
    thus "\<exists>e0. (k, e0) \<in> set (rc_entries c) \<and> ce_response e0 = ce_response e"
      by (auto split: if_splits)
  qed
next
  case (Op_insert m u s r now)
  assume h: "from_history xs c"
  let ?e = "\<lparr>ce_response = r, ce_touched = rc_tick c, ce_verified_at = now,
       ce_footprint = response_footprint r + length (resource_key m u s)\<rparr>"
  have "Op_insert m u s (ce_response ?e) now \<in> set (xs @ [x])" using Op_insert by simp
  hence "from_history (xs @ [x]) (put_entry (resource_key m u s) ?e c)" by (blast intro: put_entry_history [OF h])
  thus ?thesis using Op_insert by (simp add: cache_insert_def)
next
  case (Op_revalidate m u s now)
  assume h: "from_history xs c"
  let ?k = "resource_key m u s"
  show ?thesis
  proof (cases "map_of (rc_entries c) ?k")
    case None
    thus ?thesis using sub_history [OF h, of c] h Op_revalidate
      by (auto simp: mark_revalidated_def from_history_def cache_wf_def)
  next
    case (Some e)
    hence "\<exists>m' u' s' now. Op_insert m' u' s' (ce_response e) now \<in> set xs \<and> ?k = resource_key m' u' s'"
      using h map_of_SomeD by (fastforce simp: from_history_def)
    hence "\<exists>m' u' s' at. Op_insert m' u' s' (ce_response (e\<lparr>ce_touched := rc_tick c, ce_verified_at := now\<rparr>)) at
        \<in> set (xs @ [x]) \<and> ?k = resource_key m' u' s'" by auto
    from put_entry_history [OF h this] show ?thesis using Some Op_revalidate by (simp add: mark_revalidated_def)
  qed
next
  case (Op_remove m u s)
  assume h: "from_history xs c"
  have "distinct (map fst (drop_key (resource_key m u s) (rc_entries c)))"
    unfolding drop_key_def using h by (intro distinct_map_filter) (simp add: from_history_def cache_wf_def)
  thus ?thesis using Op_remove by (intro sub_history [OF h]) (auto simp: cache_remove_def drop_key_def)
next
  case Op_enforce
  assume h: "from_history xs c"
  obtain n c' where e: "enforce_byte_budget c = (n, c')" by fastforce
  have wf: "cache_wf c" using h by (simp add: from_history_def)
  have "set (rc_entries c') \<subseteq> set (rc_entries c) \<and> distinct (map fst (rc_entries c'))"
    using e evict_sub wf
    by (fastforce simp: enforce_byte_budget_def Let_def cache_wf_def split: if_splits prod.splits)
  thus ?thesis using Op_enforce e by (intro sub_history [OF h]) auto
qed

lemma cache_run_history: "from_history xs c \<Longrightarrow> from_history (xs @ ys) (fold cache_step ys c)"
proof (induction ys arbitrary: xs c)
  case (Cons y ys)
  thus ?case using Cons.IH [OF cache_step_history [OF Cons.prems, of y]] by simp
qed simp

text \<open>C7. Nobody is served an answer that was stored for somebody else: in any history of the cache
  a read hits only what an insert stored for the same URL, the same method up to ASCII case and the
  same scope, so that what was fetched with one principal's credential reaches that principal
  alone, whatever its name.\<close>

theorem cache_never_crosses_scopes:
  assumes "list_all op_plain xs" and "CHR 0x00 \<notin> set m" and "CHR 0x00 \<notin> set u"
    and "fst (cache_get (resource_key m u s) ttl now (fold cache_step xs (cache_new budget))) = Some hit"
  shows "\<exists>m' at. Op_insert m' u s (ht_response hit) at \<in> set xs \<and> to_ascii_uppercase m' = to_ascii_uppercase m"
proof -
  let ?c = "fold cache_step xs (cache_new budget)"
  have "from_history [] (cache_new budget)" by (simp add: from_history_def cache_wf_def cache_new_def)
  from cache_run_history [OF this, of xs] have h: "from_history xs ?c" by simp
  obtain e where e: "map_of (rc_entries ?c) (resource_key m u s) = Some e" "ht_response hit = ce_response e"
    using assms(4) by (auto simp: cache_get_def Let_def split: option.splits)
  obtain m' u' s' at where i: "Op_insert m' u' s' (ce_response e) at \<in> set xs"
      "resource_key m u s = resource_key m' u' s'"
    using h map_of_SomeD [OF e(1)] by (fastforce simp: from_history_def)
  have "op_plain (Op_insert m' u' s' (ce_response e) at)" using assms(1) i(1) by (auto simp: list_all_iff)
  hence "to_ascii_uppercase m = to_ascii_uppercase m'" "u = u'" "s = s'"
    using resource_key_inj [of m m' u u' s s'] assms(2,3) i(2) by auto
  thus ?thesis using i(1) e(2) by auto
qed

definition demo_response :: "string \<Rightarrow> cached_response" where
  "demo_response b = \<lparr>cr_status = 200, cr_body = b, cr_content_type = None,
     cr_validators = \<lparr>va_etag = None, va_last_modified = None\<rparr>\<rparr>"

lemma cache_never_crosses_scopes_witness:
  "fst (cache_get (resource_key ''get'' ''u'' (Principal ''bob'')) 5 0
     (fold cache_step [Op_insert ''GET'' ''u'' (Principal ''al'') (demo_response ''x'') 0] (cache_new 9))) = None"
proof (rule ccontr)
  let ?xs = "[Op_insert ''GET'' ''u'' (Principal ''al'') (demo_response ''x'') 0]"
  assume "fst (cache_get (resource_key ''get'' ''u'' (Principal ''bob'')) 5 0 (fold cache_step ?xs (cache_new 9))) \<noteq> None"
  then obtain hit where "fst (cache_get (resource_key ''get'' ''u'' (Principal ''bob'')) 5 0
      (fold cache_step ?xs (cache_new 9))) = Some hit" by blast
  from cache_never_crosses_scopes [OF _ _ _ this] show False by simp
qed

lemma evicts_least_recent_witness:
  "\<exists>m \<le> 2. weight (drop m (lru_order (fold cache_step [Op_insert ''a'' ''u'' Public (demo_response ''xx'') 0,
     Op_insert ''b'' ''u'' Public (demo_response ''yy'') 0] (cache_new 20)))) \<le> 20"
proof -
  let ?c = "fold cache_step [Op_insert ''a'' ''u'' Public (demo_response ''xx'') 0,
     Op_insert ''b'' ''u'' Public (demo_response ''yy'') 0] (cache_new 20)"
  have h: "from_history [] (cache_new 20)" by (simp add: from_history_def cache_wf_def cache_new_def)
  have wf: "cache_wf ?c"
    using cache_run_history [OF h, of "[Op_insert ''a'' ''u'' Public (demo_response ''xx'') 0,
      Op_insert ''b'' ''u'' Public (demo_response ''yy'') 0]"] unfolding from_history_def by (rule conjunct1)
  obtain n c' where "enforce_byte_budget ?c = (n, c')" by fastforce
  from evicts_least_recent [OF wf this] obtain m where m: "m \<le> length (rc_entries ?c)"
    "weight (drop m (lru_order ?c)) \<le> rc_budget ?c" by blast
  have len: "length (rc_entries ?c) \<le> 2" and budget: "rc_budget ?c = 20"
    by (simp_all add: cache_insert_def put_entry_def drop_key_def cache_new_def)
  show ?thesis
  proof (intro exI conjI)
    show "m \<le> 2" using m(1) len by (rule le_trans)
    show "weight (drop m (lru_order ?c)) \<le> 20" using m(2) unfolding budget .
  qed
qed

end
