(* ===== verification/Broadcast.thy ===== *)
theory Broadcast
  imports Journal Middleware "HOL-Library.AList"
begin

text \<open>
  The registry of live topics (\<open>src/runtime/broadcast.rs\<close>): a topic holds a value and the sessions
  that watch it, a write stores the new value and fans one frame out, a refused send drops the
  whole session, and idle topics that can be derived again are evicted.

  A topic's operations run under its lock, so each is one step here; so is \<open>drop_if_idle\<close>, which takes
  no lock between its test and its removal (\<open>idle_race_orphans\<close> is what may come between). A session is a number, a
  subscriber's sink the number of a channel; a channel keeps the frames it accepted, in order. A
  frame is kept as the value that is encoded: \<open>br_encodes\<close> says which frames the encoder accepts.
  The members of a JSON value are read and written by \<open>br_json\<close>. Tables that are iterated are
  association lists with distinct keys.
\<close>

unbundle bit_operations_syntax

type_synonym session = nat

definition fnv1a_32 :: "string \<Rightarrow> u32" where
  "fnv1a_32 s = fold (\<lambda>c h. (h XOR of_nat (byte c)) * 0x01000193) s 0x811c9dc5"

definition broadcast_slot_id :: "string \<Rightarrow> u32" where
  "broadcast_slot_id topic = fnv1a_32 (''broadcast::'' @ topic)"

record slot_change =
  sg_weight :: int
  sg_key :: string
  sg_payload :: string

record reconcile_row =
  rw_key :: string
  rw_payload :: string

datatype instruction =
    SlotSet u32 string
  | SlotDelta u32 "slot_change list"
  | SlotInsert u32 "string option" "reconcile_row list"
  | ReconcileList u32 "reconcile_row list"

fun slot_of :: "instruction \<Rightarrow> u32" where
  "slot_of (SlotSet i v) = i"
| "slot_of (SlotDelta i cs) = i"
| "slot_of (SlotInsert i b rs) = i"
| "slot_of (ReconcileList i rs) = i"

record opcode_frame =
  fr_frame_id :: u64
  fr_instructions :: "instruction list"

datatype list_update =
    No_rows
  | Delta "slot_change list"
  | Insert "string option" "reconcile_row list"
  | Reconcile "reconcile_row list"

record topic_transition =
  tt_value :: string
  tt_update :: list_update

datatype topic_identity =
    Static
  | Partition string string
  | External string string string

fun is_evictable :: "topic_identity \<Rightarrow> bool" where
  "is_evictable Static = False"
| "is_evictable (Partition c k) = True"
| "is_evictable (External s r u) = True"

record broadcast_topic =
  bt_slot_id :: u32
  bt_value :: string
  bt_subscribers :: "(session \<times> nat) list"
  bt_projections :: "(session \<times> string list) list"
  bt_version :: u64
  bt_identity :: topic_identity
  bt_touched :: u64

record channel =
  ch_room :: nat
  ch_closed :: bool
  ch_got :: "opcode_frame list"

record registry =
  rg_topics :: "(string \<times> broadcast_topic) list"
  rg_by_session :: "session \<rightharpoonup> string set"
  rg_next_frame_id :: u64
  rg_slot_ids :: "u32 \<rightharpoonup> string"
  rg_tick :: u64
  rg_sinks :: "nat \<Rightarrow> channel"

record broadcast_env =
  br_encodes :: "opcode_frame \<Rightarrow> bool"
  br_json :: "json json_codec"

datatype broadcast_error =
    UnknownTopic string
  | EncodeFailed
  | SlotIdCollision string string u32

record delivery =
  dl_delivered :: nat
  dl_dropped_full :: "session list"
  dl_dropped_closed :: "session list"

record topic_grant =
  tg_topic :: string
  tg_columns :: "string list option"

definition whole_grant :: "string \<Rightarrow> topic_grant" where
  "whole_grant topic = \<lparr>tg_topic = topic, tg_columns = None\<rparr>"

definition drop_count :: "delivery \<Rightarrow> nat" where
  "drop_count d = length (dl_dropped_full d) + length (dl_dropped_closed d)"

section \<open>Rows and columns\<close>

definition i32_sat_add :: "int \<Rightarrow> int \<Rightarrow> int" where
  "i32_sat_add a b = max (- (2 ^ 31)) (min (2 ^ 31 - 1) (a + b))"

definition same_record :: "slot_change \<Rightarrow> slot_change \<Rightarrow> bool" where
  "same_record a b \<longleftrightarrow> sg_key a = sg_key b \<and> sg_payload a = sg_payload b"

fun add_change :: "slot_change \<Rightarrow> slot_change list \<Rightarrow> slot_change list" where
  "add_change c [] = [c]"
| "add_change c (d # ds) =
     (if same_record d c then d\<lparr>sg_weight := i32_sat_add (sg_weight d) (sg_weight c)\<rparr> # ds
      else d # add_change c ds)"

definition coalesce_changes :: "slot_change list \<Rightarrow> slot_change list" where
  "coalesce_changes cs =
     (if length cs < 2 then filter (\<lambda>c. sg_weight c \<noteq> 0) cs
      else filter (\<lambda>c. sg_weight c \<noteq> 0) (fold add_change cs []))"

fun list_instruction :: "u32 \<Rightarrow> list_update \<Rightarrow> instruction option" where
  "list_instruction i No_rows = None"
| "list_instruction i (Delta cs) =
     (let cs' = coalesce_changes cs in if cs' \<noteq> [] then Some (SlotDelta i cs') else None)"
| "list_instruction i (Insert before rs) = (if rs \<noteq> [] then Some (SlotInsert i before rs) else None)"
| "list_instruction i (Reconcile rs) = Some (ReconcileList i rs)"

definition retain :: "string list \<Rightarrow> (string \<times> json) list \<Rightarrow> (string \<times> json) list" where
  "retain columns ms = filter (\<lambda>(k, _). k \<in> set columns) ms"

fun project_row :: "string list \<Rightarrow> json \<Rightarrow> json" where
  "project_row columns (JObject ms) = JObject (retain columns ms)"
| "project_row columns v = v"

definition project_value :: "json json_codec \<Rightarrow> string list \<Rightarrow> string \<Rightarrow> string" where
  "project_value codec columns v =
     (case jc_parse codec v of
        None \<Rightarrow> v
      | Some (JArray rs) \<Rightarrow> jc_text codec (JArray (map (project_row columns) rs))
      | Some (JObject ms) \<Rightarrow> jc_text codec (JObject (retain columns ms))
      | Some _ \<Rightarrow> v)"

definition is_valid_partition_key :: "string \<Rightarrow> bool" where
  "is_valid_partition_key key \<longleftrightarrow> key \<noteq> [] \<and> length key \<le> 64 \<and>
     list_all (\<lambda>c. is_ascii_alphanumeric c \<or> c = CHR ''_'' \<or> c = CHR ''-'') key"

definition partition_topic_name :: "string \<Rightarrow> string \<Rightarrow> string option" where
  "partition_topic_name collection key =
     (if is_valid_partition_key key then Some (collection @ '':'' @ key) else None)"

section \<open>Topics\<close>

definition topic_of :: "registry \<Rightarrow> string \<Rightarrow> broadcast_topic option" where
  "topic_of rg n = map_of (rg_topics rg) n"

definition put_topic :: "string \<Rightarrow> broadcast_topic \<Rightarrow> registry \<Rightarrow> registry" where
  "put_topic n t rg = rg\<lparr>rg_topics := AList.update n t (rg_topics rg)\<rparr>"

definition registry_new :: "(nat \<Rightarrow> channel) \<Rightarrow> registry" where
  "registry_new sinks = \<lparr>rg_topics = [], rg_by_session = Map.empty, rg_next_frame_id = 0,
     rg_slot_ids = Map.empty, rg_tick = 0, rg_sinks = sinks\<rparr>"

definition topic_with_identity :: "string \<Rightarrow> string \<Rightarrow> topic_identity \<Rightarrow> registry \<Rightarrow> broadcast_topic \<times> registry" where
  "topic_with_identity n initial ident rg =
     (case topic_of rg n of
        Some t \<Rightarrow> (t, rg)
      | None \<Rightarrow>
          let i = broadcast_slot_id n;
              t = \<lparr>bt_slot_id = i, bt_value = initial, bt_subscribers = [], bt_projections = [],
                   bt_version = 0, bt_identity = ident, bt_touched = rg_tick rg\<rparr>;
              rg1 = rg\<lparr>rg_slot_ids := (case rg_slot_ids rg i of Some _ \<Rightarrow> rg_slot_ids rg
                                          | None \<Rightarrow> (rg_slot_ids rg)(i \<mapsto> n)),
                       rg_tick := rg_tick rg + 1\<rparr> in
          (t, put_topic n t rg1))"

definition static_topic :: "string \<Rightarrow> string \<Rightarrow> registry \<Rightarrow> broadcast_topic \<times> registry" where
  "static_topic n initial rg = topic_with_identity n initial Static rg"

definition guard_slot_id :: "string \<Rightarrow> registry \<Rightarrow> broadcast_error option" where
  "guard_slot_id n rg =
     (case rg_slot_ids rg (broadcast_slot_id n) of
        Some holder \<Rightarrow> if holder \<noteq> n then Some (SlotIdCollision n holder (broadcast_slot_id n)) else None
      | None \<Rightarrow> None)"

definition try_mint :: "string \<Rightarrow> string \<Rightarrow> topic_identity \<Rightarrow> registry \<Rightarrow> (broadcast_error + broadcast_topic) \<times> registry" where
  "try_mint n initial ident rg =
     (case topic_of rg n of
        Some t \<Rightarrow> (Inr t, rg)
      | None \<Rightarrow>
          (case guard_slot_id n rg of
             Some e \<Rightarrow> (Inl e, rg)
           | None \<Rightarrow> let (t, rg') = topic_with_identity n initial ident rg in (Inr t, rg')))"

definition try_topic :: "string \<Rightarrow> string \<Rightarrow> registry \<Rightarrow> (broadcast_error + broadcast_topic) \<times> registry" where
  "try_topic n initial rg = try_mint n initial Static rg"

definition try_topic_partition :: "string \<Rightarrow> string \<Rightarrow> string \<Rightarrow> string \<Rightarrow> registry \<Rightarrow>
    (broadcast_error + broadcast_topic) \<times> registry" where
  "try_topic_partition n collection key initial rg = try_mint n initial (Partition collection key) rg"

fun check_slots :: "string list \<Rightarrow> (u32 \<rightharpoonup> string) \<Rightarrow> (string \<times> string) list" where
  \<comment> \<open>the colliding pairs, over sorted names\<close>
  "check_slots [] seen = []"
| "check_slots (n # ns) seen =
     (case seen (broadcast_slot_id n) of
        Some other \<Rightarrow>
          if other \<noteq> n then (other, n) # check_slots ns seen
          else check_slots ns (seen(broadcast_slot_id n \<mapsto> n))
      | None \<Rightarrow> check_slots ns (seen(broadcast_slot_id n \<mapsto> n)))"

definition check_topic_slot_ids :: "(string list \<Rightarrow> string list) \<Rightarrow> string list \<Rightarrow> (string \<times> string) list + unit" where
  "check_topic_slot_ids sorted_names topics =
     (let problems = check_slots (sorted_names topics) Map.empty in
      if problems = [] then Inr () else Inl problems)"

section \<open>Subscriptions\<close>

definition add_sub :: "session \<Rightarrow> nat \<Rightarrow> string list option \<Rightarrow> broadcast_topic \<Rightarrow> broadcast_topic" where
  "add_sub s k columns t =
     t\<lparr>bt_subscribers := AList.update s k (bt_subscribers t),
       bt_projections := (case columns of Some cs \<Rightarrow> AList.update s cs (bt_projections t)
                          | None \<Rightarrow> AList.delete s (bt_projections t))\<rparr>"

definition drop_sub :: "session \<Rightarrow> broadcast_topic \<Rightarrow> broadcast_topic" where
  "drop_sub s t =
     t\<lparr>bt_subscribers := AList.delete s (bt_subscribers t),
       bt_projections := AList.delete s (bt_projections t)\<rparr>"

definition index_add :: "session \<Rightarrow> string \<Rightarrow> registry \<Rightarrow> registry" where
  "index_add s n rg =
     rg\<lparr>rg_by_session := (rg_by_session rg)(s \<mapsto>
       insert n (case rg_by_session rg s of None \<Rightarrow> {} | Some ns \<Rightarrow> ns))\<rparr>"

definition index_drop :: "session \<Rightarrow> string \<Rightarrow> registry \<Rightarrow> registry" where
  "index_drop s n rg =
     (case rg_by_session rg s of
        None \<Rightarrow> rg
      | Some ns \<Rightarrow> rg\<lparr>rg_by_session := (rg_by_session rg)(s \<mapsto> ns - {n})\<rparr>)"

definition touch_topic :: "string \<Rightarrow> registry \<Rightarrow> bool \<times> registry" where
  "touch_topic n rg =
     (case topic_of rg n of
        None \<Rightarrow> (False, rg)
      | Some t \<Rightarrow> (True, put_topic n (t\<lparr>bt_touched := rg_tick rg\<rparr>) (rg\<lparr>rg_tick := rg_tick rg + 1\<rparr>)))"

definition subscribe :: "session \<Rightarrow> string \<Rightarrow> nat \<Rightarrow> registry \<Rightarrow> (broadcast_error + string) \<times> registry" where
  "subscribe s n k rg =
     (case topic_of rg n of
        None \<Rightarrow> (Inl (UnknownTopic n), rg)
      | Some t \<Rightarrow> (Inr (bt_value t), index_add s n (snd (touch_topic n (put_topic n (add_sub s k None t) rg)))))"

definition unsubscribe :: "session \<Rightarrow> string \<Rightarrow> registry \<Rightarrow> registry" where
  "unsubscribe s n rg =
     index_drop s n (case topic_of rg n of None \<Rightarrow> rg | Some t \<Rightarrow> put_topic n (drop_sub s t) rg)"

definition cleanup_session :: "session \<Rightarrow> registry \<Rightarrow> registry" where
  "cleanup_session s rg =
     (case rg_by_session rg s of
        None \<Rightarrow> rg
      | Some ns \<Rightarrow>
          rg\<lparr>rg_by_session := (rg_by_session rg)(s := None),
             rg_topics := map (\<lambda>(n, t). (n, if n \<in> ns then drop_sub s t else t)) (rg_topics rg)\<rparr>)"

record granted_seed =
  gs_instructions :: "instruction list"
  gs_values :: "(string \<times> string) list"

definition grant_one :: "broadcast_env \<Rightarrow> session \<Rightarrow> nat \<Rightarrow> topic_grant \<Rightarrow> registry \<Rightarrow> (instruction \<times> string) \<times> registry" where
  "grant_one env s k g rg =
     (let n = tg_topic g; (t, rg1) = static_topic n [] rg; v = bt_value t;
          sent = (case tg_columns g of Some cs \<Rightarrow> project_value (br_json env) cs v | None \<Rightarrow> v) in
      ((SlotSet (bt_slot_id t) sent, v), index_add s n (put_topic n (add_sub s k (tg_columns g) t) rg1)))"

fun subscribe_granted :: "broadcast_env \<Rightarrow> session \<Rightarrow> nat \<Rightarrow> topic_grant list \<Rightarrow> registry \<Rightarrow> granted_seed \<times> registry" where
  "subscribe_granted env s k [] rg = (\<lparr>gs_instructions = [], gs_values = []\<rparr>, rg)"
| "subscribe_granted env s k (g # gs) rg =
     (let ((op, v), rg1) = grant_one env s k g rg; (seed, rg2) = subscribe_granted env s k gs rg1 in
      (\<lparr>gs_instructions = op # gs_instructions seed, gs_values = (tg_topic g, v) # gs_values seed\<rparr>, rg2))"

definition auto_subscribe :: "broadcast_env \<Rightarrow> session \<Rightarrow> nat \<Rightarrow> string list \<Rightarrow> registry \<Rightarrow> instruction list \<times> registry" where
  "auto_subscribe env s k topics rg =
     (let (seed, rg') = subscribe_granted env s k (map whole_grant topics) rg in (gs_instructions seed, rg'))"

section \<open>Writes\<close>

datatype send_result = Sent | Full | Closed

definition try_send :: "nat \<Rightarrow> opcode_frame \<Rightarrow> (nat \<Rightarrow> channel) \<Rightarrow> send_result \<times> (nat \<Rightarrow> channel)" where
  "try_send k f sinks =
     (if ch_closed (sinks k) then (Closed, sinks)
      else if ch_room (sinks k) = 0 then (Full, sinks)
      else (Sent, sinks(k := (sinks k)\<lparr>ch_room := ch_room (sinks k) - 1, ch_got := ch_got (sinks k) @ [f]\<rparr>)))"

definition frame_for :: "broadcast_env \<Rightarrow> broadcast_topic \<Rightarrow> opcode_frame \<Rightarrow> session \<Rightarrow> opcode_frame option" where
  "frame_for env t f s =
     (case fr_instructions f of
        [SlotSet i v] \<Rightarrow>
          (case map_of (bt_projections t) s of
             None \<Rightarrow> Some f
           | Some cs \<Rightarrow>
               let f' = f\<lparr>fr_instructions := [SlotSet i (project_value (br_json env) cs v)]\<rparr> in
               if br_encodes env f' then Some f' else None)
      | _ \<Rightarrow> Some f)"

definition no_delivery :: delivery where
  "no_delivery = \<lparr>dl_delivered = 0, dl_dropped_full = [], dl_dropped_closed = []\<rparr>"

fun send_frames :: "broadcast_env \<Rightarrow> broadcast_topic \<Rightarrow> opcode_frame \<Rightarrow> (session \<times> nat) list \<Rightarrow> (nat \<Rightarrow> channel) \<Rightarrow>
    delivery \<Rightarrow> session list \<Rightarrow> delivery \<times> session list \<times> (nat \<Rightarrow> channel)" where
  "send_frames env t f [] sinks report to_remove = (report, to_remove, sinks)"
| "send_frames env t f ((s, k) # subs) sinks report to_remove =
     (case frame_for env t f s of
        None \<Rightarrow> send_frames env t f subs sinks
                  (report\<lparr>dl_dropped_closed := dl_dropped_closed report @ [s]\<rparr>) (to_remove @ [s])
      | Some fs \<Rightarrow>
          (case try_send k fs sinks of
             (Sent, sinks') \<Rightarrow>
               send_frames env t f subs sinks' (report\<lparr>dl_delivered := dl_delivered report + 1\<rparr>) to_remove
           | (Full, sinks') \<Rightarrow>
               send_frames env t f subs sinks'
                 (report\<lparr>dl_dropped_full := dl_dropped_full report @ [s]\<rparr>) (to_remove @ [s])
           | (Closed, sinks') \<Rightarrow>
               send_frames env t f subs sinks'
                 (report\<lparr>dl_dropped_closed := dl_dropped_closed report @ [s]\<rparr>) (to_remove @ [s])))"

definition release_session :: "string \<Rightarrow> session \<Rightarrow> registry \<Rightarrow> registry" where
  "release_session n s rg = cleanup_session s (unsubscribe s n rg)"

definition fan_out_frame :: "broadcast_env \<Rightarrow> string \<Rightarrow> broadcast_topic \<Rightarrow> opcode_frame \<Rightarrow> registry \<Rightarrow> delivery \<times> registry" where
  "fan_out_frame env n t f rg =
     (let (report, to_remove, sinks) =
        send_frames env t f (bt_subscribers t) (rg_sinks rg) no_delivery [] in
      (report, fold (release_session n) to_remove (rg\<lparr>rg_sinks := sinks\<rparr>)))"

definition chosen_instruction :: "u32 \<Rightarrow> topic_transition \<Rightarrow> instruction" where
  "chosen_instruction i tr =
     (case list_instruction i (tt_update tr) of Some op \<Rightarrow> op | None \<Rightarrow> SlotSet i (tt_value tr))"

definition write_topic_delta :: "broadcast_env \<Rightarrow> string \<Rightarrow> (string \<Rightarrow> topic_transition) \<Rightarrow> registry \<Rightarrow>
    (broadcast_error + delivery) \<times> registry" where
  "write_topic_delta env n compute rg =
     (case topic_of rg n of
        None \<Rightarrow> (Inl (UnknownTopic n), rg)
      | Some t \<Rightarrow>
          let tr = compute (bt_value t);
              f = \<lparr>fr_frame_id = rg_next_frame_id rg,
                   fr_instructions = [chosen_instruction (bt_slot_id t) tr]\<rparr>;
              t' = t\<lparr>bt_value := tt_value tr, bt_version := bt_version t + 1\<rparr>;
              rg1 = put_topic n t' (rg\<lparr>rg_next_frame_id := rg_next_frame_id rg + 1\<rparr>) in
          if \<not> br_encodes env f then (Inl EncodeFailed, rg1)
          else let (report, rg2) = fan_out_frame env n t' f rg1 in (Inr report, snd (touch_topic n rg2)))"

definition write_topic :: "broadcast_env \<Rightarrow> string \<Rightarrow> string \<Rightarrow> registry \<Rightarrow> (broadcast_error + delivery) \<times> registry" where
  "write_topic env n v rg = write_topic_delta env n (\<lambda>previous. \<lparr>tt_value = v, tt_update = No_rows\<rparr>) rg"

definition try_topic_external :: "broadcast_env \<Rightarrow> string \<Rightarrow> string \<Rightarrow> string \<Rightarrow> string \<Rightarrow> string \<Rightarrow> registry \<Rightarrow>
    (broadcast_error + bool) \<times> registry" where
  \<comment> \<open>the flag is \<open>published\<close>\<close>
  "try_topic_external env n source route url v rg =
     (case topic_of rg n of
        Some t \<Rightarrow> if bt_value t = v then (Inr False, rg) else (Inr True, snd (write_topic env n v rg))
      | None \<Rightarrow>
          (case guard_slot_id n rg of
             Some e \<Rightarrow> (Inl e, rg)
           | None \<Rightarrow> (Inr False, snd (topic_with_identity n v (External source route url) rg))))"

definition live_external_topics :: "registry \<Rightarrow> (string \<times> string \<times> string \<times> string) list" where
  "live_external_topics rg =
     List.map_filter (\<lambda>(n, t). case bt_identity t of
         External source route url \<Rightarrow>
           if bt_subscribers t \<noteq> [] then Some (n, source, route, url) else None
       | _ \<Rightarrow> None) (rg_topics rg)"

section \<open>Eviction\<close>

definition idle :: "broadcast_topic \<Rightarrow> bool" where
  "idle t \<longleftrightarrow> is_evictable (bt_identity t) \<and> bt_subscribers t = []"

definition idle_now :: "string \<Rightarrow> registry \<Rightarrow> bool" where
  "idle_now n rg = (case topic_of rg n of Some t \<Rightarrow> idle t | None \<Rightarrow> False)"

definition remove_topic :: "string \<Rightarrow> registry \<Rightarrow> registry" where
  "remove_topic n rg =
     rg\<lparr>rg_slot_ids := (if rg_slot_ids rg (broadcast_slot_id n) = Some n
                          then (rg_slot_ids rg)(broadcast_slot_id n := None) else rg_slot_ids rg),
        rg_topics := AList.delete n (rg_topics rg)\<rparr>"

definition drop_if_idle :: "string \<Rightarrow> registry \<Rightarrow> bool \<times> registry" where
  "drop_if_idle n rg = (if idle_now n rg then (True, remove_topic n rg) else (False, rg))"

definition value_len :: "broadcast_topic \<Rightarrow> nat" where
  "value_len t = length (bt_value t)"

definition evictable_bytes :: "registry \<Rightarrow> nat" where
  "evictable_bytes rg =
     sum_list (map (\<lambda>(n, t). value_len t) (filter (\<lambda>(n, t). is_evictable (bt_identity t)) (rg_topics rg)))"

definition candidates :: "registry \<Rightarrow> (u64 \<times> string \<times> nat) list" where
  "candidates rg =
     sort_key fst (map (\<lambda>(n, t). (bt_touched t, n, value_len t)) (filter (\<lambda>(n, t). idle t) (rg_topics rg)))"

fun drop_candidates :: "nat \<Rightarrow> (u64 \<times> string \<times> nat) list \<Rightarrow> nat \<Rightarrow> nat \<Rightarrow> registry \<Rightarrow> nat \<times> registry" where
  "drop_candidates budget [] footprint dropped rg = (dropped, rg)"
| "drop_candidates budget ((touched, n, bytes) # cs) footprint dropped rg =
     (if footprint \<le> budget then (dropped, rg)
      else (case drop_if_idle n rg of
              (True, rg') \<Rightarrow> drop_candidates budget cs (footprint - bytes) (dropped + 1) rg'
            | (False, rg') \<Rightarrow> drop_candidates budget cs footprint dropped rg'))"

definition enforce_topic_budget :: "nat \<Rightarrow> registry \<Rightarrow> nat \<times> registry" where
  "enforce_topic_budget budget rg =
     (if evictable_bytes rg \<le> budget then (0, rg)
      else drop_candidates budget (candidates rg) (evictable_bytes rg) 0 rg)"

definition dynamic_topic_count :: "registry \<Rightarrow> nat" where
  "dynamic_topic_count rg = length (filter (\<lambda>(n, t). is_evictable (bt_identity t)) (rg_topics rg))"

definition subscriber_count :: "string \<Rightarrow> registry \<Rightarrow> nat" where
  "subscriber_count n rg = (case topic_of rg n of None \<Rightarrow> 0 | Some t \<Rightarrow> length (bt_subscribers t))"

definition values_for :: "string list \<Rightarrow> registry \<Rightarrow> (string \<times> string) list" where
  "values_for topics rg =
     List.map_filter (\<lambda>n. map_option (\<lambda>t. (n, bt_value t)) (topic_of rg n)) topics"

definition topic_count :: "registry \<Rightarrow> nat" where
  "topic_count rg = length (rg_topics rg)"

section \<open>The registry as a machine\<close>

datatype reg_op =
    Op_topic string string
  | Op_try string string
  | Op_partition string string string string
  | Op_external string string string string string
  | Op_touch string
  | Op_subscribe session string nat
  | Op_granted session nat "topic_grant list"
  | Op_unsubscribe session string
  | Op_cleanup session
  | Op_write string "string \<Rightarrow> topic_transition"
  | Op_drop_idle string
  | Op_budget nat
  | Op_receive nat nat
  | Op_hang_up nat

fun reg_step :: "broadcast_env \<Rightarrow> reg_op \<Rightarrow> registry \<Rightarrow> registry" where
  "reg_step env (Op_topic n v) rg = snd (static_topic n v rg)"
| "reg_step env (Op_try n v) rg = snd (try_topic n v rg)"
| "reg_step env (Op_partition n c k v) rg = snd (try_topic_partition n c k v rg)"
| "reg_step env (Op_external n s r u v) rg = snd (try_topic_external env n s r u v rg)"
| "reg_step env (Op_touch n) rg = snd (touch_topic n rg)"
| "reg_step env (Op_subscribe s n k) rg = snd (subscribe s n k rg)"
| "reg_step env (Op_granted s k gs) rg = snd (subscribe_granted env s k gs rg)"
| "reg_step env (Op_unsubscribe s n) rg = unsubscribe s n rg"
| "reg_step env (Op_cleanup s) rg = cleanup_session s rg"
| "reg_step env (Op_write n compute) rg = snd (write_topic_delta env n compute rg)"
| "reg_step env (Op_drop_idle n) rg = snd (drop_if_idle n rg)"
| "reg_step env (Op_budget b) rg = snd (enforce_topic_budget b rg)"
| "reg_step env (Op_receive k room) rg =
     rg\<lparr>rg_sinks := (rg_sinks rg)(k := (rg_sinks rg k)\<lparr>ch_room := room\<rparr>)\<rparr>"
| "reg_step env (Op_hang_up k) rg =
     rg\<lparr>rg_sinks := (rg_sinks rg)(k := (rg_sinks rg k)\<lparr>ch_closed := True\<rparr>)\<rparr>"

definition reg_run :: "broadcast_env \<Rightarrow> reg_op list \<Rightarrow> registry \<Rightarrow> registry" where
  "reg_run env ops rg = fold (reg_step env) ops rg"

section \<open>What each operation leaves alone\<close>

lemma topic_of_put [simp]: "topic_of (put_topic n t rg) m = (if m = n then Some t else topic_of rg m)"
  by (simp add: topic_of_def put_topic_def update_conv)

lemma put_topic_simps [simp]:
  "rg_by_session (put_topic n t rg) = rg_by_session rg" "rg_sinks (put_topic n t rg) = rg_sinks rg"
  "rg_slot_ids (put_topic n t rg) = rg_slot_ids rg" "rg_tick (put_topic n t rg) = rg_tick rg"
  "rg_topics (put_topic n t rg) = AList.update n t (rg_topics rg)"
  by (simp_all add: put_topic_def)

lemma topic_of_fields [simp]:
  "topic_of (rg\<lparr>rg_by_session := b\<rparr>) m = topic_of rg m" "topic_of (rg\<lparr>rg_sinks := ks\<rparr>) m = topic_of rg m"
  "topic_of (rg\<lparr>rg_slot_ids := is\<rparr>) m = topic_of rg m" "topic_of (rg\<lparr>rg_tick := x\<rparr>) m = topic_of rg m"
  "topic_of (rg\<lparr>rg_next_frame_id := x\<rparr>) m = topic_of rg m"
  by (simp_all add: topic_of_def)

lemma index_add_simps [simp]:
  "topic_of (index_add s n rg) m = topic_of rg m" "rg_sinks (index_add s n rg) = rg_sinks rg"
  "rg_topics (index_add s n rg) = rg_topics rg" "rg_slot_ids (index_add s n rg) = rg_slot_ids rg"
  by (simp_all add: index_add_def)

lemma index_drop_simps [simp]:
  "topic_of (index_drop s n rg) m = topic_of rg m" "rg_sinks (index_drop s n rg) = rg_sinks rg"
  "rg_topics (index_drop s n rg) = rg_topics rg" "rg_slot_ids (index_drop s n rg) = rg_slot_ids rg"
  by (simp_all add: index_drop_def split: option.splits)

lemma add_sub_simps [simp]:
  "bt_slot_id (add_sub s k c t) = bt_slot_id t" "bt_value (add_sub s k c t) = bt_value t"
  "bt_identity (add_sub s k c t) = bt_identity t"
  "map_of (bt_subscribers (add_sub s k c t)) = (map_of (bt_subscribers t))(s \<mapsto> k)"
  "map_of (bt_projections (add_sub s k c t)) = (map_of (bt_projections t))(s := c)"
  by (simp_all add: add_sub_def update_conv' delete_conv' split: option.splits)

lemma drop_sub_simps [simp]:
  "bt_slot_id (drop_sub s t) = bt_slot_id t" "bt_value (drop_sub s t) = bt_value t"
  "bt_identity (drop_sub s t) = bt_identity t"
  "map_of (bt_subscribers (drop_sub s t)) = (map_of (bt_subscribers t))(s := None)"
  "map_of (bt_projections (drop_sub s t)) = (map_of (bt_projections t))(s := None)"
  by (simp_all add: drop_sub_def delete_conv')

definition watches :: "session \<Rightarrow> string \<Rightarrow> registry \<Rightarrow> nat option" where
  "watches s n rg = (case topic_of rg n of None \<Rightarrow> None | Some t \<Rightarrow> map_of (bt_subscribers t) s)"

definition indexed :: "session \<Rightarrow> string \<Rightarrow> registry \<Rightarrow> bool" where
  "indexed s n rg = (case rg_by_session rg s of None \<Rightarrow> False | Some ns \<Rightarrow> n \<in> ns)"

definition topic_ok :: "string \<Rightarrow> broadcast_topic \<Rightarrow> bool" where
  "topic_ok n t \<longleftrightarrow> bt_slot_id t = broadcast_slot_id n \<and> distinct (map fst (bt_subscribers t)) \<and>
     (\<forall>s. map_of (bt_projections t) s \<noteq> None \<longrightarrow> map_of (bt_subscribers t) s \<noteq> None)"

definition consistent :: "registry \<Rightarrow> bool" where
  "consistent rg \<longleftrightarrow> distinct (map fst (rg_topics rg)) \<and>
     (\<forall>n t. topic_of rg n = Some t \<longrightarrow> topic_ok n t) \<and>
     (\<forall>s n. indexed s n rg \<longleftrightarrow> watches s n rg \<noteq> None)"

lemma consistentI:
  assumes "distinct (map fst (rg_topics rg))" "\<And>n t. topic_of rg n = Some t \<Longrightarrow> topic_ok n t"
    "\<And>s n. indexed s n rg \<longleftrightarrow> watches s n rg \<noteq> None"
  shows "consistent rg"
  using assms by (simp add: consistent_def)

lemma consistentD:
  assumes "consistent rg"
  shows "distinct (map fst (rg_topics rg))" "\<And>n t. topic_of rg n = Some t \<Longrightarrow> topic_ok n t"
    "\<And>s n. indexed s n rg \<longleftrightarrow> watches s n rg \<noteq> None"
  using assms by (simp_all add: consistent_def)

lemma consistent_fields [simp]:
  "consistent (rg\<lparr>rg_sinks := ks\<rparr>) = consistent rg" "consistent (rg\<lparr>rg_slot_ids := is\<rparr>) = consistent rg"
  "consistent (rg\<lparr>rg_tick := x\<rparr>) = consistent rg" "consistent (rg\<lparr>rg_next_frame_id := y\<rparr>) = consistent rg"
  by (simp_all add: consistent_def indexed_def watches_def)

lemma topic_ok_add_sub [intro]: "topic_ok n t \<Longrightarrow> topic_ok n (add_sub s k c t)"
  by (auto simp: topic_ok_def add_sub_def distinct_update update_conv' delete_conv' split: option.splits)

lemma topic_ok_drop_sub [intro]: "topic_ok n t \<Longrightarrow> topic_ok n (drop_sub s t)"
  by (auto simp: topic_ok_def drop_sub_def distinct_delete delete_conv')

lemma topic_ok_fields [simp]:
  "topic_ok n (t\<lparr>bt_value := v\<rparr>) = topic_ok n t" "topic_ok n (t\<lparr>bt_version := w\<rparr>) = topic_ok n t"
  "topic_ok n (t\<lparr>bt_touched := x\<rparr>) = topic_ok n t"
  by (simp_all add: topic_ok_def)

lemma topic_ok_same:
  "bt_subscribers t' = bt_subscribers t \<Longrightarrow> bt_projections t' = bt_projections t \<Longrightarrow>
   bt_slot_id t' = bt_slot_id t \<Longrightarrow> topic_ok n t' = topic_ok n t"
  by (simp add: topic_ok_def)

text \<open>A topic replaced by one with the same watchers.\<close>

lemma consistent_put_same:
  assumes "consistent rg" "topic_of rg n = Some t" "bt_subscribers t' = bt_subscribers t"
    "bt_projections t' = bt_projections t" "bt_slot_id t' = bt_slot_id t"
  shows "consistent (put_topic n t' rg)"
proof (rule consistentI)
  show "distinct (map fst (rg_topics (put_topic n t' rg)))"
    using consistentD(1)[OF assms(1)] by (simp add: distinct_update)
  show "topic_ok m u" if "topic_of (put_topic n t' rg) m = Some u" for m u
    using that consistentD(2)[OF assms(1), of m] assms(2) topic_ok_same[OF assms(3-5)]
    by (simp split: if_splits)
  show "indexed s m (put_topic n t' rg) \<longleftrightarrow> watches s m (put_topic n t' rg) \<noteq> None" for s m
    using consistentD(3)[OF assms(1), of s m] assms(2,3) by (auto simp: indexed_def watches_def)
qed

lemma consistent_touch: "consistent rg \<Longrightarrow> consistent (snd (touch_topic n rg))"
  by (auto simp: touch_topic_def intro!: consistent_put_same split: option.split)

lemma consistent_subscribed:
  assumes "consistent rg" "topic_of rg n = Some t"
  shows "consistent (index_add s n (put_topic n (add_sub s k c t) rg))" (is "consistent ?rg")
proof (rule consistentI)
  show "distinct (map fst (rg_topics ?rg))"
    using consistentD(1)[OF assms(1)] by (simp add: distinct_update)
  show "topic_ok m u" if "topic_of ?rg m = Some u" for m u
    using that consistentD(2)[OF assms(1)] assms(2) by (auto split: if_splits)
  show "indexed s' m ?rg \<longleftrightarrow> watches s' m ?rg \<noteq> None" for s' m
    using consistentD(3)[OF assms(1), of s' m] assms(2)
    by (auto simp: indexed_def watches_def index_add_def split: option.splits if_splits)
qed

lemma consistent_unsubscribe:
  assumes "consistent rg"
  shows "consistent (unsubscribe s n rg)" (is "consistent ?rg")
proof (rule consistentI)
  show "distinct (map fst (rg_topics ?rg))"
    using consistentD(1)[OF assms(1)] by (simp add: unsubscribe_def distinct_update split: option.split)
  show "topic_ok m u" if "topic_of ?rg m = Some u" for m u
    using that consistentD(2)[OF assms(1)]
    by (auto simp: unsubscribe_def split: if_splits option.splits)
  show "indexed s' m ?rg \<longleftrightarrow> watches s' m ?rg \<noteq> None" for s' m
    using consistentD(3)[OF assms(1), of s' m]
    by (auto simp: indexed_def watches_def index_drop_def unsubscribe_def split: option.splits if_splits)
qed

lemma topic_of_cleanup [simp]:
  "topic_of (cleanup_session s rg) m = map_option (\<lambda>t. if indexed s m rg then drop_sub s t else t) (topic_of rg m)"
proof (cases "rg_by_session rg s")
  case None
  then show ?thesis by (simp add: cleanup_session_def indexed_def option.map_ident)
next
  case (Some ns)
  have "map_of (map (\<lambda>(n, t). (n, if n \<in> ns then drop_sub s t else t)) ts) m =
      map_option (\<lambda>t. if m \<in> ns then drop_sub s t else t) (map_of ts m)" for ts
    by (induction ts) auto
  then show ?thesis using Some by (simp add: cleanup_session_def indexed_def topic_of_def)
qed

lemma cleanup_simps [simp]:
  "rg_sinks (cleanup_session s rg) = rg_sinks rg" "rg_slot_ids (cleanup_session s rg) = rg_slot_ids rg"
  "rg_by_session (cleanup_session s rg) = (rg_by_session rg)(s := None)"
  "map fst (rg_topics (cleanup_session s rg)) = map fst (rg_topics rg)"
  by (auto simp: cleanup_session_def split: option.split)

lemma consistent_cleanup:
  assumes "consistent rg"
  shows "consistent (cleanup_session s rg)" (is "consistent ?rg")
proof (rule consistentI)
  show "distinct (map fst (rg_topics ?rg))" using consistentD(1)[OF assms(1)] by simp
  show "topic_ok m u" if "topic_of ?rg m = Some u" for m u
    using that consistentD(2)[OF assms(1), of m] by (auto split: if_splits)
  show "indexed s' m ?rg \<longleftrightarrow> watches s' m ?rg \<noteq> None" for s' m
    using consistentD(3)[OF assms(1), of s' m]
    by (auto simp: indexed_def watches_def split: option.splits if_splits)
qed

lemma watches_cleanup:
  assumes "consistent rg"
  shows "watches s' m (cleanup_session s rg) = (if s' = s then None else watches s' m rg)"
  using consistentD(3)[OF assms(1), of s m] by (auto simp: watches_def split: option.splits)

lemma mint_existing: "topic_of rg n = Some t \<Longrightarrow> topic_with_identity n v ident rg = (t, rg)"
  by (simp add: topic_with_identity_def)

lemma topic_of_mint:
  "topic_of (snd (topic_with_identity n v ident rg)) m =
     (if m = n then Some (fst (topic_with_identity n v ident rg)) else topic_of rg m)"
  by (auto simp: topic_with_identity_def Let_def split: option.split)

lemma mint_keeps:
  "rg_by_session (snd (topic_with_identity n v ident rg)) = rg_by_session rg"
  "rg_sinks (snd (topic_with_identity n v ident rg)) = rg_sinks rg"
  by (auto simp: topic_with_identity_def Let_def split: option.split)

lemma watches_mint [simp]: "watches s m (snd (topic_with_identity n v ident rg)) = watches s m rg"
  by (auto simp: topic_with_identity_def Let_def watches_def split: option.split)

lemma consistent_mint:
  assumes "consistent rg"
  shows "consistent (snd (topic_with_identity n v ident rg))" (is "consistent ?rg")
proof (cases "topic_of rg n")
  case None
  show ?thesis
  proof (rule consistentI)
    show "distinct (map fst (rg_topics ?rg))"
      using consistentD(1)[OF assms] None by (simp add: topic_with_identity_def Let_def distinct_update)
    show "topic_ok m t" if "topic_of ?rg m = Some t" for m t
      using that consistentD(2)[OF assms, of m] None
      by (auto simp: topic_with_identity_def Let_def topic_ok_def split: if_splits)
    show "indexed s m ?rg \<longleftrightarrow> watches s m ?rg \<noteq> None" for s m
      using consistentD(3)[OF assms, of s m] by (simp add: indexed_def mint_keeps)
  qed
qed (simp add: mint_existing assms)

lemma consistent_try_mint: "consistent rg \<Longrightarrow> consistent (snd (try_mint n v ident rg))"
  using consistent_mint[of rg n v ident]
  by (auto simp: try_mint_def case_prod_unfold Let_def split: option.split)

lemma consistent_subscribe: "consistent rg \<Longrightarrow> consistent (snd (subscribe s n k rg))"
proof (cases "topic_of rg n")
  case (Some t)
  assume c: "consistent rg"
  have "touch_topic n (put_topic n (add_sub s k None t) rg) =
      (True, put_topic n (add_sub s k None t \<lparr>bt_touched := rg_tick rg\<rparr>)
        (put_topic n (add_sub s k None t) (rg\<lparr>rg_tick := rg_tick rg + 1\<rparr>)))"
    by (simp add: touch_topic_def) (simp add: put_topic_def)
  moreover have "add_sub s k None t \<lparr>bt_touched := rg_tick rg\<rparr> = add_sub s k None (t\<lparr>bt_touched := rg_tick rg\<rparr>)"
    by (simp add: add_sub_def)
  moreover have "put_topic n a (put_topic n b rg') = put_topic n a rg'" for a b rg'
    by (simp add: put_topic_def)
  moreover have "index_add s n (put_topic n (add_sub s k None (t\<lparr>bt_touched := rg_tick rg\<rparr>)) (rg\<lparr>rg_tick := rg_tick rg + 1\<rparr>)) =
     index_add s n (put_topic n (add_sub s k None (t\<lparr>bt_touched := rg_tick rg\<rparr>))
       (put_topic n (t\<lparr>bt_touched := rg_tick rg\<rparr>) (rg\<lparr>rg_tick := rg_tick rg + 1\<rparr>)))"
    by (simp add: put_topic_def)
  moreover have "consistent \<dots>"
    by (rule consistent_subscribed) (use c Some in \<open>auto intro: consistent_put_same\<close>)
  ultimately show ?thesis using Some by (simp add: subscribe_def)
qed (simp add: subscribe_def)

lemma consistent_release: "consistent rg \<Longrightarrow> consistent (release_session n s rg)"
  by (simp add: release_session_def consistent_cleanup consistent_unsubscribe)

lemma consistent_releases: "consistent rg \<Longrightarrow> consistent (fold (release_session n) ss rg)"
  by (induction ss arbitrary: rg) (simp_all add: consistent_release)

lemma consistent_fan_out: "consistent rg \<Longrightarrow> consistent (snd (fan_out_frame env n t f rg))"
  by (simp add: fan_out_frame_def case_prod_unfold Let_def consistent_releases)

lemma consistent_write: "consistent rg \<Longrightarrow> consistent (snd (write_topic_delta env n compute rg))"
proof (cases "topic_of rg n")
  case (Some t)
  assume c: "consistent rg"
  have "consistent (put_topic n (t\<lparr>bt_value := v, bt_version := w\<rparr>) (rg\<lparr>rg_next_frame_id := x\<rparr>))" for v w x
    by (rule consistent_put_same[of _ _ t]) (simp_all add: c Some)
  then show ?thesis using Some
    by (simp add: write_topic_delta_def Let_def case_prod_unfold consistent_touch consistent_fan_out)
qed (simp add: write_topic_delta_def)

lemma topic_of_remove [simp]: "topic_of (remove_topic n rg) m = (if m = n then None else topic_of rg m)"
  by (simp add: topic_of_def remove_topic_def delete_conv')

lemma remove_keeps [simp]:
  "rg_by_session (remove_topic n rg) = rg_by_session rg" "rg_sinks (remove_topic n rg) = rg_sinks rg"
  by (simp_all add: remove_topic_def)

lemma watches_remove: "idle_now n rg \<Longrightarrow> watches s m (remove_topic n rg) = watches s m rg"
  by (auto simp: watches_def idle_now_def idle_def split: option.splits)

lemma consistent_remove:
  assumes "consistent rg" "idle_now n rg"
  shows "consistent (remove_topic n rg)" (is "consistent ?rg")
proof (rule consistentI)
  show "distinct (map fst (rg_topics ?rg))"
    using consistentD(1)[OF assms(1)] by (simp add: remove_topic_def distinct_delete)
  show "topic_ok m t" if "topic_of ?rg m = Some t" for m t
    using that consistentD(2)[OF assms(1), of m] by (simp split: if_splits)
  show "indexed s m ?rg \<longleftrightarrow> watches s m ?rg \<noteq> None" for s m
    using consistentD(3)[OF assms(1), of s m] assms(2)
    by (simp add: indexed_def watches_remove)
qed

lemma consistent_drop_if_idle: "consistent rg \<Longrightarrow> consistent (snd (drop_if_idle n rg))"
  by (simp add: drop_if_idle_def consistent_remove)

lemma drop_candidates_step:
  "drop_candidates budget ((touched, n, bytes) # cs) footprint dropped rg =
     (if footprint \<le> budget then (dropped, rg)
      else if idle_now n rg then drop_candidates budget cs (footprint - bytes) (dropped + 1) (remove_topic n rg)
      else drop_candidates budget cs footprint dropped rg)"
  by (simp add: drop_if_idle_def)

declare drop_candidates.simps(2) [simp del] drop_candidates_step [simp]

lemma consistent_sweep: "consistent rg \<Longrightarrow> consistent (snd (drop_candidates budget cs footprint dropped rg))"
proof (induction cs arbitrary: footprint dropped rg)
  case (Cons c cs)
  then show ?case by (cases c) (simp add: consistent_remove)
qed simp

lemma consistent_budget: "consistent rg \<Longrightarrow> consistent (snd (enforce_topic_budget b rg))"
  by (simp add: enforce_topic_budget_def consistent_sweep)

lemma consistent_grant_one:
  assumes "consistent rg"
  shows "consistent (snd (grant_one env s k g rg))"
proof -
  let ?m = "topic_with_identity (tg_topic g) [] Static rg"
  have "consistent (index_add s (tg_topic g) (put_topic (tg_topic g) (add_sub s k (tg_columns g) (fst ?m)) (snd ?m)))"
    by (rule consistent_subscribed) (simp_all add: consistent_mint assms topic_of_mint)
  then show ?thesis by (simp add: grant_one_def static_topic_def Let_def case_prod_unfold)
qed

lemma consistent_granted: "consistent rg \<Longrightarrow> consistent (snd (subscribe_granted env s k gs rg))"
proof (induction gs arbitrary: rg)
  case (Cons g gs)
  then show ?case
    using Cons.IH[OF consistent_grant_one[OF Cons.prems, of env s k g]]
    by (simp add: case_prod_unfold Let_def)
qed simp

lemma consistent_external: "consistent rg \<Longrightarrow> consistent (snd (try_topic_external env n a b c v rg))"
  by (simp add: try_topic_external_def write_topic_def consistent_write consistent_mint split: option.split)

lemma consistent_step: "consistent rg \<Longrightarrow> consistent (reg_step env op rg)"
  by (cases op) (simp_all add: static_topic_def try_topic_def try_topic_partition_def consistent_mint
      consistent_try_mint consistent_external consistent_touch consistent_subscribe consistent_granted
      consistent_unsubscribe consistent_cleanup consistent_write consistent_drop_if_idle consistent_budget)

lemma consistent_run: "consistent rg \<Longrightarrow> consistent (reg_run env ops rg)"
  by (induction ops arbitrary: rg) (simp_all add: reg_run_def consistent_step)

lemma consistent_new: "consistent (registry_new sinks)"
  by (simp add: registry_new_def consistent_def topic_of_def indexed_def watches_def)

section \<open>Delivery\<close>

lemma watches_fields [simp]:
  "watches s m (rg\<lparr>rg_sinks := ks\<rparr>) = watches s m rg" "watches s m (rg\<lparr>rg_next_frame_id := y\<rparr>) = watches s m rg"
  "watches s m (rg\<lparr>rg_tick := x\<rparr>) = watches s m rg"
  by (simp_all add: watches_def)

lemma watches_put_same:
  "topic_of rg n = Some t \<Longrightarrow> bt_subscribers t' = bt_subscribers t \<Longrightarrow>
   watches s m (put_topic n t' rg) = watches s m rg"
  by (simp add: watches_def)

lemma watches_touch [simp]: "watches s m (snd (touch_topic n rg)) = watches s m rg"
  by (auto simp: touch_topic_def watches_def split: option.split)

lemma sinks_touch [simp]: "rg_sinks (snd (touch_topic n rg)) = rg_sinks rg"
  by (simp add: touch_topic_def split: option.split)

lemma watches_unsubscribe:
  "watches s' m (unsubscribe s n rg) = (if s' = s \<and> m = n then None else watches s' m rg)"
  by (auto simp: watches_def unsubscribe_def split: option.split)

lemma sinks_unsubscribe [simp]: "rg_sinks (unsubscribe s n rg) = rg_sinks rg"
  by (simp add: unsubscribe_def split: option.split)

lemma watches_release:
  "consistent rg \<Longrightarrow> watches s' m (release_session n s rg) = (if s' = s then None else watches s' m rg)"
  by (simp add: release_session_def consistent_unsubscribe watches_cleanup watches_unsubscribe)

lemma watches_releases:
  "consistent rg \<Longrightarrow>
   watches s m (fold (release_session n) ss rg) = (if s \<in> set ss then None else watches s m rg)"
  by (induction ss arbitrary: rg) (simp_all add: consistent_release watches_release)

lemma sinks_releases [simp]: "rg_sinks (fold (release_session n) ss rg) = rg_sinks rg"
  by (induction ss arbitrary: rg) (simp_all add: release_session_def)

lemma send_frames_accounts:
  "send_frames env t f subs sinks report gone = (report', gone', sinks') \<Longrightarrow>
   dl_delivered report' + drop_count report' + length gone = dl_delivered report + drop_count report + length subs + length gone \<and>
   (set gone = set (dl_dropped_full report) \<union> set (dl_dropped_closed report) \<longrightarrow>
    set gone' = set (dl_dropped_full report') \<union> set (dl_dropped_closed report'))"
  by (induction env t f subs sinks report gone rule: send_frames.induct)
    (auto simp: drop_count_def split: option.splits prod.splits send_result.splits)

lemma send_frames_Cons:
  obtains (kept) report1 sinks1 f' where
      "send_frames env t f ((s, k) # subs) sinks report gone = send_frames env t f subs sinks1 report1 gone"
      "frame_for env t f s = Some f'"
      "\<And>k'. ch_got (sinks1 k') = (if k' = k then ch_got (sinks k) @ [f'] else ch_got (sinks k'))"
    | (refused) report1 where
      "send_frames env t f ((s, k) # subs) sinks report gone = send_frames env t f subs sinks report1 (gone @ [s])"
proof (cases "frame_for env t f s")
  case None
  then show ?thesis by (intro refused) simp
next
  case (Some f')
  consider "ch_closed (sinks k)" | "\<not> ch_closed (sinks k)" "ch_room (sinks k) = 0"
    | "\<not> ch_closed (sinks k)" "ch_room (sinks k) \<noteq> 0" by blast
  then show ?thesis
  proof cases
    case 1 then show ?thesis using Some by (intro refused) (simp add: try_send_def)
  next
    case 2 then show ?thesis using Some by (intro refused) (simp add: try_send_def)
  next
    case 3
    then have "send_frames env t f ((s, k) # subs) sinks report gone = send_frames env t f subs
        (sinks(k := (sinks k)\<lparr>ch_room := ch_room (sinks k) - 1, ch_got := ch_got (sinks k) @ [f']\<rparr>))
        (report\<lparr>dl_delivered := dl_delivered report + 1\<rparr>) gone"
      using Some by (simp add: try_send_def)
    then show ?thesis by (rule kept[OF _ Some]) simp
  qed
qed

definition reached :: "broadcast_env \<Rightarrow> broadcast_topic \<Rightarrow> opcode_frame \<Rightarrow> session \<Rightarrow> nat \<Rightarrow>
    (session \<times> nat) list \<Rightarrow> (nat \<Rightarrow> channel) \<Rightarrow> session list \<Rightarrow> (nat \<Rightarrow> channel) \<Rightarrow> bool" where
  "reached env t f s k subs sinks rs sinks' \<longleftrightarrow>
     (if map_of subs s = Some k \<and> s \<notin> set rs
      then \<exists>f'. frame_for env t f s = Some f' \<and> ch_got (sinks' k) = ch_got (sinks k) @ [f']
      else ch_got (sinks' k) = ch_got (sinks k))"

lemma send_frames_sink:
  assumes "send_frames env t f subs sinks report gone = (report', gone', sinks')"
    "distinct (map fst subs)" "\<And>s'. (s', k) \<in> set subs \<Longrightarrow> s' = s"
  shows "\<exists>rs. gone' = gone @ rs \<and> set rs \<subseteq> fst ` set subs \<and> reached env t f s k subs sinks rs sinks'"
  using assms
proof (induction subs arbitrary: sinks report gone)
  case Nil
  then show ?case by (simp add: reached_def)
next
  case (Cons sk subs)
  obtain s1 k1 where sk: "sk = (s1, k1)" by (cases sk)
  have d: "s1 \<notin> fst ` set subs" and ds: "distinct (map fst subs)" using Cons.prems(2) sk by simp_all
  have own: "\<And>s'. (s', k) \<in> set subs \<Longrightarrow> s' = s" using Cons.prems(3) by simp
  have me: "k1 = k \<Longrightarrow> s1 = s" using Cons.prems(3)[of s1] sk by simp
  have tail: "s1 = s \<Longrightarrow> map_of subs s = None" using d by (simp add: map_of_eq_None_iff)
  show ?case
  proof (rule send_frames_Cons[of env t f s1 k1 subs sinks report gone])
    fix report1 sinks1 f'
    assume k: "send_frames env t f ((s1, k1) # subs) sinks report gone = send_frames env t f subs sinks1 report1 gone"
      "frame_for env t f s1 = Some f'"
      "\<And>k'. ch_got (sinks1 k') = (if k' = k1 then ch_got (sinks k1) @ [f'] else ch_got (sinks k'))"
    obtain rs where rs: "gone' = gone @ rs" "set rs \<subseteq> fst ` set subs" "reached env t f s k subs sinks1 rs sinks'"
      using Cons.IH[OF _ ds own] Cons.prems(1) k(1) sk by metis
    have "s1 = s \<Longrightarrow> s \<notin> set rs" using rs(2) d by auto
    then have "reached env t f s k (sk # subs) sinks rs sinks'"
      using rs(3) tail me k(2,3) sk by (cases "k1 = k"; cases "s1 = s") (auto simp: reached_def)
    with rs show ?thesis by auto
  next
    fix report1
    assume k: "send_frames env t f ((s1, k1) # subs) sinks report gone = send_frames env t f subs sinks report1 (gone @ [s1])"
    obtain rs where rs: "gone' = (gone @ [s1]) @ rs" "set rs \<subseteq> fst ` set subs" "reached env t f s k subs sinks rs sinks'"
      using Cons.IH[OF _ ds own] Cons.prems(1) k(1) sk by metis
    have "reached env t f s k (sk # subs) sinks (s1 # rs) sinks'"
      using rs(3) tail sk by (cases "s1 = s") (auto simp: reached_def)
    with rs sk show ?thesis by (intro exI[of _ "s1 # rs"]) auto
  qed
qed

text \<open>What a write that found its topic does.\<close>

definition written :: "string \<Rightarrow> (string \<Rightarrow> topic_transition) \<Rightarrow> broadcast_topic \<Rightarrow> registry \<Rightarrow> registry" where
  "written n compute t rg =
     put_topic n (t\<lparr>bt_value := tt_value (compute (bt_value t)), bt_version := bt_version t + 1\<rparr>)
       (rg\<lparr>rg_next_frame_id := rg_next_frame_id rg + 1\<rparr>)"

definition write_frame :: "(string \<Rightarrow> topic_transition) \<Rightarrow> broadcast_topic \<Rightarrow> registry \<Rightarrow> opcode_frame" where
  "write_frame compute t rg =
     \<lparr>fr_frame_id = rg_next_frame_id rg,
      fr_instructions = [chosen_instruction (bt_slot_id t) (compute (bt_value t))]\<rparr>"

lemma frame_for_same: "bt_projections t' = bt_projections t \<Longrightarrow> frame_for env t' f s = frame_for env t f s"
  by (simp add: frame_for_def split: list.split instruction.split)

lemma send_frames_same:
  assumes "bt_projections t' = bt_projections t"
  shows "send_frames env t' f subs sinks report gone = send_frames env t f subs sinks report gone"
proof (induction subs arbitrary: sinks report gone)
  case (Cons sk subs)
  then show ?case
    by (cases sk) (simp add: frame_for_same[OF assms] split: option.split prod.split send_result.split)
qed simp

lemma consistent_written: "consistent rg \<Longrightarrow> topic_of rg n = Some t \<Longrightarrow> consistent (written n compute t rg)"
  unfolding written_def by (rule consistent_put_same[of _ _ t]) simp_all

lemma watches_written: "topic_of rg n = Some t \<Longrightarrow> watches s m (written n compute t rg) = watches s m rg"
  by (simp add: written_def watches_def)

lemma write_topic_cases:
  assumes t: "topic_of rg n = Some t"
  obtains (unencoded) "\<not> br_encodes env (write_frame compute t rg)"
      "write_topic_delta env n compute rg = (Inl EncodeFailed, written n compute t rg)"
    | (sent) report gone sinks where "br_encodes env (write_frame compute t rg)"
      "send_frames env t (write_frame compute t rg) (bt_subscribers t) (rg_sinks rg) no_delivery [] = (report, gone, sinks)"
      "write_topic_delta env n compute rg = (Inr report,
         snd (touch_topic n (fold (release_session n) gone (written n compute t rg\<lparr>rg_sinks := sinks\<rparr>))))"
proof (cases "br_encodes env (write_frame compute t rg)")
  case False
  then show ?thesis using t
    by (intro unencoded) (simp_all add: write_topic_delta_def Let_def write_frame_def written_def)
next
  case True
  obtain report gone sinks where r: "send_frames env t (write_frame compute t rg) (bt_subscribers t) (rg_sinks rg)
      no_delivery [] = (report, gone, sinks)" using prod_cases3 by blast
  then have r': "send_frames env (t\<lparr>bt_value := v, bt_version := w\<rparr>) (write_frame compute t rg) (bt_subscribers t)
      (rg_sinks rg) no_delivery [] = (report, gone, sinks)" for v w
    by (subst send_frames_same[of _ t]) simp_all
  have fo: "fan_out_frame env n (t\<lparr>bt_value := v, bt_version := w\<rparr>) (write_frame compute t rg) (written n compute t rg) =
      (report, fold (release_session n) gone (written n compute t rg\<lparr>rg_sinks := sinks\<rparr>))" for v and w :: u64
    unfolding fan_out_frame_def using r' by (simp add: written_def)
  show ?thesis
    by (rule sent[OF True r]) (use t True fo in \<open>simp add: write_topic_delta_def Let_def write_frame_def written_def\<close>)
qed

section \<open>What a subscriber sees\<close>

text \<open>
  The client keeps one state per slot. A snapshot and a list instruction change it as the browser does;
  \<open>cl_view v c\<close> says that state \<open>c\<close> is a right view of value \<open>v\<close>. All three are parameters; the keyed list
  of the client runtime is one instance.
\<close>

record 'c client =
  cl_set :: "string \<Rightarrow> 'c \<Rightarrow> 'c"
  cl_patch :: "instruction \<Rightarrow> 'c \<Rightarrow> 'c"
  cl_view :: "string \<Rightarrow> 'c \<Rightarrow> bool"

fun client_apply :: "'c client \<Rightarrow> u32 \<Rightarrow> instruction \<Rightarrow> 'c \<Rightarrow> 'c" where
  "client_apply cl i (SlotSet j v) c = (if j = i then cl_set cl v c else c)"
| "client_apply cl i ins c = (if slot_of ins = i then cl_patch cl ins c else c)"

definition client_run :: "'c client \<Rightarrow> u32 \<Rightarrow> opcode_frame list \<Rightarrow> 'c \<Rightarrow> 'c" where
  "client_run cl i fs c = fold (client_apply cl i) (concat (map fr_instructions fs)) c"

definition cut :: "broadcast_env \<Rightarrow> string list option \<Rightarrow> string \<Rightarrow> string" where
  "cut env columns v = (case columns of None \<Rightarrow> v | Some cs \<Rightarrow> project_value (br_json env) cs v)"

text \<open>\<open>apply(previous, changes) == value\<close>: whatever a write at value \<open>v\<close> sends takes a right view of \<open>v\<close> to a
  right view of what it stores.\<close>

definition agrees :: "broadcast_env \<Rightarrow> 'c client \<Rightarrow> string list option \<Rightarrow> u32 \<Rightarrow> (string \<Rightarrow> topic_transition) \<Rightarrow>
    string \<Rightarrow> bool" where
  "agrees env cl columns i compute v \<longleftrightarrow>
     (\<forall>c. cl_view cl (cut env columns v) c \<longrightarrow>
        cl_view cl (cut env columns (tt_value (compute v)))
          (case list_instruction i (tt_update (compute v)) of
             Some op \<Rightarrow> cl_patch cl op c
           | None \<Rightarrow> cl_set cl (cut env columns (tt_value (compute v))) c))"

definition plain_write :: "string \<Rightarrow> string \<Rightarrow> topic_transition" where
  "plain_write v = (\<lambda>previous. \<lparr>tt_value = v, tt_update = No_rows\<rparr>)"

definition value_of :: "string \<Rightarrow> registry \<Rightarrow> string" where
  "value_of n rg = (case topic_of rg n of None \<Rightarrow> [] | Some t \<Rightarrow> bt_value t)"

fun op_agrees :: "broadcast_env \<Rightarrow> 'c client \<Rightarrow> string list option \<Rightarrow> string \<Rightarrow> reg_op \<Rightarrow> registry \<Rightarrow> bool" where
  "op_agrees env cl columns n (Op_write m compute) rg \<longleftrightarrow>
     (m = n \<longrightarrow> agrees env cl columns (broadcast_slot_id n) compute (value_of n rg))"
| "op_agrees env cl columns n (Op_external m s r u v) rg \<longleftrightarrow>
     (m = n \<longrightarrow> agrees env cl columns (broadcast_slot_id n) (plain_write v) (value_of n rg))"
| "op_agrees env cl columns n _ rg \<longleftrightarrow> True"

fun writes_agree :: "broadcast_env \<Rightarrow> 'c client \<Rightarrow> string list option \<Rightarrow> string \<Rightarrow> reg_op list \<Rightarrow> registry \<Rightarrow> bool" where
  "writes_agree env cl columns n [] rg \<longleftrightarrow> True"
| "writes_agree env cl columns n (op # ops) rg \<longleftrightarrow>
     op_agrees env cl columns n op rg \<and> writes_agree env cl columns n ops (reg_step env op rg)"

fun subscribes :: "session \<Rightarrow> nat \<Rightarrow> reg_op \<Rightarrow> bool" where
  "subscribes s k (Op_subscribe s' n k') \<longleftrightarrow> s' = s \<or> k' = k"
| "subscribes s k (Op_granted s' k' gs) \<longleftrightarrow> s' = s \<or> k' = k"
| "subscribes s k _ \<longleftrightarrow> False"

definition sees :: "session \<Rightarrow> string \<Rightarrow> registry \<Rightarrow> (nat \<times> string list option \<times> string) option" where
  "sees s n rg = (case topic_of rg n of None \<Rightarrow> None
     | Some t \<Rightarrow> map_option (\<lambda>k. (k, map_of (bt_projections t) s, bt_value t)) (map_of (bt_subscribers t) s))"

text \<open>A step that touches neither the subscriptions of \<open>s\<close>, but to end them, nor sink \<open>k\<close>.\<close>

definition keeps :: "session \<Rightarrow> nat \<Rightarrow> registry \<Rightarrow> registry \<Rightarrow> bool" where
  "keeps s k rg rg' \<longleftrightarrow> ch_got (rg_sinks rg' k) = ch_got (rg_sinks rg k) \<and>
     (\<forall>s' m. watches s' m rg' = Some k \<longrightarrow> watches s' m rg = Some k) \<and>
     (\<forall>m x. sees s m rg' = Some x \<longrightarrow> sees s m rg = Some x)"

lemma keeps_refl [simp]: "keeps s k rg rg"
  by (simp add: keeps_def)

lemma keeps_trans: "keeps s k a b \<Longrightarrow> keeps s k b c \<Longrightarrow> keeps s k a c"
  by (simp add: keeps_def)

lemma keepsI:
  assumes "ch_got (rg_sinks rg' k) = ch_got (rg_sinks rg k)"
    "\<And>m t'. topic_of rg' m = Some t' \<Longrightarrow> bt_subscribers t' \<noteq> [] \<Longrightarrow> \<exists>t. topic_of rg m = Some t \<and> bt_value t' = bt_value t \<and>
       (\<forall>s'. map_of (bt_subscribers t') s' = Some k \<longrightarrow> map_of (bt_subscribers t) s' = Some k) \<and>
       (\<forall>k'. map_of (bt_subscribers t') s = Some k' \<longrightarrow>
          map_of (bt_subscribers t) s = Some k' \<and> map_of (bt_projections t') s = map_of (bt_projections t) s)"
  shows "keeps s k rg rg'"
  unfolding keeps_def
proof (intro conjI allI impI assms(1))
  fix s' m assume "watches s' m rg' = Some k"
  then obtain t' where t': "topic_of rg' m = Some t'" "map_of (bt_subscribers t') s' = Some k"
    by (auto simp: watches_def split: option.splits)
  then have "bt_subscribers t' \<noteq> []" by auto
  then show "watches s' m rg = Some k" using assms(2)[OF t'(1)] t'(2) by (auto simp: watches_def)
next
  fix m x assume "sees s m rg' = Some x"
  then obtain t' k' where t': "topic_of rg' m = Some t'" "map_of (bt_subscribers t') s = Some k'"
    "x = (k', map_of (bt_projections t') s, bt_value t')"
    by (auto simp: sees_def split: option.splits)
  then have "bt_subscribers t' \<noteq> []" by auto
  then show "sees s m rg = Some x" using assms(2)[OF t'(1)] t' by (auto simp: sees_def)
qed

lemma keeps_touch [simp]: "keeps s k rg (snd (touch_topic n rg))"
  by (rule keepsI) (auto simp: touch_topic_def split: option.splits if_splits)

lemma keeps_mint [simp]: "keeps s k rg (snd (topic_with_identity n v ident rg))"
  by (rule keepsI) (auto simp: topic_with_identity_def Let_def split: option.splits if_splits)

lemma keeps_try_mint [simp]: "keeps s k rg (snd (try_mint n v ident rg))"
  using keeps_mint[of s k rg n v ident]
  by (auto simp: try_mint_def case_prod_unfold Let_def split: option.split)

lemma keeps_unsubscribe [simp]: "keeps s k rg (unsubscribe s' n rg)"
  by (rule keepsI) (auto simp: unsubscribe_def split: option.splits if_splits)

lemma keeps_cleanup [simp]: "keeps s k rg (cleanup_session s' rg)"
  by (rule keepsI) (auto split: if_splits)

lemma keeps_release [simp]: "keeps s k rg (release_session n s' rg)"
  unfolding release_session_def by (rule keeps_trans[OF keeps_unsubscribe keeps_cleanup])

lemma keeps_releases [simp]: "keeps s k rg (fold (release_session n) ss rg)"
proof (induction ss arbitrary: rg)
  case (Cons s' ss)
  then show ?case using keeps_trans[OF keeps_release Cons.IH] by simp
qed simp

lemma keeps_remove [simp]: "keeps s k rg (remove_topic n rg)"
  by (rule keepsI) (auto split: if_splits)

lemma keeps_sweep: "keeps s k rg (snd (drop_candidates budget cs footprint dropped rg))"
proof (induction cs arbitrary: footprint dropped rg)
  case (Cons c cs)
  then show ?case using keeps_trans[OF keeps_remove Cons.IH] by (cases c) simp
qed simp

lemma keeps_subscribed:
  assumes "topic_of rg n = Some t" "s' \<noteq> s" "k' \<noteq> k"
  shows "keeps s k rg (index_add s' n (put_topic n (add_sub s' k' c t) rg))"
  by (rule keepsI) (use assms in \<open>auto split: if_splits\<close>)

lemma keeps_index_add: "keeps s k rg rg' \<Longrightarrow> keeps s k rg (index_add s' n rg')"
  by (simp add: keeps_def watches_def sees_def)

lemma keeps_put_sub:
  assumes "topic_of rg n = Some t" "s' \<noteq> s" "k' \<noteq> k"
  shows "keeps s k rg (put_topic n (add_sub s' k' c t) rg)"
  by (rule keepsI) (use assms in \<open>auto split: if_splits\<close>)

lemma keeps_grant_one:
  assumes "s' \<noteq> s" "k' \<noteq> k"
  shows "keeps s k rg (snd (grant_one env s' k' g rg))"
proof -
  let ?m = "topic_with_identity (tg_topic g) [] Static rg"
  have "keeps s k rg (index_add s' (tg_topic g) (put_topic (tg_topic g) (add_sub s' k' (tg_columns g) (fst ?m)) (snd ?m)))"
    by (rule keeps_trans[OF keeps_mint]) (rule keeps_subscribed, simp_all add: topic_of_mint assms)
  then show ?thesis by (simp add: grant_one_def static_topic_def Let_def case_prod_unfold)
qed

lemma keeps_granted:
  "s' \<noteq> s \<Longrightarrow> k' \<noteq> k \<Longrightarrow> keeps s k rg (snd (subscribe_granted env s' k' gs rg))"
proof (induction gs arbitrary: rg)
  case (Cons g gs)
  then show ?case
    using keeps_trans[OF keeps_grant_one[OF Cons.prems] Cons.IH[OF Cons.prems]]
    by (simp add: case_prod_unfold Let_def)
qed simp

lemma keeps_subscribe:
  assumes "s' \<noteq> s" "k' \<noteq> k"
  shows "keeps s k rg (snd (subscribe s' n k' rg))"
proof (cases "topic_of rg n")
  case (Some t)
  show ?thesis
    using keeps_index_add[OF keeps_trans[OF keeps_put_sub[OF Some assms] keeps_touch]] Some
    by (simp add: subscribe_def)
qed (simp add: subscribe_def)

fun writes_topic :: "reg_op \<Rightarrow> bool" where
  "writes_topic (Op_write n compute) = True"
| "writes_topic (Op_external n a b c v) = True"
| "writes_topic _ = False"

lemma keeps_fields [simp]:
  "keeps s k rg (rg\<lparr>rg_sinks := (rg_sinks rg)(k' := (rg_sinks rg k')\<lparr>ch_room := x\<rparr>)\<rparr>)"
  "keeps s k rg (rg\<lparr>rg_sinks := (rg_sinks rg)(k' := (rg_sinks rg k')\<lparr>ch_closed := y\<rparr>)\<rparr>)"
  by (simp_all add: keeps_def sees_def)

lemma keeps_step: "\<not> writes_topic op \<Longrightarrow> \<not> subscribes s k op \<Longrightarrow> keeps s k rg (reg_step env op rg)"
  by (cases op) (simp_all add: static_topic_def try_topic_def try_topic_partition_def drop_if_idle_def
      enforce_topic_budget_def keeps_sweep keeps_subscribe keeps_granted del: fun_upd_apply)

text \<open>Sink \<open>k\<close> belongs to \<open>s\<close>, and of the topics \<open>s\<close> watches through it only \<open>n\<close> has \<open>n\<close>'s slot.\<close>

definition apart :: "session \<Rightarrow> nat \<Rightarrow> string \<Rightarrow> registry \<Rightarrow> bool" where
  "apart s k n rg \<longleftrightarrow> (\<forall>s' m. watches s' m rg = Some k \<longrightarrow> s' = s) \<and>
     (\<forall>m. watches s m rg = Some k \<and> broadcast_slot_id m = broadcast_slot_id n \<longrightarrow> m = n)"

lemma apart_mono: "(\<And>s' m. watches s' m rg' = Some k \<Longrightarrow> watches s' m rg = Some k) \<Longrightarrow> apart s k n rg \<Longrightarrow> apart s k n rg'"
  unfolding apart_def by blast

lemma sees_watches: "sees s n rg = Some (k, columns, v) \<Longrightarrow> watches s n rg = Some k"
  by (auto simp: sees_def watches_def split: option.splits)

lemma sees_put:
  "topic_of rg n = Some t \<Longrightarrow> bt_subscribers t' = bt_subscribers t \<Longrightarrow> bt_projections t' = bt_projections t \<Longrightarrow>
   sees s m (put_topic n t' rg) =
     (if m = n then map_option (\<lambda>(k, c, v). (k, c, bt_value t')) (sees s n rg) else sees s m rg)"
  by (simp add: sees_def option.map_comp comp_def)

lemma chosen_slot: "slot_of (chosen_instruction i tr) = i"
  by (cases "tt_update tr") (auto simp: chosen_instruction_def Let_def)

lemma client_other: "slot_of op \<noteq> i \<Longrightarrow> client_apply cl i op c = c"
  by (cases op) simp_all

text \<open>A frame of another slot passes by; one of the topic's own moves the client to the new value.\<close>

lemma frame_for_slot:
  assumes "frame_for env t (write_frame compute t rg) s = Some f'" "bt_slot_id t \<noteq> i"
  shows "client_run cl i [f'] c = c"
proof -
  let ?op = "chosen_instruction (bt_slot_id t) (compute (bt_value t))"
  have op: "slot_of ?op \<noteq> i" using assms(2) by (simp add: chosen_slot)
  show ?thesis
  proof (cases ?op)
    case (SlotSet j v)
    then show ?thesis using assms(1) op
      by (auto simp: frame_for_def write_frame_def client_run_def Let_def split: option.splits if_splits)
  qed (use assms(1) op in \<open>auto simp: frame_for_def write_frame_def client_run_def\<close>)
qed

lemma frame_for_own:
  assumes f: "frame_for env t (write_frame compute t rg) s = Some f'"
    and ag: "agrees env cl (map_of (bt_projections t) s) (bt_slot_id t) compute (bt_value t)"
    and view: "cl_view cl (cut env (map_of (bt_projections t) s) (bt_value t)) c"
  shows "cl_view cl (cut env (map_of (bt_projections t) s) (tt_value (compute (bt_value t))))
     (client_run cl (bt_slot_id t) [f'] c)"
proof (cases "list_instruction (bt_slot_id t) (tt_update (compute (bt_value t)))")
  case None
  then have "chosen_instruction (bt_slot_id t) (compute (bt_value t)) = SlotSet (bt_slot_id t) (tt_value (compute (bt_value t)))"
    by (simp add: chosen_instruction_def)
  then have "client_run cl (bt_slot_id t) [f'] c =
      cl_set cl (cut env (map_of (bt_projections t) s) (tt_value (compute (bt_value t)))) c"
    using f by (auto simp: frame_for_def write_frame_def client_run_def Let_def cut_def split: option.splits if_splits)
  then show ?thesis using ag view None by (simp add: agrees_def)
next
  case (Some op)
  then have op: "chosen_instruction (bt_slot_id t) (compute (bt_value t)) = op" "slot_of op = bt_slot_id t"
    using chosen_slot[of "bt_slot_id t" "compute (bt_value t)"] by (simp_all add: chosen_instruction_def)
  have "\<forall>j v. op \<noteq> SlotSet j v" using Some by (cases "tt_update (compute (bt_value t))") (auto simp: Let_def split: if_splits)
  then have "f' = write_frame compute t rg" "client_apply cl (bt_slot_id t) op = cl_patch cl op"
    using f op by (cases op; auto simp: frame_for_def write_frame_def)+
  then have "client_run cl (bt_slot_id t) [f'] c = cl_patch cl op c" using op by (simp add: client_run_def write_frame_def)
  then show ?thesis using ag view Some by (simp add: agrees_def)
qed

text \<open>One step, as the client of \<open>(s, n)\<close> follows it.\<close>

definition follows :: "broadcast_env \<Rightarrow> 'c client \<Rightarrow> session \<Rightarrow> nat \<Rightarrow> string \<Rightarrow>
    string list option \<Rightarrow> string \<Rightarrow> registry \<Rightarrow> registry \<Rightarrow> bool" where
  "follows env cl s k n columns v rg rg' \<longleftrightarrow>
     (\<exists>fs v'. ch_got (rg_sinks rg' k) = ch_got (rg_sinks rg k) @ fs \<and> sees s n rg' = Some (k, columns, v') \<and>
        (\<forall>c. cl_view cl (cut env columns v) c \<longrightarrow> cl_view cl (cut env columns v') (client_run cl (broadcast_slot_id n) fs c))) \<and>
     (\<forall>s' m. watches s' m rg' = Some k \<longrightarrow> watches s' m rg = Some k)"

lemma client_run_Nil [simp]: "client_run cl i [] c = c"
  by (simp add: client_run_def)

lemma client_run_append: "client_run cl i (fs @ gs) c = client_run cl i gs (client_run cl i fs c)"
  by (simp add: client_run_def)

lemma watches_sees: "watches s n rg = Some k \<Longrightarrow> \<exists>c v. sees s n rg = Some (k, c, v)"
  by (auto simp: watches_def sees_def split: option.splits)

lemma follows_keeps:
  assumes "keeps s k rg rg'" "watches s n rg' = Some k" "sees s n rg = Some (k, columns, v)"
  shows "follows env cl s k n columns v rg rg'"
proof -
  obtain c v' where s: "sees s n rg' = Some (k, c, v')" using watches_sees assms(2) by blast
  then have "c = columns" "v' = v" using assms(1,3) by (auto simp: keeps_def)
  with s assms(1) show ?thesis unfolding follows_def
    by (intro conjI exI[of _ "[]"] exI[of _ v]) (simp_all add: keeps_def)
qed

lemma follows_write:
  assumes c: "consistent rg" and ap: "apart s k n rg" and see: "sees s n rg = Some (k, columns, v)"
    and w: "watches s n (snd (write_topic_delta env m compute rg)) = Some k"
    and enc: "\<And>f. br_encodes env f"
    and ag: "m = n \<Longrightarrow> agrees env cl columns (broadcast_slot_id n) compute v"
  shows "follows env cl s k n columns v rg (snd (write_topic_delta env m compute rg))"
proof (cases "topic_of rg m")
  case None
  then show ?thesis using w see by (intro follows_keeps) (simp_all add: write_topic_delta_def)
next
  case (Some t)
  let ?f = "write_frame compute t rg"
  have ok: "topic_ok m t" using consistentD(2)[OF c Some] .
  then have slot: "bt_slot_id t = broadcast_slot_id m" and d: "distinct (map fst (bt_subscribers t))"
    by (simp_all add: topic_ok_def)
  have at: "watches s' m rg = map_of (bt_subscribers t) s'" for s' using Some by (simp add: watches_def)
  have own: "s' = s" if "(s', k) \<in> set (bt_subscribers t)" for s'
  proof -
    have "watches s' m rg = Some k" using that d at by simp
    then show ?thesis using ap unfolding apart_def by blast
  qed
  show ?thesis
  proof (rule write_topic_cases[OF Some, where env = env and compute = compute])
    fix report gone sinks
    assume send: "send_frames env t ?f (bt_subscribers t) (rg_sinks rg) no_delivery [] = (report, gone, sinks)"
      and r: "write_topic_delta env m compute rg = (Inr report,
         snd (touch_topic m (fold (release_session m) gone (written m compute t rg\<lparr>rg_sinks := sinks\<rparr>))))"
    let ?w = "written m compute t rg\<lparr>rg_sinks := sinks\<rparr>"
    let ?rg' = "snd (write_topic_delta env m compute rg)"
    have cw: "consistent ?w" by (simp add: consistent_written c Some)
    have k: "keeps s k ?w ?rg'" unfolding r snd_conv by (rule keeps_trans[OF keeps_releases keeps_touch])
    have gone: "s \<notin> set gone" using w r watches_releases[OF cw, of s n m gone] by (auto split: if_splits)
    have got: "reached env t ?f s k (bt_subscribers t) (rg_sinks rg) gone sinks"
      using send_frames_sink[OF send d own] by auto
    obtain c' v' where s': "sees s n ?rg' = Some (k, c', v')" using watches_sees w by blast
    then have sw: "sees s n ?w = Some (k, c', v')" using k by (auto simp: keeps_def)
    have "sees s n ?w = sees s n (written m compute t rg)" by (simp add: sees_def)
    then have val: "c' = columns \<and> v' = (if n = m then tt_value (compute (bt_value t)) else v)"
      using sw see Some by (simp add: written_def sees_put sees_def split: if_splits)
    have "\<exists>fs. ch_got (sinks k) = ch_got (rg_sinks rg k) @ fs \<and>
        (\<forall>c. cl_view cl (cut env columns v) c \<longrightarrow> cl_view cl (cut env columns v') (client_run cl (broadcast_slot_id n) fs c))"
    proof (cases "map_of (bt_subscribers t) s = Some k")
      case True
      then obtain f' where f': "frame_for env t ?f s = Some f'" "ch_got (sinks k) = ch_got (rg_sinks rg k) @ [f']"
        using got gone by (auto simp: reached_def)
      have "cl_view cl (cut env columns v') (client_run cl (broadcast_slot_id n) [f'] c)"
        if "cl_view cl (cut env columns v) c" for c
      proof (cases "n = m")
        case True
        then have "map_of (bt_projections t) s = columns" "bt_value t = v"
          using see Some \<open>map_of (bt_subscribers t) s = Some k\<close> by (auto simp: sees_def)
        then show ?thesis using frame_for_own[OF f'(1), of cl c] ag that val True slot by simp
      next
        case False
        have "watches s m rg = Some k" using at True by simp
        then have "broadcast_slot_id m \<noteq> broadcast_slot_id n" using ap False unfolding apart_def by blast
        then show ?thesis using frame_for_slot[OF f'(1), of "broadcast_slot_id n" cl c] slot val False that by simp
      qed
      with f'(2) show ?thesis by auto
    next
      case False
      then have "n \<noteq> m" using see Some by (auto simp: sees_def)
      with False got val show ?thesis by (auto simp: reached_def)
    qed
    moreover have "watches s' m' ?rg' = Some k \<longrightarrow> watches s' m' rg = Some k" for s' m'
      using k watches_written[OF Some] by (simp add: keeps_def)
    moreover have "ch_got (rg_sinks ?rg' k) = ch_got (sinks k)" using k by (simp add: keeps_def)
    ultimately show ?thesis using s' val unfolding follows_def by auto
  next
    assume "\<not> br_encodes env ?f"
    then show ?thesis using enc by simp
  qed
qed

lemma external_step:
  "snd (try_topic_external env n a b c v rg) =
     snd (write_topic_delta env n (plain_write v) rg) \<or>
   keeps s k rg (snd (try_topic_external env n a b c v rg))"
proof (cases "topic_of rg n")
  case None
  then show ?thesis by (simp add: try_topic_external_def split: option.split)
next
  case (Some t)
  then show ?thesis
    by (cases "bt_value t = v") (simp_all add: try_topic_external_def write_topic_def plain_write_def)
qed

lemma follows_step:
  assumes "consistent rg" "apart s k n rg" "sees s n rg = Some (k, columns, v)" "\<And>f. br_encodes env f"
    "op_agrees env cl columns n op rg" "\<not> subscribes s k op" "watches s n (reg_step env op rg) = Some k"
  shows "follows env cl s k n columns v rg (reg_step env op rg)"
proof (cases "writes_topic op")
  case False
  then show ?thesis using assms by (intro follows_keeps) (auto intro: keeps_step)
next
  case True
  have v: "value_of n rg = v" using assms(3) by (auto simp: sees_def value_of_def split: option.splits)
  from True consider m compute where "op = Op_write m compute" | m a b c v' where "op = Op_external m a b c v'"
    by (cases op) auto
  then show ?thesis
  proof cases
    case 1
    then show ?thesis using assms v by (auto intro: follows_write)
  next
    case 2
    then consider "reg_step env op rg = snd (write_topic_delta env m (plain_write v') rg)"
      | "keeps s k rg (reg_step env op rg)"
      using external_step[of env m a b c v' rg s k] by auto
    then show ?thesis
    proof cases
      case 1
      have "m = n \<Longrightarrow> agrees env cl columns (broadcast_slot_id n) (plain_write v') v"
        using assms(5) 2 v by simp
      then show ?thesis using assms(7) follows_write[OF assms(1-3) _ assms(4), of m "plain_write v'"] unfolding 1 by blast
    next
      case 2
      then show ?thesis using assms by (intro follows_keeps)
    qed
  qed
qed

lemma back_write:
  assumes "watches s m (snd (write_topic_delta env n compute rg)) = Some k"
  shows "watches s m rg = Some k"
proof (cases "topic_of rg n")
  case None
  then show ?thesis using assms by (simp add: write_topic_delta_def)
next
  case (Some t)
  show ?thesis
  proof (rule write_topic_cases[OF Some, where env = env and compute = compute])
    fix report gone sinks
    assume r: "write_topic_delta env n compute rg = (Inr report,
         snd (touch_topic n (fold (release_session n) gone (written n compute t rg\<lparr>rg_sinks := sinks\<rparr>))))"
    have "keeps s k (written n compute t rg\<lparr>rg_sinks := sinks\<rparr>) (snd (write_topic_delta env n compute rg))"
      unfolding r snd_conv by (rule keeps_trans[OF keeps_releases keeps_touch])
    then show ?thesis using assms watches_written[OF Some] by (simp add: keeps_def)
  next
    assume "write_topic_delta env n compute rg = (Inl EncodeFailed, written n compute t rg)"
    then show ?thesis using assms watches_written[OF Some] by simp
  qed
qed

lemma back_step:
  assumes "\<not> subscribes s k op" "watches s m (reg_step env op rg) = Some k"
  shows "watches s m rg = Some k"
proof (cases "writes_topic op")
  case False
  then show ?thesis using keeps_step[OF False assms(1)] assms(2) unfolding keeps_def by blast
next
  case True
  show ?thesis
  proof (cases op)
    case (Op_write n compute)
    then show ?thesis using assms(2) back_write[of s m env n compute rg k] by simp
  next
    case (Op_external n a b c v)
    then have w: "watches s m (snd (try_topic_external env n a b c v rg)) = Some k" using assms(2) by simp
    show ?thesis using external_step[of env n a b c v rg s k]
    proof
      assume "keeps s k rg (snd (try_topic_external env n a b c v rg))"
      then show ?thesis using w unfolding keeps_def by blast
    next
      assume e: "snd (try_topic_external env n a b c v rg) =
        snd (write_topic_delta env n (plain_write v) rg)"
      show ?thesis using w unfolding e by (rule back_write)
    qed
  qed (use True in simp_all)
qed

lemma back_run:
  "list_all (\<lambda>op. \<not> subscribes s k op) ops \<Longrightarrow> watches s m (reg_run env ops rg) = Some k \<Longrightarrow> watches s m rg = Some k"
proof (induction ops arbitrary: rg)
  case (Cons op ops)
  then have "watches s m (reg_step env op rg) = Some k" by (simp add: reg_run_def)
  then show ?case using back_step[of s k op m env rg] Cons.prems(1) by simp
qed (simp add: reg_run_def)

lemma follows_run:
  assumes "consistent rg" "apart s k n rg" "sees s n rg = Some (k, columns, v)" "\<And>f. br_encodes env f"
    "writes_agree env cl columns n ops rg" "list_all (\<lambda>op. \<not> subscribes s k op) ops"
    "watches s n (reg_run env ops rg) = Some k"
  shows "follows env cl s k n columns v rg (reg_run env ops rg)"
  using assms
proof (induction ops arbitrary: rg v)
  case Nil
  then show ?case by (simp add: reg_run_def follows_keeps)
next
  case (Cons op ops)
  let ?rg1 = "reg_step env op rg"
  have run: "reg_run env (op # ops) rg = reg_run env ops ?rg1" by (simp add: reg_run_def)
  have "watches s n ?rg1 = Some k"
    using back_run[of s k ops n env ?rg1] Cons.prems run by simp
  then have f1: "follows env cl s k n columns v rg ?rg1"
    using Cons.prems by (intro follows_step) simp_all
  then have earlier: "\<And>s' m. watches s' m ?rg1 = Some k \<Longrightarrow> watches s' m rg = Some k"
    by (simp add: follows_def)
  from f1 obtain fs v1 where v1: "ch_got (rg_sinks ?rg1 k) = ch_got (rg_sinks rg k) @ fs"
    "sees s n ?rg1 = Some (k, columns, v1)"
    "\<And>c. cl_view cl (cut env columns v) c \<Longrightarrow> cl_view cl (cut env columns v1) (client_run cl (broadcast_slot_id n) fs c)"
    by (auto simp: follows_def)
  have "apart s k n ?rg1" using apart_mono[OF earlier Cons.prems(2)] .
  then have "follows env cl s k n columns v1 ?rg1 (reg_run env ops ?rg1)"
    using Cons.prems v1(2) run by (intro Cons.IH) (simp_all add: consistent_step)
  then show ?case using v1 earlier unfolding run follows_def by (fastforce simp: client_run_append)
qed

section \<open>The seed of a subscription\<close>

lemma value_of_sees: "sees s n rg = Some (k, c, v) \<Longrightarrow> value_of n rg = v"
  by (auto simp: sees_def value_of_def split: option.splits)

lemma grant_one_eq:
  "snd (grant_one env s k g rg) =
     index_add s (tg_topic g) (put_topic (tg_topic g)
       (add_sub s k (tg_columns g) (fst (topic_with_identity (tg_topic g) [] Static rg)))
       (snd (topic_with_identity (tg_topic g) [] Static rg)))"
  by (simp add: grant_one_def static_topic_def Let_def case_prod_unfold)

lemma value_of_minted: "bt_value (fst (topic_with_identity n [] Static rg)) = value_of n rg"
  by (simp add: topic_with_identity_def Let_def value_of_def split: option.split)

lemma slot_of_minted:
  "consistent rg \<Longrightarrow> bt_slot_id (fst (topic_with_identity n v ident rg)) = broadcast_slot_id n"
  using consistentD(2)[of rg n]
  by (auto simp: topic_with_identity_def Let_def topic_ok_def split: option.split)

lemma value_of_grant_one [simp]: "value_of m (snd (grant_one env s k g rg)) = value_of m rg"
proof (cases "m = tg_topic g")
  case True
  then show ?thesis using value_of_minted[of m rg] unfolding grant_one_eq by (simp add: value_of_def)
next
  case False
  then show ?thesis unfolding grant_one_eq by (simp add: value_of_def topic_of_mint)
qed

lemma value_of_granted [simp]: "value_of m (snd (subscribe_granted env s k gs rg)) = value_of m rg"
  by (induction gs arbitrary: rg) (simp_all add: case_prod_unfold Let_def)

lemma grant_one_op:
  "consistent rg \<Longrightarrow> fst (grant_one env s k g rg) =
     (SlotSet (broadcast_slot_id (tg_topic g)) (cut env (tg_columns g) (value_of (tg_topic g) rg)), value_of (tg_topic g) rg)"
  using value_of_minted[of "tg_topic g" rg] slot_of_minted[of rg "tg_topic g" "[]" Static]
  by (simp add: grant_one_def static_topic_def Let_def case_prod_unfold cut_def split: option.split)

lemma granted_seed_eq:
  "consistent rg \<Longrightarrow> fst (subscribe_granted env s k gs rg) =
     \<lparr>gs_instructions = map (\<lambda>g. SlotSet (broadcast_slot_id (tg_topic g)) (cut env (tg_columns g) (value_of (tg_topic g) rg))) gs,
      gs_values = map (\<lambda>g. (tg_topic g, value_of (tg_topic g) rg)) gs\<rparr>"
proof (induction gs arbitrary: rg)
  case (Cons g gs)
  then show ?case
    using Cons.IH[OF consistent_grant_one[OF Cons.prems, of env s k g]] grant_one_op[OF Cons.prems, of env s k g]
    by (simp add: case_prod_unfold Let_def)
qed simp

lemma sees_grant_one:
  "sees s m (snd (grant_one env s k g rg)) =
     (if m = tg_topic g then Some (k, tg_columns g, value_of m rg) else sees s m rg)"
  unfolding grant_one_eq using value_of_minted[of m rg] by (auto simp: sees_def topic_of_mint)

lemma watches_grant_one:
  "watches s' m (snd (grant_one env s k g rg)) =
     (if m = tg_topic g \<and> s' = s then Some k else watches s' m rg)"
  unfolding grant_one_eq using watches_mint[of s' m "tg_topic g" "[]" Static rg]
  by (auto simp: watches_def topic_of_mint split: option.splits)

lemma sees_granted:
  "distinct (map tg_topic gs) \<Longrightarrow> g \<in> set gs \<Longrightarrow>
   sees s (tg_topic g) (snd (subscribe_granted env s k gs rg)) = Some (k, tg_columns g, value_of (tg_topic g) rg)"
proof (induction gs arbitrary: rg)
  case (Cons h gs)
  have other: "sees s m (snd (subscribe_granted env s k gs rg')) = sees s m rg'" if "m \<notin> tg_topic ` set gs" for m rg'
    using that by (induction gs arbitrary: rg') (simp_all add: case_prod_unfold Let_def sees_grant_one)
  show ?case
    using Cons.prems Cons.IH[of "snd (grant_one env s k h rg)"] other[of "tg_topic h" "snd (grant_one env s k h rg)"]
    by (auto simp: case_prod_unfold Let_def sees_grant_one)
qed simp

lemma watches_granted:
  "watches s' m (snd (subscribe_granted env s k gs rg)) =
     (if m \<in> tg_topic ` set gs \<and> s' = s then Some k else watches s' m rg)"
  by (induction gs arbitrary: rg) (auto simp: case_prod_unfold Let_def watches_grant_one)

lemma sinks_granted [simp]: "rg_sinks (snd (subscribe_granted env s k gs rg)) = rg_sinks rg"
  by (induction gs arbitrary: rg)
    (simp_all add: case_prod_unfold Let_def grant_one_eq mint_keeps)

lemma client_seed:
  assumes "g \<in> set gs" "distinct gs" "\<And>g'. g' \<in> set gs \<Longrightarrow> h g' = h g \<Longrightarrow> g' = g"
  shows "fold (client_apply cl (h g)) (map (\<lambda>g. SlotSet (h g) (w g)) gs) c = cl_set cl (w g) c"
proof -
  have "fold (client_apply cl (h g)) (map (\<lambda>g. SlotSet (h g) (w g)) gs) c =
      (if g \<in> set gs then cl_set cl (w g) c else c)"
    using assms(2,3) by (induction gs arbitrary: c) auto
  then show ?thesis using assms(1) by simp
qed

section \<open>Partition names\<close>

text \<open>A topic name splits at its last colon, so no two partitions share one.\<close>

lemma partition_topic_name_inj:
  assumes "partition_topic_name c k = Some n" "partition_topic_name c' k' = Some n"
  shows "c = c' \<and> k = k'"
proof -
  have colon: "CHR '':'' \<notin> set k" if "is_valid_partition_key k" for k
    using that by (auto simp: is_valid_partition_key_def list_all_iff is_ascii_alphanumeric_def
        is_ascii_digit_def is_ascii_alpha_def)
  have n: "n = c @ '':'' @ k" "n = c' @ '':'' @ k'" and v: "is_valid_partition_key k" "is_valid_partition_key k'"
    using assms by (auto simp: partition_topic_name_def split: if_splits)
  have cut: "takeWhile (\<lambda>x. x \<noteq> CHR '':'') (rev (c @ '':'' @ k)) = rev k" if "is_valid_partition_key k" for c k
    using colon[OF that] by (simp add: takeWhile_append2) (auto simp: takeWhile_append)
  have "rev k = rev k'" using cut[OF v(1), of c] cut[OF v(2), of c'] n by metis
  then show ?thesis using n by simp
qed

section \<open>Row changes\<close>

definition ident_of :: "slot_change \<Rightarrow> string \<times> string" where
  "ident_of c = (sg_key c, sg_payload c)"

definition change_of :: "int \<Rightarrow> string \<times> string \<Rightarrow> slot_change" where
  "change_of w r = \<lparr>sg_weight = w, sg_key = fst r, sg_payload = snd r\<rparr>"

definition net :: "slot_change list \<Rightarrow> string \<times> string \<Rightarrow> int" where
  "net cs r = sum_list (map sg_weight (filter (\<lambda>c. ident_of c = r) cs))"

definition firsts :: "'a list \<Rightarrow> 'a list" where
  "firsts xs = rev (remdups (rev xs))"

lemma firsts_snoc: "firsts (xs @ [x]) = (if x \<in> set xs then firsts xs else firsts xs @ [x])"
  by (simp add: firsts_def)

lemma firsts_simps [simp]: "set (firsts xs) = set xs" "distinct (firsts xs)" "firsts [] = []"
  by (simp_all add: firsts_def)

lemma change_of_ident [simp]:
  "(change_of w r)\<lparr>sg_weight := v\<rparr> = change_of v r"
  "change_of (sg_weight c) (ident_of c) = c" "ident_of (change_of w r) = r" "sg_weight (change_of w r) = w"
  by (simp_all add: change_of_def ident_of_def)

lemma same_record_iff: "same_record a b \<longleftrightarrow> ident_of a = ident_of b"
  by (simp add: same_record_def ident_of_def)

lemma add_change_map:
  "distinct rs \<Longrightarrow> add_change c (map (\<lambda>r. change_of (f r) r) rs) =
     (if ident_of c \<in> set rs
      then map (\<lambda>r. change_of (if r = ident_of c then i32_sat_add (f r) (sg_weight c) else f r) r) rs
      else map (\<lambda>r. change_of (f r) r) rs @ [c])"
proof (induction rs)
  case (Cons r rs)
  then show ?case by (auto simp: same_record_iff)
qed simp

lemma net_snoc: "net (cs @ [c]) r = (if r = ident_of c then net cs r + sg_weight c else net cs r)"
  by (auto simp: net_def)

lemma net_absent: "r \<notin> ident_of ` set cs \<Longrightarrow> net cs r = 0"
  by (induction cs) (auto simp: net_def)

lemma net_bound: "\<bar>net cs r\<bar> \<le> sum_list (map (\<lambda>c. \<bar>sg_weight c\<bar>) cs)"
  by (induction cs) (auto simp: net_def)

lemma fold_add_change:
  assumes "sum_list (map (\<lambda>c. \<bar>sg_weight c\<bar>) cs) < 2 ^ 31"
  shows "fold add_change cs [] = map (\<lambda>r. change_of (net cs r) r) (firsts (map ident_of cs))"
  using assms
proof (induction cs rule: rev_induct)
  case (snoc c cs)
  let ?r = "ident_of c"
  have b: "sum_list (map (\<lambda>c. \<bar>sg_weight c\<bar>) cs) + \<bar>sg_weight c\<bar> < 2 ^ 31" using snoc.prems by simp
  then have "\<bar>net cs ?r + sg_weight c\<bar> < 2 ^ 31" using net_bound[of cs ?r] by linarith
  then have sat: "i32_sat_add (net cs ?r) (sg_weight c) = net (cs @ [c]) ?r"
    by (simp add: i32_sat_add_def net_snoc)
  have IH: "fold add_change cs [] = map (\<lambda>r. change_of (net cs r) r) (firsts (map ident_of cs))"
    using snoc.IH b by simp
  show ?case
  proof (cases "?r \<in> set (map ident_of cs)")
    case True
    then show ?thesis using sat
      by (simp add: IH add_change_map firsts_snoc) (simp add: net_snoc)
  next
    case False
    then have "net (cs @ [c]) ?r = sg_weight c" by (simp add: net_snoc net_absent)
    then have "change_of (net (cs @ [c]) ?r) ?r = c" by simp
    with False show ?thesis by (auto simp: IH add_change_map firsts_snoc net_snoc image_iff)
  qed
qed simp

lemma coalesce_fold: "coalesce_changes cs = filter (\<lambda>c. sg_weight c \<noteq> 0) (fold add_change cs [])"
  by (cases cs rule: remdups_adj.cases) (auto simp: coalesce_changes_def)

section \<open>The sweep\<close>

lemma map_of_eq_topic: "distinct (map fst (rg_topics rg)) \<Longrightarrow> (n, t) \<in> set (rg_topics rg) \<longleftrightarrow> topic_of rg n = Some t"
  by (simp add: topic_of_def)

lemma evictable_bytes_remove:
  assumes "distinct (map fst (rg_topics rg))" "topic_of rg n = Some t" "is_evictable (bt_identity t)"
  shows "evictable_bytes rg = value_len t + evictable_bytes (remove_topic n rg)"
proof -
  have "sum_list (map (\<lambda>(n, t). value_len t) (filter (\<lambda>(n, t). is_evictable (bt_identity t)) ts)) =
      value_len t + sum_list (map (\<lambda>(n, t). value_len t) (filter (\<lambda>(n, t). is_evictable (bt_identity t)) (AList.delete n ts)))"
    if "distinct (map fst ts)" "map_of ts n = Some t" for ts
    using that assms(3)
  proof (induction ts)
    case (Cons a ts)
    obtain m u where a: "a = (m, u)" by (cases a)
    show ?case
    proof (cases "m = n")
      case True
      then have "AList.delete n ts = ts" using Cons.prems a by (auto simp: delete_id)
      then show ?thesis using Cons.prems a True by simp
    next
      case False
      then show ?thesis using Cons a by simp
    qed
  qed simp
  then show ?thesis using assms by (simp add: evictable_bytes_def remove_topic_def topic_of_def)
qed

abbreviation drop_all :: "(u64 \<times> string \<times> nat) list \<Rightarrow> registry \<Rightarrow> registry" where
  "drop_all cs rg \<equiv> fold (\<lambda>(touched, n, bytes). remove_topic n) cs rg"

lemma topic_of_drop_all: "topic_of (drop_all cs rg) m = (if m \<in> (\<lambda>(x, n, b). n) ` set cs then None else topic_of rg m)"
  by (induction cs arbitrary: rg) auto

lemma sweep_takes_prefix:
  assumes "consistent rg" "footprint = evictable_bytes rg" "distinct (map (\<lambda>(x, n, b). n) cs)"
    "\<And>x n b. (x, n, b) \<in> set cs \<Longrightarrow> \<exists>t. topic_of rg n = Some t \<and> idle t \<and> b = value_len t"
  shows "\<exists>j \<le> length cs. drop_candidates budget cs footprint dropped rg = (dropped + j, drop_all (take j cs) rg) \<and>
     (j = length cs \<or> evictable_bytes (drop_all (take j cs) rg) \<le> budget)"
  using assms
proof (induction cs arbitrary: footprint dropped rg)
  case (Cons c cs)
  obtain x n b where c: "c = (x, n, b)" by (cases c)
  show ?case
  proof (cases "footprint \<le> budget")
    case True
    then show ?thesis using c Cons.prems(2) by (intro exI[of _ 0]) simp
  next
    case False
    obtain t where t: "topic_of rg n = Some t" "idle t" "b = value_len t"
      using Cons.prems(4)[of x n b] c by auto
    then have i: "idle_now n rg" by (simp add: idle_now_def)
    let ?rg = "remove_topic n rg"
    have "evictable_bytes rg = b + evictable_bytes ?rg"
      using evictable_bytes_remove[OF consistentD(1)[OF Cons.prems(1)] t(1)] t by (simp add: idle_def)
    then have "footprint - b = evictable_bytes ?rg" using Cons.prems(2) by simp
    moreover have "\<exists>t. topic_of ?rg m = Some t \<and> idle t \<and> b' = value_len t" if "(y, m, b') \<in> set cs" for y m b'
    proof -
      have "m \<noteq> n" using that Cons.prems(3) c by force
      then show ?thesis using that Cons.prems(4)[of y m b'] by simp
    qed
    ultimately obtain j where "j \<le> length cs"
      "drop_candidates budget cs (footprint - b) (dropped + 1) ?rg = (dropped + 1 + j, drop_all (take j cs) ?rg)"
      "j = length cs \<or> evictable_bytes (drop_all (take j cs) ?rg) \<le> budget"
      using Cons.IH[OF consistent_remove[OF Cons.prems(1) i], of "footprint - b" "dropped + 1"] Cons.prems(3) c by auto
    then show ?thesis using False i c by (intro exI[of _ "Suc j"]) simp
  qed
qed simp

lemma candidates_set:
  assumes "distinct (map fst (rg_topics rg))"
  shows "(x, n, b) \<in> set (candidates rg) \<longleftrightarrow>
     (\<exists>t. topic_of rg n = Some t \<and> idle t \<and> b = value_len t \<and> x = bt_touched t)"
  using map_of_eq_topic[OF assms] by (auto simp: candidates_def image_iff)

lemma distinct_names_sort: "distinct (map h (sort_key f xs)) = distinct (map h xs)"
  by (simp add: distinct_map)

lemma candidates_distinct:
  assumes "distinct (map fst (rg_topics rg))"
  shows "distinct (map (\<lambda>(x, n, b). n) (candidates rg))"
proof -
  have "(\<lambda>(x, n, b). n) \<circ> (\<lambda>(n :: string, t). (bt_touched t, n, value_len t)) = fst"
    by (rule ext) auto
  then show ?thesis using assms
    by (simp add: candidates_def distinct_names_sort distinct_map_filter del: comp_apply)
qed

text \<open>An evicted topic was idle and no more recently used than any idle topic left.\<close>

definition coldest_first :: "registry \<Rightarrow> registry \<Rightarrow> bool" where
  "coldest_first rg rg' \<longleftrightarrow>
     (\<forall>n. topic_of rg' n = topic_of rg n \<or>
        topic_of rg' n = None \<and> (\<exists>t. topic_of rg n = Some t \<and> idle t \<and>
          (\<forall>m u. topic_of rg' m = Some u \<and> idle u \<longrightarrow> bt_touched t \<le> bt_touched u)))"

lemma sweep_coldest:
  assumes "consistent rg"
  shows "coldest_first rg (drop_all (take j (candidates rg)) rg)"
  unfolding coldest_first_def
proof
  fix n
  let ?cs = "candidates rg" and ?rg = "drop_all (take j (candidates rg)) rg"
  note mem = candidates_set[OF consistentD(1)[OF assms]]
  show "topic_of ?rg n = topic_of rg n \<or> topic_of ?rg n = None \<and> (\<exists>t. topic_of rg n = Some t \<and> idle t \<and>
      (\<forall>m u. topic_of ?rg m = Some u \<and> idle u \<longrightarrow> bt_touched t \<le> bt_touched u))"
  proof (cases "n \<in> (\<lambda>(x, n, b). n) ` set (take j ?cs)")
    case True
    then obtain x b where t: "(x, n, b) \<in> set (take j ?cs)" by auto
    then obtain t where tt: "topic_of rg n = Some t" "idle t" "x = bt_touched t"
      using mem in_set_takeD by metis
    have "bt_touched t \<le> bt_touched u" if u: "topic_of ?rg m = Some u" "idle u" for m u
    proof -
      have m: "topic_of rg m = Some u" "m \<notin> (\<lambda>(x, n, b). n) ` set (take j ?cs)"
        using u(1) by (auto simp: topic_of_drop_all split: if_splits)
      then have "(bt_touched u, m, value_len u) \<in> set ?cs" using mem u(2) by simp
      then have "(bt_touched u, m, value_len u) \<in> set (drop j ?cs)"
        using m(2) set_append[of "take j ?cs" "drop j ?cs"] by force
      moreover have "sorted (map fst (take j ?cs) @ map fst (drop j ?cs))"
        by (simp add: candidates_def flip: map_append)
      ultimately show ?thesis using t tt(3) unfolding sorted_append by force
    qed
    then have "\<forall>m u. topic_of ?rg m = Some u \<and> idle u \<longrightarrow> bt_touched t \<le> bt_touched u" by blast
    moreover have "topic_of ?rg n = None" using True by (simp add: topic_of_drop_all)
    ultimately show ?thesis using tt by blast
  qed (simp add: topic_of_drop_all)
qed

section \<open>Static topics and wire slots\<close>

definition is_static :: "string \<Rightarrow> registry \<Rightarrow> bool" where
  "is_static n rg = (case topic_of rg n of None \<Rightarrow> False | Some t \<Rightarrow> bt_identity t = Static)"

lemma static_put: "topic_of rg m = Some t \<Longrightarrow> bt_identity t' = bt_identity t \<Longrightarrow> is_static n (put_topic m t' rg) = is_static n rg"
  by (simp add: is_static_def)

lemma static_fields [simp]:
  "is_static n (rg\<lparr>rg_sinks := ks\<rparr>) = is_static n rg" "is_static n (rg\<lparr>rg_tick := x\<rparr>) = is_static n rg"
  "is_static n (rg\<lparr>rg_next_frame_id := y\<rparr>) = is_static n rg" "is_static n (index_add s m rg) = is_static n rg"
  by (simp_all add: is_static_def)

lemma static_touch [simp]: "is_static n (snd (touch_topic m rg)) = is_static n rg"
  by (auto simp: is_static_def touch_topic_def split: option.split)

lemma static_mint: "is_static n rg \<Longrightarrow> is_static n (snd (topic_with_identity m v ident rg))"
  by (auto simp: is_static_def topic_with_identity_def Let_def split: option.splits)

lemma static_try_mint: "is_static n rg \<Longrightarrow> is_static n (snd (try_mint m v ident rg))"
  using static_mint[of n rg m v ident]
  by (auto simp: try_mint_def case_prod_unfold Let_def split: option.split)

lemma static_unsubscribe [simp]: "is_static n (unsubscribe s m rg) = is_static n rg"
  by (auto simp: is_static_def unsubscribe_def split: option.split)

lemma static_cleanup [simp]: "is_static n (cleanup_session s rg) = is_static n rg"
  by (auto simp: is_static_def split: option.split)

lemma static_releases [simp]: "is_static n (fold (release_session m) ss rg) = is_static n rg"
  by (induction ss arbitrary: rg) (simp_all add: release_session_def)

lemma static_write [simp]: "is_static n (snd (write_topic_delta env m compute rg)) = is_static n rg"
  by (auto simp: write_topic_delta_def Let_def case_prod_unfold fan_out_frame_def static_put split: option.split)

lemma static_remove: "idle_now m rg \<Longrightarrow> is_static n rg \<Longrightarrow> is_static n (remove_topic m rg)"
  by (auto simp: is_static_def idle_now_def idle_def split: option.splits)

lemma static_sweep: "is_static n rg \<Longrightarrow> is_static n (snd (drop_candidates budget cs footprint dropped rg))"
proof (induction cs arbitrary: footprint dropped rg)
  case (Cons c cs)
  then show ?case by (cases c) (simp add: static_remove)
qed simp

lemma static_granted: "is_static n rg \<Longrightarrow> is_static n (snd (subscribe_granted env s k gs rg))"
proof (induction gs arbitrary: rg)
  case (Cons g gs)
  have "is_static n (snd (grant_one env s k g rg))"
    using static_mint[OF Cons.prems, of "tg_topic g" "[]" Static] unfolding grant_one_eq
    by (simp add: static_put topic_of_mint)
  then show ?case using Cons.IH by (simp add: case_prod_unfold Let_def)
qed simp

lemma static_step: "is_static n rg \<Longrightarrow> is_static n (reg_step env op rg)"
proof (cases op)
  case (Op_subscribe s m k)
  assume "is_static n rg"
  then show ?thesis using Op_subscribe by (auto simp: subscribe_def static_put split: option.split)
qed (simp_all add: static_topic_def try_topic_def try_topic_partition_def static_mint static_try_mint
    static_granted drop_if_idle_def static_remove enforce_topic_budget_def static_sweep
    try_topic_external_def write_topic_def split: option.split)

lemma static_run: "is_static n rg \<Longrightarrow> is_static n (reg_run env ops rg)"
  by (induction ops arbitrary: rg) (simp_all add: reg_run_def static_step)

text \<open>Every registered name holds the claim on its own slot.\<close>

definition slots_ok :: "registry \<Rightarrow> bool" where
  "slots_ok rg \<longleftrightarrow> (\<forall>n. topic_of rg n \<noteq> None \<longrightarrow> rg_slot_ids rg (broadcast_slot_id n) = Some n)"

text \<open>The two unguarded constructors, used only where their names are known to be free of collisions.\<close>

fun guarded :: "reg_op \<Rightarrow> registry \<Rightarrow> bool" where
  "guarded (Op_topic n v) rg \<longleftrightarrow> topic_of rg n \<noteq> None \<or> guard_slot_id n rg = None"
| "guarded (Op_granted s k gs) rg \<longleftrightarrow> list_all (\<lambda>g. topic_of rg (tg_topic g) \<noteq> None) gs"
| "guarded _ rg \<longleftrightarrow> True"

fun guarded_run :: "broadcast_env \<Rightarrow> reg_op list \<Rightarrow> registry \<Rightarrow> bool" where
  "guarded_run env [] rg \<longleftrightarrow> True"
| "guarded_run env (op # ops) rg \<longleftrightarrow> guarded op rg \<and> guarded_run env ops (reg_step env op rg)"

definition same_names :: "registry \<Rightarrow> registry \<Rightarrow> bool" where
  "same_names rg rg' \<longleftrightarrow> rg_slot_ids rg' = rg_slot_ids rg \<and> (\<forall>n. topic_of rg' n = None \<longleftrightarrow> topic_of rg n = None)"

lemma same_names_ok: "same_names rg rg' \<Longrightarrow> slots_ok rg \<Longrightarrow> slots_ok rg'"
  by (simp add: same_names_def slots_ok_def)

lemma same_names_refl [simp]: "same_names rg rg"
  by (simp add: same_names_def)

lemma same_names_trans: "same_names a b \<Longrightarrow> same_names b c \<Longrightarrow> same_names a c"
  by (simp add: same_names_def)

lemma same_names_put: "topic_of rg n \<noteq> None \<Longrightarrow> same_names rg (put_topic n t rg)"
  by (simp add: same_names_def)

lemma same_names_fields [simp]:
  "same_names rg (rg\<lparr>rg_sinks := ks\<rparr>)" "same_names rg (rg\<lparr>rg_tick := x\<rparr>)"
  "same_names rg (rg\<lparr>rg_next_frame_id := y\<rparr>)" "same_names rg (index_add s n rg)"
  by (simp_all add: same_names_def)

lemma same_names_touch [simp]: "same_names rg (snd (touch_topic n rg))"
  by (auto simp: same_names_def touch_topic_def split: option.split)

lemma same_names_unsubscribe [simp]: "same_names rg (unsubscribe s n rg)"
  by (auto simp: same_names_def unsubscribe_def split: option.split)

lemma same_names_cleanup [simp]: "same_names rg (cleanup_session s rg)"
  by (simp add: same_names_def)

lemma same_names_releases [simp]: "same_names rg (fold (release_session n) ss rg)"
proof (induction ss arbitrary: rg)
  case (Cons s ss)
  have "same_names rg (release_session n s rg)"
    unfolding release_session_def by (rule same_names_trans[OF same_names_unsubscribe same_names_cleanup])
  then show ?case using same_names_trans[OF _ Cons.IH] by simp
qed simp

lemma same_names_write [simp]: "same_names rg (snd (write_topic_delta env n compute rg))"
proof (cases "topic_of rg n")
  case (Some t)
  have w: "same_names rg (written n compute t rg\<lparr>rg_sinks := sinks\<rparr>)" for sinks
    using Some by (simp add: same_names_def written_def)
  show ?thesis
  proof (rule write_topic_cases[OF Some, where env = env and compute = compute])
    fix report gone sinks
    assume r: "write_topic_delta env n compute rg = (Inr report,
         snd (touch_topic n (fold (release_session n) gone (written n compute t rg\<lparr>rg_sinks := sinks\<rparr>))))"
    show ?thesis unfolding r snd_conv
      by (rule same_names_trans[OF w same_names_trans[OF same_names_releases same_names_touch]])
  next
    assume "write_topic_delta env n compute rg = (Inl EncodeFailed, written n compute t rg)"
    then show ?thesis using Some by (simp add: same_names_def written_def)
  qed
qed (simp add: write_topic_delta_def)

lemma slots_ok_mint:
  assumes "slots_ok rg" "topic_of rg n \<noteq> None \<or> guard_slot_id n rg = None"
  shows "slots_ok (snd (topic_with_identity n v ident rg))"
proof (cases "topic_of rg n")
  case None
  then have "guard_slot_id n rg = None" using assms(2) by simp
  then have free: "rg_slot_ids rg (broadcast_slot_id n) \<in> {None, Some n}"
    by (auto simp: guard_slot_id_def split: option.splits if_splits)
  then have ids: "rg_slot_ids (snd (topic_with_identity n v ident rg)) = (rg_slot_ids rg)(broadcast_slot_id n \<mapsto> n)"
    using None by (auto simp: topic_with_identity_def Let_def)
  have "broadcast_slot_id m \<noteq> broadcast_slot_id n" if "topic_of rg m \<noteq> None" for m
    using that assms(1) free None by (auto simp: slots_ok_def)
  then have "broadcast_slot_id m = broadcast_slot_id n \<Longrightarrow> topic_of rg m = None" for m by blast
  then show ?thesis using assms(1) ids unfolding slots_ok_def by (simp add: topic_of_mint)
qed (use assms in \<open>simp add: mint_existing\<close>)

lemma slots_ok_try_mint: "slots_ok rg \<Longrightarrow> slots_ok (snd (try_mint n v ident rg))"
  using slots_ok_mint[of rg n v ident]
  by (auto simp: try_mint_def case_prod_unfold Let_def split: option.split)

lemma slots_ok_external:
  assumes "slots_ok rg"
  shows "slots_ok (snd (try_topic_external env n a b c v rg))"
proof (cases "topic_of rg n")
  case None
  then show ?thesis using assms slots_ok_mint[OF assms, of n]
    by (simp add: try_topic_external_def split: option.split)
next
  case (Some t)
  have "slots_ok (snd (write_topic env n v rg))"
    unfolding write_topic_def by (rule same_names_ok[OF same_names_write assms])
  then show ?thesis using assms Some by (simp add: try_topic_external_def)
qed

lemma slots_ok_remove: "slots_ok rg \<Longrightarrow> slots_ok (remove_topic n rg)"
  by (auto simp: slots_ok_def remove_topic_def topic_of_def delete_conv')

lemma slots_ok_sweep: "slots_ok rg \<Longrightarrow> slots_ok (snd (drop_candidates budget cs footprint dropped rg))"
proof (induction cs arbitrary: footprint dropped rg)
  case (Cons c cs)
  then show ?case by (cases c) (simp add: slots_ok_remove)
qed simp

lemma same_names_granted:
  "list_all (\<lambda>g. topic_of rg (tg_topic g) \<noteq> None) gs \<Longrightarrow> same_names rg (snd (subscribe_granted env s k gs rg))"
proof (induction gs arbitrary: rg)
  case (Cons g gs)
  have one: "same_names rg (snd (grant_one env s k g rg))"
    using Cons.prems unfolding grant_one_eq by (auto simp: same_names_def mint_existing)
  then have "list_all (\<lambda>h. topic_of (snd (grant_one env s k g rg)) (tg_topic h) \<noteq> None) gs"
    using Cons.prems by (simp add: same_names_def)
  then show ?case using same_names_trans[OF one Cons.IH] by (simp add: case_prod_unfold Let_def)
qed simp

lemma same_names_subscribe: "same_names rg (snd (subscribe s n k rg))"
  by (auto simp: subscribe_def touch_topic_def same_names_def split: option.split)

lemma slots_ok_step: "slots_ok rg \<Longrightarrow> guarded op rg \<Longrightarrow> slots_ok (reg_step env op rg)"
proof (cases op)
  case (Op_granted s k gs)
  assume "slots_ok rg" "guarded op rg"
  then show ?thesis using Op_granted same_names_ok[OF same_names_granted] by simp
qed (auto simp: static_topic_def slots_ok_mint try_topic_def try_topic_partition_def slots_ok_try_mint
    slots_ok_external drop_if_idle_def slots_ok_remove enforce_topic_budget_def slots_ok_sweep
    intro: same_names_ok[OF same_names_touch] same_names_ok[OF same_names_subscribe]
      same_names_ok[OF same_names_unsubscribe] same_names_ok[OF same_names_cleanup]
      same_names_ok[OF same_names_write] same_names_ok[OF same_names_fields(1)])

lemma slots_ok_run: "slots_ok rg \<Longrightarrow> guarded_run env ops rg \<Longrightarrow> slots_ok (reg_run env ops rg)"
  by (induction ops arbitrary: rg) (simp_all add: reg_run_def slots_ok_step)

lemma slots_ok_new: "slots_ok (registry_new sinks)"
  by (simp add: slots_ok_def registry_new_def topic_of_def)

text \<open>A subscription that lands between the test and the removal of \<open>drop_if_idle\<close> succeeds and is lost: the
  session is listed for the topic, and no topic lists the session.\<close>

lemma idle_race_orphans:
  assumes "topic_of rg n = Some t"
  shows "fst (subscribe s n k rg) = Inr (bt_value t)"
    "indexed s n (remove_topic n (snd (subscribe s n k rg)))"
    "watches s n (remove_topic n (snd (subscribe s n k rg))) = None"
    "fst (write_topic_delta env n compute (remove_topic n (snd (subscribe s n k rg)))) = Inl (UnknownTopic n)"
  using assms by (simp_all add: subscribe_def indexed_def index_add_def watches_def write_topic_delta_def)

section \<open>Properties\<close>

text \<open>C3. A live subscriber shows what is stored. A connection that subscribes with a fresh session and
  a fresh channel applies the frames it is opened with and then every frame its channel receives. If the first
  give it a right view of the values at the subscription, then at any later moment, whatever other sessions, writers, evictions and refreshes have
  done meanwhile, either it has been dropped or its view of each of its topics is right for the value stored
  now, cut to its own columns: no write is missed, applied twice or out of order. It needs writers whose
  list opcode expresses the transition they store, an encoder that refuses no frame and topics of one page
  whose wire slots differ.\<close>

theorem subscribers_converge:
  assumes reach: "rg = reg_run env earlier (registry_new sinks)"
    and fresh: "\<And>n. watches s n rg = None" "\<And>s' n. watches s' n rg \<noteq> Some k"
    and gs: "distinct (map tg_topic gs)" "inj_on broadcast_slot_id (tg_topic ` set gs)" "g \<in> set gs"
    and sub: "subscribe_granted env s k gs rg = (seed, rg1)"
    and opened: "cl_view cl (cut env (tg_columns g) (value_of (tg_topic g) rg))
       (client_run cl (broadcast_slot_id (tg_topic g)) opening c)"
    and enc: "\<And>f. br_encodes env f"
    and ops: "writes_agree env cl (tg_columns g) (tg_topic g) ops rg1" "list_all (\<lambda>op. \<not> subscribes s k op) ops"
    and live: "watches s (tg_topic g) (reg_run env ops rg1) = Some k"
  shows "\<exists>fs. ch_got (rg_sinks (reg_run env ops rg1) k) = ch_got (rg_sinks rg k) @ fs \<and>
     cl_view cl (cut env (tg_columns g) (value_of (tg_topic g) (reg_run env ops rg1)))
       (client_run cl (broadcast_slot_id (tg_topic g)) (opening @ fs) c)"
proof -
  let ?n = "tg_topic g"
  have rg: "consistent rg" unfolding reach by (rule consistent_run[OF consistent_new])
  have rg1: "rg1 = snd (subscribe_granted env s k gs rg)" using sub by simp
  have c1: "consistent rg1" using consistent_granted[OF rg] rg1 by simp
  have see: "sees s ?n rg1 = Some (k, tg_columns g, value_of ?n rg)"
    using sees_granted[OF gs(1,3)] rg1 by simp
  have w1: "watches s' m rg1 = Some k \<longleftrightarrow> m \<in> tg_topic ` set gs \<and> s' = s" for s' m
    using fresh rg1 by (auto simp: watches_granted)
  have "apart s k ?n rg1"
    using gs(2,3) by (auto simp: apart_def w1 dest: inj_onD)
  from follows_run[OF c1 this see enc ops live] obtain fs v' where
    f: "ch_got (rg_sinks (reg_run env ops rg1) k) = ch_got (rg_sinks rg1 k) @ fs"
      "sees s ?n (reg_run env ops rg1) = Some (k, tg_columns g, v')"
      "\<And>c. cl_view cl (cut env (tg_columns g) (value_of ?n rg)) c \<Longrightarrow>
         cl_view cl (cut env (tg_columns g) v') (client_run cl (broadcast_slot_id ?n) fs c)"
    by (auto simp: follows_def)
  show ?thesis using f(1) f(3)[OF opened] value_of_sees[OF f(2)] rg1
    by (intro exI[of _ fs]) (simp add: client_run_append)
qed

text \<open>C34. The registry's tables agree. Whatever is registered, subscribed, written, dropped, evicted or
  cleaned up, and in whatever order, a session is in a topic's subscriber table exactly when the topic is
  in the session's reverse index, columns are kept only for subscribers, no name is held twice, and every
  topic has the wire slot of its name.\<close>

theorem registry_consistent: "consistent (reg_run env ops (registry_new sinks))"
  by (rule consistent_run[OF consistent_new])

text \<open>C22. A refused send drops the whole session. When a write is delivered, every subscriber of the
  topic is counted once, as reached or as dropped; a dropped session is subscribed to no topic at all
  afterwards, so its sink is released and its client reconnects, and every other session keeps all its
  subscriptions.\<close>

theorem refused_send_drops_everywhere:
  assumes "rg = reg_run env ops (registry_new sinks)"
    and "write_topic_delta env n compute rg = (Inr report, rg')"
  shows "dl_delivered report + drop_count report = subscriber_count n rg \<and>
     (\<forall>s m. watches s m rg' =
        (if s \<in> set (dl_dropped_full report @ dl_dropped_closed report) then None else watches s m rg))"
proof -
  have c: "consistent rg" unfolding assms(1) by (rule consistent_run[OF consistent_new])
  obtain t where t: "topic_of rg n = Some t"
    using assms(2) by (cases "topic_of rg n") (auto simp: write_topic_delta_def)
  show ?thesis
  proof (rule write_topic_cases[OF t, where env = env and compute = compute])
    fix report' gone sinks'
    assume send: "send_frames env t (write_frame compute t rg) (bt_subscribers t) (rg_sinks rg) no_delivery [] = (report', gone, sinks')"
      and r: "write_topic_delta env n compute rg = (Inr report',
         snd (touch_topic n (fold (release_session n) gone (written n compute t rg\<lparr>rg_sinks := sinks'\<rparr>))))"
    have rep: "report' = report" "rg' = snd (touch_topic n (fold (release_session n) gone (written n compute t rg\<lparr>rg_sinks := sinks'\<rparr>)))"
      using r assms(2) by simp_all
    have acc: "dl_delivered report + drop_count report = subscriber_count n rg"
      "set gone = set (dl_dropped_full report @ dl_dropped_closed report)"
      using send_frames_accounts[OF send] rep t by (simp_all add: no_delivery_def drop_count_def subscriber_count_def)
    have cw: "consistent (written n compute t rg\<lparr>rg_sinks := sinks'\<rparr>)" by (simp add: consistent_written c t)
    show ?thesis using acc rep watches_releases[OF cw] watches_written[OF t] by simp
  next
    assume "write_topic_delta env n compute rg = (Inl EncodeFailed, written n compute t rg)"
    then show ?thesis using assms(2) by simp
  qed
qed

text \<open>Compacting a delta keeps what it says. The compacted list has, in the order of first
  appearance, one change for each \<open>(key, payload)\<close> record whose weights do not cancel, carrying their
  exact sum, while the weights stay within an \<open>i32\<close>; so the retraction and the insertion of an updated
  row, which share a key but not a payload, are never cancelled.\<close>

theorem coalesce_exact:
  assumes "sum_list (map (\<lambda>c. \<bar>sg_weight c\<bar>) cs) < 2 ^ 31"
  shows "coalesce_changes cs =
     map (\<lambda>r. change_of (net cs r) r) (filter (\<lambda>r. net cs r \<noteq> 0) (firsts (map ident_of cs)))"
  by (simp add: coalesce_fold fold_add_change[OF assms] filter_map comp_def)

theorem coalesce_exact_witness:
  "sum_list (map (\<lambda>c. \<bar>sg_weight c\<bar>) [change_of (- 1) (''a'', ''old''), change_of 1 (''a'', ''new'')]) < 2 ^ 31 \<and>
   coalesce_changes [change_of (- 1) (''a'', ''old''), change_of 1 (''a'', ''new'')] =
     [change_of (- 1) (''a'', ''old''), change_of 1 (''a'', ''new'')]"
proof -
  let ?cs = "[change_of (- 1) (''a'', ''old''), change_of 1 (''a'', ''new'')]"
  have b: "sum_list (map (\<lambda>c. \<bar>sg_weight c\<bar>) ?cs) < 2 ^ 31" by simp
  show ?thesis unfolding coalesce_exact[OF b] using b by (simp add: firsts_def net_def)
qed

text \<open>The byte budget evicts the coldest idle topics and stops. A sweep removes only topics that can
  be derived again and that nobody watches, each no more recently used than any idle topic it leaves; every
  other topic is untouched; and when it ends the evictable bytes are within the budget or no idle topic is
  left.\<close>

theorem sweep_evicts_coldest:
  "let rg = reg_run env ops (registry_new sinks); rg' = snd (enforce_topic_budget budget rg) in
   coldest_first rg rg' \<and> (evictable_bytes rg' \<le> budget \<or> (\<forall>n. \<not> idle_now n rg'))"
proof -
  define rg where "rg = reg_run env ops (registry_new sinks)"
  have c: "consistent rg" unfolding rg_def by (rule consistent_run[OF consistent_new])
  let ?rg' = "snd (enforce_topic_budget budget rg)" and ?cs = "candidates rg"
  have "coldest_first rg ?rg' \<and> (evictable_bytes ?rg' \<le> budget \<or> (\<forall>n. \<not> idle_now n ?rg'))"
  proof (cases "evictable_bytes rg \<le> budget")
    case True
    then show ?thesis by (simp add: enforce_topic_budget_def coldest_first_def)
  next
    case False
    note mem = candidates_set[OF consistentD(1)[OF c]]
    have cand: "\<exists>t. topic_of rg n = Some t \<and> idle t \<and> b = value_len t" if "(x, n, b) \<in> set ?cs" for x n b
      using that mem by blast
    have "\<exists>j \<le> length ?cs. drop_candidates budget ?cs (evictable_bytes rg) 0 rg = (0 + j, drop_all (take j ?cs) rg) \<and>
       (j = length ?cs \<or> evictable_bytes (drop_all (take j ?cs) rg) \<le> budget)"
      by (rule sweep_takes_prefix[OF c refl candidates_distinct[OF consistentD(1)[OF c]]]) (rule cand)
    then obtain j where j: "drop_candidates budget ?cs (evictable_bytes rg) 0 rg = (0 + j, drop_all (take j ?cs) rg)"
      "j = length ?cs \<or> evictable_bytes (drop_all (take j ?cs) rg) \<le> budget" by blast
    have after: "?rg' = drop_all (take j ?cs) rg" using False j(1) by (simp add: enforce_topic_budget_def)
    have "\<not> idle_now n (drop_all ?cs rg)" for n
    proof (cases "topic_of rg n")
      case (Some t)
      have "idle t \<Longrightarrow> (bt_touched t, n, value_len t) \<in> set ?cs" using Some mem by simp
      then have "idle t \<Longrightarrow> n \<in> (\<lambda>(x, n, b). n) ` set ?cs" by force
      then show ?thesis using Some by (auto simp: idle_now_def topic_of_drop_all)
    qed (simp add: idle_now_def topic_of_drop_all)
    then show ?thesis using j(2) sweep_coldest[OF c, of j] unfolding after by auto
  qed
  then show ?thesis by (simp add: rg_def Let_def)
qed

text \<open>Names minted through the guard never share a wire slot. While every new name goes through
  \<open>try_topic\<close>, \<open>try_topic_partition\<close> or \<open>try_topic_external\<close>, or is registered directly with its slot
  free, two registered topics always have different slots, evictions included; so no subscriber of
  one receives the frames of the other.\<close>

theorem guarded_slots_distinct:
  assumes "guarded_run env ops (registry_new sinks)" "rg = reg_run env ops (registry_new sinks)"
    and "topic_of rg n = Some t" "topic_of rg m = Some u" "n \<noteq> m"
  shows "bt_slot_id t \<noteq> bt_slot_id u"
proof -
  have ok: "slots_ok rg" unfolding assms(2) by (rule slots_ok_run[OF slots_ok_new assms(1)])
  have c: "consistent rg" unfolding assms(2) by (rule consistent_run[OF consistent_new])
  have "rg_slot_ids rg (bt_slot_id t) = Some n" "rg_slot_ids rg (bt_slot_id u) = Some m"
    using ok consistentD(2)[OF c assms(3)] consistentD(2)[OF c assms(4)] assms(3,4)
    by (simp_all add: slots_ok_def topic_ok_def)
  then show ?thesis using assms(5) by auto
qed

text \<open>A topic evicted between its mint and its subscription becomes permanent and empty. The page path
  mints a partition with its rows and subscribes in a second call; if the byte budget drops the idle topic
  in between, \<open>subscribe_granted\<close> registers the name again through the static constructor with no value:
  the client is seeded with nothing, a later mint returns the empty topic instead of the rows it was given,
  and no sweep ever removes it.\<close>

theorem evicted_then_subscribed:
  assumes "rg = reg_run env earlier (registry_new sinks)" "idle_now n rg"
    and "subscribe_granted env s k [whole_grant n] (snd (drop_if_idle n rg)) = (seed, rg')"
  shows "gs_instructions seed = [SlotSet (broadcast_slot_id n) []] \<and>
     is_static n (reg_run env ops rg') \<and>
     map_option bt_value (case fst (try_topic_partition n c key rows' rg') of Inl e \<Rightarrow> None | Inr t \<Rightarrow> Some t) = Some []"
proof -
  have c: "consistent rg" unfolding assms(1) by (rule consistent_run[OF consistent_new])
  let ?rg = "remove_topic n rg"
  have rg: "snd (drop_if_idle n rg) = ?rg" using assms(2) by (simp add: drop_if_idle_def)
  have none: "topic_of ?rg n = None" and cr: "consistent ?rg"
    using assms(2) c by (simp_all add: consistent_remove)
  have rg': "rg' = snd (subscribe_granted env s k [whole_grant n] ?rg)" and
    seed: "seed = fst (subscribe_granted env s k [whole_grant n] ?rg)" using assms(3) rg by simp_all
  have "topic_of rg' n = Some (add_sub s k None (fst (topic_with_identity n [] Static ?rg)))"
    unfolding rg' by (simp add: case_prod_unfold Let_def grant_one_eq whole_grant_def)
  moreover have "bt_identity (fst (topic_with_identity n [] Static ?rg)) = Static"
    using none by (simp add: topic_with_identity_def Let_def)
  ultimately have "is_static n rg'" "map_option bt_value (topic_of rg' n) = Some []"
    using none by (simp_all add: is_static_def value_of_minted value_of_def)
  moreover have "gs_instructions seed = [SlotSet (broadcast_slot_id n) []]"
    unfolding seed granted_seed_eq[OF cr] using none by (simp add: whole_grant_def cut_def value_of_def)
  ultimately show ?thesis using static_run
    by (auto simp: try_topic_partition_def try_mint_def)
qed

text \<open>A page of one list topic, used to witness the properties: a codec that parses nothing, sinks with
  room for two frames, and a client that appends inserted rows.\<close>

definition page_env :: broadcast_env where
  "page_env = \<lparr>br_encodes = (\<lambda>f. True), br_json = \<lparr>jc_text = (\<lambda>j. []), jc_parse = (\<lambda>s. None), jc_null = JNull\<rparr>\<rparr>"

definition page_sinks :: "nat \<Rightarrow> channel" where
  "page_sinks k = \<lparr>ch_room = 2, ch_closed = False, ch_got = []\<rparr>"

fun page_patch :: "instruction \<Rightarrow> string \<Rightarrow> string" where
  "page_patch (SlotInsert i b rs) c = c @ concat (map rw_payload rs)"
| "page_patch _ c = c"

definition page_client :: "string client" where
  "page_client = \<lparr>cl_set = (\<lambda>v c. v), cl_patch = page_patch, cl_view = (\<lambda>v c. c = v)\<rparr>"

definition append_row :: "string \<Rightarrow> string \<Rightarrow> topic_transition" where
  "append_row x v = \<lparr>tt_value = v @ x, tt_update = Insert None [\<lparr>rw_key = x, rw_payload = x\<rparr>]\<rparr>"

lemma append_row_agrees: "agrees page_env page_client columns i (append_row x) v"
  by (simp add: agrees_def append_row_def cut_def project_value_def page_env_def page_client_def split: option.split)

theorem subscribers_converge_witness:
  "\<exists>rg rg1 seed ops fs. rg = reg_run page_env [Op_topic ''t'' ''a''] (registry_new page_sinks) \<and>
     subscribe_granted page_env 7 3 [whole_grant ''t''] rg = (seed, rg1) \<and>
     ops = [Op_write ''t'' (append_row ''b''), Op_budget 0, Op_write ''t'' (append_row ''c'')] \<and>
     ch_got (rg_sinks (reg_run page_env ops rg1) 3) = ch_got (rg_sinks rg 3) @ fs \<and> length fs = 2 \<and>
     client_run page_client (broadcast_slot_id ''t'')
       (\<lparr>fr_frame_id = 0, fr_instructions = gs_instructions seed\<rparr> # fs) [] = ''abc''"
proof -
  let ?rg = "reg_run page_env [Op_topic ''t'' ''a''] (registry_new page_sinks)"
  let ?ops = "[Op_write ''t'' (append_row ''b''), Op_budget 0, Op_write ''t'' (append_row ''c'')]"
  let ?g = "whole_grant ''t''"
  obtain seed rg1 where sub: "subscribe_granted page_env 7 3 [?g] ?rg = (seed, rg1)"
    by (cases "subscribe_granted page_env 7 3 [?g] ?rg")
  have rg1: "rg1 = snd (subscribe_granted page_env 7 3 [?g] ?rg)" using sub by simp
  have fresh: "watches s n ?rg = None" for s n
    by (simp add: reg_run_def registry_new_def static_topic_def) (simp add: watches_def topic_of_def)
  have "seed = fst (subscribe_granted page_env 7 3 [?g] ?rg)" using sub by simp
  then have "gs_instructions seed = [SlotSet (broadcast_slot_id ''t'') (value_of ''t'' ?rg)]"
    unfolding granted_seed_eq[OF consistent_run[OF consistent_new]] by (simp add: whole_grant_def cut_def)
  then have seed0: "client_run page_client (broadcast_slot_id ''t'')
      [\<lparr>fr_frame_id = 0, fr_instructions = gs_instructions seed\<rparr>] [] = cut page_env None (value_of ''t'' ?rg)"
    by (simp add: client_run_def page_client_def cut_def)
  have view: "cl_view page_client v c \<longleftrightarrow> c = v" for v c by (simp add: page_client_def)
  have ag: "writes_agree page_env page_client (tg_columns ?g) (tg_topic ?g) ?ops rg1"
    by (simp add: append_row_agrees)
  have quiet: "list_all (\<lambda>op. \<not> subscribes 7 3 op) ?ops" by simp
  note defs = reg_run_def registry_new_def static_topic_def topic_with_identity_def topic_of_def
    put_topic_def grant_one_def index_add_def add_sub_def whole_grant_def write_topic_delta_def
    append_row_def page_env_def page_sinks_def Let_def fan_out_frame_def try_send_def frame_for_def
    chosen_instruction_def no_delivery_def touch_topic_def enforce_topic_budget_def evictable_bytes_def
  have fin: "reg_run page_env ?ops rg1 = snd (write_topic_delta page_env ''t'' (append_row ''c'')
      (snd (enforce_topic_budget 0 (snd (write_topic_delta page_env ''t'' (append_row ''b'') rg1)))))"
    by (simp add: reg_run_def)
  have live: "watches 7 ''t'' (reg_run page_env ?ops rg1) = Some 3"
    unfolding fin rg1 by (simp add: defs watches_def)
  have val: "value_of ''t'' (reg_run page_env ?ops rg1) = ''abc''"
    unfolding fin rg1 by (simp add: defs value_of_def)
  have two: "length (ch_got (rg_sinks (reg_run page_env ?ops rg1) 3)) = 2"
    unfolding fin rg1 by (simp add: defs)
  have enc: "br_encodes page_env f" for f by (simp add: page_env_def)
  have "\<exists>fs. ch_got (rg_sinks (reg_run page_env ?ops rg1) 3) = ch_got (rg_sinks ?rg 3) @ fs \<and>
     cl_view page_client (cut page_env (tg_columns ?g) (value_of (tg_topic ?g) (reg_run page_env ?ops rg1)))
       (client_run page_client (broadcast_slot_id (tg_topic ?g))
         ([\<lparr>fr_frame_id = 0, fr_instructions = gs_instructions seed\<rparr>] @ fs) [])"
    by (rule subscribers_converge[OF refl _ _ _ _ _ sub _ enc ag quiet])
      (use fresh live in \<open>simp_all add: whole_grant_def view seed0\<close>)
  then obtain fs where "ch_got (rg_sinks (reg_run page_env ?ops rg1) 3) = ch_got (rg_sinks ?rg 3) @ fs"
    "client_run page_client (broadcast_slot_id ''t'')
       (\<lparr>fr_frame_id = 0, fr_instructions = gs_instructions seed\<rparr> # fs) [] = ''abc''"
    using val by (auto simp: whole_grant_def cut_def view)
  moreover have "ch_got (rg_sinks ?rg 3) = []" by (simp add: defs)
  ultimately show ?thesis using two sub by (intro exI[of _ ?rg] exI[of _ rg1] exI[of _ seed] exI[of _ ?ops] exI[of _ fs]) simp
qed

theorem refused_send_drops_everywhere_witness:
  "\<exists>rg report rg'. rg = reg_run page_env [Op_topic ''t'' ''a'', Op_subscribe 1 ''t'' 5, Op_hang_up 5] (registry_new page_sinks) \<and>
     write_topic_delta page_env ''t'' (append_row ''b'') rg = (Inr report, rg') \<and>
     dl_delivered report + drop_count report = subscriber_count ''t'' rg \<and> watches 1 ''t'' rg = Some 5 \<and> watches 1 ''t'' rg' = None"
proof -
  let ?rg = "reg_run page_env [Op_topic ''t'' ''a'', Op_subscribe 1 ''t'' 5, Op_hang_up 5] (registry_new page_sinks)"
  note defs = reg_run_def registry_new_def static_topic_def topic_with_identity_def topic_of_def
    put_topic_def subscribe_def index_add_def add_sub_def write_topic_delta_def
    append_row_def page_env_def page_sinks_def Let_def fan_out_frame_def try_send_def frame_for_def
    chosen_instruction_def no_delivery_def touch_topic_def
  have d: "fst (write_topic_delta page_env ''t'' (append_row ''b'') ?rg) =
      Inr \<lparr>dl_delivered = 0, dl_dropped_full = [], dl_dropped_closed = [1]\<rparr>"
    by (simp add: defs)
  obtain rg' where w: "write_topic_delta page_env ''t'' (append_row ''b'') ?rg =
      (Inr \<lparr>dl_delivered = 0, dl_dropped_full = [], dl_dropped_closed = [1]\<rparr>, rg')"
    using d by (cases "write_topic_delta page_env ''t'' (append_row ''b'') ?rg") simp
  have l: "watches 1 ''t'' ?rg = Some 5" by (simp add: defs watches_def)
  show ?thesis using refused_send_drops_everywhere[OF refl w] w l
    by (intro exI[of _ ?rg] exI[of _ "\<lparr>dl_delivered = 0, dl_dropped_full = [], dl_dropped_closed = [1]\<rparr>"] exI[of _ rg']) simp
qed

theorem guarded_slots_distinct_witness:
  "\<exists>rg t u. rg = reg_run page_env [Op_topic ''t'' ''a'', Op_partition ''r:1'' ''r'' ''1'' ''x''] (registry_new page_sinks) \<and>
     topic_of rg ''t'' = Some t \<and> topic_of rg ''r:1'' = Some u \<and> bt_slot_id t \<noteq> bt_slot_id u"
proof -
  let ?ops = "[Op_topic ''t'' ''a'', Op_partition ''r:1'' ''r'' ''1'' ''x'']"
  let ?rg = "reg_run page_env ?ops (registry_new page_sinks)"
  have h: "broadcast_slot_id ''t'' \<noteq> broadcast_slot_id ''r:1''" by code_simp
  note defs = reg_run_def registry_new_def static_topic_def topic_with_identity_def topic_of_def
    put_topic_def try_topic_partition_def try_mint_def guard_slot_id_def Let_def
  have g: "guarded_run page_env ?ops (registry_new page_sinks)"
    by (simp add: registry_new_def guard_slot_id_def)
  obtain t u where tu: "topic_of ?rg ''t'' = Some t" "topic_of ?rg ''r:1'' = Some u"
    using h by (simp add: defs)
  show ?thesis using guarded_slots_distinct[OF g refl tu] tu by blast
qed

theorem evicted_then_subscribed_witness:
  "\<exists>rg seed rg'. rg = reg_run page_env [Op_partition ''r:1'' ''r'' ''1'' ''rows''] (registry_new page_sinks) \<and>
     idle_now ''r:1'' rg \<and> value_of ''r:1'' rg = ''rows'' \<and>
     subscribe_granted page_env 1 2 [whole_grant ''r:1''] (snd (drop_if_idle ''r:1'' rg)) = (seed, rg') \<and>
     gs_instructions seed = [SlotSet (broadcast_slot_id ''r:1'') []] \<and>
     is_static ''r:1'' (reg_run page_env [Op_cleanup 1, Op_budget 0] rg')"
proof -
  let ?rg = "reg_run page_env [Op_partition ''r:1'' ''r'' ''1'' ''rows''] (registry_new page_sinks)"
  obtain seed rg' where sub: "subscribe_granted page_env 1 2 [whole_grant ''r:1''] (snd (drop_if_idle ''r:1'' ?rg)) = (seed, rg')"
    by (cases "subscribe_granted page_env 1 2 [whole_grant ''r:1''] (snd (drop_if_idle ''r:1'' ?rg))")
  note defs = reg_run_def registry_new_def topic_with_identity_def topic_of_def
    put_topic_def try_topic_partition_def try_mint_def guard_slot_id_def Let_def
  have i: "idle_now ''r:1'' ?rg" "value_of ''r:1'' ?rg = ''rows''"
    by (simp_all add: defs idle_now_def idle_def value_of_def)
  show ?thesis using evicted_then_subscribed[OF refl i(1) sub] i sub by blast
qed

end
