(* ===== verification/ListSink.thy ===== *)
theory ListSink
  imports Broadcast
begin

text \<open>
  The keyed list of the browser runtime (\<open>assets/albedo-runtime.js\<close>): the three instructions that change
  the rows under one list anchor. A row is its key, the markup of its node and the stamp
  \<open>__albedoRowHtml\<close>; the anchor's keyed children are the list, in document order, and \<open>rowsByKey\<close> is the
  same list read by key. \<open>inst\<close> says which markup the browser's parser turns into a node. A snapshot
  (\<open>SlotSet\<close>) paints scalar sites only and leaves keyed rows alone. Children without a key and
  instructions that arrive before the anchor is bound are not modelled; a \<open>SlotInsert\<close> whose rows name
  their own anchor, which no server path sends, is given the position it already has.
\<close>

record dom_row =
  dr_key :: string
  dr_markup :: string
  dr_stamp :: "string option"

type_synonym keyed_list = "dom_row list"

definition has_key :: "string \<Rightarrow> keyed_list \<Rightarrow> bool" where
  "has_key k rs \<longleftrightarrow> list_ex (\<lambda>r. dr_key r = k) rs"

definition fresh_row :: "string \<Rightarrow> string \<Rightarrow> dom_row" where
  "fresh_row k html = \<lparr>dr_key = k, dr_markup = html, dr_stamp = Some html\<rparr>"

definition seed_rows_by_key :: "(string \<times> string) list \<Rightarrow> keyed_list" where
  "seed_rows_by_key ps = map (\<lambda>(k, html). fresh_row k html) ps"

section \<open>Deltas\<close>

record delta_entry =
  de_insert :: "string option"
  de_retract :: bool

datatype delta_step =
    Step_insert string string
  | Step_patch string string
  | Step_remove string

definition note_weight :: "slot_change \<Rightarrow> delta_entry \<Rightarrow> delta_entry" where
  "note_weight ch e =
     (if sg_weight ch > 0 then e\<lparr>de_insert := Some (sg_payload ch)\<rparr>
      else if sg_weight ch < 0 then e\<lparr>de_retract := True\<rparr> else e)"

fun note_change :: "slot_change \<Rightarrow> (string \<times> delta_entry) list \<Rightarrow> (string \<times> delta_entry) list" where
  "note_change ch [] = [(sg_key ch, note_weight ch \<lparr>de_insert = None, de_retract = False\<rparr>)]"
| "note_change ch ((k, e) # es) =
     (if k = sg_key ch then (k, note_weight ch e) # es else (k, e) # note_change ch es)"

definition step_of :: "(string \<Rightarrow> bool) \<Rightarrow> string \<times> delta_entry \<Rightarrow> delta_step option" where
  "step_of held_key ke =
     (case de_insert (snd ke) of
        Some payload \<Rightarrow> Some (if held_key (fst ke) then Step_patch (fst ke) payload else Step_insert (fst ke) payload)
      | None \<Rightarrow> if de_retract (snd ke) \<and> held_key (fst ke) then Some (Step_remove (fst ke)) else None)"

definition reconcile_slot_delta :: "slot_change list \<Rightarrow> (string \<Rightarrow> bool) \<Rightarrow> delta_step list" where
  "reconcile_slot_delta changes held_key = List.map_filter (step_of held_key) (fold note_change changes [])"

definition patch_row :: "(string \<Rightarrow> bool) \<Rightarrow> string \<Rightarrow> dom_row \<Rightarrow> dom_row" where
  "patch_row inst html r =
     (if dr_stamp r = Some html then r else if inst html then fresh_row (dr_key r) html else r)"

fun apply_step :: "(string \<Rightarrow> bool) \<Rightarrow> delta_step \<Rightarrow> keyed_list \<Rightarrow> keyed_list" where
  "apply_step inst (Step_insert k html) rs = (if inst html then rs @ [fresh_row k html] else rs)"
| "apply_step inst (Step_patch k html) rs = map (\<lambda>r. if dr_key r = k then patch_row inst html r else r) rs"
| "apply_step inst (Step_remove k) rs = filter (\<lambda>r. dr_key r \<noteq> k) rs"

definition apply_slot_delta :: "(string \<Rightarrow> bool) \<Rightarrow> slot_change list \<Rightarrow> keyed_list \<Rightarrow> keyed_list" where
  "apply_slot_delta inst changes rs =
     fold (apply_step inst) (reconcile_slot_delta changes (\<lambda>k. has_key k rs)) rs"

section \<open>Full sets and positioned runs\<close>

definition row_by_key :: "string \<Rightarrow> keyed_list \<Rightarrow> dom_row option" where
  "row_by_key k rs = find (\<lambda>r. dr_key r = k) rs"

definition without_key :: "string \<Rightarrow> keyed_list \<Rightarrow> keyed_list" where
  "without_key k rs = filter (\<lambda>r. dr_key r \<noteq> k) rs"

text \<open>The node a row ends up as, when there is one.\<close>

definition upserted :: "(string \<Rightarrow> bool) \<Rightarrow> string \<Rightarrow> string \<Rightarrow> keyed_list \<Rightarrow> dom_row option" where
  "upserted inst k html rs =
     (case row_by_key k rs of
        None \<Rightarrow> if inst html then Some (fresh_row k html) else None
      | Some r \<Rightarrow>
          if dr_stamp r \<noteq> Some html \<and> inst html then Some (fresh_row k html)
          else Some (r\<lparr>dr_stamp := Some html\<rparr>))"

definition reconcile_row_at_end :: "(string \<Rightarrow> bool) \<Rightarrow> reconcile_row \<Rightarrow> keyed_list \<Rightarrow> keyed_list" where
  "reconcile_row_at_end inst row rs =
     (case upserted inst (rw_key row) (rw_payload row) rs of
        None \<Rightarrow> rs
      | Some node \<Rightarrow> without_key (rw_key row) rs @ [node])"

definition apply_reconcile_list :: "(string \<Rightarrow> bool) \<Rightarrow> reconcile_row list \<Rightarrow> keyed_list \<Rightarrow> keyed_list" where
  "apply_reconcile_list inst rws rs =
     fold (reconcile_row_at_end inst) rws (filter (\<lambda>r. dr_key r \<in> rw_key ` set rws) rs)"

fun insert_before :: "dom_row \<Rightarrow> string option \<Rightarrow> keyed_list \<Rightarrow> keyed_list" where
  "insert_before node marker [] = [node]"
| "insert_before node marker (r # rs) =
     (if Some (dr_key r) = marker then node # r # rs else r # insert_before node marker rs)"

definition insert_row_at :: "(string \<Rightarrow> bool) \<Rightarrow> string option \<Rightarrow> reconcile_row \<Rightarrow> keyed_list \<Rightarrow> keyed_list" where
  "insert_row_at inst marker row rs =
     (case upserted inst (rw_key row) (rw_payload row) rs of
        None \<Rightarrow> rs
      | Some node \<Rightarrow>
          if marker = Some (rw_key row) then map (\<lambda>r. if dr_key r = rw_key row then node else r) rs
          else insert_before node marker (without_key (rw_key row) rs))"

definition apply_slot_insert :: "(string \<Rightarrow> bool) \<Rightarrow> string option \<Rightarrow> reconcile_row list \<Rightarrow> keyed_list \<Rightarrow> keyed_list" where
  "apply_slot_insert inst before rws rs =
     (let marker = (case before of Some b \<Rightarrow> if has_key b rs then Some b else None | None \<Rightarrow> None) in
      fold (insert_row_at inst marker) rws rs)"

fun list_patch :: "(string \<Rightarrow> bool) \<Rightarrow> instruction \<Rightarrow> keyed_list \<Rightarrow> keyed_list" where
  "list_patch inst (SlotSet i v) rs = rs"
| "list_patch inst (SlotDelta i changes) rs = apply_slot_delta inst changes rs"
| "list_patch inst (SlotInsert i before rws) rs = apply_slot_insert inst before rws rs"
| "list_patch inst (ReconcileList i rws) rs = apply_reconcile_list inst rws rs"

section \<open>What the instructions do to a list of server rows\<close>

abbreviation shown :: "keyed_list \<Rightarrow> (string \<times> string) list" where
  "shown rs \<equiv> map (\<lambda>r. (dr_key r, dr_markup r)) rs"

lemma seed_simps [simp]:
  "seed_rows_by_key [] = []" "seed_rows_by_key ((k, h) # ps) = fresh_row k h # seed_rows_by_key ps"
  "seed_rows_by_key (ps @ qs) = seed_rows_by_key ps @ seed_rows_by_key qs"
  by (simp_all add: seed_rows_by_key_def)

lemma fresh_row_simps [simp]:
  "dr_key (fresh_row k h) = k" "dr_markup (fresh_row k h) = h" "dr_stamp (fresh_row k h) = Some h"
  "fresh_row k h\<lparr>dr_stamp := Some h\<rparr> = fresh_row k h"
  by (simp_all add: fresh_row_def)

lemma shown_seed [simp]: "shown (seed_rows_by_key ps) = ps"
  by (induction ps) auto

lemma has_key_seed [simp]: "has_key k (seed_rows_by_key ps) \<longleftrightarrow> k \<in> fst ` set ps"
  by (induction ps) (auto simp: has_key_def)

lemma filter_seed: "filter (\<lambda>r. P (dr_key r)) (seed_rows_by_key ps) = seed_rows_by_key (filter (\<lambda>p. P (fst p)) ps)"
  by (induction ps) auto

lemma drop_key_seed: "without_key k (seed_rows_by_key ps) = seed_rows_by_key (filter (\<lambda>p. fst p \<noteq> k) ps)"
  by (induction ps) (auto simp: without_key_def)

lemma row_by_key_seed:
  "row_by_key k (seed_rows_by_key ps) = map_option (fresh_row k) (map_of ps k)"
  by (induction ps) (auto simp: row_by_key_def)

lemma upserted_seed:
  assumes "inst h"
  shows "upserted inst k h (seed_rows_by_key ps) = Some (fresh_row k h)"
  using assms by (auto simp: upserted_def row_by_key_seed split: option.split)

abbreviation rows_of :: "(string \<times> string) list \<Rightarrow> reconcile_row list" where
  "rows_of ps \<equiv> map (\<lambda>(k, h). \<lparr>rw_key = k, rw_payload = h\<rparr>) ps"

lemma reconcile_fold:
  assumes "list_all (\<lambda>(k, h). inst h) qs" "distinct (map fst (ps @ qs))" "\<And>k. k \<in> fst ` set us \<Longrightarrow> k \<in> fst ` set qs"
    "distinct (map fst us)"
  shows "fold (reconcile_row_at_end inst) (rows_of qs) (seed_rows_by_key (us @ ps)) = seed_rows_by_key (ps @ qs)"
  using assms
proof (induction qs arbitrary: ps us)
  case Nil
  then have "us = []" by (cases us) auto
  then show ?case by simp
next
  case (Cons q qs)
  obtain k h where q: "q = (k, h)" by (cases q)
  let ?us = "filter (\<lambda>p. fst p \<noteq> k) us"
  have k: "k \<notin> fst ` set ps" using Cons.prems(2) q by auto
  then have ps: "filter (\<lambda>p. fst p \<noteq> k) ps = ps" by (auto simp: filter_id_conv)
  have "reconcile_row_at_end inst \<lparr>rw_key = k, rw_payload = h\<rparr> (seed_rows_by_key (us @ ps)) =
      seed_rows_by_key (?us @ (ps @ [(k, h)]))"
    using Cons.prems(1) q ps upserted_seed[of inst h k "us @ ps"]
    by (simp add: reconcile_row_at_end_def drop_key_seed del: seed_simps(3)) simp
  moreover have "fold (reconcile_row_at_end inst) (rows_of qs) (seed_rows_by_key (?us @ (ps @ [(k, h)]))) =
      seed_rows_by_key ((ps @ [(k, h)]) @ qs)"
  proof (rule Cons.IH)
    show "list_all (\<lambda>(k, h). inst h) qs" using Cons.prems(1) by simp
    show "distinct (map fst ((ps @ [(k, h)]) @ qs))" using Cons.prems(2) q by auto
    show "k' \<in> fst ` set qs" if "k' \<in> fst ` set ?us" for k' using that Cons.prems(3)[of k'] q by auto
    show "distinct (map fst ?us)" using Cons.prems(4) by (rule distinct_map_filter)
  qed
  ultimately show ?case using q by simp
qed

lemma reconcile_exact:
  assumes "list_all (\<lambda>(k, h). inst h) qs" "distinct (map fst qs)" "distinct (map fst ps)"
  shows "apply_reconcile_list inst (rows_of qs) (seed_rows_by_key ps) = seed_rows_by_key qs"
proof -
  let ?us = "filter (\<lambda>p. fst p \<in> rw_key ` set (rows_of qs)) ps"
  have "rw_key ` set (rows_of qs) = fst ` set qs" by force
  then have "fold (reconcile_row_at_end inst) (rows_of qs) (seed_rows_by_key (?us @ [])) = seed_rows_by_key ([] @ qs)"
    using assms by (intro reconcile_fold) (auto intro: distinct_map_filter)
  then show ?thesis
    unfolding apply_reconcile_list_def filter_seed[of "\<lambda>k. k \<in> rw_key ` set (rows_of qs)"] by simp
qed

lemma insert_before_seed:
  assumes "k \<notin> fst ` set as" "marker = (case bs of [] \<Rightarrow> None | p # _ \<Rightarrow> Some (fst p))"
    "distinct (map fst (as @ bs))"
  shows "insert_before (fresh_row k h) marker (seed_rows_by_key (as @ bs)) = seed_rows_by_key (as @ (k, h) # bs)"
  using assms
proof (induction as)
  case Nil
  then show ?case by (cases bs) auto
next
  case (Cons a as)
  obtain k' h' where a: "a = (k', h')" by (cases a)
  have "Some k' \<noteq> marker" using Cons.prems(2,3) a by (auto split: list.splits)
  then show ?case using Cons a by simp
qed

lemma insert_fold:
  assumes "list_all (\<lambda>(k, h). inst h) qs" "distinct (map fst (as @ qs @ bs))"
    "marker = (case bs of [] \<Rightarrow> None | p # _ \<Rightarrow> Some (fst p))"
  shows "fold (insert_row_at inst marker) (rows_of qs) (seed_rows_by_key (as @ bs)) = seed_rows_by_key (as @ qs @ bs)"
  using assms
proof (induction qs arbitrary: as)
  case (Cons q qs)
  obtain k h where q: "q = (k, h)" by (cases q)
  have k: "k \<notin> fst ` set (as @ bs)" using Cons.prems(2) q by auto
  then have same: "filter (\<lambda>p. fst p \<noteq> k) (as @ bs) = as @ bs" by (auto simp: filter_id_conv simp del: filter_append)
  have m: "marker \<noteq> Some k" using Cons.prems(3) k by (auto split: list.splits)
  have "insert_row_at inst marker \<lparr>rw_key = k, rw_payload = h\<rparr> (seed_rows_by_key (as @ bs)) =
      insert_before (fresh_row k h) marker (seed_rows_by_key (as @ bs))"
    using Cons.prems(1) q m same upserted_seed[of inst h k "as @ bs"]
    by (simp add: insert_row_at_def drop_key_seed del: seed_simps(3) filter_append)
  also have "\<dots> = seed_rows_by_key ((as @ [(k, h)]) @ bs)"
  proof -
    have "k \<notin> fst ` set as" "distinct (map fst (as @ bs))" using Cons.prems(2) k by auto
    then show ?thesis using insert_before_seed[of k as marker bs h] Cons.prems(3) by simp
  qed
  finally show ?case using Cons.IH[of "as @ [(k, h)]"] Cons.prems q by simp
qed simp

lemma slot_insert_exact:
  assumes "list_all (\<lambda>(k, h). inst h) qs" "distinct (map fst (as @ qs @ bs))"
    "before = (case bs of [] \<Rightarrow> None | p # _ \<Rightarrow> Some (fst p))"
  shows "apply_slot_insert inst before (rows_of qs) (seed_rows_by_key (as @ bs)) = seed_rows_by_key (as @ qs @ bs)"
proof -
  have "(case before of Some b \<Rightarrow> if has_key b (seed_rows_by_key (as @ bs)) then Some b else None | None \<Rightarrow> None) = before"
    using assms(3) by (auto simp del: seed_simps(3) split: list.splits)
  then show ?thesis using insert_fold[OF assms] by (simp add: apply_slot_insert_def Let_def del: seed_simps(3))
qed

section \<open>The deltas a write sends\<close>

text \<open>What a tail append is made of: the keys that went, the rows that changed where they stand, and the
  rows that came.\<close>

definition retract :: "string \<Rightarrow> slot_change" where
  "retract k = \<lparr>sg_weight = - 1, sg_key = k, sg_payload = []\<rparr>"

definition assert_row :: "string \<times> string \<Rightarrow> slot_change" where
  "assert_row p = \<lparr>sg_weight = 1, sg_key = fst p, sg_payload = snd p\<rparr>"

definition delta_changes :: "string list \<Rightarrow> (string \<times> string) list \<Rightarrow> (string \<times> string) list \<Rightarrow> slot_change list" where
  "delta_changes went edits adds =
     map retract went @ concat (map (\<lambda>p. [retract (fst p), assert_row p]) edits) @ map assert_row adds"

definition entry :: "string option \<Rightarrow> bool \<Rightarrow> delta_entry" where
  "entry ins ret = \<lparr>de_insert = ins, de_retract = ret\<rparr>"

lemma note_change_new:
  "sg_key ch \<notin> fst ` set es \<Longrightarrow> note_change ch es = es @ [(sg_key ch, note_weight ch (entry None False))]"
  by (induction es) (auto simp: entry_def)

lemma note_change_last:
  "sg_key ch = k \<Longrightarrow> k \<notin> fst ` set es \<Longrightarrow> note_change ch (es @ [(k, e)]) = es @ [(k, note_weight ch e)]"
  by (induction es) auto

lemma note_retract: "k \<notin> fst ` set es \<Longrightarrow> note_change (retract k) es = es @ [(k, entry None True)]"
  by (subst note_change_new) (simp_all add: retract_def note_weight_def entry_def)

lemma note_assert: "fst p \<notin> fst ` set es \<Longrightarrow> note_change (assert_row p) es = es @ [(fst p, entry (Some (snd p)) False)]"
  by (subst note_change_new) (simp_all add: assert_row_def note_weight_def entry_def)

lemma note_both:
  "fst p \<notin> fst ` set es \<Longrightarrow>
   note_change (assert_row p) (note_change (retract (fst p)) es) = es @ [(fst p, entry (Some (snd p)) True)]"
  by (simp add: note_retract note_change_last assert_row_def) (simp add: note_weight_def entry_def)

lemma note_all:
  assumes "\<And>x es. key x \<notin> fst ` set es \<Longrightarrow> f x es = es @ [(key x, e x)]"
    and "distinct (map key xs)" "\<And>x. x \<in> set xs \<Longrightarrow> key x \<notin> fst ` set es"
  shows "fold f xs es = es @ map (\<lambda>x. (key x, e x)) xs"
  using assms(2,3)
proof (induction xs arbitrary: es)
  case (Cons x xs)
  have "fold f xs (es @ [(key x, e x)]) = (es @ [(key x, e x)]) @ map (\<lambda>x. (key x, e x)) xs"
    using Cons.prems by (intro Cons.IH) (auto simp: image_iff)
  then show ?case using Cons.prems assms(1)[of x es] by simp
qed simp

lemma delta_entries:
  assumes "distinct (went @ map fst edits @ map fst adds)"
  shows "fold note_change (delta_changes went edits adds) [] =
     map (\<lambda>k. (k, entry None True)) went @ map (\<lambda>p. (fst p, entry (Some (snd p)) True)) edits @
     map (\<lambda>p. (fst p, entry (Some (snd p)) False)) adds"
proof -
  have 1: "fold note_change (map retract went) [] = map (\<lambda>k. (k, entry None True)) went"
    using note_all[of "\<lambda>k. k" "\<lambda>k. note_change (retract k)" "\<lambda>k. entry None True" went "[]"] note_retract assms
    by (simp add: fold_map comp_def)
  have 2: "fold note_change (concat (map (\<lambda>p. [retract (fst p), assert_row p]) xs)) es =
      fold (\<lambda>p es. note_change (assert_row p) (note_change (retract (fst p)) es)) xs es" for xs es
    by (induction xs arbitrary: es) simp_all
  have 3: "fold note_change (concat (map (\<lambda>p. [retract (fst p), assert_row p]) edits)) (map (\<lambda>k. (k, entry None True)) went) =
      map (\<lambda>k. (k, entry None True)) went @ map (\<lambda>p. (fst p, entry (Some (snd p)) True)) edits"
    unfolding 2 by (rule note_all[where key = fst]) (use note_both assms in \<open>auto simp: image_iff\<close>)
  have 4: "fold note_change (map assert_row adds) es = es @ map (\<lambda>p. (fst p, entry (Some (snd p)) False)) adds"
    if "\<And>p. p \<in> set adds \<Longrightarrow> fst p \<notin> fst ` set es" for es
    unfolding fold_map comp_def by (rule note_all[where key = fst]) (use note_assert assms that in auto)
  have "fold note_change (map assert_row adds)
      (map (\<lambda>k. (k, entry None True)) went @ map (\<lambda>p. (fst p, entry (Some (snd p)) True)) edits) =
    (map (\<lambda>k. (k, entry None True)) went @ map (\<lambda>p. (fst p, entry (Some (snd p)) True)) edits) @
    map (\<lambda>p. (fst p, entry (Some (snd p)) False)) adds"
  proof (rule 4)
    fix p assume "p \<in> set adds"
    then have "fst p \<in> set (map fst adds)" by simp
    then have "fst p \<notin> set went" "fst p \<notin> set (map fst edits)"
      using assms unfolding distinct_append set_append disjoint_iff by blast+
    then show "fst p \<notin> fst ` set (map (\<lambda>k. (k, entry None True)) went @
        map (\<lambda>p. (fst p, entry (Some (snd p)) True)) edits)"
      by (auto simp: image_iff)
  qed
  then show ?thesis unfolding delta_changes_def fold_append comp_apply 1 3 append_assoc .
qed

lemma delta_plan:
  assumes "distinct (went @ map fst edits @ map fst adds)"
    "list_all held_key went" "list_all (\<lambda>p. held_key (fst p)) edits" "list_all (\<lambda>p. \<not> held_key (fst p)) adds"
  shows "reconcile_slot_delta (delta_changes went edits adds) held_key =
     map Step_remove went @ map (\<lambda>p. Step_patch (fst p) (snd p)) edits @ map (\<lambda>p. Step_insert (fst p) (snd p)) adds"
proof -
  have "List.map_filter (step_of held_key) (map (\<lambda>k. (k, entry None True)) went) = map Step_remove went"
    using assms(2) by (induction went) (auto simp: List.map_filter_def step_of_def entry_def)
  moreover have "List.map_filter (step_of held_key) (map (\<lambda>p. (fst p, entry (Some (snd p)) True)) edits) =
      map (\<lambda>p. Step_patch (fst p) (snd p)) edits"
    using assms(3) by (induction edits) (auto simp: List.map_filter_def step_of_def entry_def)
  moreover have "List.map_filter (step_of held_key) (map (\<lambda>p. (fst p, entry (Some (snd p)) False)) adds) =
      map (\<lambda>p. Step_insert (fst p) (snd p)) adds"
    using assms(4) by (induction adds) (auto simp: List.map_filter_def step_of_def entry_def)
  ultimately show ?thesis
    by (simp add: reconcile_slot_delta_def delta_entries[OF assms(1)] List.map_filter_def)
qed

lemma removes_exact:
  "fold (apply_step inst) (map Step_remove ks) (seed_rows_by_key ps) = seed_rows_by_key (filter (\<lambda>p. fst p \<notin> set ks) ps)"
proof (induction ks arbitrary: ps)
  case (Cons k ks)
  then show ?case using drop_key_seed[of k ps] by (simp add: without_key_def conj_commute)
qed simp

definition edited :: "(string \<times> string) list \<Rightarrow> string \<times> string \<Rightarrow> string \<times> string" where
  "edited edits p = (fst p, case map_of edits (fst p) of Some h \<Rightarrow> h | None \<Rightarrow> snd p)"

lemma patch_exact:
  "inst h \<Longrightarrow> apply_step inst (Step_patch k h) (seed_rows_by_key ps) = seed_rows_by_key (map (edited [(k, h)]) ps)"
  by (induction ps) (auto simp: patch_row_def edited_def)

lemma patches_exact:
  "list_all (\<lambda>p. inst (snd p)) edits \<Longrightarrow> distinct (map fst edits) \<Longrightarrow>
   fold (apply_step inst) (map (\<lambda>p. Step_patch (fst p) (snd p)) edits) (seed_rows_by_key ps) =
     seed_rows_by_key (map (edited edits) ps)"
proof (induction edits arbitrary: ps)
  case (Cons ed edits)
  obtain k h where ed: "ed = (k, h)" by (cases ed)
  have "map_of edits k = None" using Cons.prems(2) ed by (simp add: map_of_eq_None_iff)
  then have "edited edits (edited [(k, h)] p) = edited (ed # edits) p" for p
    using ed by (cases "fst p = k") (auto simp: edited_def split: option.split)
  then show ?case using Cons ed patch_exact[of inst h k ps] by (simp add: comp_def del: apply_step.simps)
qed (simp add: edited_def map_idI)

lemma adds_exact:
  "list_all (\<lambda>p. inst (snd p)) adds \<Longrightarrow>
   fold (apply_step inst) (map (\<lambda>p. Step_insert (fst p) (snd p)) adds) (seed_rows_by_key ps) =
     seed_rows_by_key (ps @ adds)"
proof (induction adds arbitrary: ps)
  case (Cons a adds)
  obtain k h where a: "a = (k, h)" by (cases a)
  show ?case using Cons.IH[of "ps @ [a]"] Cons.prems a by simp
qed simp

lemma slot_delta_exact:
  assumes "distinct (went @ map fst edits @ map fst adds)" "set went \<subseteq> fst ` set ps" "fst ` set edits \<subseteq> fst ` set ps"
    "fst ` set adds \<inter> fst ` set ps = {}" "list_all (\<lambda>p. inst (snd p)) edits" "list_all (\<lambda>p. inst (snd p)) adds"
  shows "apply_slot_delta inst (delta_changes went edits adds) (seed_rows_by_key ps) =
     seed_rows_by_key (map (edited edits) (filter (\<lambda>p. fst p \<notin> set went) ps) @ adds)"
proof -
  have plan: "reconcile_slot_delta (delta_changes went edits adds) (\<lambda>k. has_key k (seed_rows_by_key ps)) =
     map Step_remove went @ map (\<lambda>p. Step_patch (fst p) (snd p)) edits @ map (\<lambda>p. Step_insert (fst p) (snd p)) adds"
    using assms(1-4) by (intro delta_plan) (auto simp: list_all_iff)
  have d: "distinct (map fst edits)" using assms(1) by simp
  show ?thesis
    unfolding apply_slot_delta_def plan fold_append comp_apply removes_exact patches_exact[OF assms(5) d]
    by (rule adds_exact[OF assms(6)])
qed

end
