(* ===== verification/JsonText.thy ===== *)
theory JsonText
  imports Journal Middleware
begin

text \<open>
  The text of JSON arrays of records, as far as code that edits it without parsing relies on it: the
  locale \<open>row_text\<close> states what the serialiser, a library, promises (no white space, elements separated by
  commas, an object's text delimits itself), and its lemmas are what an append to the text may conclude. A
  small codec with these properties, reading what it writes, shows that they can hold together.
\<close>

fun join_comma :: "string list \<Rightarrow> string" where
  "join_comma [] = []"
| "join_comma [s] = s"
| "join_comma (s # ss) = s @ '','' @ join_comma ss"

lemma join_comma_Cons: "join_comma (s # ss) = s @ (if ss = [] then [] else '','' @ join_comma ss)"
  by (cases ss) simp_all

lemma join_comma_append:
  "join_comma (as @ bs) = join_comma as @ (if as = [] \<or> bs = [] then [] else '','') @ join_comma bs"
proof (induction as)
  case (Cons a as)
  then show ?case by (cases as) (auto simp: join_comma_Cons)
qed simp

definition is_object :: "json \<Rightarrow> bool" where
  "is_object v = (case v of JObject ms \<Rightarrow> True | _ \<Rightarrow> False)"

lemma is_objectE: "is_object v \<Longrightarrow> (\<And>ms. v = JObject ms \<Longrightarrow> P) \<Longrightarrow> P"
  by (cases v) (simp_all add: is_object_def)

locale row_text = json_laws codec for codec :: "json json_codec" +
  assumes array_text: "jc_text codec (JArray vs) = ''['' @ join_comma (map (jc_text codec) vs) @ '']''"
    and object_text: "\<exists>t. jc_text codec (JObject ms) = CHR ''{'' # t"
    and object_delimits: "jc_text codec (JObject ms) @ x = jc_text codec (JObject ms') @ y \<Longrightarrow> ms = ms'"
begin

lemma text_inj: "jc_text codec v = jc_text codec w \<Longrightarrow> v = w"
  by (metis parse_text option.inject)

lemma object_text_ne: "is_object v \<Longrightarrow> \<exists>t. jc_text codec v = CHR ''{'' # t"
  using object_text by (auto elim!: is_objectE)

lemma object_eq: "is_object v \<Longrightarrow> is_object w \<Longrightarrow> jc_text codec v @ x = jc_text codec w @ y \<Longrightarrow> v = w \<and> x = y"
  using object_delimits by (auto elim!: is_objectE)

lemma objects_join_empty: "list_all is_object vs \<Longrightarrow> join_comma (map (jc_text codec) vs) = [] \<longleftrightarrow> vs = []"
  using object_text_ne by (cases vs) (fastforce simp: join_comma_Cons)+

text \<open>A list of objects whose text starts with another's, up to its bracket, has that list at its front.\<close>

lemma objects_prefix:
  assumes "list_all is_object ps" "list_all is_object ns"
    "join_comma (map (jc_text codec) ps) @ z = join_comma (map (jc_text codec) ns) @ '']''"
  shows "\<exists>rs. ns = ps @ rs \<and> z = (if ps = [] \<or> rs = [] then [] else '','') @ join_comma (map (jc_text codec) rs) @ '']''"
  using assms
proof (induction ps arbitrary: ns)
  case (Cons p ps)
  obtain t where t: "jc_text codec p = CHR ''{'' # t" using object_text_ne Cons.prems(1) by auto
  show ?case
  proof (cases ns)
    case Nil
    then show ?thesis using Cons.prems(3) t by (simp add: join_comma_Cons)
  next
    case ns: (Cons n ns')
    let ?rest = "\<lambda>vs. if vs = [] then [] else '','' @ join_comma (map (jc_text codec) vs)"
    have "jc_text codec p @ ?rest ps @ z = jc_text codec n @ ?rest ns' @ '']''"
      using Cons.prems(3) ns by (simp add: join_comma_Cons)
    moreover have "is_object p" "is_object n" using Cons.prems(1,2) ns by simp_all
    ultimately have "p = n \<and> ?rest ps @ z = ?rest ns' @ '']''" by (intro object_eq)
    then have pn: "p = n" and r: "?rest ps @ z = ?rest ns' @ '']''" by blast+
    show ?thesis
    proof (cases "ps = []")
      case True
      then show ?thesis using r pn ns by (intro exI[of _ ns']) auto
    next
      case False
      then have n': "ns' \<noteq> []" using r by auto
      then have "join_comma (map (jc_text codec) ps) @ z = join_comma (map (jc_text codec) ns') @ '']''"
        using r False by simp
      then obtain rs where rs: "ns' = ps @ rs" "z = (if ps = [] \<or> rs = [] then [] else '','') @ join_comma (map (jc_text codec) rs) @ '']''"
        using Cons.IH[of ns'] Cons.prems(1,2) ns by auto
      then show ?thesis using pn ns False by (intro exI[of _ rs]) simp
    qed
  qed
qed simp

end

section \<open>A codec\<close>

text \<open>Strings are quoted character by character, so that their end is marked.\<close>

fun quoted :: "string \<Rightarrow> string" where
  "quoted [] = ''.''"
| "quoted (c # cs) = CHR ''!'' # c # quoted cs"

fun unquote :: "string \<Rightarrow> (string \<times> string) option" where
  "unquote (x # y # cs) =
     (if x = CHR ''!'' then map_option (\<lambda>(s, rest). (y # s, rest)) (unquote cs)
      else if x = CHR ''.'' then Some ([], y # cs) else None)"
| "unquote [x] = (if x = CHR ''.'' then Some ([], []) else None)"
| "unquote [] = None"

lemma unquote_quoted [simp]: "unquote (quoted s @ x) = Some (s, x)"
proof (induction s)
  case Nil
  then show ?case by (cases x) simp_all
qed simp

fun small_number :: "json_number \<Rightarrow> string" where
  "small_number (PosInt n) = CHR ''+'' # quoted (show_nat (unat n))"
| "small_number (NegInt i) = CHR ''-'' # (if 0 \<le> i then CHR ''p'' else CHR ''m'') # quoted (show_nat (nat \<bar>i\<bar>))"
| "small_number (Float s) = CHR ''~'' # quoted s"

fun small_text :: "json \<Rightarrow> string" where
  "small_text JNull = ''n''"
| "small_text (JBool b) = (if b then ''t'' else ''f'')"
| "small_text (JNumber n) = CHR ''#'' # small_number n"
| "small_text (JString s) = CHR ''s'' # quoted s"
| "small_text (JArray vs) = ''['' @ join_comma (map small_text vs) @ '']''"
| "small_text (JObject ms) = ''{'' @ concat (map (\<lambda>(k, v). CHR '':'' # quoted k @ small_text v) ms) @ ''}''"

fun read_number :: "string \<Rightarrow> (json_number \<times> string) option" where
  "read_number [] = None"
| "read_number (c # cs) =
     (if c = CHR ''+'' then map_option (\<lambda>(ds, r). (PosInt (of_nat (nat_of_digits ds)), r)) (unquote cs)
      else if c = CHR ''~'' then map_option (\<lambda>(s, r). (Float s, r)) (unquote cs)
      else if c = CHR ''-'' \<and> cs \<noteq> [] then
        map_option (\<lambda>(ds, r). (NegInt (if hd cs = CHR ''m'' then - int (nat_of_digits ds) else int (nat_of_digits ds)), r))
          (unquote (tl cs))
      else None)"

fun read_value :: "nat \<Rightarrow> string \<Rightarrow> (json \<times> string) option"
  and read_items :: "nat \<Rightarrow> string \<Rightarrow> (json list \<times> string) option"
  and read_members :: "nat \<Rightarrow> string \<Rightarrow> ((string \<times> json) list \<times> string) option" where
  "read_value 0 s = None"
| "read_value (Suc n) s =
     (case s of [] \<Rightarrow> None
      | c # cs \<Rightarrow>
        if c = CHR ''n'' then Some (JNull, cs)
        else if c = CHR ''t'' then Some (JBool True, cs)
        else if c = CHR ''f'' then Some (JBool False, cs)
        else if c = CHR ''#'' then map_option (\<lambda>(m, r). (JNumber m, r)) (read_number cs)
        else if c = CHR ''s'' then map_option (\<lambda>(t, r). (JString t, r)) (unquote cs)
        else if c = CHR ''['' then
          (if cs \<noteq> [] \<and> hd cs = CHR '']'' then Some (JArray [], tl cs)
           else map_option (\<lambda>(vs, r). (JArray vs, r)) (read_items n cs))
        else if c = CHR ''{'' then map_option (\<lambda>(ms, r). (JObject ms, r)) (read_members n cs)
        else None)"
| "read_items 0 s = None"
| "read_items (Suc n) s =
     (case read_value n s of
        Some (v, c # r) \<Rightarrow>
          if c = CHR '','' then map_option (\<lambda>(vs, r'). (v # vs, r')) (read_items n r)
          else if c = CHR '']'' then Some ([v], r) else None
      | _ \<Rightarrow> None)"
| "read_members 0 s = None"
| "read_members (Suc n) s =
     (case s of [] \<Rightarrow> None
      | c # cs \<Rightarrow>
        if c = CHR ''}'' then Some ([], cs)
        else (case unquote cs of
            None \<Rightarrow> None
          | Some (k, r) \<Rightarrow>
              (case read_value n r of
                 None \<Rightarrow> None
               | Some (v, r') \<Rightarrow> map_option (\<lambda>(ms, r''). ((k, v) # ms, r'')) (read_members n r'))))"

lemma read_number_small [simp]: "read_number (small_number m @ x) = Some (m, x)"
  by (cases m) (simp_all add: nat_of_digits_show)

lemma small_text_head: "small_text v \<noteq> [] \<and> hd (small_text v) \<noteq> CHR '']''"
  by (cases v) auto

lemma read_items_small:
  assumes "\<And>v n x. v \<in> set vs \<Longrightarrow> length (small_text v) \<le> n \<Longrightarrow> read_value n (small_text v @ x) = Some (v, x)"
    "vs \<noteq> []" "length (join_comma (map small_text vs)) < n"
  shows "read_items n (join_comma (map small_text vs) @ CHR '']'' # x) = Some (vs, x)"
  using assms
proof (induction vs arbitrary: n)
  case (Cons v vs)
  obtain m where n: "n = Suc m" using Cons.prems(3) by (cases n) auto
  have len: "length (small_text v) + (if vs = [] then 0 else Suc (length (join_comma (map small_text vs)))) \<le> m"
    using Cons.prems(3) n by (auto simp: join_comma_Cons)
  have v: "read_value m (small_text v @ y) = Some (v, y)" for y
    using Cons.prems(1)[of v m y] len by simp
  show ?case
  proof (cases "vs = []")
    case True
    then show ?thesis using n v by (simp add: join_comma_Cons)
  next
    case False
    then have "read_items m (join_comma (map small_text vs) @ CHR '']'' # x) = Some (vs, x)"
      using len Cons.prems(1) by (intro Cons.IH) auto
    then show ?thesis using n v False by (simp add: join_comma_Cons)
  qed
qed simp

abbreviation members_text :: "(string \<times> json) list \<Rightarrow> string" where
  "members_text ms \<equiv> concat (map (\<lambda>(k, v). CHR '':'' # quoted k @ small_text v) ms)"

lemma read_members_small:
  assumes "\<And>k v n x. (k, v) \<in> set ms \<Longrightarrow> length (small_text v) \<le> n \<Longrightarrow> read_value n (small_text v @ x) = Some (v, x)"
    "length (members_text ms) < n"
  shows "read_members n (members_text ms @ CHR ''}'' # x) = Some (ms, x)"
  using assms
proof (induction ms arbitrary: n)
  case Nil
  then show ?case by (cases n) simp_all
next
  case (Cons km ms)
  obtain k v where km: "km = (k, v)" by (cases km)
  obtain m where n: "n = Suc m" using Cons.prems(2) by (cases n) auto
  define t where "t = members_text ms @ CHR ''}'' # x"
  have len: "length (small_text v) \<le> m" "length (members_text ms) < m" using Cons.prems(2) n km by simp_all
  have v: "read_value m (small_text v @ t) = Some (v, t)" by (rule Cons.prems(1)[of k v, OF _ len(1)]) (simp add: km)
  have sub: "read_value n' (small_text v' @ y) = Some (v', y)"
    if "(k', v') \<in> set ms" "length (small_text v') \<le> n'" for k' v' n' y
    by (rule Cons.prems(1)[of k' v', OF _ that(2)]) (simp add: that(1))
  have ms: "read_members m t = Some (ms, x)" unfolding t_def by (rule Cons.IH[OF sub len(2)])
  have whole: "members_text (km # ms) @ CHR ''}'' # x = CHR '':'' # quoted k @ small_text v @ t"
    by (simp add: km t_def)
  show ?case unfolding whole n by (simp add: v ms km)
qed

lemma read_small: "length (small_text v) \<le> n \<Longrightarrow> read_value n (small_text v @ x) = Some (v, x)"
proof (induction v arbitrary: n x)
  case JNull
  then show ?case by (cases n) simp_all
next
  case (JBool b)
  then show ?case by (cases n; cases b) simp_all
next
  case (JNumber k)
  then show ?case by (cases n) simp_all
next
  case (JString s)
  then show ?case by (cases n) simp_all
next
  case (JArray vs)
  obtain m where n: "n = Suc m" using JArray.prems by (cases n) auto
  show ?case
  proof (cases "vs = []")
    case False
    then obtain v ws where vs: "vs = v # ws" by (cases vs) auto
    define t where "t = join_comma (map small_text vs) @ CHR '']'' # x"
    have "hd (small_text v @ y) \<noteq> CHR '']''" "small_text v @ y \<noteq> []" for y
      using small_text_head[of v] by (cases "small_text v"; simp)+
    then have head: "hd t \<noteq> CHR '']''" "t \<noteq> []"
      unfolding t_def vs list.map join_comma_Cons append_assoc by blast+
    have items: "read_items m t = Some (vs, x)"
      unfolding t_def
      by (rule read_items_small[OF JArray.IH False]) (use JArray.prems n in simp_all)
    have whole: "small_text (JArray vs) @ x = CHR ''['' # t" by (simp add: t_def)
    show ?thesis unfolding whole n using head items by simp
  qed (simp add: n)
next
  case (JObject ms)
  obtain m where n: "n = Suc m" using JObject.prems by (cases n) auto
  have one: "read_value n (small_text v @ x) = Some (v, x)"
    if "(k, v) \<in> set ms" "length (small_text v) \<le> n" for k v n x
    by (rule JObject.IH[of "(k, v)" v, OF that(1) _ that(2)]) simp
  have "read_members m (members_text ms @ CHR ''}'' # x) = Some (ms, x)"
    by (rule read_members_small[OF one]) (use JObject.prems n in simp_all)
  then show ?case using n by simp
qed

definition small_codec :: "json json_codec" where
  "small_codec = \<lparr>jc_text = small_text,
     jc_parse = (\<lambda>s. case read_value (length s) s of Some (v, []) \<Rightarrow> Some v | _ \<Rightarrow> None), jc_null = JNull\<rparr>"

interpretation small: row_text small_codec
proof unfold_locales
  show "jc_parse small_codec (jc_text small_codec v) = Some v" for v
    using read_small[of v "length (small_text v)" "[]"] by (simp add: small_codec_def)
  show "jc_text small_codec (JArray vs) = ''['' @ join_comma (map (jc_text small_codec) vs) @ '']''" for vs
    by (simp add: small_codec_def)
  show "\<exists>t. jc_text small_codec (JObject ms) = CHR ''{'' # t" for ms
    by (simp add: small_codec_def)
  fix ms ms' x y assume e: "jc_text small_codec (JObject ms) @ x = jc_text small_codec (JObject ms') @ y"
  define n where "n = length (small_text (JObject ms)) + length (small_text (JObject ms'))"
  have l: "read_value n (small_text (JObject ms) @ x) = Some (JObject ms, x)" by (rule read_small) (simp add: n_def)
  have r: "read_value n (small_text (JObject ms') @ y) = Some (JObject ms', y)" by (rule read_small) (simp add: n_def)
  have same: "small_text (JObject ms) @ x = small_text (JObject ms') @ y"
    using e by (simp only: small_codec_def json_codec.select_convs)
  have "Some (JObject ms, x) = Some (JObject ms', y)" by (rule trans[OF sym[OF l] r[folded same]])
  then show "ms = ms'" by (simp only: option.inject prod.inject json.inject)
qed

end
