(* ===== verification/RowDelta.thy ===== *)
theory RowDelta
  imports ListSink JsonText
begin

text \<open>
  What a write to a collection sends (\<open>src/forge/delta.rs\<close>, and the functions of
  \<open>src/forge/write.rs\<close> that choose among its shapes): the changes between two materialised values keyed
  by a column, the tail append and the positioned insert as cheaper shapes, the full set as the fallback,
  and the splice that derives a new value without a query. A value is its JSON text, read and written by
  \<open>codec\<close>; a JSON object is the association list of its members; \<open>rendered\<close> holds the markup of rows by
  key, in render order.
\<close>

type_synonym rendered = "(string \<times> string) list"

fun rr_insert :: "string \<Rightarrow> string \<Rightarrow> rendered \<Rightarrow> rendered" where
  "rr_insert k v [] = [(k, v)]"
| "rr_insert k v ((k', v') # rs) = (if k' = k then (k', v) # rs else (k', v') # rr_insert k v rs)"

definition rr_get :: "string \<Rightarrow> rendered \<Rightarrow> string option" where
  "rr_get k rs = map_of rs k"

definition rr_from :: "(string \<times> string) list \<Rightarrow> rendered" where
  "rr_from ps = fold (\<lambda>(k, v). rr_insert k v) ps []"

section \<open>Keys\<close>

fun number_text :: "json_number \<Rightarrow> string" where
  "number_text (PosInt n) = show_nat (unat n)"
| "number_text (NegInt i) = show_int i"
| "number_text (Float s) = s"

fun row_key :: "json \<Rightarrow> string option" where
  "row_key (JString text) = Some text"
| "row_key (JNumber n) = Some (number_text n)"
| "row_key (JBool b) = Some (if b then ''true'' else ''false'')"
| "row_key JNull = None"
| "row_key (JObject ms) = None"
| "row_key (JArray vs) = None"

fun as_array :: "json \<Rightarrow> json list option" where
  "as_array (JArray vs) = Some vs"
| "as_array _ = None"

fun member_of :: "string \<Rightarrow> json \<Rightarrow> json option" where
  "member_of c (JObject ms) = map_of ms c"
| "member_of c _ = None"

definition key_of :: "string \<Rightarrow> json \<Rightarrow> string option" where
  "key_of c row = (case member_of c row of None \<Rightarrow> None | Some v \<Rightarrow> row_key v)"

fun index_rows :: "string \<Rightarrow> string list \<Rightarrow> json list \<Rightarrow> (string \<times> json) list option" where
  "index_rows c seen [] = Some []"
| "index_rows c seen (row # rs) =
     (case key_of c row of
        None \<Rightarrow> None
      | Some k \<Rightarrow>
          if k \<in> set seen then None
          else map_option (\<lambda>ps. (k, row) # ps) (index_rows c (k # seen) rs))"

definition index_by_key :: "string \<Rightarrow> json list \<Rightarrow> (string \<times> json) list option" where
  "index_by_key c rs = index_rows c [] rs"

definition index_value :: "string \<Rightarrow> json \<Rightarrow> (string \<times> json) list option" where
  "index_value c v = (case as_array v of None \<Rightarrow> None | Some rs \<Rightarrow> index_by_key c rs)"

section \<open>The record diff\<close>

record record_change =
  rch_weight :: int
  rch_key :: string
  rch_record :: json

definition retractions :: "(string \<times> json) list \<Rightarrow> (string \<times> json) list \<Rightarrow> record_change list" where
  "retractions prev nxt =
     map (\<lambda>(k, r). \<lparr>rch_weight = - 1, rch_key = k, rch_record = r\<rparr>)
       (filter (\<lambda>(k, r). k \<notin> fst ` set nxt) prev)"

definition record_changes :: "(string \<times> json) list \<Rightarrow> string \<times> json \<Rightarrow> record_change list" where
  "record_changes prev kr =
     (case kr of (k, r) \<Rightarrow>
        (case map_of prev k of
           Some b \<Rightarrow>
             if b = r then []
             else [\<lparr>rch_weight = - 1, rch_key = k, rch_record = b\<rparr>, \<lparr>rch_weight = 1, rch_key = k, rch_record = r\<rparr>]
         | None \<Rightarrow> [\<lparr>rch_weight = 1, rch_key = k, rch_record = r\<rparr>]))"

definition diff_records :: "json \<Rightarrow> json \<Rightarrow> string \<Rightarrow> record_change list option" where
  "diff_records previous nxt c =
     (case index_value c previous of
        None \<Rightarrow> None
      | Some prev \<Rightarrow>
          (case index_value c nxt of
             None \<Rightarrow> None
           | Some ns \<Rightarrow> Some (retractions prev ns @ concat (map (record_changes prev) ns))))"

fun project_changes :: "record_change list \<Rightarrow> rendered \<Rightarrow> slot_change list option" where
  "project_changes [] rs = Some []"
| "project_changes (ch # chs) rs =
     (case (if rch_weight ch < 0 then Some [] else rr_get (rch_key ch) rs) of
        None \<Rightarrow> None
      | Some payload \<Rightarrow>
          map_option (\<lambda>cs. \<lparr>sg_weight = rch_weight ch, sg_key = rch_key ch, sg_payload = payload\<rparr> # cs)
            (project_changes chs rs))"

section \<open>Tail appends\<close>

fun survivors_first :: "string set \<Rightarrow> bool \<Rightarrow> string list \<Rightarrow> bool" where
  \<comment> \<open>no survivor follows an inserted key\<close>
  "survivors_first prev seen_insert [] = True"
| "survivors_first prev seen_insert (k # ks) =
     (if k \<in> prev then \<not> seen_insert \<and> survivors_first prev seen_insert ks
      else survivors_first prev True ks)"

definition is_tail_append :: "json \<Rightarrow> json \<Rightarrow> string \<Rightarrow> bool" where
  "is_tail_append previous nxt c =
     (case (index_value c previous, index_value c nxt) of
        (Some prev, Some ns) \<Rightarrow>
          let ps = map fst prev; ks = map fst ns in
          filter (\<lambda>k. k \<in> set ks) ps = filter (\<lambda>k. k \<in> set ps) ks \<and> survivors_first (set ps) False ks
      | _ \<Rightarrow> False)"

definition contains_text :: "string \<Rightarrow> string \<Rightarrow> bool" where
  "contains_text frag s \<longleftrightarrow> list_ex (\<lambda>i. starts_with frag (drop i s)) [0..<Suc (length s)]"

fun keyed_records :: "json json_codec \<Rightarrow> string \<Rightarrow> string \<Rightarrow> string list \<Rightarrow> json list \<Rightarrow> (string \<times> json) list option" where
  "keyed_records codec c previous seen [] = Some []"
| "keyed_records codec c previous seen (r # rs) =
     (case member_of c r of
        None \<Rightarrow> None
      | Some v \<Rightarrow>
          (case row_key v of
             None \<Rightarrow> None
           | Some k \<Rightarrow>
               if k \<in> set seen \<or> contains_text (jc_text codec (JString c) @ '':'' @ jc_text codec v) previous then None
               else map_option (\<lambda>ps. (k, r) # ps) (keyed_records codec c previous (k # seen) rs)))"

definition appended_rows :: "json json_codec \<Rightarrow> string \<Rightarrow> string \<Rightarrow> string \<Rightarrow> (string \<times> json) list option" where
  \<comment> \<open>a \<open>nxt\<close> no longer than the prefix it starts with, which no JSON text is, has an empty tail here\<close>
  "appended_rows codec previous nxt c =
     (if length previous < 2 \<or> hd previous \<noteq> CHR ''['' \<or> last previous \<noteq> CHR '']'' \<or> nxt = [] \<or> last nxt \<noteq> CHR '']''
      then None
      else let prefix = butlast previous in
        if \<not> starts_with prefix nxt then None
        else let tail = butlast (drop (length prefix) nxt) in
          if tail = [] then Some []
          else let body = (if hd tail = CHR '','' then tl tail else tail) in
            (case jc_parse codec (''['' @ body @ '']'') of
               Some (JArray records) \<Rightarrow> keyed_records codec c previous [] records
             | _ \<Rightarrow> None))"

section \<open>Positioned inserts\<close>

record positioned_insert =
  pi_before :: "string option"
  pi_keys :: "string list"

fun walk_inserts :: "(string \<times> json) list \<Rightarrow> (string \<times> json) list \<Rightarrow> string list \<Rightarrow> string option \<Rightarrow> bool \<Rightarrow> string list \<Rightarrow>
    (string list \<times> string option \<times> string list) option" where
  "walk_inserts prev [] keys before run_closed survivors = Some (keys, before, survivors)"
| "walk_inserts prev ((k, r) # ns) keys before run_closed survivors =
     (case map_of prev k of
        Some b \<Rightarrow>
          if b \<noteq> r then None
          else if keys \<noteq> [] \<and> \<not> run_closed then walk_inserts prev ns keys (Some k) True (survivors @ [k])
          else walk_inserts prev ns keys before run_closed (survivors @ [k])
      | None \<Rightarrow> if run_closed then None else walk_inserts prev ns (keys @ [k]) before run_closed survivors)"

definition classify_positioned_insert :: "json \<Rightarrow> json \<Rightarrow> string \<Rightarrow> positioned_insert option" where
  "classify_positioned_insert previous nxt c =
     (case (index_value c previous, index_value c nxt) of
        (Some prev, Some ns) \<Rightarrow>
          if list_ex (\<lambda>(k, r). k \<notin> fst ` set ns) prev then None
          else (case walk_inserts prev ns [] None False [] of
                  None \<Rightarrow> None
                | Some (keys, before, survivors) \<Rightarrow>
                    if keys = [] \<or> map fst prev \<noteq> survivors then None
                    else Some \<lparr>pi_before = before, pi_keys = keys\<rparr>)
      | _ \<Rightarrow> None)"

fun project_keys :: "string list \<Rightarrow> rendered \<Rightarrow> reconcile_row list option" where
  "project_keys [] rs = Some []"
| "project_keys (k # ks) rs =
     (case rr_get k rs of
        None \<Rightarrow> None
      | Some html \<Rightarrow> map_option (\<lambda>rws. \<lparr>rw_key = k, rw_payload = html\<rparr> # rws) (project_keys ks rs))"

definition project_inserted_rows :: "positioned_insert \<Rightarrow> rendered \<Rightarrow> reconcile_row list option" where
  "project_inserted_rows ins rs = project_keys (pi_keys ins) rs"

section \<open>The list half of a fan-out\<close>

definition reconcile_rows :: "rendered \<Rightarrow> reconcile_row list" where
  "reconcile_rows rs = map (\<lambda>(k, html). \<lparr>rw_key = k, rw_payload = html\<rparr>) rs"

definition reconcile_or_defer :: "bool \<Rightarrow> rendered \<Rightarrow> list_update \<times> bool" where
  \<comment> \<open>the flag is \<open>needs_whole\<close>\<close>
  "reconcile_or_defer partial rs = (if partial then (No_rows, True) else (Reconcile (reconcile_rows rs), False))"

fun assert_appended :: "(string \<times> json) list \<Rightarrow> rendered \<Rightarrow> slot_change list option" where
  "assert_appended [] rs = Some []"
| "assert_appended ((k, r) # ps) rs =
     (case rr_get k rs of
        None \<Rightarrow> None
      | Some html \<Rightarrow> map_option (\<lambda>cs. \<lparr>sg_weight = 1, sg_key = k, sg_payload = html\<rparr> # cs) (assert_appended ps rs))"

definition list_frames :: "u32 \<Rightarrow> string \<Rightarrow> list_update \<times> bool \<Rightarrow> rendered option \<Rightarrow> instruction list" where
  \<comment> \<open>what one fan-out sends a subscriber: the write, and the full set when the partial render could not say it\<close>
  "list_frames i value up whole =
     chosen_instruction i \<lparr>tt_value = value, tt_update = fst up\<rparr> #
     (case (snd up, whole) of
        (True, Some rs) \<Rightarrow> [chosen_instruction i \<lparr>tt_value = value, tt_update = Reconcile (reconcile_rows rs)\<rparr>]
      | _ \<Rightarrow> [])"

definition parsed_update :: "string \<Rightarrow> json \<Rightarrow> json \<Rightarrow> rendered \<Rightarrow> bool \<Rightarrow> list_update \<times> bool" where
  "parsed_update c previous nxt rs partial =
     (if \<not> is_tail_append previous nxt c then
        (case classify_positioned_insert previous nxt c of
           None \<Rightarrow> reconcile_or_defer partial rs
         | Some ins \<Rightarrow>
             (case project_inserted_rows ins rs of
                None \<Rightarrow> reconcile_or_defer partial rs
              | Some rws \<Rightarrow> (Insert (pi_before ins) rws, False)))
      else
        (case diff_records previous nxt c of
           None \<Rightarrow> reconcile_or_defer partial rs
         | Some [] \<Rightarrow> (No_rows, False)
         | Some changes \<Rightarrow>
             (case project_changes changes rs of
                None \<Rightarrow> reconcile_or_defer partial rs
              | Some cs \<Rightarrow> (Delta cs, False))))"

definition row_update :: "json json_codec \<Rightarrow> string \<Rightarrow> string \<Rightarrow> string \<Rightarrow> rendered \<Rightarrow> bool \<Rightarrow> list_update \<times> bool" where
  "row_update codec c previous nxt rs partial =
     (case appended_rows codec previous nxt c of
        Some [] \<Rightarrow> (No_rows, False)
      | Some appended \<Rightarrow>
          (case assert_appended appended rs of
             None \<Rightarrow> reconcile_or_defer partial rs
           | Some cs \<Rightarrow> (Delta cs, False))
      | None \<Rightarrow>
          (case (jc_parse codec previous, jc_parse codec nxt) of
             (Some p, Some n) \<Rightarrow> parsed_update c p n rs partial
           | _ \<Rightarrow> reconcile_or_defer partial rs))"

section \<open>The splice\<close>

definition splice_appended :: "json json_codec \<Rightarrow> string \<Rightarrow> json list \<Rightarrow> bool \<Rightarrow> string option" where
  "splice_appended codec previous records at_head =
     (if records = [] then Some previous
      else if length previous < 2 \<or> hd previous \<noteq> CHR ''['' \<or> last previous \<noteq> CHR '']'' then None
      else let inner = butlast (tl previous); joined = join_comma (map (jc_text codec) records) in
        Some (''['' @ (if inner = [] then joined else if at_head then joined @ '','' @ inner
                       else inner @ '','' @ joined) @ '']''))"

record sort_key =
  sk_column :: string
  sk_desc :: bool

definition insert_at_head :: "string \<Rightarrow> sort_key list \<Rightarrow> bool option" where
  "insert_at_head key_column keys =
     (case keys of
        [] \<Rightarrow> None
      | k # ks \<Rightarrow> if sk_column k \<noteq> key_column then None else Some (sk_desc k))"

section \<open>Keyed lists\<close>

lemma index_rows_ok:
  "index_rows c seen rs = Some ps \<Longrightarrow>
   map snd ps = rs \<and> distinct (map fst ps) \<and> set (map fst ps) \<inter> set seen = {} \<and>
   list_all (\<lambda>(k, r). key_of c r = Some k) ps"
proof (induction rs arbitrary: seen ps)
  case (Cons row rs)
  then obtain k qs where "key_of c row = Some k" "k \<notin> set seen" "index_rows c (k # seen) rs = Some qs" "ps = (k, row) # qs"
    by (auto split: option.splits if_splits)
  with Cons.IH[of "k # seen" qs] show ?case by auto
qed simp

lemma index_by_key_ok:
  assumes "index_by_key c rs = Some ps"
  shows "map snd ps = rs" "distinct (map fst ps)" "list_all (\<lambda>(k, r). key_of c r = Some k) ps"
  using index_rows_ok[of c "[]" rs ps] assms by (simp_all add: index_by_key_def)

lemma index_rows_append:
  "index_rows c seen (rs @ ss) = Some ps \<Longrightarrow>
   \<exists>as bs. index_rows c seen rs = Some as \<and> map snd bs = ss \<and> ps = as @ bs"
proof (induction rs arbitrary: seen ps)
  case Nil
  then show ?case using index_rows_ok by fastforce
next
  case (Cons row rs)
  then obtain k qs where k: "key_of c row = Some k" "k \<notin> set seen" "index_rows c (k # seen) (rs @ ss) = Some qs" "ps = (k, row) # qs"
    by (auto split: option.splits if_splits)
  from Cons.IH[OF k(3)] obtain as bs where "index_rows c (k # seen) rs = Some as" "map snd bs = ss" "qs = as @ bs" by blast
  with k show ?case by auto
qed

lemma index_is_object: "key_of c r = Some k \<Longrightarrow> \<exists>ms. r = JObject ms"
  by (cases r) (auto simp: key_of_def)

text \<open>The rows of a value, as its pairs of key and markup.\<close>

definition shown_rows :: "(json \<Rightarrow> string) \<Rightarrow> (string \<times> json) list \<Rightarrow> (string \<times> string) list" where
  "shown_rows html ps = map (\<lambda>(k, r). (k, html r)) ps"

lemma shown_rows_simps [simp]:
  "map fst (shown_rows html ps) = map fst ps" "fst ` set (shown_rows html ps) = fst ` set ps"
  "shown_rows html (ps @ qs) = shown_rows html ps @ shown_rows html qs" "shown_rows html [] = []"
  "shown_rows html ((k, r) # ps) = (k, html r) # shown_rows html ps"
  "shown_rows html ps = [] \<longleftrightarrow> ps = []"
  by (auto simp: shown_rows_def comp_def case_prod_unfold image_image)

lemma shown_rows_all: "list_all (\<lambda>(k, r). P (html r)) ps \<Longrightarrow> list_all (\<lambda>p. P (snd p)) (shown_rows html ps)"
  by (induction ps) auto

section \<open>A delta of distinct records is not compacted\<close>

lemma add_change_new: "ident_of ch \<notin> ident_of ` set cs \<Longrightarrow> add_change ch cs = cs @ [ch]"
  by (induction cs) (auto simp: same_record_iff)

lemma fold_add_new:
  "distinct (map ident_of (acc @ cs)) \<Longrightarrow> fold add_change cs acc = acc @ cs"
proof (induction cs arbitrary: acc)
  case (Cons ch cs)
  have "add_change ch acc = acc @ [ch]" using Cons.prems by (intro add_change_new) auto
  then show ?case using Cons.IH[of "acc @ [ch]"] Cons.prems by simp
qed simp

lemma coalesce_id:
  assumes "distinct (map ident_of cs)" "list_all (\<lambda>ch. sg_weight ch \<noteq> 0) cs"
  shows "coalesce_changes cs = cs"
  using fold_add_new[of "[]" cs] assms by (simp add: coalesce_fold list_all_iff filter_id_conv)

lemma distinct_by_fst: "distinct xs \<Longrightarrow> distinct ys \<Longrightarrow> fst ` set xs \<inter> fst ` set ys = {} \<Longrightarrow> distinct (xs @ ys)"
  by auto

lemma idents_of_edits:
  assumes "distinct (map fst edits)" "list_all (\<lambda>p. snd p \<noteq> []) edits"
  shows "distinct (map ident_of (concat (map (\<lambda>p. [retract (fst p), assert_row p]) edits))) \<and>
    fst ` set (map ident_of (concat (map (\<lambda>p. [retract (fst p), assert_row p]) edits))) = fst ` set edits"
  using assms
proof (induction edits)
  case (Cons e edits)
  define ids where "ids = map ident_of (concat (map (\<lambda>p. [retract (fst p), assert_row p]) edits))"
  have IH: "distinct ids" "fst ` set ids = fst ` set edits" using Cons unfolding ids_def by simp_all
  have step: "map ident_of (concat (map (\<lambda>p. [retract (fst p), assert_row p]) (e # edits))) =
      [(fst e, []), (fst e, snd e)] @ ids"
    by (simp add: ids_def ident_of_def retract_def assert_row_def)
  have "distinct ([(fst e, []), (fst e, snd e)] @ ids)"
    by (rule distinct_by_fst) (use IH Cons.prems in \<open>cases e; auto\<close>)+
  then show ?case unfolding step using IH(2) by simp
qed simp

lemma delta_not_compacted:
  assumes "distinct (went @ map fst edits @ map fst adds)" "list_all (\<lambda>p. snd p \<noteq> []) edits"
  shows "coalesce_changes (delta_changes went edits adds) = delta_changes went edits adds"
proof (rule coalesce_id)
  define ids where "ids = map ident_of (concat (map (\<lambda>p. [retract (fst p), assert_row p]) edits))"
  have e: "distinct ids" "fst ` set ids = fst ` set edits" unfolding ids_def using idents_of_edits assms by auto
  have w: "map ident_of (map retract went) = map (\<lambda>k. (k, [])) went"
    and a: "map ident_of (map assert_row adds) = adds"
    by (simp_all add: ident_of_def retract_def assert_row_def comp_def)
  have d: "distinct went" "distinct (map fst adds)" "fst ` set edits \<inter> fst ` set adds = {}"
    "set went \<inter> (fst ` set edits \<union> fst ` set adds) = {}"
    using assms(1) by simp_all
  have "distinct (ids @ adds)" by (rule distinct_by_fst) (use d e in \<open>auto simp: distinct_map\<close>)
  then have "distinct (map (\<lambda>k. (k, [] :: string)) went @ ids @ adds)"
    using d e by (intro distinct_by_fst) (simp_all add: distinct_map inj_on_def image_image image_Un)
  then show "distinct (map ident_of (delta_changes went edits adds))"
    unfolding delta_changes_def map_append w a ids_def .
  show "list_all (\<lambda>ch. sg_weight ch \<noteq> 0) (delta_changes went edits adds)"
    by (auto simp: delta_changes_def list_all_iff retract_def assert_row_def)
qed

section \<open>Tail appends are what they claim\<close>

text \<open>In an order-preserving tail append the survivors of \<open>prev\<close> come first, in their old order.\<close>

lemma survivors_first_split:
  "survivors_first P seen ks \<Longrightarrow> \<exists>as bs. ks = as @ bs \<and> set as \<subseteq> P \<and> set bs \<inter> P = {} \<and> (seen \<longrightarrow> as = [])"
proof (induction ks arbitrary: seen)
  case (Cons k ks)
  show ?case
  proof (cases "k \<in> P")
    case True
    then obtain as bs where "ks = as @ bs" "set as \<subseteq> P" "set bs \<inter> P = {}" using Cons.IH[of False] Cons.prems by auto
    then show ?thesis using True Cons.prems by (intro exI[of _ "k # as"] exI[of _ bs]) auto
  next
    case False
    then obtain bs where "ks = bs" "set bs \<inter> P = {}" using Cons.IH[of True] Cons.prems by auto
    then show ?thesis using False by (intro exI[of _ "[]"] exI[of _ "k # bs"]) auto
  qed
qed simp

lemma tail_append_split:
  assumes "filter (\<lambda>k. k \<in> set (map fst ns)) (map fst prev) = filter (\<lambda>k. k \<in> set (map fst prev)) (map fst ns)"
    "survivors_first (set (map fst prev)) False (map fst ns)"
  obtains ss rs where "ns = ss @ rs" "map fst ss = filter (\<lambda>k. k \<in> fst ` set ns) (map fst prev)"
    "fst ` set rs \<inter> fst ` set prev = {}"
proof -
  obtain as bs where ab: "map fst ns = as @ bs" "set as \<subseteq> set (map fst prev)" "set bs \<inter> set (map fst prev) = {}"
    using survivors_first_split[OF assms(2)] by blast
  then obtain ss rs where sr: "ns = ss @ rs" "map fst ss = as" "map fst rs = bs"
    by (auto simp: map_eq_append_conv)
  have "filter (\<lambda>k. k \<in> set (map fst prev)) as = as" using ab(2) by (intro filter_True) blast
  moreover have "filter (\<lambda>k. k \<in> set (map fst prev)) bs = []" using ab(3) by (intro filter_False) blast
  ultimately have "filter (\<lambda>k. k \<in> set (map fst prev)) (as @ bs) = as" by (simp only: filter_append append_Nil2)
  then have "map fst ss = filter (\<lambda>k. k \<in> fst ` set ns) (map fst prev)"
    using assms(1) ab(1) sr(2) unfolding set_map [symmetric] by simp
  moreover have "fst ` set rs \<inter> fst ` set prev = {}" using ab(3) sr(3) by (metis list.set_map)
  ultimately show ?thesis using that sr(1) by blast
qed

text \<open>The pieces of its diff.\<close>

definition went_keys :: "(string \<times> json) list \<Rightarrow> (string \<times> json) list \<Rightarrow> string list" where
  "went_keys prev ns = filter (\<lambda>k. k \<notin> fst ` set ns) (map fst prev)"

definition edited_rows :: "(string \<times> json) list \<Rightarrow> (string \<times> json) list \<Rightarrow> (string \<times> json) list" where
  "edited_rows prev ss = filter (\<lambda>(k, r). map_of prev k \<noteq> Some r) ss"

lemma record_changes_cases:
  "map_of prev k = Some r \<Longrightarrow> record_changes prev (k, r) = []"
  "map_of prev k = Some b \<Longrightarrow> b \<noteq> r \<Longrightarrow> record_changes prev (k, r) =
     [\<lparr>rch_weight = - 1, rch_key = k, rch_record = b\<rparr>, \<lparr>rch_weight = 1, rch_key = k, rch_record = r\<rparr>]"
  "map_of prev k = None \<Longrightarrow> record_changes prev (k, r) = [\<lparr>rch_weight = 1, rch_key = k, rch_record = r\<rparr>]"
  by (simp_all add: record_changes_def)

lemma project_append:
  "project_changes (xs @ ys) rs =
     (case project_changes xs rs of None \<Rightarrow> None | Some as \<Rightarrow> map_option (\<lambda>bs. as @ bs) (project_changes ys rs))"
  by (cases "project_changes ys rs"; induction xs) (auto split: option.splits)

lemma project_retractions:
  "project_changes (retractions prev ns) rs = Some (map retract (went_keys prev ns))"
proof -
  have "project_changes (map (\<lambda>(k, r). \<lparr>rch_weight = - 1, rch_key = k, rch_record = r\<rparr>) qs) rs = Some (map retract (map fst qs))" for qs
    by (induction qs) (auto simp: retract_def)
  moreover have "filter (\<lambda>(k, r). k \<notin> fst ` set ns) prev = filter (\<lambda>p. fst p \<notin> fst ` set ns) prev"
    by (simp add: case_prod_unfold)
  ultimately show ?thesis unfolding retractions_def went_keys_def by (simp add: filter_map comp_def)
qed

lemma project_survivors:
  assumes "list_all (\<lambda>(k, r). map_of prev k \<noteq> None) ss"
    "project_changes (concat (map (record_changes prev) ss)) rs = Some cs"
    "\<And>k r h. (k, r) \<in> set ss \<Longrightarrow> rr_get k rs = Some h \<Longrightarrow> h = html r"
  shows "cs = concat (map (\<lambda>p. [retract (fst p), assert_row p]) (shown_rows html (edited_rows prev ss)))"
  using assms
proof (induction ss arbitrary: cs)
  case Nil
  then show ?case by (simp add: edited_rows_def)
next
  case (Cons s ss)
  obtain k r where s: "s = (k, r)" by (cases s)
  obtain b where b: "map_of prev k = Some b" using Cons.prems(1) s by auto
  note later = Cons.prems(3)[OF list.set_intros(2)]
  show ?case
  proof (cases "b = r")
    case True
    then have "project_changes (concat (map (record_changes prev) ss)) rs = Some cs"
      using Cons.prems(2) s b by (simp add: record_changes_cases)
    then show ?thesis using Cons.IH[OF _ _ later] Cons.prems(1) s b True by (simp add: edited_rows_def)
  next
    case False
    then obtain h cs' where h: "rr_get k rs = Some h" "project_changes (concat (map (record_changes prev) ss)) rs = Some cs'"
      "cs = retract k # assert_row (k, h) # cs'"
      using Cons.prems(2) s b False by (auto simp: record_changes_cases(2) retract_def assert_row_def split: option.splits)
    have "h = html r" using Cons.prems(3)[of k r h] s h(1) by simp
    then show ?thesis using Cons.IH[OF _ h(2) later] Cons.prems(1) h s b False by (simp add: edited_rows_def)
  qed
qed

lemma project_new:
  assumes "fst ` set ns \<inter> fst ` set prev = {}" "project_changes (concat (map (record_changes prev) ns)) rs = Some cs"
    "\<And>k r h. (k, r) \<in> set ns \<Longrightarrow> rr_get k rs = Some h \<Longrightarrow> h = html r"
  shows "cs = map assert_row (shown_rows html ns)"
  using assms
proof (induction ns arbitrary: cs)
  case (Cons s ns)
  obtain k r where s: "s = (k, r)" by (cases s)
  have b: "map_of prev k = None" using Cons.prems(1) s by (simp add: map_of_eq_None_iff)
  then obtain h cs' where h: "rr_get k rs = Some h" "project_changes (concat (map (record_changes prev) ns)) rs = Some cs'"
    "cs = assert_row (k, h) # cs'"
    using Cons.prems(2) s by (auto simp: record_changes_cases(3) assert_row_def split: option.splits)
  have "h = html r" using Cons.prems(3)[of k r h] s h(1) by simp
  then show ?case using Cons.IH[OF _ h(2) Cons.prems(3)[OF list.set_intros(2)]] Cons.prems(1) h s by simp
qed simp

text \<open>What the browser holds after the delta is what the new value renders to.\<close>

lemma map_of_shown: "map_of (shown_rows html xs) k = map_option html (map_of xs k)"
  by (induction xs) auto

lemma map_of_filter_keyed:
  "distinct (map fst xs) \<Longrightarrow> map_of (filter (\<lambda>(k, r). Q k r) xs) k =
     (case map_of xs k of None \<Rightarrow> None | Some r \<Rightarrow> if Q k r then Some r else None)"
proof (induction xs)
  case (Cons x xs)
  obtain k' r where x: "x = (k', r)" by (cases x)
  have none: "k' = k \<Longrightarrow> map_of xs k = None" using Cons.prems x by (simp add: map_of_eq_None_iff)
  have IH: "map_of (filter (\<lambda>(k, r). Q k r) xs) k =
     (case map_of xs k of None \<Rightarrow> None | Some r \<Rightarrow> if Q k r then Some r else None)" using Cons by simp
  show ?case using none by (cases "k' = k") (simp_all add: x IH)
qed simp

lemma edited_unchanged:
  assumes "distinct (map fst prev)" "distinct (map fst ss)" "map fst ss = filter (\<lambda>k. k \<in> K) (map fst prev)"
  shows "map (edited (shown_rows html (edited_rows prev ss))) (filter (\<lambda>p. fst p \<in> K) (shown_rows html prev)) =
    shown_rows html ss"
proof -
  let ?old = "filter (\<lambda>p. fst p \<in> K) prev"
  have old: "filter (\<lambda>p. fst p \<in> K) (shown_rows html prev) = shown_rows html ?old"
    by (induction prev) auto
  have keys: "map fst ss = map fst ?old" using assms(3) by (simp add: filter_map comp_def)
  have mo: "map_of (shown_rows html (edited_rows prev ss)) k =
      (case map_of ss k of None \<Rightarrow> None | Some r \<Rightarrow> if map_of prev k \<noteq> Some r then Some (html r) else None)" for k
    unfolding map_of_shown edited_rows_def map_of_filter_keyed[OF assms(2)] by (simp split: option.split)
  have "map (edited (shown_rows html (edited_rows prev ss))) (shown_rows html ?old) = shown_rows html ss"
  proof (rule nth_equalityI)
    show len: "length (map (edited (shown_rows html (edited_rows prev ss))) (shown_rows html ?old)) = length (shown_rows html ss)"
      using arg_cong[OF keys, of length] by (simp add: shown_rows_def)
    fix i assume "i < length (map (edited (shown_rows html (edited_rows prev ss))) (shown_rows html ?old))"
    then have i: "i < length ?old" "i < length ss" using len by (simp_all add: shown_rows_def)
    obtain k b where o: "?old ! i = (k, b)" by (cases "?old ! i")
    obtain k' r where n: "ss ! i = (k', r)" by (cases "ss ! i")
    have kk: "k' = k" using arg_cong[OF keys, of "\<lambda>xs. xs ! i"] i o n by simp
    have "(k, b) \<in> set prev" using nth_mem[OF i(1)] o by simp
    then have pk: "map_of prev k = Some b" using assms(1) by simp
    have "(k, r) \<in> set ss" using nth_mem[OF i(2)] n kk by simp
    then have nk: "map_of ss k = Some r" using assms(2) by simp
    have "edited (shown_rows html (edited_rows prev ss)) (k, html b) = (k, html r)"
      by (simp add: edited_def mo nk pk)
    then show "map (edited (shown_rows html (edited_rows prev ss))) (shown_rows html ?old) ! i = shown_rows html ss ! i"
      using i o n kk by (simp add: shown_rows_def)
  qed
  then show ?thesis using old by simp
qed

section \<open>Positioned inserts are what they claim\<close>

definition unchanged :: "(string \<times> json) list \<Rightarrow> (string \<times> json) list \<Rightarrow> bool" where
  "unchanged prev xs \<longleftrightarrow> list_all (\<lambda>(k, r). map_of prev k = Some r) xs"

definition first_key :: "(string \<times> json) list \<Rightarrow> string option" where
  "first_key xs = (case xs of [] \<Rightarrow> None | p # _ \<Rightarrow> Some (fst p))"

lemma walk_closed:
  "walk_inserts prev ns keys before True surv = Some (ks, b, sv) \<Longrightarrow>
   ks = keys \<and> b = before \<and> sv = surv @ map fst ns \<and> unchanged prev ns"
proof (induction ns arbitrary: surv)
  case (Cons n ns)
  obtain k r where n: "n = (k, r)" by (cases n)
  then have "map_of prev k = Some r" and w: "walk_inserts prev ns keys before True (surv @ [k]) = Some (ks, b, sv)"
    using Cons.prems by (auto split: option.splits if_splits)
  then show ?case using Cons.IH[OF w] n by (simp add: unchanged_def)
qed (simp add: unchanged_def)

lemma walk_open:
  "walk_inserts prev ns keys None False surv = Some (ks, b, sv) \<Longrightarrow> keys \<noteq> [] \<Longrightarrow>
   \<exists>new bs. ns = new @ bs \<and> ks = keys @ map fst new \<and> unchanged prev bs \<and> b = first_key bs \<and> sv = surv @ map fst bs"
proof (induction ns arbitrary: keys surv)
  case (Cons n ns)
  obtain k r where n: "n = (k, r)" by (cases n)
  show ?case
  proof (cases "map_of prev k")
    case None
    then have "walk_inserts prev ns (keys @ [k]) None False surv = Some (ks, b, sv)" using Cons.prems n by simp
    then obtain new bs where "ns = new @ bs" "ks = (keys @ [k]) @ map fst new" "unchanged prev bs" "b = first_key bs"
      "sv = surv @ map fst bs" using Cons.IH[of "keys @ [k]" surv] by blast
    then show ?thesis using n by (intro exI[of _ "n # new"] exI[of _ bs]) simp
  next
    case (Some p)
    then have "p = r" and w: "walk_inserts prev ns keys (Some k) True (surv @ [k]) = Some (ks, b, sv)"
      using Cons.prems n by (auto split: if_splits)
    then show ?thesis using walk_closed[OF w] Some n
      by (intro exI[of _ "[]"] exI[of _ "n # ns"]) (simp add: unchanged_def first_key_def)
  qed
qed (auto simp: unchanged_def first_key_def)

lemma walk_start:
  "walk_inserts prev ns [] None False surv = Some (ks, b, sv) \<Longrightarrow>
   \<exists>as new bs. ns = as @ new @ bs \<and> ks = map fst new \<and> unchanged prev (as @ bs) \<and>
     (new \<noteq> [] \<longrightarrow> b = first_key bs) \<and> sv = surv @ map fst (as @ bs)"
proof (induction ns arbitrary: surv)
  case (Cons n ns)
  obtain k r where n: "n = (k, r)" by (cases n)
  show ?case
  proof (cases "map_of prev k")
    case None
    then have "walk_inserts prev ns [k] None False surv = Some (ks, b, sv)" using Cons.prems n by simp
    from walk_open[OF this] obtain new bs where "ns = new @ bs" "ks = [k] @ map fst new" "unchanged prev bs"
      "b = first_key bs" "sv = surv @ map fst bs" by blast
    then show ?thesis using n by (intro exI[of _ "[]"] exI[of _ "n # new"] exI[of _ bs]) simp
  next
    case (Some p)
    then have "p = r" and w: "walk_inserts prev ns [] None False (surv @ [k]) = Some (ks, b, sv)"
      using Cons.prems n by (auto split: if_splits)
    from Cons.IH[OF w] obtain as new bs where "ns = as @ new @ bs" "ks = map fst new" "unchanged prev (as @ bs)"
      "new \<noteq> [] \<longrightarrow> b = first_key bs" "sv = (surv @ [k]) @ map fst (as @ bs)" by blast
    then show ?thesis using n Some \<open>p = r\<close>
      by (intro exI[of _ "n # as"] exI[of _ new] exI[of _ bs]) (simp add: unchanged_def)
  qed
qed (auto simp: unchanged_def intro: exI[of _ "[]"])

lemma unchanged_eq:
  assumes "unchanged prev xs" "map fst prev = map fst xs" "distinct (map fst prev)"
  shows "prev = xs"
proof (rule nth_equalityI)
  show len: "length prev = length xs" using arg_cong[OF assms(2), of length] by simp
  fix i assume i: "i < length prev"
  obtain k r where x: "xs ! i = (k, r)" by (cases "xs ! i")
  obtain k' b where p: "prev ! i = (k', b)" by (cases "prev ! i")
  have "k' = k" using arg_cong[OF assms(2), of "\<lambda>ys. ys ! i"] i len x p by simp
  moreover have "(k', b) \<in> set prev" using nth_mem[OF i] p by simp
  moreover have "map_of prev k = Some r"
    using assms(1) nth_mem[of i xs] i len x by (auto simp: unchanged_def list_all_iff)
  ultimately show "prev ! i = xs ! i" using assms(3) x p by simp
qed

lemma positioned_insert_shape:
  assumes "classify_positioned_insert (JArray ps) (JArray ns) c = Some ins" "index_by_key c ps = Some kps"
    "index_by_key c ns = Some kns"
  obtains as new bs where "kns = as @ new @ bs" "kps = as @ bs" "pi_keys ins = map fst new" "new \<noteq> []"
    "pi_before ins = first_key bs"
proof -
  obtain ks b sv where w: "walk_inserts kps kns [] None False [] = Some (ks, b, sv)" "ks \<noteq> []" "map fst kps = sv"
    "ins = \<lparr>pi_before = b, pi_keys = ks\<rparr>"
    using assms by (auto simp: classify_positioned_insert_def index_value_def split: if_splits option.splits)
  from walk_start[OF w(1)] obtain as new bs where s: "kns = as @ new @ bs" "ks = map fst new" "unchanged kps (as @ bs)"
    "new \<noteq> [] \<longrightarrow> b = first_key bs" "sv = [] @ map fst (as @ bs)" by blast
  have "kps = as @ bs" using s w index_by_key_ok[OF assms(2)] by (intro unchanged_eq) simp_all
  then show ?thesis using that s w by auto
qed

section \<open>What the browser holds afterwards\<close>

text \<open>The instruction of an update, applied to the rows of the previous value.\<close>

definition lands :: "(string \<Rightarrow> bool) \<Rightarrow> u32 \<Rightarrow> string \<Rightarrow> list_update \<Rightarrow> (string \<times> string) list \<Rightarrow> (string \<times> string) list \<Rightarrow> bool" where
  "lands inst i value u old new \<longleftrightarrow>
     list_patch inst (chosen_instruction i \<lparr>tt_value = value, tt_update = u\<rparr>) (seed_rows_by_key old) = seed_rows_by_key new"

lemma lands_same: "lands inst i value No_rows ps ps"
  by (simp add: lands_def chosen_instruction_def)

lemma lands_reconcile:
  assumes "list_all (\<lambda>p. inst (snd p)) new" "distinct (map fst new)" "distinct (map fst old)"
  shows "lands inst i value (Reconcile (reconcile_rows new)) old new"
  using reconcile_exact[of inst new old] assms by (simp add: lands_def chosen_instruction_def reconcile_rows_def case_prod_unfold)

lemma lands_insert:
  assumes "list_all (\<lambda>p. inst (snd p)) new" "distinct (map fst (as @ new @ bs))" "new \<noteq> []"
    "before = (case bs of [] \<Rightarrow> None | p # _ \<Rightarrow> Some (fst p))"
  shows "lands inst i value (Insert before (rows_of new)) (as @ bs) (as @ new @ bs)"
  using slot_insert_exact[of inst new as bs before] assms
  by (simp add: lands_def chosen_instruction_def case_prod_unfold del: seed_simps(3))

lemma lands_delta:
  assumes "distinct (went @ map fst edits @ map fst adds)" "set went \<subseteq> fst ` set old" "fst ` set edits \<subseteq> fst ` set old"
    "fst ` set adds \<inter> fst ` set old = {}" "list_all (\<lambda>p. inst (snd p) \<and> snd p \<noteq> []) (edits @ adds)"
    "delta_changes went edits adds \<noteq> []"
  shows "lands inst i value (Delta (delta_changes went edits adds)) old
     (map (edited edits) (filter (\<lambda>p. fst p \<notin> set went) old) @ adds)"
proof -
  have "coalesce_changes (delta_changes went edits adds) = delta_changes went edits adds"
    using assms(1,5) by (intro delta_not_compacted) (auto simp: list_all_iff)
  moreover have "list_all (\<lambda>p. inst (snd p)) edits" "list_all (\<lambda>p. inst (snd p)) adds"
    using assms(5) by (auto simp: list_all_iff)
  ultimately show ?thesis using slot_delta_exact[OF assms(1-4)] assms(6)
    by (simp add: lands_def chosen_instruction_def Let_def)
qed

lemma project_keys_rows:
  assumes "project_keys (map fst new) rs = Some out" "\<And>k r h. (k, r) \<in> set new \<Longrightarrow> rr_get k rs = Some h \<Longrightarrow> h = html r"
  shows "out = rows_of (shown_rows html new)"
  using assms
proof (induction new arbitrary: out)
  case (Cons n new)
  obtain k r where n: "n = (k, r)" by (cases n)
  then obtain h out' where h: "rr_get k rs = Some h" "project_keys (map fst new) rs = Some out'"
    "out = \<lparr>rw_key = k, rw_payload = h\<rparr> # out'" using Cons.prems(1) by (auto split: option.splits)
  then show ?case using Cons.IH[OF h(2) Cons.prems(2)[OF list.set_intros(2)]] Cons.prems(2)[of k r h] n by simp
qed simp

lemma assert_appended_rows:
  assumes "assert_appended new rs = Some cs" "\<And>k r h. (k, r) \<in> set new \<Longrightarrow> rr_get k rs = Some h \<Longrightarrow> h = html r"
  shows "cs = delta_changes [] [] (shown_rows html new)"
  using assms
proof (induction new arbitrary: cs)
  case (Cons n new)
  obtain k r where n: "n = (k, r)" by (cases n)
  then obtain h cs' where h: "rr_get k rs = Some h" "assert_appended new rs = Some cs'"
    "cs = assert_row (k, h) # cs'" using Cons.prems(1) by (auto simp: assert_row_def split: option.splits)
  then show ?case using Cons.IH[OF h(2) Cons.prems(2)[OF list.set_intros(2)]] Cons.prems(2)[of k r h] n
    by (simp add: delta_changes_def)
qed (simp add: delta_changes_def)

text \<open>The full statement of a value's markup: every row of it renders, and to something.\<close>

definition renders :: "(string \<Rightarrow> bool) \<Rightarrow> (json \<Rightarrow> string) \<Rightarrow> (string \<times> json) list \<Rightarrow> rendered \<Rightarrow> bool" where
  \<comment> \<open>what is rendered is the template applied to a row of the new value\<close>
  "renders inst html ns rs \<longleftrightarrow>
     list_all (\<lambda>(k, r). inst (html r) \<and> html r \<noteq> [] \<and> (case rr_get k rs of None \<Rightarrow> True | Some h \<Rightarrow> h = html r)) ns"

lemma renders_row: "renders inst html ns rs \<Longrightarrow> (k, r) \<in> set ns \<Longrightarrow> rr_get k rs = Some h \<Longrightarrow> h = html r"
  by (fastforce simp: renders_def list_all_iff)

lemma renders_all: "renders inst html ns rs \<Longrightarrow> list_all (\<lambda>p. inst (snd p) \<and> snd p \<noteq> []) (shown_rows html ns)"
  by (auto simp: renders_def list_all_iff shown_rows_def)

lemma edited_keys: "fst ` set (edited_rows prev ss) \<subseteq> fst ` set ss" "set (edited_rows prev ss) \<subseteq> set ss"
  by (auto simp: edited_rows_def)

lemma not_in_filter: "xs = filter (\<lambda>x. x \<in> A) ys \<Longrightarrow> set xs \<subseteq> set ys"
  by auto

lemma filter_went:
  assumes "K = fst ` set ns"
  shows "filter (\<lambda>p. fst p \<notin> set (went_keys prev ns)) (shown_rows html prev) = filter (\<lambda>p. fst p \<in> K) (shown_rows html prev)"
proof (rule filter_cong[OF refl])
  fix p assume "p \<in> set (shown_rows html prev)"
  from imageI[OF this, of fst] have "fst p \<in> fst ` set prev" by (simp only: shown_rows_simps)
  then show "fst p \<notin> set (went_keys prev ns) \<longleftrightarrow> fst p \<in> K" using assms by (auto simp: went_keys_def)
qed

lemma tail_append_lands:
  assumes prev: "distinct (map fst prev)" and ns: "distinct (map fst ns)" and r: "renders inst html ns rs"
    and same: "filter (\<lambda>k. k \<in> set (map fst ns)) (map fst prev) = filter (\<lambda>k. k \<in> set (map fst prev)) (map fst ns)"
    and sv: "survivors_first (set (map fst prev)) False (map fst ns)"
    and p: "project_changes (retractions prev ns @ concat (map (record_changes prev) ns)) rs = Some cs"
  shows "lands inst i value (if cs = [] then No_rows else Delta cs) (shown_rows html prev) (shown_rows html ns)"
proof -
  obtain ss new where sn: "ns = ss @ new" "map fst ss = filter (\<lambda>k. k \<in> fst ` set ns) (map fst prev)"
    "fst ` set new \<inter> fst ` set prev = {}" using tail_append_split[OF same sv] by blast
  define went where "went = went_keys prev ns"
  define edits where "edits = shown_rows html (edited_rows prev ss)"
  define adds where "adds = shown_rows html new"
  obtain es as where ea: "project_changes (concat (map (record_changes prev) ss)) rs = Some es"
    "project_changes (concat (map (record_changes prev) new)) rs = Some as" "cs = map retract went @ es @ as"
  proof -
    let ?A = "concat (map (record_changes prev) ss)" and ?B = "concat (map (record_changes prev) new)"
    have split: "project_changes (retractions prev ns @ ?A @ ?B) rs = Some cs" using p by (simp add: sn(1))
    obtain es where e: "project_changes ?A rs = Some es"
      using split unfolding project_append by (cases "project_changes ?A rs") (simp_all add: project_retractions)
    obtain as where b: "project_changes ?B rs = Some as"
      using split unfolding project_append e by (cases "project_changes ?B rs") (simp_all add: project_retractions)
    have "cs = map retract went @ es @ as"
      using split unfolding project_append e b project_retractions went_def by simp
    then show ?thesis by (rule that[OF e b])
  qed
  have ss_keys: "fst ` set ss \<subseteq> fst ` set prev" using not_in_filter[OF sn(2)] by auto
  have "map_of prev k \<noteq> None" if "(k, r) \<in> set ss" for k r
    using imageI[OF that, of fst] ss_keys unfolding map_of_eq_None_iff by auto
  then have "list_all (\<lambda>(k, r). map_of prev k \<noteq> None) ss" by (auto simp: list_all_iff)
  then have "es = concat (map (\<lambda>p. [retract (fst p), assert_row p]) edits)"
    unfolding edits_def by (rule project_survivors[OF _ ea(1)]) (rule renders_row[OF r], simp_all add: sn(1))
  moreover have "as = map assert_row adds"
    unfolding adds_def by (rule project_new[OF sn(3) ea(2)]) (rule renders_row[OF r], simp_all add: sn(1))
  ultimately have cs: "cs = delta_changes went edits adds" using ea(3) by (simp add: delta_changes_def)
  have d: "distinct (map fst ss)" "distinct (map fst new)" "fst ` set ss \<inter> fst ` set new = {}" using ns sn(1) by auto
  have target: "map (edited edits) (filter (\<lambda>p. fst p \<notin> set went) (shown_rows html prev)) @ adds = shown_rows html ns"
    unfolding went_def edits_def adds_def filter_went[OF refl] sn(1)
    using edited_unchanged[OF prev d(1) sn(2)] sn(1) by simp
  show ?thesis
  proof (cases "cs = []")
    case True
    then have "went = []" "edits = []" "adds = []" using cs by (cases edits; auto simp: delta_changes_def)+
    then have "shown_rows html prev = shown_rows html ns" using target by (simp add: edited_def map_idI)
    then show ?thesis using lands_same[of inst i "value"] True by simp
  next
    case False
    have went: "distinct went" "set went \<subseteq> fst ` set prev" "set went \<inter> fst ` set ns = {}"
      using prev by (auto simp: went_def went_keys_def)
    have ed: "fst ` set edits \<subseteq> fst ` set ss" "distinct (map fst edits)"
      using edited_keys[of prev ss] d(1) unfolding edits_def shown_rows_simps
      by (auto simp: edited_rows_def intro: distinct_map_filter)
    have "lands inst i value (Delta (delta_changes went edits adds)) (shown_rows html prev)
       (map (edited edits) (filter (\<lambda>p. fst p \<notin> set went) (shown_rows html prev)) @ adds)"
    proof (rule lands_delta)
      show "distinct (went @ map fst edits @ map fst adds)"
      proof -
        have w: "set went \<inter> fst ` set ss = {}" "set went \<inter> fst ` set new = {}"
          using went(3) unfolding sn(1) set_append image_Un by blast+
        have "fst ` set edits \<inter> fst ` set new = {}" "set went \<inter> fst ` set edits = {}" using ed(1) d(3) w(1) by blast+
        then show ?thesis using went(1) ed(2) d(2) w(2) unfolding adds_def
          by (simp only: distinct_append shown_rows_simps set_append set_map Int_Un_distrib) simp
      qed
      show "set went \<subseteq> fst ` set (shown_rows html prev)" using went by simp
      show "fst ` set edits \<subseteq> fst ` set (shown_rows html prev)" using ed ss_keys by auto
      show "fst ` set adds \<inter> fst ` set (shown_rows html prev) = {}" using sn(3) by (simp add: adds_def)
      have "set edits \<union> set adds \<subseteq> set (shown_rows html ns)"
        using edited_keys(2)[of prev ss] by (auto simp: edits_def adds_def shown_rows_def sn(1))
      then show "list_all (\<lambda>p. inst (snd p) \<and> snd p \<noteq> []) (edits @ adds)"
        using renders_all[OF r] by (auto simp: list_all_iff)
      show "delta_changes went edits adds \<noteq> []" using False cs by simp
    qed
    then show ?thesis unfolding target using cs False by simp
  qed
qed

lemma parsed_update_lands:
  assumes prev: "index_by_key c ps = Some kps" and ns: "index_by_key c ns = Some kns" and r: "renders inst html kns rs"
    and u: "parsed_update c (JArray ps) (JArray ns) rs partial = (u, False)"
    and full: "\<not> partial \<Longrightarrow> rs = shown_rows html kns"
  shows "lands inst i value u (shown_rows html kps) (shown_rows html kns)"
proof -
  note dp = index_by_key_ok(2)[OF prev] and dn = index_by_key_ok(2)[OF ns]
  have good: "list_all (\<lambda>p. inst (snd p)) (shown_rows html kns)"
    using renders_all[OF r] by (auto simp: list_all_iff)
  have rec: "lands inst i value u (shown_rows html kps) (shown_rows html kns)"
    if "reconcile_or_defer partial rs = (u, False)"
    using that full lands_reconcile[OF good] dp dn by (auto simp: reconcile_or_defer_def split: if_splits)
  have iv: "index_value c (JArray ps) = Some kps" "index_value c (JArray ns) = Some kns"
    using prev ns by (simp_all add: index_value_def)
  show ?thesis
  proof (cases "is_tail_append (JArray ps) (JArray ns) c")
    case True
    then have t: "filter (\<lambda>k. k \<in> set (map fst kns)) (map fst kps) = filter (\<lambda>k. k \<in> set (map fst kps)) (map fst kns)"
      "survivors_first (set (map fst kps)) False (map fst kns)"
      by (simp_all add: is_tail_append_def iv Let_def)
    define chs where "chs = retractions kps kns @ concat (map (record_changes kps) kns)"
    have d: "diff_records (JArray ps) (JArray ns) c = Some chs" by (simp add: diff_records_def iv chs_def)
    show ?thesis
    proof (cases "project_changes chs rs")
      case None
      then have "chs \<noteq> []" by auto
      then have "reconcile_or_defer partial rs = (u, False)"
        using u True d None by (simp add: parsed_update_def split: list.splits)
      then show ?thesis by (rule rec)
    next
      case (Some cs)
      have "u = (if cs = [] then No_rows else Delta cs)"
      proof (cases chs)
        case Nil
        then show ?thesis using u True d Some by (simp add: parsed_update_def)
      next
        case (Cons ch rest)
        then have "cs \<noteq> []" using Some by (auto split: option.splits if_splits)
        then show ?thesis using u True d Some Cons by (simp add: parsed_update_def)
      qed
      then show ?thesis using tail_append_lands[OF dp dn r t Some[unfolded chs_def]] by simp
    qed
  next
    case False
    show ?thesis
    proof (cases "classify_positioned_insert (JArray ps) (JArray ns) c")
      case None
      then have "reconcile_or_defer partial rs = (u, False)" using u False by (simp add: parsed_update_def)
      then show ?thesis by (rule rec)
    next
      case (Some ins)
      obtain as new bs where s: "kns = as @ new @ bs" "kps = as @ bs" "pi_keys ins = map fst new" "new \<noteq> []"
        "pi_before ins = first_key bs" using positioned_insert_shape[OF Some prev ns] by blast
      show ?thesis
      proof (cases "project_inserted_rows ins rs")
        case None
        then have "reconcile_or_defer partial rs = (u, False)" using u False Some by (simp add: parsed_update_def)
        then show ?thesis by (rule rec)
      next
        case (Some rws)
        have "rws = rows_of (shown_rows html new)"
          by (rule project_keys_rows[OF Some[unfolded project_inserted_rows_def s(3)]])
            (rule renders_row[OF r], simp_all add: s(1))
        moreover have "u = Insert (first_key bs) rws"
          using u False Some \<open>classify_positioned_insert _ _ c = Some ins\<close> s(5) by (simp add: parsed_update_def)
        moreover have "lands inst i value (Insert (first_key bs) (rows_of (shown_rows html new)))
            (shown_rows html as @ shown_rows html bs) (shown_rows html as @ shown_rows html new @ shown_rows html bs)"
          using dn s good by (intro lands_insert) (auto simp: first_key_def split: list.splits)
        ultimately show ?thesis using s by simp
      qed
    qed
  qed
qed

section \<open>The text of an append\<close>

lemma keyed_records_snd: "keyed_records codec c previous seen rs = Some out \<Longrightarrow> map snd out = rs"
proof (induction rs arbitrary: seen out)
  case (Cons r rs)
  then obtain k qs where "keyed_records codec c previous (k # seen) rs = Some qs" "out = (k, r) # qs"
    by (auto split: option.splits if_splits)
  with Cons.IH[of "k # seen" qs] show ?case by simp
qed simp

lemma keyed_records_key: "keyed_records codec c previous seen rs = Some out \<Longrightarrow> list_all (\<lambda>(k, r). key_of c r = Some k) out"
proof (induction rs arbitrary: seen out)
  case (Cons r rs)
  then obtain k qs where "keyed_records codec c previous (k # seen) rs = Some qs" "out = (k, r) # qs" "key_of c r = Some k"
    by (auto simp: key_of_def split: option.splits if_splits)
  with Cons.IH[of "k # seen" qs] show ?case by simp
qed simp

lemma keyed_is_object: "list_all (\<lambda>(k, r). key_of c r = Some k) ps \<Longrightarrow> list_all is_object (map snd ps)"
  by (induction ps) (auto simp: is_object_def dest: index_is_object)

context row_text
begin

lemma array_text_parts:
  "length (jc_text codec (JArray vs)) \<ge> 2" "hd (jc_text codec (JArray vs)) = CHR ''[''"
  "last (jc_text codec (JArray vs)) = CHR '']''" "jc_text codec (JArray vs) \<noteq> []"
  "butlast (jc_text codec (JArray vs)) = CHR ''['' # join_comma (map (jc_text codec) vs)"
  "butlast (tl (jc_text codec (JArray vs))) = join_comma (map (jc_text codec) vs)"
  unfolding array_text by (simp_all add: butlast_append)

lemma appended_rows_split:
  assumes "appended_rows codec (jc_text codec (JArray ps)) (jc_text codec (JArray ns)) c = Some out"
    "list_all is_object ps" "list_all is_object ns"
  shows "ns = ps @ map snd out \<and> list_all (\<lambda>(k, r). key_of c r = Some k) out"
proof -
  let ?J = "\<lambda>vs. join_comma (map (jc_text codec) vs)"
  define z where "z = drop (length (CHR ''['' # ?J ps)) (jc_text codec (JArray ns))"
  have sw: "starts_with (CHR ''['' # ?J ps) (jc_text codec (JArray ns))"
    using assms(1) by (simp add: appended_rows_def array_text_parts Let_def split: if_splits)
  then have "(CHR ''['' # ?J ps) @ z = jc_text codec (JArray ns)"
    unfolding starts_with_def z_def by (metis append_take_drop_id)
  then have z: "?J ps @ z = ?J ns @ '']''" by (simp add: array_text)
  from objects_prefix[OF assms(2,3) z] obtain rs where rs: "ns = ps @ rs"
    "z = (if ps = [] \<or> rs = [] then [] else '','') @ ?J rs @ '']''" by blast
  define tail where "tail = butlast z"
  have tail: "tail = (if ps = [] \<or> rs = [] then [] else '','') @ ?J rs" using rs(2) by (simp add: tail_def butlast_append)
  have obj: "list_all is_object rs" using assms(3) rs(1) by simp
  have ar: "Some out = (if tail = [] then Some [] else
      case jc_parse codec (''['' @ (if hd tail = CHR '','' then tl tail else tail) @ '']'') of
        Some (JArray records) \<Rightarrow> keyed_records codec c (jc_text codec (JArray ps)) [] records | _ \<Rightarrow> None)"
  proof -
    have big: "\<not> (length (jc_text codec (JArray ps)) < 2 \<or> hd (jc_text codec (JArray ps)) \<noteq> CHR ''['' \<or>
       last (jc_text codec (JArray ps)) \<noteq> CHR '']'' \<or> jc_text codec (JArray ns) = [] \<or>
       last (jc_text codec (JArray ns)) \<noteq> CHR '']'')"
      using array_text_parts(1)[of ps] by (simp add: array_text_parts(2-4) not_less)
    show ?thesis
      using assms(1)[unfolded appended_rows_def if_not_P[OF big] Let_def array_text_parts(5), folded z_def tail_def] sw
      by (simp only: not_True_eq_False if_False)
  qed
  show ?thesis
  proof (cases "rs = []")
    case True
    then show ?thesis using ar tail rs(1) by simp
  next
    case False
    have ne: "?J rs \<noteq> []" using objects_join_empty[OF obj] False by simp
    obtain r rs' where r: "rs = r # rs'" using False by (cases rs) auto
    have "hd (?J rs) = CHR ''{''"
      using object_text_ne[of r] obj r by (auto simp: join_comma_Cons)
    then have body: "(if hd tail = CHR '','' then tl tail else tail) = ?J rs" "tail \<noteq> []"
      using tail ne False by (auto simp: hd_append)
    have "jc_parse codec (''['' @ ?J rs @ '']'') = Some (JArray rs)"
      using parse_text[of "JArray rs"] by (simp add: array_text)
    then have k: "keyed_records codec c (jc_text codec (JArray ps)) [] rs = Some out"
      using ar body by simp
    show ?thesis using keyed_records_snd[OF k] keyed_records_key[OF k] rs(1) by simp
  qed
qed

lemma index_append_keys:
  assumes "index_by_key c ps = Some kps" "index_by_key c (ps @ map snd out) = Some kns"
    "list_all (\<lambda>(k, r). key_of c r = Some k) out"
  shows "kns = kps @ out"
proof -
  have "map (\<lambda>r. (the (key_of c r), r)) (map snd xs) = xs" if "list_all (\<lambda>(k, r). key_of c r = Some k) xs" for xs
    using that by (induction xs) auto
  note pairs = this
  have "kns = map (\<lambda>r. (the (key_of c r), r)) (ps @ map snd out)"
    using pairs[OF index_by_key_ok(3)[OF assms(2)]] index_by_key_ok(1)[OF assms(2)] by simp
  then show ?thesis using pairs[OF assms(3)] pairs[OF index_by_key_ok(3)[OF assms(1)]] index_by_key_ok(1)[OF assms(1)] by simp
qed

lemma row_update_lands:
  assumes prev: "index_by_key c ps = Some kps" and ns: "index_by_key c ns = Some kns" and r: "renders inst html kns rs"
    and u: "row_update codec c (jc_text codec (JArray ps)) (jc_text codec (JArray ns)) rs partial = (u, False)"
    and full: "\<not> partial \<Longrightarrow> rs = shown_rows html kns"
  shows "lands inst i value u (shown_rows html kps) (shown_rows html kns)"
proof (cases "appended_rows codec (jc_text codec (JArray ps)) (jc_text codec (JArray ns)) c")
  case None
  then have "parsed_update c (JArray ps) (JArray ns) rs partial = (u, False)"
    using u by (simp add: row_update_def parse_text)
  then show ?thesis by (rule parsed_update_lands[OF prev ns r _ full])
next
  case (Some out)
  have op: "list_all is_object ps" "list_all is_object ns"
    using keyed_is_object[OF index_by_key_ok(3)[OF prev]] keyed_is_object[OF index_by_key_ok(3)[OF ns]]
      index_by_key_ok(1)[OF prev] index_by_key_ok(1)[OF ns] by simp_all
  have sp: "ns = ps @ map snd out" "list_all (\<lambda>(k, r). key_of c r = Some k) out"
    using appended_rows_split[OF Some op] by simp_all
  have kns: "kns = kps @ out" using index_append_keys[OF prev _ sp(2)] ns sp(1) by simp
  have good: "list_all (\<lambda>p. inst (snd p) \<and> snd p \<noteq> []) (shown_rows html kns)" by (rule renders_all[OF r])
  note dn = index_by_key_ok(2)[OF ns]
  show ?thesis
  proof (cases "out = []")
    case True
    then have "u = No_rows" using u Some by (simp add: row_update_def)
    then show ?thesis using True kns lands_same by simp
  next
    case False
    show ?thesis
    proof (cases "assert_appended out rs")
      case None
      then have "reconcile_or_defer partial rs = (u, False)"
        using u Some False by (simp add: row_update_def split: list.splits)
      moreover have "list_all (\<lambda>p. inst (snd p)) (shown_rows html kns)" using good by (auto simp: list_all_iff)
      ultimately show ?thesis
        using full lands_reconcile[of inst "shown_rows html kns" "shown_rows html kps" i "value"] dn kns
        by (auto simp: reconcile_or_defer_def split: if_splits)
    next
      case (Some cs)
      have "cs = delta_changes [] [] (shown_rows html out)"
        by (rule assert_appended_rows[OF Some]) (rule renders_row[OF r], simp_all add: kns)
      moreover have "u = Delta cs"
        using u \<open>appended_rows codec _ _ c = Some out\<close> False Some by (simp add: row_update_def split: list.splits)
      moreover have "lands inst i value (Delta (delta_changes [] [] (shown_rows html out))) (shown_rows html kps)
         (map (edited []) (filter (\<lambda>p. fst p \<notin> set []) (shown_rows html kps)) @ shown_rows html out)"
        using dn good False unfolding kns by (intro lands_delta) (auto simp: delta_changes_def)
      ultimately show ?thesis unfolding kns by (simp add: edited_def map_idI)
    qed
  qed
qed

end

section \<open>Convergence\<close>

lemma parsed_update_defers: "parsed_update c p n rs partial = (u, True) \<Longrightarrow> u = No_rows"
  by (auto simp: parsed_update_def reconcile_or_defer_def split: if_splits option.splits list.splits)

lemma row_update_defers: "row_update codec c previous nxt rs partial = (u, True) \<Longrightarrow> u = No_rows"
  by (auto simp: row_update_def reconcile_or_defer_def split: if_splits option.splits list.splits dest: parsed_update_defers)

lemma row_update_lands_all:
  assumes "row_text codec" "index_by_key c ps = Some kps" "index_by_key c ns = Some kns"
    "renders inst html kns rs" "\<not> partial \<Longrightarrow> rs = shown_rows html kns"
  shows "fold (list_patch inst)
      (list_frames i (jc_text codec (JArray ns))
        (row_update codec c (jc_text codec (JArray ps)) (jc_text codec (JArray ns)) rs partial) (Some (shown_rows html kns)))
      (seed_rows_by_key (shown_rows html kps)) = seed_rows_by_key (shown_rows html kns)"
proof -
  obtain u whole where u: "row_update codec c (jc_text codec (JArray ps)) (jc_text codec (JArray ns)) rs partial = (u, whole)"
    by fastforce
  show ?thesis
  proof (cases whole)
    case False
    then show ?thesis using row_text.row_update_lands[OF assms(1-4), of partial u i "jc_text codec (JArray ns)"] u assms(5)
      by (simp add: list_frames_def lands_def)
  next
    case True
    then have none: "u = No_rows" using row_update_defers u by metis
    have "list_all (\<lambda>p. inst (snd p)) (shown_rows html kns)" using renders_all[OF assms(4)] by (auto simp: list_all_iff)
    then have "lands inst i (jc_text codec (JArray ns)) (Reconcile (reconcile_rows (shown_rows html kns)))
        (shown_rows html kps) (shown_rows html kns)"
      using index_by_key_ok(2)[OF assms(2)] index_by_key_ok(2)[OF assms(3)] by (intro lands_reconcile) simp_all
    then show ?thesis using True none u lands_same[of inst i "jc_text codec (JArray ns)" "shown_rows html kps"]
      by (simp add: list_frames_def lands_def)
  qed
qed

text \<open>C27. Whatever a write did to a keyed collection, the frames of its fan-out take a browser that shows
  the previous rows to one that shows exactly the new rows, in their order, each with its new markup:
  whichever of delta, positioned insert, full set, nothing, or nothing followed by the full set the
  classifier chose, from a render of all the rows or of any part of them.\<close>

theorem row_update_converges:
  assumes "row_text codec" "index_by_key c ps = Some kps" "index_by_key c ns = Some kns"
    "renders inst html kns rs" "\<not> partial \<Longrightarrow> rs = shown_rows html kns"
  shows "fold (list_patch inst)
      (list_frames i (jc_text codec (JArray ns))
        (row_update codec c (jc_text codec (JArray ps)) (jc_text codec (JArray ns)) rs partial) (Some (shown_rows html kns)))
      (seed_rows_by_key (shown_rows html kps)) = seed_rows_by_key (shown_rows html kns)"
  by (rule row_update_lands_all[OF assms(1-4)]) (rule assms(5))

definition demo_row :: "string \<Rightarrow> string \<Rightarrow> json" where
  "demo_row k t = JObject [(''id'', JString k), (''t'', JString t)]"

fun demo_html :: "json \<Rightarrow> string" where
  "demo_html (JObject ms) = (case map_of ms ''t'' of Some (JString t) \<Rightarrow> ''li '' @ t | _ \<Rightarrow> ''li'')"
| "demo_html v = ''li''"

lemma row_update_converges_witness:
  "fold (list_patch (\<lambda>s. True))
      (list_frames 7 (jc_text small_codec (JArray [demo_row ''b'' ''y'', demo_row ''a'' ''x'']))
        (row_update small_codec ''id'' (jc_text small_codec (JArray [demo_row ''a'' ''x'']))
          (jc_text small_codec (JArray [demo_row ''b'' ''y'', demo_row ''a'' ''x''])) [(''b'', ''li y'')] True)
        (Some (shown_rows demo_html [(''b'', demo_row ''b'' ''y''), (''a'', demo_row ''a'' ''x'')])))
      (seed_rows_by_key (shown_rows demo_html [(''a'', demo_row ''a'' ''x'')])) =
    seed_rows_by_key (shown_rows demo_html [(''b'', demo_row ''b'' ''y''), (''a'', demo_row ''a'' ''x'')])"
  by (rule row_update_converges[OF small.row_text_axioms])
    (simp_all add: index_by_key_def key_of_def demo_row_def renders_def rr_get_def)

section \<open>Splicing\<close>

context row_text
begin

lemma splice_splits:
  assumes "list_all is_object ps" "list_all is_object rs"
  shows "splice_appended codec (jc_text codec (JArray ps)) rs at_head =
    Some (jc_text codec (JArray (if at_head then rs @ ps else ps @ rs)))"
proof (cases "rs = []")
  case False
  have "\<not> length (jc_text codec (JArray ps)) < 2" using array_text_parts(1)[of ps] by simp
  then show ?thesis
    using False objects_join_empty[OF assms(1)]
    by (simp add: splice_appended_def array_text_parts Let_def array_text join_comma_append)
qed (simp add: splice_appended_def)

end

end
