(* ===== verification/ForgeStatement.thy ===== *)
theory ForgeStatement
  imports RowDelta
begin

text \<open>
  The statements a write compiles to (\<open>build_append\<close>, \<open>build_update\<close>, \<open>build_delete\<close> and the values
  they bind, in \<open>src/forge/write.rs\<close>), their SQL text, and what the storage plane does with them. The
  plane is not under \<open>src/\<close>'s control: how a column stores a value (\<open>fe_affinity\<close>), when a stored key
  equals a bound one (\<open>fe_eq\<close>), which rows its constraints refuse (\<open>fe_reject\<close>), what a collection's
  query returns (\<open>fe_select\<close>) and whether \<open>RETURNING\<close> is honoured are parameters, and every call takes the
  next entry of a script of faults. A record is the list of its members in key order, as \<open>serde_json\<close>
  keeps it.
\<close>

section \<open>Writes and their values\<close>

type_synonym record_map = "(string \<times> json) list"

datatype forge_write =
    Append string record_map
  | Update string json record_map
  | Delete string json

fun write_collection :: "forge_write \<Rightarrow> string" where
  "write_collection (Append c r) = c"
| "write_collection (Update c k fs) = c"
| "write_collection (Delete c k) = c"

datatype forge_error =
    No_collection string
  | Panicked
  | Empty_record string
  | Empty_update string
  | Bad_column string
  | Nested_value string
  | Bad_number string
  | Null_key string
  | Key_change string
  | Anonymous_write string
  | Other_owner string
  | Anonymous_edit string
  | Other_author string
  | No_author string
  | Gives_away string
  | Foreign_append string
  | Missing_partition string
  | Bad_partition string
  | No_row_key string
  | Partition_needed string
  | Partition_unwanted string
  | Storage string

record forge_env =
  fe_codec :: "json json_codec"
  fe_f64 :: "json_number \<Rightarrow> rat option"
  fe_real_text :: "rat \<Rightarrow> string"
  fe_affinity :: "string \<Rightarrow> string \<Rightarrow> sql_value \<Rightarrow> sql_value"
  fe_eq :: "sql_value \<Rightarrow> sql_value \<Rightarrow> bool"
  fe_reject :: "string \<Rightarrow> (string \<Rightarrow> sql_value) \<Rightarrow> string option"
  fe_select :: "string \<Rightarrow> sql_value list \<Rightarrow> (string \<Rightarrow> (string \<Rightarrow> sql_value) list) \<Rightarrow> string list \<times> sql_value list list"
  fe_returning :: bool

definition is_safe_identifier :: "string \<Rightarrow> bool" where
  "is_safe_identifier name \<longleftrightarrow> name \<noteq> [] \<and> length name \<le> 64 \<and>
     (is_ascii_alpha (hd name) \<or> hd name = CHR ''_'') \<and>
     list_all (\<lambda>c. is_ascii_alphanumeric c \<or> c = CHR ''_'') name"

fun number_as_i64 :: "json_number \<Rightarrow> int option" where
  "number_as_i64 (PosInt n) = (if unat n < 2 ^ 63 then Some (int (unat n)) else None)"
| "number_as_i64 (NegInt i) = Some i"
| "number_as_i64 (Float s) = None"

fun json_to_sqlvalue :: "forge_env \<Rightarrow> string \<Rightarrow> json \<Rightarrow> forge_error + sql_value" where
  "json_to_sqlvalue env c JNull = Inr Null"
| "json_to_sqlvalue env c (JBool b) = Inr (Integer (if b then 1 else 0))"
| "json_to_sqlvalue env c (JString s) = Inr (Text s)"
| "json_to_sqlvalue env c (JNumber n) =
     (case number_as_i64 n of
        Some i \<Rightarrow> Inr (Integer i)
      | None \<Rightarrow> (case fe_f64 env n of Some r \<Rightarrow> Inr (Real r) | None \<Rightarrow> Inl (Bad_number c)))"
| "json_to_sqlvalue env c (JObject ms) = Inl (Nested_value c)"
| "json_to_sqlvalue env c (JArray vs) = Inl (Nested_value c)"

fun bind_columns :: "forge_env \<Rightarrow> (string \<Rightarrow> forge_error option) \<Rightarrow> record_map \<Rightarrow> forge_error + (string \<times> sql_value) list" where
  \<comment> \<open>column by column, the column's own check before its value's\<close>
  "bind_columns env check [] = Inr []"
| "bind_columns env check ((c, v) # ms) =
     (case check c of
        Some e \<Rightarrow> Inl e
      | None \<Rightarrow>
          (case json_to_sqlvalue env c v of
             Inl e \<Rightarrow> Inl e
           | Inr x \<Rightarrow> (case bind_columns env check ms of Inl e \<Rightarrow> Inl e | Inr xs \<Rightarrow> Inr ((c, x) # xs))))"

definition check_column :: "string \<Rightarrow> forge_error option" where
  "check_column c = (if \<not> is_safe_identifier c then Some (Bad_column c) else None)"

definition check_field :: "string \<Rightarrow> string \<Rightarrow> forge_error option" where
  "check_field key_column c =
     (if \<not> is_safe_identifier c then Some (Bad_column c)
      else if c = key_column then Some (Key_change c) else None)"

definition key_to_sqlvalue :: "forge_env \<Rightarrow> string \<Rightarrow> string \<Rightarrow> json \<Rightarrow> forge_error + sql_value" where
  "key_to_sqlvalue env collection key_column key =
     (if key = JNull then Inl (Null_key collection) else json_to_sqlvalue env key_column key)"

section \<open>Statements\<close>

datatype statement =
    Insert_into string "string list"
  | Insert_returning string "string list" "string list"
  | Update_set string "string list" string
  | Delete_from string string

fun join_list :: "string list \<Rightarrow> string" where
  "join_list [] = []"
| "join_list [s] = s"
| "join_list (s # ss) = s @ '', '' @ join_list ss"

definition placeholder :: "nat \<Rightarrow> string" where
  "placeholder i = ''?'' @ show_nat i"

definition insert_text :: "string \<Rightarrow> string list \<Rightarrow> string" where
  "insert_text t cs = ''INSERT INTO '' @ t @ '' ('' @ join_list cs @ '') VALUES ('' @
     join_list (map placeholder [1..<Suc (length cs)]) @ '')''"

fun sql_text :: "statement \<Rightarrow> string" where
  "sql_text (Insert_into t cs) = insert_text t cs"
| "sql_text (Insert_returning t cs rs) = insert_text t cs @ '' RETURNING '' @ join_list rs"
| "sql_text (Update_set t cs k) =
     ''UPDATE '' @ t @ '' SET '' @ join_list (map (\<lambda>(c, i). c @ '' = '' @ placeholder i) (zip cs [1..<Suc (length cs)])) @
     '' WHERE '' @ k @ '' = '' @ placeholder (Suc (length cs))"
| "sql_text (Delete_from t k) = ''DELETE FROM '' @ t @ '' WHERE '' @ k @ '' = ?1''"

definition build_append :: "forge_env \<Rightarrow> string \<Rightarrow> record_map \<Rightarrow> forge_error + statement \<times> sql_value list" where
  "build_append env t r =
     (if r = [] then Inl (Empty_record t)
      else (case bind_columns env check_column r of
              Inl e \<Rightarrow> Inl e
            | Inr xs \<Rightarrow> Inr (Insert_into t (map fst xs), map snd xs)))"

definition build_append_returning :: "forge_env \<Rightarrow> string \<Rightarrow> string \<Rightarrow> record_map \<Rightarrow>
    forge_error + statement \<times> sql_value list \<times> string list" where
  "build_append_returning env t k r =
     (case build_append env t r of
        Inl e \<Rightarrow> Inl e
      | Inr (st, params) \<Rightarrow>
          let returned = k # map fst r in
          Inr (Insert_returning t (map fst r) returned, params, returned))"

definition build_update :: "forge_env \<Rightarrow> string \<Rightarrow> string \<Rightarrow> json \<Rightarrow> record_map \<Rightarrow> forge_error + statement \<times> sql_value list" where
  "build_update env t k key fs =
     (if fs = [] then Inl (Empty_update t)
      else (case bind_columns env (check_field k) fs of
              Inl e \<Rightarrow> Inl e
            | Inr xs \<Rightarrow>
                (case key_to_sqlvalue env t k key of
                   Inl e \<Rightarrow> Inl e
                 | Inr kv \<Rightarrow> Inr (Update_set t (map fst xs) k, map snd xs @ [kv]))))"

definition build_delete :: "forge_env \<Rightarrow> string \<Rightarrow> string \<Rightarrow> json \<Rightarrow> forge_error + statement \<times> sql_value list" where
  "build_delete env t k key =
     (case key_to_sqlvalue env t k key of Inl e \<Rightarrow> Inl e | Inr kv \<Rightarrow> Inr (Delete_from t k, [kv]))"

end
