(* ===== verification/ForgeWrite.thy ===== *)
theory ForgeWrite
  imports ForgeStatement
begin

text \<open>
  The transaction of one action's writes (\<open>src/forge/write.rs\<close>): who may change which row, the statements
  and the bookkeeping of the channels they move, on the tables of the storage plane. Writers are
  serialised by the plane, so a transaction is one step; a transaction that does not commit leaves
  nothing.
\<close>

section \<open>Collections\<close>

datatype edit_rule = Author | Anyone

datatype field_type = FText | FInt | FReal | FBool | FTimestamp

record forge_collection =
  fc_topic :: string
  fc_table :: string
  fc_query :: string
  fc_key_column :: string
  fc_partition_by :: "string option"
  fc_fields :: "(string \<times> field_type) list"
  fc_sort :: "sort_key list"
  fc_identity :: bool
  fc_edit :: edit_rule

type_synonym principal_id = string

datatype schema_error = Slot_collision string string u32 | Invalid_identifier string string

fun check_identifiers :: "forge_collection list \<Rightarrow> schema_error option" where
  "check_identifiers [] = None"
| "check_identifiers (c # cs) =
     (if \<not> is_safe_identifier (fc_table c) then Some (Invalid_identifier (fc_topic c) (fc_table c))
      else if \<not> is_safe_identifier (fc_key_column c) then Some (Invalid_identifier (fc_topic c) (fc_key_column c))
      else check_identifiers cs)"

fun adjacent_slots :: "forge_collection list \<Rightarrow> schema_error option" where
  "adjacent_slots (a # b # cs) =
     (if broadcast_slot_id (fc_topic a) = broadcast_slot_id (fc_topic b)
      then Some (Slot_collision (fc_topic a) (fc_topic b) (broadcast_slot_id (fc_topic a)))
      else adjacent_slots (b # cs))"
| "adjacent_slots _ = None"

definition schema_build :: "forge_collection list \<Rightarrow> schema_error + forge_collection list" where
  "schema_build cs =
     (case check_identifiers cs of
        Some e \<Rightarrow> Inl e
      | None \<Rightarrow>
          let spine = List.sort_key (\<lambda>c. broadcast_slot_id (fc_topic c)) cs in
          (case adjacent_slots spine of Some e \<Rightarrow> Inl e | None \<Rightarrow> Inr spine))"

definition schema_resolve :: "u32 \<Rightarrow> forge_collection list \<Rightarrow> forge_collection option" where
  "schema_resolve i schema = find (\<lambda>c. broadcast_slot_id (fc_topic c) = i) schema"

definition slot_for_topic :: "string \<Rightarrow> forge_collection list \<Rightarrow> forge_collection option" where
  "slot_for_topic topic schema = schema_resolve (broadcast_slot_id topic) schema"

section \<open>Tables\<close>

type_synonym table_row = "string \<Rightarrow> sql_value"

record sql_table =
  tb_rows :: "table_row list"
  tb_next :: int

record author_row =
  au_table :: string
  au_key :: sql_value
  au_principal :: string

record forge_db =
  fd_tables :: "string \<Rightarrow> sql_table"
  fd_authors :: "author_row list"
  fd_last :: sql_value
  fd_faults :: "string option list"

definition call_plane :: "forge_db \<Rightarrow> (forge_error + unit) \<times> forge_db" where
  "call_plane db =
     (case fd_faults db of
        [] \<Rightarrow> (Inr (), db)
      | f # fs \<Rightarrow> ((case f of None \<Rightarrow> Inr () | Some why \<Rightarrow> Inl (Storage why)), db\<lparr>fd_faults := fs\<rparr>))"

definition then_tx :: "(forge_error + 'a) \<times> forge_db \<Rightarrow> ('a \<Rightarrow> forge_db \<Rightarrow> (forge_error + 'b) \<times> forge_db)
    \<Rightarrow> (forge_error + 'b) \<times> forge_db" where
  "then_tx r f = (case r of (Inl e, db) \<Rightarrow> (Inl e, db) | (Inr x, db) \<Rightarrow> f x db)"

definition lift_tx :: "forge_error + 'a \<Rightarrow> forge_db \<Rightarrow> (forge_error + 'a) \<times> forge_db" where
  "lift_tx r db = (r, db)"

definition put_table :: "string \<Rightarrow> sql_table \<Rightarrow> forge_db \<Rightarrow> forge_db" where
  "put_table t tb db = db\<lparr>fd_tables := (fd_tables db)(t := tb)\<rparr>"

definition matching :: "forge_env \<Rightarrow> string \<Rightarrow> sql_value \<Rightarrow> sql_table \<Rightarrow> table_row list" where
  "matching env k v tb = filter (\<lambda>r. fe_eq env (r k) v) (tb_rows tb)"

definition new_key :: "forge_env \<Rightarrow> string \<Rightarrow> string \<Rightarrow> (string \<times> sql_value) list \<Rightarrow> sql_table \<Rightarrow> sql_value" where
  \<comment> \<open>an integer primary key the statement does not give, or gives as \<open>NULL\<close>, is the next of its sequence\<close>
  "new_key env t k cvs tb =
     (case map_of cvs k of
        None \<Rightarrow> Integer (tb_next tb)
      | Some v \<Rightarrow> if v = Null then Integer (tb_next tb) else fe_affinity env t k v)"

definition inserted_row :: "forge_env \<Rightarrow> string \<Rightarrow> string \<Rightarrow> (string \<times> sql_value) list \<Rightarrow> sql_table \<Rightarrow> table_row" where
  "inserted_row env t k cvs tb =
     (\<lambda>c. if c = k then new_key env t k cvs tb
          else (case map_of cvs c of None \<Rightarrow> Null | Some v \<Rightarrow> fe_affinity env t c v))"

definition next_key :: "sql_value \<Rightarrow> int \<Rightarrow> int" where
  "next_key v n = (case v of Integer i \<Rightarrow> max n (i + 1) | _ \<Rightarrow> n)"

definition insert_row :: "forge_env \<Rightarrow> string \<Rightarrow> string \<Rightarrow> (string \<times> sql_value) list \<Rightarrow> forge_db \<Rightarrow>
    (forge_error + table_row) \<times> forge_db" where
  "insert_row env t k cvs db =
     then_tx (call_plane db) (\<lambda>_ db.
       let tb = fd_tables db t; r = inserted_row env t k cvs tb in
       (case fe_reject env t r of
          Some why \<Rightarrow> (Inl (Storage why), db)
        | None \<Rightarrow>
            if matching env k (r k) tb \<noteq> [] then (Inl (Storage ''UNIQUE''), db)
            else (Inr r, (put_table t \<lparr>tb_rows = tb_rows tb @ [r], tb_next = next_key (r k) (tb_next tb)\<rparr> db)
                    \<lparr>fd_last := r k\<rparr>)))"

definition set_columns :: "forge_env \<Rightarrow> string \<Rightarrow> (string \<times> sql_value) list \<Rightarrow> table_row \<Rightarrow> table_row" where
  "set_columns env t cvs r = (\<lambda>c. case map_of cvs c of None \<Rightarrow> r c | Some v \<Rightarrow> fe_affinity env t c v)"

definition update_rows :: "forge_env \<Rightarrow> string \<Rightarrow> string \<Rightarrow> sql_value \<Rightarrow> (string \<times> sql_value) list \<Rightarrow> forge_db \<Rightarrow>
    (forge_error + nat) \<times> forge_db" where
  "update_rows env t k v cvs db =
     then_tx (call_plane db) (\<lambda>_ db.
       let tb = fd_tables db t; hit = matching env k v tb in
       (case List.map_filter (\<lambda>r. fe_reject env t (set_columns env t cvs r)) hit of
          why # _ \<Rightarrow> (Inl (Storage why), db)
        | [] \<Rightarrow> (Inr (length hit),
            put_table t (tb\<lparr>tb_rows := map (\<lambda>r. if fe_eq env (r k) v then set_columns env t cvs r else r) (tb_rows tb)\<rparr>) db)))"

definition delete_rows :: "forge_env \<Rightarrow> string \<Rightarrow> string \<Rightarrow> sql_value \<Rightarrow> forge_db \<Rightarrow> (forge_error + nat) \<times> forge_db" where
  "delete_rows env t k v db =
     then_tx (call_plane db) (\<lambda>_ db.
       let tb = fd_tables db t in
       (Inr (length (matching env k v tb)),
        put_table t (tb\<lparr>tb_rows := filter (\<lambda>r. \<not> fe_eq env (r k) v) (tb_rows tb)\<rparr>) db))"

definition same_author :: "forge_env \<Rightarrow> string \<Rightarrow> sql_value \<Rightarrow> author_row \<Rightarrow> bool" where
  "same_author env t v a \<longleftrightarrow> au_table a = t \<and> fe_eq env (au_key a) v"

definition put_author :: "forge_env \<Rightarrow> string \<Rightarrow> sql_value \<Rightarrow> principal_id \<Rightarrow> forge_db \<Rightarrow> (forge_error + unit) \<times> forge_db" where
  \<comment> \<open>\<open>INSERT OR REPLACE\<close> on the primary key (collection, row_key)\<close>
  "put_author env t v p db =
     then_tx (call_plane db) (\<lambda>_ db.
       (Inr (), db\<lparr>fd_authors := filter (\<lambda>a. \<not> same_author env t v a) (fd_authors db) @
          [\<lparr>au_table = t, au_key = v, au_principal = p\<rparr>]\<rparr>))"

definition drop_author :: "forge_env \<Rightarrow> string \<Rightarrow> sql_value \<Rightarrow> forge_db \<Rightarrow> (forge_error + unit) \<times> forge_db" where
  "drop_author env t v db =
     then_tx (call_plane db) (\<lambda>_ db.
       (Inr (), db\<lparr>fd_authors := filter (\<lambda>a. \<not> same_author env t v a) (fd_authors db)\<rparr>))"

section \<open>Who may write what\<close>

definition partition_value_to_key :: "string \<Rightarrow> json \<Rightarrow> forge_error + string" where
  "partition_value_to_key topic v =
     (let key = (case v of
          JString s \<Rightarrow> Some s
        | JNumber n \<Rightarrow> map_option show_int (number_as_i64 n)
        | _ \<Rightarrow> None) in
      case key of
        None \<Rightarrow> Inl (Bad_partition topic)
      | Some k \<Rightarrow> if is_valid_partition_key k then Inr k else Inl (Bad_partition topic))"

definition append_partition :: "forge_collection \<Rightarrow> record_map \<Rightarrow> forge_error + string option" where
  "append_partition slot r =
     (case fc_partition_by slot of
        None \<Rightarrow> Inr None
      | Some column \<Rightarrow>
          (case map_of r column of
             None \<Rightarrow> Inl (Missing_partition (fc_topic slot))
           | Some v \<Rightarrow> (case partition_value_to_key (fc_topic slot) v of Inl e \<Rightarrow> Inl e | Inr k \<Rightarrow> Inr (Some k))))"

definition authorize_existing_row :: "forge_collection \<Rightarrow> string option \<Rightarrow> principal_id option \<Rightarrow> forge_error + unit" where
  "authorize_existing_row slot before p =
     (if \<not> fc_identity slot then Inr ()
      else (case p of
              None \<Rightarrow> Inl (Anonymous_write (fc_topic slot))
            | Some me \<Rightarrow>
                (case before of
                   None \<Rightarrow> Inr ()
                 | Some owner \<Rightarrow> if owner = me then Inr () else Inl (Other_owner (fc_topic slot)))))"

definition authorize_author :: "forge_env \<Rightarrow> forge_collection \<Rightarrow> json \<Rightarrow> principal_id option \<Rightarrow> forge_db \<Rightarrow>
    (forge_error + unit) \<times> forge_db" where
  "authorize_author env slot key p db =
     (if fc_identity slot \<or> fc_edit slot = Anyone then (Inr (), db)
      else (case p of
          None \<Rightarrow> (Inl (Anonymous_edit (fc_topic slot)), db)
        | Some me \<Rightarrow>
            then_tx (lift_tx (key_to_sqlvalue env (fc_topic slot) (fc_key_column slot) key) db) (\<lambda>v db.
            then_tx (call_plane db) (\<lambda>_ db.
              (case matching env (fc_key_column slot) v (fd_tables db (fc_table slot)) of
                 [] \<Rightarrow> (Inr (), db)
               | r # _ \<Rightarrow>
                   (case find (same_author env (fc_table slot) (r (fc_key_column slot))) (fd_authors db) of
                      None \<Rightarrow> (Inl (No_author (fc_topic slot)), db)
                    | Some a \<Rightarrow>
                        if au_principal a = me then (Inr (), db) else (Inl (Other_author (fc_topic slot)), db)))))))"

definition record_author :: "forge_env \<Rightarrow> forge_collection \<Rightarrow> sql_value option \<Rightarrow> principal_id \<Rightarrow> forge_db \<Rightarrow>
    (forge_error + unit) \<times> forge_db" where
  "record_author env slot key me db =
     (case key of
        Some v \<Rightarrow> put_author env (fc_table slot) v me db
      | None \<Rightarrow> then_tx (call_plane db) (\<lambda>_ db. put_author env (fc_table slot) (fd_last db) me db))"

definition authorize_partition_move :: "forge_collection \<Rightarrow> record_map \<Rightarrow> principal_id option \<Rightarrow> forge_error + unit" where
  "authorize_partition_move slot fs p =
     (if \<not> fc_identity slot then Inr ()
      else (case fc_partition_by slot of
          None \<Rightarrow> Inr ()
        | Some column \<Rightarrow>
            (case map_of fs column of
               None \<Rightarrow> Inr ()
             | Some moved \<Rightarrow>
                 (case p of
                    None \<Rightarrow> Inl (Anonymous_write (fc_topic slot))
                  | Some me \<Rightarrow> if moved = JString me then Inr () else Inl (Gives_away (fc_topic slot))))))"

fun map_put :: "(string \<Rightarrow> string \<Rightarrow> bool) \<Rightarrow> string \<Rightarrow> json \<Rightarrow> record_map \<Rightarrow> record_map" where
  \<comment> \<open>insertion into a map kept in key order\<close>
  "map_put lt k v [] = [(k, v)]"
| "map_put lt k v ((k', v') # ms) =
     (if k = k' then (k, v) # ms else if lt k k' then (k, v) # (k', v') # ms else (k', v') # map_put lt k v ms)"

fun bytes_less :: "string \<Rightarrow> string \<Rightarrow> bool" where
  "bytes_less [] [] = False"
| "bytes_less [] (b # bs) = True"
| "bytes_less (a # as) [] = False"
| "bytes_less (a # as) (b # bs) = (byte a < byte b \<or> a = b \<and> bytes_less as bs)"

definition authorize_append :: "forge_collection \<Rightarrow> record_map \<Rightarrow> principal_id option \<Rightarrow> forge_error + record_map" where
  "authorize_append slot r p =
     (if \<not> fc_identity slot then Inr r
      else (case fc_partition_by slot of
          None \<Rightarrow> Inr r
        | Some column \<Rightarrow>
            (case p of
               None \<Rightarrow> Inl (Anonymous_write (fc_topic slot))
             | Some me \<Rightarrow>
                 (case map_of r column of
                    None \<Rightarrow> Inr (map_put bytes_less column (JString me) r)
                  | Some v \<Rightarrow> if v = JString me then Inr r else Inl (Foreign_append (fc_topic slot))))))"

definition read_partition :: "forge_env \<Rightarrow> forge_collection \<Rightarrow> json \<Rightarrow> forge_db \<Rightarrow> (forge_error + string option) \<times> forge_db" where
  "read_partition env slot key db =
     (case fc_partition_by slot of
        None \<Rightarrow> (Inr None, db)
      | Some column \<Rightarrow>
          then_tx (lift_tx (key_to_sqlvalue env (fc_topic slot) (fc_key_column slot) key) db) (\<lambda>v db.
          then_tx (call_plane db) (\<lambda>_ db.
            (case matching env (fc_key_column slot) v (fd_tables db (fc_table slot)) of
               [] \<Rightarrow> (Inr None, db)
             | r # _ \<Rightarrow>
                 (case r column of
                    Text s \<Rightarrow> ((case partition_value_to_key (fc_topic slot) (JString s) of Inl e \<Rightarrow> Inl e | Inr k \<Rightarrow> Inr (Some k)), db)
                  | Integer i \<Rightarrow>
                      ((if is_valid_partition_key (show_int i) then Inr (Some (show_int i)) else Inl (Bad_partition (fc_topic slot))), db)
                  | _ \<Rightarrow> (Inl (Bad_partition (fc_topic slot)), db))))))"

section \<open>The channels a write moves\<close>

record touched =
  th_slot :: forge_collection
  th_partition :: "string option"
  th_channel :: string
  th_appended :: "json list"
  th_mutated :: bool

definition note_touched :: "forge_collection \<Rightarrow> string option \<Rightarrow> touched list \<Rightarrow> forge_error + touched list" where
  "note_touched slot part ts =
     (let add = (\<lambda>channel.
          if list_ex (\<lambda>th. th_channel th = channel) ts then Inr ts
          else Inr (ts @ [\<lparr>th_slot = slot, th_partition = part, th_channel = channel, th_appended = [], th_mutated = False\<rparr>])) in
      case (fc_partition_by slot, part) of
        (Some _, Some key) \<Rightarrow>
          (case partition_topic_name (fc_topic slot) key of
             None \<Rightarrow> Inl (Bad_partition (fc_topic slot))
           | Some channel \<Rightarrow> add channel)
      | (Some _, None) \<Rightarrow> Inr ts
      | (None, _) \<Rightarrow> add (fc_topic slot))"

fun note_all :: "forge_collection \<Rightarrow> string option list \<Rightarrow> touched list \<Rightarrow> forge_error + touched list" where
  "note_all slot [] ts = Inr ts"
| "note_all slot (p # ps) ts = (case note_touched slot p ts of Inl e \<Rightarrow> Inl e | Inr ts' \<Rightarrow> note_all slot ps ts')"

fun record_outcome :: "string \<Rightarrow> json option \<Rightarrow> touched list \<Rightarrow> touched list" where
  "record_outcome channel appended [] = []"
| "record_outcome channel appended (th # ts) =
     (if th_channel th = channel
      then (case appended of
              Some r \<Rightarrow> th\<lparr>th_appended := th_appended th @ [r]\<rparr>
            | None \<Rightarrow> th\<lparr>th_mutated := True\<rparr>) # ts
      else th # record_outcome channel appended ts)"

definition channels_of :: "forge_collection \<Rightarrow> touched list \<Rightarrow> string list" where
  "channels_of slot ts = map th_channel (filter (\<lambda>th. fc_topic (th_slot th) = fc_topic slot) ts)"

definition note_outcome :: "forge_collection \<Rightarrow> json option \<Rightarrow> touched list \<Rightarrow> touched list" where
  \<comment> \<open>recorded on every channel of the collection that the action has touched so far\<close>
  "note_outcome slot appended ts = fold (\<lambda>channel. record_outcome channel appended) (channels_of slot ts) ts"

section \<open>Rows as the page sees them\<close>

fun sqlvalue_to_json :: "forge_env \<Rightarrow> sql_value \<Rightarrow> json" where
  "sqlvalue_to_json env Null = JNull"
| "sqlvalue_to_json env (Integer i) = JNumber (if i < 0 then NegInt i else PosInt (of_int i))"
| "sqlvalue_to_json env (Real r) = JNumber (Float (fe_real_text env r))"
| "sqlvalue_to_json env (Text s) = JString s"
| "sqlvalue_to_json env (Blob bs) = JArray (map (\<lambda>b. JNumber (PosInt (ucast b))) bs)"

fun column_value_to_json :: "forge_env \<Rightarrow> field_type option \<Rightarrow> sql_value \<Rightarrow> json" where
  "column_value_to_json env (Some FBool) (Integer i) = JBool (i \<noteq> 0)"
| "column_value_to_json env (Some FBool) (Real r) = JBool (r \<noteq> 0)"
| "column_value_to_json env declared v = sqlvalue_to_json env v"

fun returned_record :: "forge_env \<Rightarrow> (string \<times> field_type) list \<Rightarrow> string list \<Rightarrow> sql_value list \<Rightarrow> record_map \<Rightarrow> json option" where
  "returned_record env decl [] vs acc = Some (JObject acc)"
| "returned_record env decl (c # cs) [] acc = None"
| "returned_record env decl (c # cs) (v # vs) acc =
     (case v of
        Blob b \<Rightarrow> None
      | _ \<Rightarrow> returned_record env decl cs vs (map_put bytes_less c (column_value_to_json env (map_of decl c) v) acc))"

section \<open>One write\<close>

fun run_insert :: "forge_env \<Rightarrow> string \<Rightarrow> statement \<Rightarrow> sql_value list \<Rightarrow> forge_db \<Rightarrow> (forge_error + sql_value list option \<times> table_row) \<times> forge_db" where
  \<comment> \<open>the returned columns, when the plane honours \<open>RETURNING\<close>, and the row written\<close>
  "run_insert env k (Insert_returning t cs rs) params db =
     then_tx (insert_row env t k (zip cs params) db)
       (\<lambda>r db. (Inr (if fe_returning env then Some (map r rs) else None, r), db))"
| "run_insert env k st params db = (Inl (Storage ''syntax''), db)"

fun run_change :: "forge_env \<Rightarrow> statement \<Rightarrow> sql_value list \<Rightarrow> forge_db \<Rightarrow> (forge_error + nat) \<times> forge_db" where
  "run_change env (Update_set t cs k) params db = update_rows env t k (last params) (zip cs (butlast params)) db"
| "run_change env (Delete_from t k) params db = delete_rows env t k (hd params) db"
| "run_change env st params db = (Inl (Storage ''syntax''), db)"

definition apply_append :: "forge_env \<Rightarrow> principal_id option \<Rightarrow> forge_collection \<Rightarrow> record_map \<Rightarrow> touched list \<Rightarrow> forge_db \<Rightarrow>
    (forge_error + touched list) \<times> forge_db" where
  "apply_append env p slot r ts db =
     then_tx (lift_tx (authorize_append slot r p) db) (\<lambda>r db.
     then_tx (lift_tx (append_partition slot r) db) (\<lambda>part db.
     then_tx (lift_tx (note_touched slot part ts) db) (\<lambda>ts db.
     then_tx (lift_tx (build_append_returning env (fc_table slot) (fc_key_column slot) r) db) (\<lambda>(st, params, columns) db.
     then_tx (run_insert env (fc_key_column slot) st params db) (\<lambda>(returned, row) db.
     then_tx (case p of
         Some me \<Rightarrow>
           if fc_identity slot then (Inr (), db)
           else record_author env slot (case returned of Some (v # vs) \<Rightarrow> Some v | _ \<Rightarrow> None) me db
       | None \<Rightarrow> (Inr (), db)) (\<lambda>_ db.
       (Inr (note_outcome slot
          (case returned of None \<Rightarrow> None | Some vs \<Rightarrow> returned_record env (fc_fields slot) columns vs []) ts), db)))))))"

definition moved_partitions :: "forge_collection \<Rightarrow> string option \<Rightarrow> record_map \<Rightarrow> forge_error + string option list" where
  "moved_partitions slot before fs =
     (case fc_partition_by slot of
        None \<Rightarrow> Inr [None]
      | Some column \<Rightarrow>
          (case map_of fs column of
             None \<Rightarrow> Inr [before]
           | Some moved \<Rightarrow>
               (case partition_value_to_key (fc_topic slot) moved of
                  Inl e \<Rightarrow> Inl e
                | Inr after \<Rightarrow> Inr [before, Some after])))"

definition apply_update :: "forge_env \<Rightarrow> principal_id option \<Rightarrow> forge_collection \<Rightarrow> json \<Rightarrow> record_map \<Rightarrow> touched list \<Rightarrow> forge_db \<Rightarrow>
    (forge_error + touched list) \<times> forge_db" where
  "apply_update env p slot key fs ts db =
     then_tx (authorize_author env slot key p db) (\<lambda>_ db.
     then_tx (read_partition env slot key db) (\<lambda>before db.
     then_tx (lift_tx (authorize_existing_row slot before p) db) (\<lambda>_ db.
     then_tx (lift_tx (authorize_partition_move slot fs p) db) (\<lambda>_ db.
     then_tx (lift_tx (moved_partitions slot before fs) db) (\<lambda>parts db.
     then_tx (lift_tx (note_all slot parts ts) db) (\<lambda>ts db.
     then_tx (lift_tx (build_update env (fc_table slot) (fc_key_column slot) key fs) db) (\<lambda>(st, params) db.
     then_tx (run_change env st params db) (\<lambda>_ db. (Inr (note_outcome slot None ts), db)))))))))"

definition apply_delete :: "forge_env \<Rightarrow> principal_id option \<Rightarrow> forge_collection \<Rightarrow> json \<Rightarrow> touched list \<Rightarrow> forge_db \<Rightarrow>
    (forge_error + touched list) \<times> forge_db" where
  "apply_delete env p slot key ts db =
     then_tx (authorize_author env slot key p db) (\<lambda>_ db.
     then_tx (read_partition env slot key db) (\<lambda>before db.
     then_tx (lift_tx (authorize_existing_row slot before p) db) (\<lambda>_ db.
     then_tx (lift_tx (note_all slot [before] ts) db) (\<lambda>ts db.
     then_tx (lift_tx (build_delete env (fc_table slot) (fc_key_column slot) key) db) (\<lambda>(st, params) db.
     then_tx (run_change env st params db) (\<lambda>_ db.
     then_tx (lift_tx (key_to_sqlvalue env (fc_topic slot) (fc_key_column slot) key) db) (\<lambda>v db.
     then_tx (drop_author env (fc_table slot) v db) (\<lambda>_ db. (Inr (note_outcome slot None ts), db)))))))))"

fun apply_one :: "forge_env \<Rightarrow> principal_id option \<Rightarrow> forge_collection \<Rightarrow> forge_write \<Rightarrow> touched list \<Rightarrow> forge_db \<Rightarrow>
    (forge_error + touched list) \<times> forge_db" where
  "apply_one env p slot (Append c r) ts db = apply_append env p slot r ts db"
| "apply_one env p slot (Update c key fs) ts db = apply_update env p slot key fs ts db"
| "apply_one env p slot (Delete c key) ts db = apply_delete env p slot key ts db"

section \<open>The transaction\<close>

fun resolve_slots :: "forge_collection list \<Rightarrow> forge_write list \<Rightarrow> forge_collection list \<Rightarrow> forge_error + forge_collection list" where
  "resolve_slots schema [] known = Inr known"
| "resolve_slots schema (w # ws) known =
     (case slot_for_topic (write_collection w) schema of
        None \<Rightarrow> Inl (No_collection (write_collection w))
      | Some slot \<Rightarrow>
          resolve_slots schema ws (if list_ex (\<lambda>s. fc_topic s = fc_topic slot) known then known else known @ [slot]))"

fun run_writes :: "forge_env \<Rightarrow> principal_id option \<Rightarrow> forge_collection list \<Rightarrow> forge_write list \<Rightarrow> touched list \<Rightarrow> forge_db \<Rightarrow>
    (forge_error + touched list) \<times> forge_db" where
  "run_writes env p slots [] ts db = (Inr ts, db)"
| "run_writes env p slots (w # ws) ts db =
     (case find (\<lambda>s. fc_topic s = write_collection w) slots of
        None \<Rightarrow> (Inl Panicked, db)
      | Some slot \<Rightarrow> then_tx (apply_one env p slot w ts db) (\<lambda>ts db. run_writes env p slots ws ts db))"

definition transact :: "forge_env \<Rightarrow> principal_id option \<Rightarrow> forge_collection list \<Rightarrow> forge_write list \<Rightarrow> forge_db \<Rightarrow>
    (forge_error + touched list) \<times> forge_db" where
  \<comment> \<open>the result of a rollback is ignored, and a transaction dropped unresolved is rolled back too\<close>
  "transact env p schema ws db =
     (case resolve_slots schema ws [] of
        Inl e \<Rightarrow> (Inl e, db)
      | Inr slots \<Rightarrow>
          then_tx (call_plane db) (\<lambda>_ db.
            (case run_writes env p slots ws [] db of
               (Inl e, tx) \<Rightarrow> (Inl e, db\<lparr>fd_faults := fd_faults (snd (call_plane tx))\<rparr>)
             | (Inr ts, tx) \<Rightarrow>
                 (case call_plane tx of
                    (Inl e, tx') \<Rightarrow> (Inl e, db\<lparr>fd_faults := fd_faults tx'\<rparr>)
                  | (Inr _, tx') \<Rightarrow> (Inr ts, tx')))))"

section \<open>Sequences of calls\<close>

lemma then_tx_Inr: "then_tx r f = (Inr y, db') \<longleftrightarrow> (\<exists>x db1. r = (Inr x, db1) \<and> f x db1 = (Inr y, db'))"
  by (cases r; cases "fst r") (auto simp: then_tx_def)

lemma lift_tx_Inr [simp]: "lift_tx r db = (Inr x, db1) \<longleftrightarrow> r = Inr x \<and> db1 = db"
  by (auto simp: lift_tx_def)

definition same_store :: "forge_db \<Rightarrow> forge_db \<Rightarrow> bool" where
  "same_store db db' \<longleftrightarrow> fd_tables db' = fd_tables db \<and> fd_authors db' = fd_authors db \<and> fd_last db' = fd_last db"

lemma same_store_refl [simp]: "same_store db db"
  by (simp add: same_store_def)

lemma same_store_trans: "same_store a b \<Longrightarrow> same_store b c \<Longrightarrow> same_store a c"
  by (simp add: same_store_def)

lemma call_plane_store: "call_plane db = (x, db') \<Longrightarrow> same_store db db'"
  by (auto simp: call_plane_def same_store_def split: list.splits)

lemma then_call_Inr:
  assumes "then_tx (call_plane db) f = (Inr y, db')"
  obtains db1 where "same_store db db1" "f () db1 = (Inr y, db')"
  using assms call_plane_store[of db] by (auto simp: then_tx_Inr)

section \<open>Keys\<close>

locale key_equality =
  fixes env :: forge_env
  assumes eq_sym: "fe_eq env a b \<Longrightarrow> fe_eq env b a"
    and eq_trans: "fe_eq env a b \<Longrightarrow> fe_eq env b c \<Longrightarrow> fe_eq env a c"

definition keys_ok :: "forge_env \<Rightarrow> string \<Rightarrow> sql_table \<Rightarrow> bool" where
  \<comment> \<open>the primary key: no two rows of the table have equal keys\<close>
  "keys_ok env k tb \<longleftrightarrow> sorted_wrt (\<lambda>x y. \<not> fe_eq env (x k) (y k)) (tb_rows tb)"

context key_equality
begin

lemma matching_one:
  assumes "keys_ok env k tb"
  shows "matching env k v tb = [] \<or> (\<exists>r. matching env k v tb = [r])"
proof (rule ccontr)
  assume n: "\<not> ?thesis"
  obtain x ms where m1: "matching env k v tb = x # ms" using n by (cases "matching env k v tb") auto
  then obtain y rest where m2: "ms = y # rest" using n by (cases ms) auto
  have "x \<in> set (matching env k v tb)" "y \<in> set (matching env k v tb)" using m1 m2 by simp_all
  then have "fe_eq env (x k) v" "fe_eq env (y k) v" by (simp_all add: matching_def)
  then have "fe_eq env (x k) (y k)" using eq_sym eq_trans by blast
  moreover have "sorted_wrt (\<lambda>x y. \<not> fe_eq env (x k) (y k)) (matching env k v tb)"
    unfolding matching_def using assms unfolding keys_ok_def by (rule sorted_wrt_filter)
  ultimately show False using m1 m2 by simp
qed

lemma matched_is:
  assumes "keys_ok env k tb" "matching env k v tb = r # rest" "x \<in> set (tb_rows tb)" "fe_eq env (x k) v"
  shows "x = r"
proof -
  have "x \<in> set (matching env k v tb)" using assms(3,4) by (simp add: matching_def)
  then show ?thesis using matching_one[OF assms(1), of v] assms(2) by auto
qed

end

lemma keys_ok_insert:
  "keys_ok env k tb \<Longrightarrow> matching env k (r k) tb = [] \<Longrightarrow> keys_ok env k \<lparr>tb_rows = tb_rows tb @ [r], tb_next = n\<rparr>"
  by (auto simp: keys_ok_def matching_def sorted_wrt_append filter_empty_conv)

lemma keys_ok_map:
  "keys_ok env k tb \<Longrightarrow> (\<And>r. f r k = r k) \<Longrightarrow> keys_ok env k (tb\<lparr>tb_rows := map f (tb_rows tb)\<rparr>)"
  by (simp add: keys_ok_def sorted_wrt_map)

lemma keys_ok_filter: "keys_ok env k tb \<Longrightarrow> keys_ok env k (tb\<lparr>tb_rows := filter P (tb_rows tb)\<rparr>)"
  by (simp add: keys_ok_def sorted_wrt_filter)

section \<open>What each call does when it succeeds\<close>

lemma insert_row_effect:
  assumes "insert_row env t k cvs db = (Inr r, db')"
  shows "r = inserted_row env t k cvs (fd_tables db t) \<and> matching env k (r k) (fd_tables db t) = [] \<and>
    fd_tables db' = (fd_tables db)(t := \<lparr>tb_rows = tb_rows (fd_tables db t) @ [r], tb_next = next_key (r k) (tb_next (fd_tables db t))\<rparr>) \<and>
    fd_authors db' = fd_authors db \<and> fd_last db' = r k"
proof -
  from assms obtain db1 where s: "same_store db db1" and
    i: "(let tb = fd_tables db1 t; r = inserted_row env t k cvs tb in
       (case fe_reject env t r of
          Some why \<Rightarrow> (Inl (Storage why), db1)
        | None \<Rightarrow>
            if matching env k (r k) tb \<noteq> [] then (Inl (Storage ''UNIQUE''), db1)
            else (Inr r, (put_table t \<lparr>tb_rows = tb_rows tb @ [r], tb_next = next_key (r k) (tb_next tb)\<rparr> db1)
                    \<lparr>fd_last := r k\<rparr>))) = (Inr r, db')"
    unfolding insert_row_def by (elim then_call_Inr)
  show ?thesis using s i by (auto simp: same_store_def put_table_def Let_def split: option.splits if_splits)
qed

lemma update_rows_effect:
  assumes "update_rows env t k v cvs db = (Inr n, db')"
  shows "fd_tables db' = (fd_tables db)(t := (fd_tables db t)\<lparr>tb_rows :=
      map (\<lambda>r. if fe_eq env (r k) v then set_columns env t cvs r else r) (tb_rows (fd_tables db t))\<rparr>) \<and>
    fd_authors db' = fd_authors db"
  using assms unfolding update_rows_def
  by (elim then_call_Inr) (auto simp: same_store_def put_table_def Let_def split: list.splits)

lemma delete_rows_effect:
  assumes "delete_rows env t k v db = (Inr n, db')"
  shows "fd_tables db' = (fd_tables db)(t := (fd_tables db t)\<lparr>tb_rows :=
      filter (\<lambda>r. \<not> fe_eq env (r k) v) (tb_rows (fd_tables db t))\<rparr>) \<and> fd_authors db' = fd_authors db"
  using assms unfolding delete_rows_def
  by (elim then_call_Inr) (auto simp: same_store_def put_table_def Let_def)

lemma put_author_effect:
  assumes "put_author env t v me db = (Inr u, db')"
  shows "fd_tables db' = fd_tables db \<and>
    fd_authors db' = filter (\<lambda>a. \<not> same_author env t v a) (fd_authors db) @ [\<lparr>au_table = t, au_key = v, au_principal = me\<rparr>]"
  using assms unfolding put_author_def by (elim then_call_Inr) (auto simp: same_store_def)

lemma drop_author_effect:
  assumes "drop_author env t v db = (Inr u, db')"
  shows "fd_tables db' = fd_tables db \<and> fd_authors db' = filter (\<lambda>a. \<not> same_author env t v a) (fd_authors db)"
  using assms unfolding drop_author_def by (elim then_call_Inr) (auto simp: same_store_def)

lemma record_author_effect:
  assumes "record_author env slot key me db = (Inr u, db')" "\<And>v. key = Some v \<Longrightarrow> v = fd_last db"
  shows "fd_tables db' = fd_tables db \<and>
    fd_authors db' = filter (\<lambda>a. \<not> same_author env (fc_table slot) (fd_last db) a) (fd_authors db) @
      [\<lparr>au_table = fc_table slot, au_key = fd_last db, au_principal = me\<rparr>]"
proof (cases key)
  case None
  then obtain db1 where "same_store db db1" "put_author env (fc_table slot) (fd_last db1) me db1 = (Inr u, db')"
    using assms(1) unfolding record_author_def by (auto elim: then_call_Inr)
  then show ?thesis using put_author_effect by (fastforce simp: same_store_def)
next
  case (Some v)
  then show ?thesis using assms put_author_effect by (fastforce simp: record_author_def)
qed

fun owner_key :: "sql_value \<Rightarrow> string option" where
  "owner_key (Text s) = Some s"
| "owner_key (Integer i) = Some (show_int i)"
| "owner_key _ = None"

lemma partition_key_is: "partition_value_to_key topic (JString s) = Inr k \<Longrightarrow> k = s"
  by (auto simp: partition_value_to_key_def split: if_splits)

lemma read_partition_effect:
  assumes "read_partition env slot key db = (Inr before, db')"
  shows "same_store db db' \<and> (\<forall>column. fc_partition_by slot = Some column \<longrightarrow>
     (\<exists>v. key_to_sqlvalue env (fc_topic slot) (fc_key_column slot) key = Inr v \<and>
       (case matching env (fc_key_column slot) v (fd_tables db (fc_table slot)) of
          [] \<Rightarrow> before = None
        | r # _ \<Rightarrow> \<exists>owner. owner_key (r column) = Some owner \<and> before = Some owner)))"
proof (cases "fc_partition_by slot")
  case None
  then show ?thesis using assms by (simp add: read_partition_def)
next
  case (Some column)
  then obtain v db1 where v: "key_to_sqlvalue env (fc_topic slot) (fc_key_column slot) key = Inr v" "same_store db db1" and
    c: "(case matching env (fc_key_column slot) v (fd_tables db1 (fc_table slot)) of
             [] \<Rightarrow> (Inr None, db1)
           | r # _ \<Rightarrow>
               (case r column of
                  Text s \<Rightarrow> ((case partition_value_to_key (fc_topic slot) (JString s) of Inl e \<Rightarrow> Inl e | Inr k \<Rightarrow> Inr (Some k)), db1)
                | Integer i \<Rightarrow>
                    ((if is_valid_partition_key (show_int i) then Inr (Some (show_int i)) else Inl (Bad_partition (fc_topic slot))), db1)
                | _ \<Rightarrow> (Inl (Bad_partition (fc_topic slot)), db1))) = (Inr before, db')"
    using assms unfolding read_partition_def by (auto simp: then_tx_Inr elim: then_call_Inr dest: call_plane_store)
  have t: "fd_tables db1 = fd_tables db" using v(2) by (simp add: same_store_def)
  show ?thesis
  proof (cases "matching env (fc_key_column slot) v (fd_tables db (fc_table slot))")
    case Nil
    then show ?thesis using Some v c t by simp
  next
    case (Cons r rest)
    then show ?thesis using Some v c t
      by (cases "r column") (auto dest: partition_key_is split: sum.splits if_splits)
  qed
qed

lemma authorize_author_effect:
  assumes "authorize_author env slot key p db = (Inr u, db')"
  shows "same_store db db' \<and> (\<not> fc_identity slot \<and> fc_edit slot = Author \<longrightarrow>
     (\<exists>me v. p = Some me \<and> key_to_sqlvalue env (fc_topic slot) (fc_key_column slot) key = Inr v \<and>
       (case matching env (fc_key_column slot) v (fd_tables db (fc_table slot)) of
          [] \<Rightarrow> True
        | r # _ \<Rightarrow> \<exists>a. find (same_author env (fc_table slot) (r (fc_key_column slot))) (fd_authors db) = Some a \<and>
            au_principal a = me)))"
proof (cases "fc_identity slot \<or> fc_edit slot = Anyone")
  case True
  then show ?thesis using assms by (auto simp: authorize_author_def)
next
  case False
  then obtain me where me: "p = Some me" using assms by (auto simp: authorize_author_def split: option.splits)
  then obtain v db1 where v: "key_to_sqlvalue env (fc_topic slot) (fc_key_column slot) key = Inr v" "same_store db db1" and
    c: "(case matching env (fc_key_column slot) v (fd_tables db1 (fc_table slot)) of
             [] \<Rightarrow> (Inr (), db1)
           | r # _ \<Rightarrow>
               (case find (same_author env (fc_table slot) (r (fc_key_column slot))) (fd_authors db1) of
                  None \<Rightarrow> (Inl (No_author (fc_topic slot)), db1)
                | Some a \<Rightarrow> if au_principal a = me then (Inr (), db1) else (Inl (Other_author (fc_topic slot)), db1))) = (Inr u, db')"
    using assms False unfolding authorize_author_def by (auto simp: then_tx_Inr elim: then_call_Inr dest: call_plane_store)
  have t: "fd_tables db1 = fd_tables db" "fd_authors db1 = fd_authors db" using v(2) by (simp_all add: same_store_def)
  show ?thesis
    using me v c t False by (cases "matching env (fc_key_column slot) v (fd_tables db (fc_table slot))")
      (auto split: option.splits if_splits)
qed

lemma bind_columns_ok:
  "bind_columns env ck ms = Inr xs \<Longrightarrow>
   map fst xs = map fst ms \<and> list_all (\<lambda>c. ck c = None) (map fst ms) \<and>
   (\<forall>c. map_of xs c = None \<longleftrightarrow> map_of ms c = None) \<and>
   (\<forall>c v. map_of ms c = Some v \<longrightarrow> (\<exists>x. json_to_sqlvalue env c v = Inr x \<and> map_of xs c = Some x))"
proof (induction ms arbitrary: xs)
  case (Cons m ms)
  obtain c v where m: "m = (c, v)" by (cases m)
  obtain x ys where x: "ck c = None" "json_to_sqlvalue env c v = Inr x" "bind_columns env ck ms = Inr ys" "xs = (c, x) # ys"
    using Cons.prems m by (auto split: option.splits sum.splits)
  then show ?case using Cons.IH[OF x(3)] m by simp
qed simp

lemma fields_keep_key:
  assumes "bind_columns env (check_field k) fs = Inr cvs"
  shows "map_of cvs k = None"
proof (rule ccontr)
  assume "map_of cvs k \<noteq> None"
  moreover have "map_of cvs k = None \<longleftrightarrow> map_of fs k = None" using bind_columns_ok[OF assms] by blast
  ultimately have "map_of fs k \<noteq> None" by simp
  then have "k \<in> set (map fst fs)" by (auto simp: map_of_eq_None_iff)
  then have "check_field k k = None" using bind_columns_ok[OF assms] by (auto simp: list_all_iff)
  then show False by (auto simp: check_field_def split: if_splits)
qed

lemma set_columns_key: "bind_columns env (check_field k) fs = Inr cvs \<Longrightarrow> set_columns env t cvs r k = r k"
  by (simp add: set_columns_def fields_keep_key)

lemma key_value_same: "key_to_sqlvalue env a k key = Inr v \<Longrightarrow> key_to_sqlvalue env b k key = Inr v"
  by (auto simp: key_to_sqlvalue_def split: if_splits)

lemma build_append_ok:
  assumes "build_append_returning env t k r = Inr (st, params, columns)"
  shows "\<exists>cvs. bind_columns env check_column r = Inr cvs \<and> zip (map fst r) params = cvs \<and>
    st = Insert_returning t (map fst r) (k # map fst r)"
proof -
  obtain cvs where c: "bind_columns env check_column r = Inr cvs" "params = map snd cvs"
      "st = Insert_returning t (map fst r) (k # map fst r)"
    using assms by (auto simp: build_append_returning_def build_append_def Let_def split: if_splits sum.splits)
  then have "map fst cvs = map fst r" using bind_columns_ok by blast
  then have "zip (map fst r) params = cvs" using c(2) zip_map_fst_snd[of cvs] by simp
  then show ?thesis using c by blast
qed

lemma build_update_ok:
  assumes "build_update env t k key fs = Inr (st, params)"
  shows "\<exists>cvs v. bind_columns env (check_field k) fs = Inr cvs \<and> key_to_sqlvalue env t k key = Inr v \<and>
    zip (map fst fs) (butlast params) = cvs \<and> last params = v \<and> st = Update_set t (map fst fs) k"
proof -
  obtain cvs v where c: "bind_columns env (check_field k) fs = Inr cvs" "key_to_sqlvalue env t k key = Inr v"
      "params = map snd cvs @ [v]" "st = Update_set t (map fst cvs) k"
    using assms by (auto simp: build_update_def split: if_splits sum.splits)
  then have "map fst cvs = map fst fs" using bind_columns_ok by blast
  then show ?thesis using c zip_map_fst_snd[of cvs] by auto
qed

section \<open>What each write does when it succeeds\<close>

definition authored_by :: "forge_env \<Rightarrow> forge_collection \<Rightarrow> principal_id option \<Rightarrow> sql_value \<Rightarrow> author_row list \<Rightarrow> author_row list" where
  "authored_by env slot p v as =
     (case p of
        Some me \<Rightarrow>
          if fc_identity slot then as
          else filter (\<lambda>a. \<not> same_author env (fc_table slot) v a) as @
            [\<lparr>au_table = fc_table slot, au_key = v, au_principal = me\<rparr>]
      | None \<Rightarrow> as)"

lemma apply_append_effect:
  assumes "apply_append env p slot r ts db = (Inr ts', db')"
  obtains r' cvs row where "authorize_append slot r p = Inr r'" "bind_columns env check_column r' = Inr cvs"
    "row = inserted_row env (fc_table slot) (fc_key_column slot) cvs (fd_tables db (fc_table slot))"
    "matching env (fc_key_column slot) (row (fc_key_column slot)) (fd_tables db (fc_table slot)) = []"
    "fd_tables db' = (fd_tables db)(fc_table slot := \<lparr>tb_rows = tb_rows (fd_tables db (fc_table slot)) @ [row],
       tb_next = next_key (row (fc_key_column slot)) (tb_next (fd_tables db (fc_table slot)))\<rparr>)"
    "fd_authors db' = authored_by env slot p (row (fc_key_column slot)) (fd_authors db)"
proof -
  let ?t = "fc_table slot" and ?k = "fc_key_column slot"
  from assms obtain r' st params columns returned row db1 db2 where
    a: "authorize_append slot r p = Inr r'" and b: "build_append_returning env ?t ?k r' = Inr (st, params, columns)" and
    i: "run_insert env ?k st params db = (Inr (returned, row), db1)" and
    w: "(case p of
         Some me \<Rightarrow>
           if fc_identity slot then (Inr (), db1)
           else record_author env slot (case returned of Some (v # vs) \<Rightarrow> Some v | _ \<Rightarrow> None) me db1
       | None \<Rightarrow> (Inr (), db1)) = (Inr (), db2)" and d: "db' = db2"
    unfolding apply_append_def by (auto simp: then_tx_Inr)
  obtain cvs where c: "bind_columns env check_column r' = Inr cvs" "zip (map fst r') params = cvs"
    "st = Insert_returning ?t (map fst r') (?k # map fst r')" using build_append_ok[OF b] by blast
  have ir: "insert_row env ?t ?k cvs db = (Inr row, db1)" and
    ret: "returned = (if fe_returning env then Some (row ?k # map row (map fst r')) else None)"
    using i c by (auto simp: then_tx_Inr)
  note e = insert_row_effect[OF ir]
  have "fd_tables db' = fd_tables db1 \<and> fd_authors db' = authored_by env slot p (row ?k) (fd_authors db)"
  proof (cases p)
    case None
    then show ?thesis using w d e by (simp add: authored_by_def)
  next
    case (Some me)
    show ?thesis
    proof (cases "fc_identity slot")
      case True
      then show ?thesis using w d e Some by (simp add: authored_by_def)
    next
      case False
      then have "record_author env slot (case returned of Some (v # vs) \<Rightarrow> Some v | _ \<Rightarrow> None) me db1 = (Inr (), db2)"
        using w Some by simp
      then have "fd_tables db2 = fd_tables db1 \<and>
          fd_authors db2 = filter (\<lambda>a. \<not> same_author env ?t (fd_last db1) a) (fd_authors db1) @
            [\<lparr>au_table = ?t, au_key = fd_last db1, au_principal = me\<rparr>]"
        by (rule record_author_effect) (use e ret in \<open>auto split: if_splits\<close>)
      then show ?thesis using d e Some False by (simp add: authored_by_def)
    qed
  qed
  then show ?thesis using that a c e by metis
qed

lemma apply_update_effect:
  assumes "apply_update env p slot key fs ts db = (Inr ts', db')"
  obtains before cvs v db1 db2 where "authorize_author env slot key p db = (Inr (), db1)" "same_store db db1"
    "read_partition env slot key db1 = (Inr before, db2)" "same_store db db2" "authorize_existing_row slot before p = Inr ()"
    "authorize_partition_move slot fs p = Inr ()" "bind_columns env (check_field (fc_key_column slot)) fs = Inr cvs"
    "key_to_sqlvalue env (fc_table slot) (fc_key_column slot) key = Inr v"
    "fd_tables db' = (fd_tables db)(fc_table slot := (fd_tables db (fc_table slot))\<lparr>tb_rows :=
       map (\<lambda>r. if fe_eq env (r (fc_key_column slot)) v then set_columns env (fc_table slot) cvs r else r)
         (tb_rows (fd_tables db (fc_table slot)))\<rparr>)"
    "fd_authors db' = fd_authors db"
proof -
  let ?t = "fc_table slot" and ?k = "fc_key_column slot"
  from assms obtain before st params n db1 db2 where
    a: "authorize_author env slot key p db = (Inr (), db1)" and r: "read_partition env slot key db1 = (Inr before, db2)" and
    o: "authorize_existing_row slot before p = Inr ()" "authorize_partition_move slot fs p = Inr ()" and
    b: "build_update env ?t ?k key fs = Inr (st, params)" and c: "run_change env st params db2 = (Inr n, db')"
    unfolding apply_update_def by (auto simp: then_tx_Inr)
  have s1: "same_store db db1" using authorize_author_effect[OF a] by blast
  have s2: "same_store db db2" using s1 read_partition_effect[OF r] same_store_trans by blast
  obtain cvs v where u: "bind_columns env (check_field ?k) fs = Inr cvs" "key_to_sqlvalue env ?t ?k key = Inr v"
    "zip (map fst fs) (butlast params) = cvs" "last params = v" "st = Update_set ?t (map fst fs) ?k"
    using build_update_ok[OF b] by blast
  have "update_rows env ?t ?k v cvs db2 = (Inr n, db')" using c u by simp
  note e = update_rows_effect[OF this]
  show ?thesis by (rule that[OF a s1 r s2 o u(1,2)]) (use e s2 in \<open>simp_all add: same_store_def\<close>)
qed

lemma apply_delete_effect:
  assumes "apply_delete env p slot key ts db = (Inr ts', db')"
  obtains before v db1 db2 where "authorize_author env slot key p db = (Inr (), db1)" "same_store db db1"
    "read_partition env slot key db1 = (Inr before, db2)" "same_store db db2" "authorize_existing_row slot before p = Inr ()"
    "key_to_sqlvalue env (fc_topic slot) (fc_key_column slot) key = Inr v"
    "fd_tables db' = (fd_tables db)(fc_table slot := (fd_tables db (fc_table slot))\<lparr>tb_rows :=
       filter (\<lambda>r. \<not> fe_eq env (r (fc_key_column slot)) v) (tb_rows (fd_tables db (fc_table slot)))\<rparr>)"
    "fd_authors db' = filter (\<lambda>a. \<not> same_author env (fc_table slot) v a) (fd_authors db)"
proof -
  let ?t = "fc_table slot" and ?k = "fc_key_column slot"
  from assms obtain before st params n v db1 db2 db3 where
    a: "authorize_author env slot key p db = (Inr (), db1)" and r: "read_partition env slot key db1 = (Inr before, db2)" and
    o: "authorize_existing_row slot before p = Inr ()" and
    b: "build_delete env ?t ?k key = Inr (st, params)" and c: "run_change env st params db2 = (Inr n, db3)" and
    v: "key_to_sqlvalue env (fc_topic slot) ?k key = Inr v" and d: "drop_author env ?t v db3 = (Inr (), db')"
    unfolding apply_delete_def by (auto simp: then_tx_Inr)
  have s1: "same_store db db1" using authorize_author_effect[OF a] by blast
  have s2: "same_store db db2" using s1 read_partition_effect[OF r] same_store_trans by blast
  have "st = Delete_from ?t ?k" "params = [v]"
    using b key_value_same[OF v, of ?t] by (auto simp: build_delete_def)
  then have "delete_rows env ?t ?k v db2 = (Inr n, db3)" using c by simp
  note e = delete_rows_effect[OF this] and f = drop_author_effect[OF d]
  show ?thesis by (rule that[OF a s1 r s2 o v]) (use e f s2 in \<open>simp_all add: same_store_def\<close>)
qed

section \<open>Rows of other principals\<close>

definition mine :: "principal_id option \<Rightarrow> string \<Rightarrow> table_row \<Rightarrow> bool" where
  "mine p column r \<longleftrightarrow> p \<noteq> None \<and> owner_key (r column) = p"

definition foreign_rows :: "principal_id option \<Rightarrow> string \<Rightarrow> sql_table \<Rightarrow> table_row list" where
  "foreign_rows p column tb = filter (\<lambda>r. \<not> mine p column r) (tb_rows tb)"

definition owned_table :: "forge_collection list \<Rightarrow> string \<Rightarrow> string \<Rightarrow> string \<Rightarrow> bool" where
  \<comment> \<open>every collection over the table is partitioned by the signed-in principal, in this column\<close>
  "owned_table schema t k column \<longleftrightarrow> k \<noteq> column \<and>
     list_all (\<lambda>c. fc_table c = t \<longrightarrow> fc_identity c \<and> fc_partition_by c = Some column \<and> fc_key_column c = k) schema"

definition keeps_owner :: "forge_env \<Rightarrow> string \<Rightarrow> string \<Rightarrow> principal_id option \<Rightarrow> bool" where
  \<comment> \<open>the column stores a principal's id as the text it is\<close>
  "keeps_owner env t column p \<longleftrightarrow> (case p of None \<Rightarrow> True | Some me \<Rightarrow> fe_affinity env t column (Text me) = Text me)"

lemma map_of_put: "map_of (map_put lt c v ms) c = Some v"
  by (induction ms) auto

lemma filter_map_same:
  "(\<And>r. r \<in> set rs \<Longrightarrow> P r \<Longrightarrow> Q r \<and> Q (f r)) \<Longrightarrow>
   filter (\<lambda>r. \<not> Q r) (map (\<lambda>r. if P r then f r else r) rs) = filter (\<lambda>r. \<not> Q r) rs"
  by (induction rs) auto

lemma filter_drop_same:
  "(\<And>r. r \<in> set rs \<Longrightarrow> P r \<Longrightarrow> Q r) \<Longrightarrow> filter (\<lambda>r. \<not> Q r) (filter (\<lambda>r. \<not> P r) rs) = filter (\<lambda>r. \<not> Q r) rs"
  by (induction rs) auto

lemma authorize_append_owner:
  assumes "authorize_append slot r p = Inr r'" "fc_identity slot" "fc_partition_by slot = Some column"
  shows "\<exists>me. p = Some me \<and> map_of r' column = Some (JString me)"
  using assms by (auto simp: authorize_append_def map_of_put split: option.splits if_splits)

context key_equality
begin

text \<open>The rows a found key leads to are the writer's own.\<close>

lemma owner_checked:
  assumes "keys_ok env k (fd_tables db (fc_table slot))" "fc_identity slot" "fc_partition_by slot = Some column" "fc_key_column slot = k"
    "read_partition env slot key db1 = (Inr before, db2)" "same_store db db1" "authorize_existing_row slot before p = Inr ()"
    "key_to_sqlvalue env c k key = Inr v" "x \<in> set (tb_rows (fd_tables db (fc_table slot)))" "fe_eq env (x k) v"
  shows "mine p column x"
proof -
  have tb: "fd_tables db1 = fd_tables db" using assms(6) by (simp add: same_store_def)
  obtain v' where v': "key_to_sqlvalue env (fc_topic slot) k key = Inr v'" and
    m: "case matching env k v' (fd_tables db (fc_table slot)) of [] \<Rightarrow> before = None
        | r # _ \<Rightarrow> \<exists>owner. owner_key (r column) = Some owner \<and> before = Some owner"
    using read_partition_effect[OF assms(5)] assms(3,4) tb by auto
  have "v' = v" using key_value_same[OF v', of c] assms(8) by simp
  have "x \<in> set (matching env k v (fd_tables db (fc_table slot)))" using assms(9,10) by (simp add: matching_def)
  then obtain r rest where r: "matching env k v (fd_tables db (fc_table slot)) = r # rest" by (cases "matching env k v (fd_tables db (fc_table slot))") auto
  then have "x = r" using matched_is[OF assms(1) r assms(9,10)] by simp
  then show ?thesis using m r \<open>v' = v\<close> assms(2,7)
    by (auto simp: mine_def authorize_existing_row_def split: option.splits if_splits)
qed

lemma apply_one_foreign:
  assumes "keys_ok env k (fd_tables db t)" "keeps_owner env t column p" "k \<noteq> column"
    "fc_table slot = t \<longrightarrow> fc_identity slot \<and> fc_partition_by slot = Some column \<and> fc_key_column slot = k"
    "apply_one env p slot w ts db = (Inr ts', db')"
  shows "keys_ok env k (fd_tables db' t) \<and> foreign_rows p column (fd_tables db' t) = foreign_rows p column (fd_tables db t)"
proof (cases w)
  case (Append c r)
  then have ap: "apply_append env p slot r ts db = (Inr ts', db')" using assms(5) by simp
  obtain r' cvs row where e: "authorize_append slot r p = Inr r'" "bind_columns env check_column r' = Inr cvs"
    "row = inserted_row env (fc_table slot) (fc_key_column slot) cvs (fd_tables db (fc_table slot))"
    "matching env (fc_key_column slot) (row (fc_key_column slot)) (fd_tables db (fc_table slot)) = []"
    "fd_tables db' = (fd_tables db)(fc_table slot := \<lparr>tb_rows = tb_rows (fd_tables db (fc_table slot)) @ [row],
       tb_next = next_key (row (fc_key_column slot)) (tb_next (fd_tables db (fc_table slot)))\<rparr>)"
    "fd_authors db' = authored_by env slot p (row (fc_key_column slot)) (fd_authors db)"
    by (rule apply_append_effect[OF ap])
  show ?thesis
  proof (cases "fc_table slot = t")
    case True
    then have s: "fc_identity slot" "fc_partition_by slot = Some column" "fc_key_column slot = k" using assms(4) by simp_all
    obtain me where me: "p = Some me" "map_of r' column = Some (JString me)" using authorize_append_owner[OF e(1) s(1,2)] by blast
    then have "map_of cvs column = Some (Text me)" using bind_columns_ok[OF e(2)] by fastforce
    then have "mine p column row" using me assms(2,3) True s by (simp add: mine_def e(3) inserted_row_def keeps_owner_def)
    then show ?thesis using True s e(4,5) assms(1) keys_ok_insert[of env k "fd_tables db t" row]
      by (simp add: foreign_rows_def)
  qed (use assms(1) e(5) in simp)
next
  case (Update c key fs)
  then have up: "apply_update env p slot key fs ts db = (Inr ts', db')" using assms(5) by simp
  obtain before cvs v db1 db2 where e: "same_store db db1" "read_partition env slot key db1 = (Inr before, db2)"
    "authorize_existing_row slot before p = Inr ()" "authorize_partition_move slot fs p = Inr ()"
    "bind_columns env (check_field (fc_key_column slot)) fs = Inr cvs"
    "key_to_sqlvalue env (fc_table slot) (fc_key_column slot) key = Inr v"
    "fd_tables db' = (fd_tables db)(fc_table slot := (fd_tables db (fc_table slot))\<lparr>tb_rows :=
       map (\<lambda>r. if fe_eq env (r (fc_key_column slot)) v then set_columns env (fc_table slot) cvs r else r)
         (tb_rows (fd_tables db (fc_table slot)))\<rparr>)"
    by (rule apply_update_effect[OF up])
  show ?thesis
  proof (cases "fc_table slot = t")
    case True
    then have s: "fc_identity slot" "fc_partition_by slot = Some column" "fc_key_column slot = k" using assms(4) by simp_all
    note b = bind_columns_ok[OF e(5)]
    have key: "set_columns env t cvs r k = r k" for r using set_columns_key[OF e(5)] s(3) by simp
    have own: "mine p column r \<and> mine p column (set_columns env t cvs r)"
      if "r \<in> set (tb_rows (fd_tables db t))" "fe_eq env (r k) v" for r
    proof -
      have m: "mine p column r"
        by (rule owner_checked[OF _ s e(2,1,3)]) (use assms(1) True s e(6) that in simp_all)
      then obtain me where me: "p = Some me" by (auto simp: mine_def)
      have "map_of fs column = None \<or> map_of fs column = Some (JString me)"
        using e(4) s me by (auto simp: authorize_partition_move_def split: option.splits if_splits)
      then have "map_of cvs column = None \<or> map_of cvs column = Some (Text me)" using b by fastforce
      then have "mine p column (set_columns env t cvs r)"
        using m me assms(2) by (auto simp: mine_def set_columns_def keeps_owner_def)
      then show ?thesis using m by simp
    qed
    have "foreign_rows p column (fd_tables db' t) = foreign_rows p column (fd_tables db t)"
      unfolding foreign_rows_def e(7) using True s own by (simp add: filter_map_same)
    moreover have "keys_ok env k (fd_tables db' t)"
      unfolding e(7) using True s assms(1) key by (simp add: keys_ok_map)
    ultimately show ?thesis by simp
  qed (use assms(1) e(7) in simp)
next
  case (Delete c key)
  then have de: "apply_delete env p slot key ts db = (Inr ts', db')" using assms(5) by simp
  obtain before v db1 db2 where e: "same_store db db1" "read_partition env slot key db1 = (Inr before, db2)"
    "authorize_existing_row slot before p = Inr ()" "key_to_sqlvalue env (fc_topic slot) (fc_key_column slot) key = Inr v"
    "fd_tables db' = (fd_tables db)(fc_table slot := (fd_tables db (fc_table slot))\<lparr>tb_rows :=
       filter (\<lambda>r. \<not> fe_eq env (r (fc_key_column slot)) v) (tb_rows (fd_tables db (fc_table slot)))\<rparr>)"
    by (rule apply_delete_effect[OF de])
  show ?thesis
  proof (cases "fc_table slot = t")
    case True
    then have s: "fc_identity slot" "fc_partition_by slot = Some column" "fc_key_column slot = k" using assms(4) by simp_all
    have own: "mine p column r" if "r \<in> set (tb_rows (fd_tables db t))" "fe_eq env (r k) v" for r
      by (rule owner_checked[OF _ s e(2,1,3)]) (use assms(1) True s e(4) that in simp_all)
    have "filter (\<lambda>r. \<not> mine p column r) (filter (\<lambda>r. \<not> fe_eq env (r k) v) (tb_rows (fd_tables db t))) =
        filter (\<lambda>r. \<not> mine p column r) (tb_rows (fd_tables db t))" by (rule filter_drop_same) (rule own)
    then have "foreign_rows p column (fd_tables db' t) = foreign_rows p column (fd_tables db t)"
      unfolding foreign_rows_def e(5) using True s by simp
    moreover have "keys_ok env k (fd_tables db' t)"
      unfolding e(5) using True s assms(1) by (simp add: keys_ok_filter)
    ultimately show ?thesis by simp
  qed (use assms(1) e(5) in simp)
qed

end

section \<open>The whole transaction\<close>

lemma resolve_slots_known:
  "resolve_slots schema ws known = Inr slots \<Longrightarrow> set known \<subseteq> set schema \<Longrightarrow> set slots \<subseteq> set schema"
proof (induction ws arbitrary: known)
  case (Cons w ws)
  then obtain slot where s: "slot_for_topic (write_collection w) schema = Some slot"
    "resolve_slots schema ws (if list_ex (\<lambda>s. fc_topic s = fc_topic slot) known then known else known @ [slot]) = Inr slots"
    by (auto split: option.splits)
  then have "slot \<in> set schema" by (auto simp: slot_for_topic_def schema_resolve_def find_Some_iff)
  then show ?case using Cons.IH[OF s(2)] Cons.prems(2) by (auto split: if_splits)
qed simp

text \<open>An invariant that every write of the action preserves holds after it, and an action that fails
  changes nothing.\<close>

lemma run_writes_invariant:
  assumes "\<And>slot w ts db ts' db'. slot \<in> set slots \<Longrightarrow> I db \<Longrightarrow> apply_one env p slot w ts db = (Inr ts', db') \<Longrightarrow> I db'"
    "run_writes env p slots ws ts db = (Inr ts', db')" "I db"
  shows "I db'"
  using assms(2,3)
proof (induction ws arbitrary: ts db)
  case (Cons w ws)
  obtain slot where s: "find (\<lambda>s. fc_topic s = write_collection w) slots = Some slot"
    using Cons.prems(1) by (cases "find (\<lambda>s. fc_topic s = write_collection w) slots") auto
  then have "slot \<in> set slots" by (auto simp: find_Some_iff)
  moreover obtain ts1 db1 where "apply_one env p slot w ts db = (Inr ts1, db1)" "run_writes env p slots ws ts1 db1 = (Inr ts', db')"
    using Cons.prems(1) s by (auto simp: then_tx_Inr)
  ultimately show ?case using Cons.IH assms(1) Cons.prems(2) by blast
qed simp

lemma transact_invariant:
  assumes step: "\<And>slot w ts db ts' db'. slot \<in> set schema \<Longrightarrow> I db \<Longrightarrow> apply_one env p slot w ts db = (Inr ts', db') \<Longrightarrow> I db'"
    and store: "\<And>a b. I a \<Longrightarrow> same_store a b \<Longrightarrow> I b"
    and t: "transact env p schema ws db = (res, db')" and i: "I db"
  shows "I db'"
proof (cases res)
  case (Inl e)
  have "same_store db db'"
    using t Inl call_plane_store[of db] unfolding transact_def then_tx_def
    by (auto simp: same_store_def split: sum.splits prod.splits)
  then show ?thesis using store i by blast
next
  case (Inr ts)
  obtain slots where rs: "resolve_slots schema ws [] = Inr slots"
    using t Inr by (cases "resolve_slots schema ws []") (simp_all add: transact_def)
  obtain db1 where d1: "call_plane db = (Inr (), db1)" and
    r: "(case run_writes env p slots ws [] db1 of
               (Inl e, tx) \<Rightarrow> (Inl e, db1\<lparr>fd_faults := fd_faults (snd (call_plane tx))\<rparr>)
             | (Inr ts, tx) \<Rightarrow>
                 (case call_plane tx of
                    (Inl e, tx') \<Rightarrow> (Inl e, db1\<lparr>fd_faults := fd_faults tx'\<rparr>)
                  | (Inr _, tx') \<Rightarrow> (Inr ts, tx'))) = (Inr ts, db')"
    using t Inr unfolding transact_def rs by (auto simp: then_tx_Inr)
  obtain r1 tx where r1: "run_writes env p slots ws [] db1 = (r1, tx)" by fastforce
  obtain ts1 where ts1: "r1 = Inr ts1" using r r1 by (cases r1) simp_all
  obtain r2 tx' where r2: "call_plane tx = (r2, tx')" by fastforce
  have "r2 = Inr ()" "tx' = db'" "ts1 = ts" using r r1 ts1 r2 by (cases r2; simp)+
  then have s: "resolve_slots schema ws [] = Inr slots" "call_plane db = (Inr (), db1)"
    "run_writes env p slots ws [] db1 = (Inr ts, tx)" "call_plane tx = (Inr (), db')"
    using rs d1 r1 ts1 r2 by simp_all
  have sub: "set slots \<subseteq> set schema" using resolve_slots_known[OF s(1)] by simp
  have "I db1" using store[OF i call_plane_store[OF s(2)]] .
  then have "I tx" by (rule run_writes_invariant[OF step s(3), rotated 3]) (use sub in auto)
  then show ?thesis using store call_plane_store[OF s(4)] by blast
qed



section \<open>The plane as SQLite compares keys\<close>

fun sqlite_eq :: "sql_value \<Rightarrow> sql_value \<Rightarrow> bool" where
  \<comment> \<open>numbers by value, text and blobs byte by byte, \<open>NULL\<close> equal to nothing\<close>
  "sqlite_eq (Integer i) (Integer j) = (i = j)"
| "sqlite_eq (Integer i) (Real r) = (of_int i = r)"
| "sqlite_eq (Real r) (Integer i) = (r = of_int i)"
| "sqlite_eq (Real r) (Real s) = (r = s)"
| "sqlite_eq (Text s) (Text u) = (s = u)"
| "sqlite_eq (Blob a) (Blob b) = (a = b)"
| "sqlite_eq _ _ = False"

lemma sqlite_key_equality: "fe_eq env = sqlite_eq \<Longrightarrow> key_equality env"
proof
  assume e: "fe_eq env = sqlite_eq"
  show "fe_eq env a b \<Longrightarrow> fe_eq env b a" for a b unfolding e by (cases a; cases b) auto
  show "fe_eq env a b \<Longrightarrow> fe_eq env b c \<Longrightarrow> fe_eq env a c" for a b c
    unfolding e by (cases a; cases b; cases c) auto
qed

definition local_plane :: forge_env where
  \<comment> \<open>a plane that stores what it is given, refuses no row, honours \<open>RETURNING\<close> and has no query\<close>
  "local_plane = \<lparr>fe_codec = small_codec, fe_f64 = (\<lambda>n. None), fe_real_text = (\<lambda>r. ''0''), fe_affinity = (\<lambda>t c v. v),
     fe_eq = sqlite_eq, fe_reject = (\<lambda>t r. None), fe_select = (\<lambda>q vs ts. ([], [])), fe_returning = True\<rparr>"

interpretation local_keys: key_equality local_plane
  by (rule sqlite_key_equality) (simp add: local_plane_def)

definition demo_todos :: forge_collection where
  "demo_todos = \<lparr>fc_topic = ''todos'', fc_table = ''todos'', fc_query = ''SELECT id, owner FROM todos'', fc_key_column = ''id'',
     fc_partition_by = Some ''owner'', fc_fields = [], fc_sort = [], fc_identity = True, fc_edit = Author\<rparr>"

definition stored_row :: "int \<Rightarrow> string \<Rightarrow> table_row" where
  "stored_row i who = (\<lambda>c. if c = ''id'' then Integer i else if c = ''owner'' then Text who else Null)"

definition demo_db :: forge_db where
  "demo_db = \<lparr>fd_tables = (\<lambda>t. \<lparr>tb_rows = [stored_row 1 ''bob'', stored_row 2 ''alice''], tb_next = 3\<rparr>),
     fd_authors = [], fd_last = Null, fd_faults = []\<rparr>"



end
