(* ===== verification/ForgeAuthor.thy ===== *)
theory ForgeAuthor
  imports ForgeWrite
begin

text \<open>
  Rows that are nobody's partition: in a collection whose rows only their author may change, an action
  touches the rows its caller appended and no others. The authorship table lies beside the
  application's own, so the argument also follows what appends and deletes do to it.
\<close>

definition authored :: "forge_env \<Rightarrow> string \<Rightarrow> string \<Rightarrow> principal_id option \<Rightarrow> author_row list \<Rightarrow> table_row \<Rightarrow> bool" where
  "authored env t k p as r \<longleftrightarrow> p \<noteq> None \<and> map_option au_principal (find (same_author env t (r k)) as) = p"

definition others_work :: "forge_env \<Rightarrow> string \<Rightarrow> string \<Rightarrow> principal_id option \<Rightarrow> forge_db \<Rightarrow> table_row list" where
  \<comment> \<open>the rows of the table that the caller did not append\<close>
  "others_work env t k p db = filter (\<lambda>r. \<not> authored env t k p (fd_authors db) r) (tb_rows (fd_tables db t))"

definition authors_table :: "forge_collection list \<Rightarrow> string \<Rightarrow> string \<Rightarrow> bool" where
  "authors_table schema t k \<longleftrightarrow>
     list_all (\<lambda>c. fc_table c = t \<longrightarrow> \<not> fc_identity c \<and> fc_edit c = Author \<and> fc_key_column c = k) schema"

locale key_storage = key_equality +
  assumes eq_refl: "v \<noteq> Null \<Longrightarrow> fe_eq env v v"
    and affinity_keeps: "v \<noteq> Null \<Longrightarrow> fe_affinity env t c v \<noteq> Null"

lemma find_filter_apart: "(\<And>x. P x \<Longrightarrow> \<not> Q x) \<Longrightarrow> find P (filter (\<lambda>x. \<not> Q x) xs) = find P xs"
  by (induction xs) auto

lemma find_append_no: "\<not> P y \<Longrightarrow> find P (xs @ [y]) = find P xs"
  by (induction xs) auto

lemma find_append_new: "find P xs = None \<Longrightarrow> P y \<Longrightarrow> find P (xs @ [y]) = Some y"
  by (induction xs) (auto split: if_splits)

context key_storage
begin

lemma new_key_refl: "fe_eq env (new_key env t k cvs tb) (new_key env t k cvs tb)"
  by (rule eq_refl) (auto simp: new_key_def affinity_keeps split: option.splits)

text \<open>Records under another table, or under a key equal to no key of the row, are not the row's.\<close>

lemma find_author_drop:
  assumes "t' = t \<Longrightarrow> \<not> fe_eq env x v"
  shows "find (same_author env t x) (filter (\<lambda>a. \<not> same_author env t' v a) as) = find (same_author env t x) as"
proof (rule find_filter_apart)
  fix a assume a: "same_author env t x a"
  show "\<not> same_author env t' v a"
  proof
    assume b: "same_author env t' v a"
    then have "t' = t" using a by (simp add: same_author_def)
    moreover have "fe_eq env x v" using a b eq_sym eq_trans unfolding same_author_def by blast
    ultimately show False using assms by simp
  qed
qed

lemma find_author_put:
  assumes "t' = t \<Longrightarrow> \<not> fe_eq env x v"
  shows "find (same_author env t x)
      (filter (\<lambda>a. \<not> same_author env t' v a) as @ [\<lparr>au_table = t', au_key = v, au_principal = me\<rparr>]) =
    find (same_author env t x) as"
proof -
  have "\<not> same_author env t x \<lparr>au_table = t', au_key = v, au_principal = me\<rparr>"
    using assms eq_sym by (auto simp: same_author_def)
  then show ?thesis using find_author_drop[OF assms] by (simp add: find_append_no)
qed

lemma authored_by_other:
  assumes "fc_table slot = t \<Longrightarrow> \<not> fe_eq env (x k) v"
  shows "authored env t k p (authored_by env slot p' v as) x = authored env t k p as x"
  using find_author_put[of "fc_table slot" t "x k" v as] assms
  by (simp add: authored_def authored_by_def split: option.splits)

lemma authored_by_self:
  assumes "fc_table slot = t" "\<not> fc_identity slot" "fe_eq env (row k) (row k)"
  shows "authored env t k (Some me) (authored_by env slot (Some me) (row k) as) row"
proof -
  have none: "find (same_author env t (row k)) (filter (\<lambda>a. \<not> same_author env t (row k) a) as) = None"
    by (simp add: find_None_iff)
  have self: "same_author env t (row k) \<lparr>au_table = t, au_key = row k, au_principal = me\<rparr>"
    using assms(3) by (simp add: same_author_def)
  have "authored_by env slot (Some me) (row k) as =
      filter (\<lambda>a. \<not> same_author env t (row k) a) as @ [\<lparr>au_table = t, au_key = row k, au_principal = me\<rparr>]"
    using assms(1,2) by (simp add: authored_by_def)
  then show ?thesis using find_append_new[OF none self] by (simp add: authored_def)
qed

text \<open>The rows a found key leads to are the caller's own work.\<close>

lemma author_checked:
  assumes "keys_ok env k (fd_tables db (fc_table slot))" "\<not> fc_identity slot" "fc_edit slot = Author" "fc_key_column slot = k"
    "authorize_author env slot key p db = (Inr (), db1)" "key_to_sqlvalue env c k key = Inr v"
    "x \<in> set (tb_rows (fd_tables db (fc_table slot)))" "fe_eq env (x k) v"
  shows "authored env (fc_table slot) k p (fd_authors db) x"
proof -
  obtain me v' where v': "p = Some me" "key_to_sqlvalue env (fc_topic slot) k key = Inr v'" and
    m: "case matching env k v' (fd_tables db (fc_table slot)) of [] \<Rightarrow> True
        | r # _ \<Rightarrow> \<exists>a. find (same_author env (fc_table slot) (r k)) (fd_authors db) = Some a \<and> au_principal a = me"
    using authorize_author_effect[OF assms(5)] assms(2-4) by auto
  have "v' = v" using key_value_same[OF v'(2), of c] assms(6) by simp
  have "x \<in> set (matching env k v (fd_tables db (fc_table slot)))" using assms(7,8) by (simp add: matching_def)
  then obtain r rest where r: "matching env k v (fd_tables db (fc_table slot)) = r # rest"
    by (cases "matching env k v (fd_tables db (fc_table slot))") auto
  then have "x = r" using matched_is[OF assms(1) r assms(7,8)] by simp
  then show ?thesis using m r \<open>v' = v\<close> v'(1) by (auto simp: authored_def)
qed

lemma author_needed:
  assumes "\<not> fc_identity slot" "fc_edit slot = Author" "authorize_author env slot key p db = (Inr (), db1)"
  shows "p \<noteq> None"
  using authorize_author_effect[OF assms(3)] assms(1,2) by auto

lemma append_authored:
  assumes ok: "keys_ok env k (fd_tables db t)"
    and slot: "fc_table slot = t \<longrightarrow> \<not> fc_identity slot \<and> fc_edit slot = Author \<and> fc_key_column slot = k"
    and ap: "apply_append env p slot r ts db = (Inr ts', db')"
  shows "keys_ok env k (fd_tables db' t) \<and>
    (\<exists>new. others_work env t k p db' = others_work env t k p db @ new \<and> (p \<noteq> None \<longrightarrow> new = []))"
proof -
  obtain r' cvs row where e: "authorize_append slot r p = Inr r'" "bind_columns env check_column r' = Inr cvs"
    "row = inserted_row env (fc_table slot) (fc_key_column slot) cvs (fd_tables db (fc_table slot))"
    "matching env (fc_key_column slot) (row (fc_key_column slot)) (fd_tables db (fc_table slot)) = []"
    "fd_tables db' = (fd_tables db)(fc_table slot := \<lparr>tb_rows = tb_rows (fd_tables db (fc_table slot)) @ [row],
       tb_next = next_key (row (fc_key_column slot)) (tb_next (fd_tables db (fc_table slot)))\<rparr>)"
    "fd_authors db' = authored_by env slot p (row (fc_key_column slot)) (fd_authors db)"
    by (rule apply_append_effect[OF ap])
  have old: "filter (\<lambda>r. \<not> authored env t k p (fd_authors db') r) (tb_rows (fd_tables db t)) = others_work env t k p db"
    unfolding others_work_def e(6)
  proof (rule filter_cong[OF refl])
    fix x assume x: "x \<in> set (tb_rows (fd_tables db t))"
    have "\<not> fe_eq env (x k) (row (fc_key_column slot))" if "fc_table slot = t"
      using e(4) x slot that by (simp add: matching_def filter_empty_conv)
    then show "(\<not> authored env t k p (authored_by env slot p (row (fc_key_column slot)) (fd_authors db)) x) =
        (\<not> authored env t k p (fd_authors db) x)" by (simp add: authored_by_other)
  qed
  show ?thesis
  proof (cases "fc_table slot = t")
    case True
    then have s: "\<not> fc_identity slot" "fc_key_column slot = k" using slot by simp_all
    have tb: "fd_tables db' t = \<lparr>tb_rows = tb_rows (fd_tables db t) @ [row], tb_next = next_key (row k) (tb_next (fd_tables db t))\<rparr>"
      using e(5) True s by simp
    have ok': "keys_ok env k (fd_tables db' t)"
      unfolding tb using e(4) True s ok by (intro keys_ok_insert) simp_all
    have refl: "fe_eq env (row k) (row k)" using e(3) s True new_key_refl[of t k] by (simp add: inserted_row_def)
    have "authored env t k p (fd_authors db') row" if p: "p \<noteq> None"
    proof -
      from p obtain me where "p = Some me" by blast
      then show ?thesis using authored_by_self[of slot t row k me "fd_authors db"] True s refl e(6) by simp
    qed
    then have "others_work env t k p db' = others_work env t k p db @ (if p = None then [row] else [])"
      unfolding others_work_def[of env t k p db'] tb using old by (auto simp: authored_def)
    then show ?thesis using ok' by (intro conjI exI[of _ "if p = None then [row] else []"]) simp_all
  next
    case False
    then have "fd_tables db' t = fd_tables db t" using e(5) by simp
    then have "others_work env t k p db' = others_work env t k p db" using old by (simp add: others_work_def)
    then show ?thesis using ok \<open>fd_tables db' t = fd_tables db t\<close> by simp
  qed
qed

end

context key_storage
begin

lemma update_authored:
  assumes ok: "keys_ok env k (fd_tables db t)"
    and slot: "fc_table slot = t \<longrightarrow> \<not> fc_identity slot \<and> fc_edit slot = Author \<and> fc_key_column slot = k"
    and up: "apply_update env p slot key fs ts db = (Inr ts', db')"
  shows "keys_ok env k (fd_tables db' t) \<and> others_work env t k p db' = others_work env t k p db"
proof -
  obtain before cvs v db1 db2 where e: "authorize_author env slot key p db = (Inr (), db1)"
    "bind_columns env (check_field (fc_key_column slot)) fs = Inr cvs"
    "key_to_sqlvalue env (fc_table slot) (fc_key_column slot) key = Inr v"
    "fd_tables db' = (fd_tables db)(fc_table slot := (fd_tables db (fc_table slot))\<lparr>tb_rows :=
       map (\<lambda>r. if fe_eq env (r (fc_key_column slot)) v then set_columns env (fc_table slot) cvs r else r)
         (tb_rows (fd_tables db (fc_table slot)))\<rparr>)"
    "fd_authors db' = fd_authors db"
    by (rule apply_update_effect[OF up])
  show ?thesis
  proof (cases "fc_table slot = t")
    case True
    then have s: "\<not> fc_identity slot" "fc_edit slot = Author" "fc_key_column slot = k" using slot by simp_all
    have key: "set_columns env t cvs r k = r k" for r using set_columns_key[OF e(2)] s(3) by simp
    have own: "authored env t k p (fd_authors db) r \<and> authored env t k p (fd_authors db) (set_columns env t cvs r)"
      if "r \<in> set (tb_rows (fd_tables db t))" "fe_eq env (r k) v" for r
    proof -
      have "authored env (fc_table slot) k p (fd_authors db) r"
        by (rule author_checked[OF _ s e(1)]) (use ok True s e(3) that in simp_all)
      then show ?thesis using True key by (simp add: authored_def)
    qed
    have "keys_ok env k (fd_tables db' t)" unfolding e(4) using True s ok key by (simp add: keys_ok_map)
    then show ?thesis unfolding others_work_def e(4,5) using True s own by (simp add: filter_map_same)
  qed (use ok e(4,5) in \<open>simp add: others_work_def\<close>)
qed

lemma delete_authored:
  assumes ok: "keys_ok env k (fd_tables db t)"
    and slot: "fc_table slot = t \<longrightarrow> \<not> fc_identity slot \<and> fc_edit slot = Author \<and> fc_key_column slot = k"
    and de: "apply_delete env p slot key ts db = (Inr ts', db')"
  shows "keys_ok env k (fd_tables db' t) \<and> others_work env t k p db' = others_work env t k p db"
proof -
  obtain before v db1 db2 where e: "authorize_author env slot key p db = (Inr (), db1)"
    "key_to_sqlvalue env (fc_topic slot) (fc_key_column slot) key = Inr v"
    "fd_tables db' = (fd_tables db)(fc_table slot := (fd_tables db (fc_table slot))\<lparr>tb_rows :=
       filter (\<lambda>r. \<not> fe_eq env (r (fc_key_column slot)) v) (tb_rows (fd_tables db (fc_table slot)))\<rparr>)"
    "fd_authors db' = filter (\<lambda>a. \<not> same_author env (fc_table slot) v a) (fd_authors db)"
    by (rule apply_delete_effect[OF de])
  have same: "authored env t k p (fd_authors db') x = authored env t k p (fd_authors db) x"
    if "fc_table slot = t \<Longrightarrow> \<not> fe_eq env (x k) v" for x
    using find_author_drop[OF that] by (simp add: authored_def e(4))
  show ?thesis
  proof (cases "fc_table slot = t")
    case True
    then have s: "\<not> fc_identity slot" "fc_edit slot = Author" "fc_key_column slot = k" using slot by simp_all
    let ?left = "filter (\<lambda>r. \<not> fe_eq env (r k) v) (tb_rows (fd_tables db t))"
    have own: "authored env t k p (fd_authors db) r" if "r \<in> set (tb_rows (fd_tables db t))" "fe_eq env (r k) v" for r
    proof -
      have "authored env (fc_table slot) k p (fd_authors db) r"
        by (rule author_checked[OF _ s e(1)]) (use ok True s e(2) that in simp_all)
      then show ?thesis using True by simp
    qed
    have "filter (\<lambda>r. \<not> authored env t k p (fd_authors db') r) ?left =
        filter (\<lambda>r. \<not> authored env t k p (fd_authors db) r) ?left"
      by (rule filter_cong[OF refl]) (simp add: same)
    also have "\<dots> = others_work env t k p db" unfolding others_work_def by (rule filter_drop_same) (rule own)
    finally have "others_work env t k p db' = others_work env t k p db"
      unfolding others_work_def[of env t k p db'] e(3) using True s by simp
    moreover have "keys_ok env k (fd_tables db' t)" unfolding e(3) using True s ok by (simp add: keys_ok_filter)
    ultimately show ?thesis by simp
  next
    case False
    then have "fd_tables db' t = fd_tables db t" using e(3) by simp
    then show ?thesis using ok same False by (simp add: others_work_def)
  qed
qed

lemma apply_one_authored:
  assumes "keys_ok env k (fd_tables db t)"
    "fc_table slot = t \<longrightarrow> \<not> fc_identity slot \<and> fc_edit slot = Author \<and> fc_key_column slot = k"
    "apply_one env p slot w ts db = (Inr ts', db')"
  shows "keys_ok env k (fd_tables db' t) \<and>
    (\<exists>new. others_work env t k p db' = others_work env t k p db @ new \<and> (p \<noteq> None \<longrightarrow> new = []))"
proof (cases w)
  case (Append c r)
  then show ?thesis using append_authored[OF assms(1,2), of p r ts ts' db'] assms(3) by simp
next
  case (Update c key fs)
  then show ?thesis using update_authored[OF assms(1,2), of p key fs ts ts' db'] assms(3) by simp
next
  case (Delete c key)
  then show ?thesis using delete_authored[OF assms(1,2), of p key ts ts' db'] assms(3) by simp
qed

end

text \<open>C25. Only its author changes a row. In a table whose collections leave the default edit rule, the rows
  an action's caller did not append itself are the same rows in the same order afterwards; an anonymous
  caller can at most append after them. This counts rows with no recorded author, and follows authorship
  through the action's own appends and deletes.\<close>

theorem only_authors_change_rows:
  assumes "key_storage env" "authors_table schema t k" "keys_ok env k (fd_tables db t)"
    "transact env p schema ws db = (res, db')"
  shows "\<exists>new. others_work env t k p db' = others_work env t k p db @ new \<and> (p \<noteq> None \<longrightarrow> new = [])"
proof -
  define I where "I d \<longleftrightarrow> keys_ok env k (fd_tables d t) \<and>
    (\<exists>new. others_work env t k p d = others_work env t k p db @ new \<and> (p \<noteq> None \<longrightarrow> new = []))" for d :: forge_db
  have "I db'"
  proof (rule transact_invariant[OF _ _ assms(4)])
    fix slot w ts d ts' d'
    assume s: "slot \<in> set schema" "I d" "apply_one env p slot w ts d = (Inr ts', d')"
    have "fc_table slot = t \<longrightarrow> \<not> fc_identity slot \<and> fc_edit slot = Author \<and> fc_key_column slot = k"
      using assms(2) s(1) by (auto simp: authors_table_def list_all_iff)
    then have "keys_ok env k (fd_tables d' t) \<and>
        (\<exists>new. others_work env t k p d' = others_work env t k p d @ new \<and> (p \<noteq> None \<longrightarrow> new = []))"
      using key_storage.apply_one_authored[OF assms(1) _ _ s(3)] s(2) by (simp add: I_def)
    then show "I d'" using s(2) by (auto simp: I_def)
  next
    show "I b" if "I a" "same_store a b" for a b using that by (simp add: I_def same_store_def others_work_def)
    show "I db" using assms(3) by (simp add: I_def)
  qed
  then show ?thesis by (simp add: I_def)
qed

interpretation local_storage: key_storage local_plane
proof
  show "v \<noteq> Null \<Longrightarrow> fe_eq local_plane v v" for v by (cases v) (simp_all add: local_plane_def)
  show "v \<noteq> Null \<Longrightarrow> fe_affinity local_plane t c v \<noteq> Null" for t c v by (simp add: local_plane_def)
qed

definition demo_posts :: forge_collection where
  "demo_posts = demo_todos\<lparr>fc_topic := ''posts'', fc_table := ''posts'', fc_partition_by := None, fc_identity := False\<rparr>"

definition demo_wall :: forge_db where
  "demo_wall = demo_db\<lparr>fd_authors := [\<lparr>au_table = ''posts'', au_key = Integer 2, au_principal = ''alice''\<rparr>]\<rparr>"

lemma only_authors_change_rows_witness:
  "\<exists>new. others_work local_plane ''posts'' ''id'' (Some ''alice'')
     (snd (transact local_plane (Some ''alice'') [demo_posts] [Delete ''posts'' (JNumber (PosInt 2))] demo_wall)) =
   [stored_row 1 ''bob''] @ new \<and> new = []"
proof -
  let ?run = "transact local_plane (Some ''alice'') [demo_posts] [Delete ''posts'' (JNumber (PosInt 2))] demo_wall"
  have "\<exists>new. others_work local_plane ''posts'' ''id'' (Some ''alice'') (snd ?run) =
      others_work local_plane ''posts'' ''id'' (Some ''alice'') demo_wall @ new \<and> (Some ''alice'' \<noteq> None \<longrightarrow> new = [])"
    by (rule only_authors_change_rows[OF local_storage.key_storage_axioms, of "[demo_posts]" _ _ _ _ _ "fst ?run"])
      (simp_all add: authors_table_def demo_posts_def demo_todos_def keys_ok_def demo_wall_def demo_db_def stored_row_def local_plane_def)
  then show ?thesis
    by (simp add: others_work_def demo_wall_def demo_db_def authored_def same_author_def stored_row_def local_plane_def)
qed

end
