(* ===== verification/ForgeFanOut.thy ===== *)
theory ForgeFanOut
  imports ForgeAuthor
begin

text \<open>
  What an action tells the world once it is durable (the rest of \<open>apply_writes\<close> in
  \<open>src/forge/write.rs\<close>): the new value of each channel it touched, spliced or queried, the rows rendered
  for it, and the frames of the broadcast registry. The render path is the record \<open>projector\<close>.
\<close>

section \<open>Reading a collection\<close>

definition slot_params :: "forge_collection \<Rightarrow> string option \<Rightarrow> forge_error + sql_value list" where
  "slot_params slot part =
     (case (fc_partition_by slot, part) of
        (Some _, Some key) \<Rightarrow> Inr [Text key]
      | (None, None) \<Rightarrow> Inr []
      | (Some _, None) \<Rightarrow> Inl (Partition_needed (fc_topic slot))
      | (None, Some _) \<Rightarrow> Inl (Partition_unwanted (fc_topic slot)))"

fun row_members :: "forge_env \<Rightarrow> (string \<times> field_type) list \<Rightarrow> string list \<Rightarrow> sql_value list \<Rightarrow> record_map \<Rightarrow> record_map" where
  "row_members env decl [] vs acc = acc"
| "row_members env decl (c # cs) [] acc = row_members env decl cs [] (map_put bytes_less c JNull acc)"
| "row_members env decl (c # cs) (v # vs) acc =
     row_members env decl cs vs (map_put bytes_less c (column_value_to_json env (map_of decl c) v) acc)"

definition rows_to_json :: "forge_env \<Rightarrow> string list \<times> sql_value list list \<Rightarrow> (string \<times> field_type) list \<Rightarrow> json" where
  "rows_to_json env rs decl = JArray (map (\<lambda>vs. JObject (row_members env decl (fst rs) vs [])) (snd rs))"

definition materialize_slot :: "forge_env \<Rightarrow> forge_collection \<Rightarrow> string option \<Rightarrow> forge_db \<Rightarrow> (forge_error + string) \<times> forge_db" where
  "materialize_slot env slot part db =
     then_tx (lift_tx (slot_params slot part) db) (\<lambda>params db.
     then_tx (call_plane db) (\<lambda>_ db.
       (Inr (jc_text (fe_codec env)
          (rows_to_json env (fe_select env (fc_query slot) params (\<lambda>t. tb_rows (fd_tables db t))) (fc_fields slot))), db)))"

section \<open>Rendering the rows that changed\<close>

datatype row_projection = PerRecord | PositionStable | WholeView

record projector =
  pj_class :: "string \<Rightarrow> row_projection"
  pj_rows :: "string \<Rightarrow> string option \<Rightarrow> string \<Rightarrow> rendered option"

definition render_single :: "forge_env \<Rightarrow> projector \<Rightarrow> forge_collection \<Rightarrow> string option \<Rightarrow> string \<Rightarrow> json \<Rightarrow> string option" where
  "render_single env pj slot part k r =
     (case pj_rows pj (fc_topic slot) part (jc_text (fe_codec env) (JArray [r])) of
        None \<Rightarrow> None
      | Some rs \<Rightarrow> rr_get k rs)"

fun render_each :: "forge_env \<Rightarrow> projector \<Rightarrow> forge_collection \<Rightarrow> string option \<Rightarrow> (string \<times> json) list \<Rightarrow> rendered \<Rightarrow> rendered option" where
  "render_each env pj slot part [] rs = Some rs"
| "render_each env pj slot part ((k, r) # ps) rs =
     (case render_single env pj slot part k r of
        None \<Rightarrow> None
      | Some html \<Rightarrow> render_each env pj slot part ps (rr_insert k html rs))"

definition asserted :: "record_change list \<Rightarrow> (string \<times> json) list" where
  "asserted chs = map (\<lambda>ch. (rch_key ch, rch_record ch)) (filter (\<lambda>ch. \<not> rch_weight ch < 0) chs)"

definition render_changed_rows :: "forge_env \<Rightarrow> projector \<Rightarrow> forge_collection \<Rightarrow> string \<Rightarrow> string option \<Rightarrow> registry \<Rightarrow> string \<Rightarrow> rendered option" where
  "render_changed_rows env pj slot channel part rg nxt =
     (case topic_of rg channel of
        None \<Rightarrow> None
      | Some t \<Rightarrow>
          let previous = bt_value t; codec = fe_codec env in
          (case appended_rows codec previous nxt (fc_key_column slot) of
             Some appended \<Rightarrow> render_each env pj slot part appended []
           | None \<Rightarrow>
               (case (jc_parse codec previous, jc_parse codec nxt) of
                  (Some p, Some n) \<Rightarrow>
                    (case diff_records p n (fc_key_column slot) of
                       None \<Rightarrow> None
                     | Some chs \<Rightarrow> render_each env pj slot part (asserted chs) [])
                | _ \<Rightarrow> None)))"

section \<open>The fan-out of one channel\<close>

definition spliced_value :: "forge_env \<Rightarrow> touched \<Rightarrow> registry \<Rightarrow> string option" where
  "spliced_value env th rg =
     (if th_mutated th \<or> th_appended th = [] then None
      else (case insert_at_head (fc_key_column (th_slot th)) (fc_sort (th_slot th)) of
              None \<Rightarrow> None
            | Some at_head \<Rightarrow>
                (case topic_of rg (th_channel th) of
                   None \<Rightarrow> None
                 | Some t \<Rightarrow> splice_appended (fe_codec env) (bt_value t) (th_appended th) at_head)))"

definition next_value :: "forge_env \<Rightarrow> touched \<Rightarrow> registry \<Rightarrow> forge_db \<Rightarrow> (forge_error + string) \<times> forge_db" where
  "next_value env th rg db =
     (case spliced_value env th rg of
        Some bytes \<Rightarrow> (Inr bytes, db)
      | None \<Rightarrow> materialize_slot env (th_slot th) (th_partition th) db)"

definition rows_to_send :: "forge_env \<Rightarrow> projector option \<Rightarrow> touched \<Rightarrow> registry \<Rightarrow> string \<Rightarrow> rendered option \<times> bool" where
  \<comment> \<open>the flag: only the rows that changed were rendered\<close>
  "rows_to_send env pj th rg bytes =
     (case pj of
        None \<Rightarrow> (None, False)
      | Some p \<Rightarrow>
          let slot = th_slot th; whole = pj_rows p (fc_topic slot) (th_partition th) bytes in
          if pj_class p (fc_topic slot) = PerRecord then
            (case render_changed_rows env p slot (th_channel th) (th_partition th) rg bytes of
               Some changed \<Rightarrow> (Some changed, True)
             | None \<Rightarrow> (whole, False))
          else (whole, False))"

definition send_update :: "forge_env \<Rightarrow> forge_collection \<Rightarrow> rendered option \<times> bool \<Rightarrow> string \<Rightarrow> string \<Rightarrow> list_update \<times> bool" where
  "send_update env slot sent bytes previous =
     (case fst sent of
        Some rs \<Rightarrow> row_update (fe_codec env) (fc_key_column slot) previous bytes rs (snd sent)
      | None \<Rightarrow> (No_rows, False))"

definition fan_out_value :: "forge_env \<Rightarrow> broadcast_env \<Rightarrow> projector option \<Rightarrow> touched \<Rightarrow> string \<Rightarrow> registry \<Rightarrow> registry" where
  "fan_out_value env benv pj th bytes rg =
     (let slot = th_slot th; channel = th_channel th;
          sent = rows_to_send env pj th rg bytes;
          rg1 = (case topic_of rg channel of None \<Rightarrow> snd (static_topic channel bytes rg) | Some _ \<Rightarrow> rg);
          rg2 = snd (write_topic_delta benv channel
                  (\<lambda>previous. \<lparr>tt_value = bytes, tt_update = fst (send_update env slot sent bytes previous)\<rparr>) rg1);
          needs_whole = (case topic_of rg1 channel of
                           None \<Rightarrow> False
                         | Some t \<Rightarrow> snd (send_update env slot sent bytes (bt_value t))) in
      if needs_whole then
        (case pj of
           None \<Rightarrow> rg2
         | Some p \<Rightarrow>
             (case pj_rows p (fc_topic slot) (th_partition th) bytes of
                None \<Rightarrow> rg2
              | Some whole \<Rightarrow>
                  snd (write_topic_delta benv channel
                    (\<lambda>previous. \<lparr>tt_value = bytes, tt_update = Reconcile (reconcile_rows whole)\<rparr>) rg2)))
      else rg2)"

fun fan_out_all :: "forge_env \<Rightarrow> broadcast_env \<Rightarrow> projector option \<Rightarrow> touched list \<Rightarrow> forge_db \<Rightarrow> registry \<Rightarrow>
    (forge_error + unit) \<times> forge_db \<times> registry" where
  "fan_out_all env benv pj [] db rg = (Inr (), db, rg)"
| "fan_out_all env benv pj (th # ts) db rg =
     (case next_value env th rg db of
        (Inl e, db') \<Rightarrow> (Inl e, db', rg)
      | (Inr bytes, db') \<Rightarrow> fan_out_all env benv pj ts db' (fan_out_value env benv pj th bytes rg))"

section \<open>An action\<close>

definition default_topic_value_budget :: nat where "default_topic_value_budget = 64 * 1024 * 1024"

definition reached_lanes :: "touched list \<Rightarrow> registry \<Rightarrow> u32" where
  "reached_lanes ts rg = fold (\<lambda>th total. sat_add total (u32_of_len (subscriber_count (th_channel th) rg))) ts 0"

definition apply_writes :: "forge_env \<Rightarrow> broadcast_env \<Rightarrow> projector option \<Rightarrow> forge_collection list \<Rightarrow> forge_write list \<Rightarrow>
    principal_id option \<Rightarrow> forge_db \<Rightarrow> registry \<Rightarrow> (forge_error + u32) \<times> forge_db \<times> registry" where
  "apply_writes env benv pj schema ws p db rg =
     (if ws = [] then (Inr 0, db, rg)
      else (case transact env p schema ws db of
          (Inl e, db') \<Rightarrow> (Inl e, db', rg)
        | (Inr ts, db') \<Rightarrow>
            (case fan_out_all env benv pj ts db' rg of
               (Inl e, db2, rg2) \<Rightarrow> (Inl e, db2, rg2)
             | (Inr _, db2, rg2) \<Rightarrow> (Inr (reached_lanes ts rg), db2, snd (enforce_topic_budget default_topic_value_budget rg2)))))"

section \<open>One write, seen by one subscriber\<close>

lemma write_watches:
  assumes c: "consistent rg" and t: "topic_of rg n = Some t"
    and w: "watches s m (snd (write_topic_delta env n compute rg)) = Some k"
  shows "watches s m rg = Some k"
proof (rule write_topic_cases[OF t, where env = env and compute = compute])
  assume "write_topic_delta env n compute rg = (Inl EncodeFailed, written n compute t rg)"
  then show ?thesis using w watches_written[OF t] by simp
next
  fix report gone sinks
  assume r: "write_topic_delta env n compute rg = (Inr report,
     snd (touch_topic n (fold (release_session n) gone (written n compute t rg\<lparr>rg_sinks := sinks\<rparr>))))"
  have "consistent (written n compute t rg\<lparr>rg_sinks := sinks\<rparr>)" by (simp add: consistent_written c t)
  then have "watches s m (written n compute t rg\<lparr>rg_sinks := sinks\<rparr>) = Some k"
    using w unfolding r by (simp add: watches_releases split: if_splits)
  then show ?thesis using watches_written[OF t, of s m compute] by (simp add: watches_def)
qed

lemma write_reaches:
  assumes c: "consistent rg" and ap: "apart s k n rg" and see: "sees s n rg = Some (k, None, v)" and t: "topic_of rg n = Some t"
    and enc: "\<And>f. br_encodes env f" and w: "watches s n (snd (write_topic_delta env n compute rg)) = Some k"
  shows "ch_got (rg_sinks (snd (write_topic_delta env n compute rg)) k) = ch_got (rg_sinks rg k) @ [write_frame compute t rg] \<and>
    sees s n (snd (write_topic_delta env n compute rg)) = Some (k, None, tt_value (compute v)) \<and>
    consistent (snd (write_topic_delta env n compute rg)) \<and> apart s k n (snd (write_topic_delta env n compute rg))"
proof -
  let ?rg' = "snd (write_topic_delta env n compute rg)" and ?f = "write_frame compute t rg"
  have at: "map_of (bt_subscribers t) s = Some k" "map_of (bt_projections t) s = None" "bt_value t = v"
    using see t by (auto simp: sees_def)
  have d: "distinct (map fst (bt_subscribers t))" using consistentD(2)[OF c t] by (simp add: topic_ok_def)
  have own: "s' = s" if "(s', k) \<in> set (bt_subscribers t)" for s'
  proof -
    have "watches s' n rg = Some k" using that d t by (simp add: watches_def)
    then show ?thesis using ap unfolding apart_def by blast
  qed
  have apart: "apart s k n ?rg'" by (rule apart_mono[OF _ ap]) (rule write_watches[OF c t])
  have frame: "f' = ?f" if "frame_for env t ?f s = Some f'" for f'
    using that at(2) by (auto simp: frame_for_def write_frame_def split: list.splits instruction.splits)
  show ?thesis
  proof (rule write_topic_cases[OF t, where env = env and compute = compute])
    fix report gone sinks
    assume send: "send_frames env t ?f (bt_subscribers t) (rg_sinks rg) no_delivery [] = (report, gone, sinks)"
      and r: "write_topic_delta env n compute rg = (Inr report,
         snd (touch_topic n (fold (release_session n) gone (written n compute t rg\<lparr>rg_sinks := sinks\<rparr>))))"
    let ?w = "written n compute t rg\<lparr>rg_sinks := sinks\<rparr>"
    have cw: "consistent ?w" by (simp add: consistent_written c t)
    have k: "keeps s k ?w ?rg'" unfolding r snd_conv by (rule keeps_trans[OF keeps_releases keeps_touch])
    have gone: "s \<notin> set gone" using w r watches_releases[OF cw, of s n n gone] by (auto split: if_splits)
    have "reached env t ?f s k (bt_subscribers t) (rg_sinks rg) gone sinks"
      using send_frames_sink[OF send d own] by auto
    then have got: "ch_got (sinks k) = ch_got (rg_sinks rg k) @ [?f]" using gone at(1) frame by (auto simp: reached_def)
    have "ch_got (rg_sinks ?rg' k) = ch_got (sinks k)" using k by (simp add: keeps_def)
    moreover have "sees s n ?rg' = Some (k, None, tt_value (compute v))"
    proof -
      obtain cl v' where s': "sees s n ?rg' = Some (k, cl, v')" using watches_sees w by blast
      then have "sees s n ?w = Some (k, cl, v')" using k by (auto simp: keeps_def)
      moreover have "sees s n ?w = Some (k, None, tt_value (compute v))"
        using at by (simp add: sees_def written_def)
      ultimately show ?thesis using s' by simp
    qed
    ultimately show ?thesis using got consistent_write[OF c] apart by simp
  qed (use enc in blast)
qed

section \<open>What is rendered\<close>

lemma rr_get_insert: "rr_get k' (rr_insert k v rs) = (if k' = k then Some v else rr_get k' rs)"
  by (induction rs) (auto simp: rr_get_def)

definition renders_rows :: "forge_env \<Rightarrow> projector \<Rightarrow> forge_collection \<Rightarrow> string option \<Rightarrow> (string \<Rightarrow> bool) \<Rightarrow> (json \<Rightarrow> string) \<Rightarrow> bool" where
  \<comment> \<open>the render path's contract for a template that is a function of its record: rows, keys and order\<close>
  "renders_rows env p slot part inst html \<longleftrightarrow>
     (\<forall>rs krs. index_by_key (fc_key_column slot) rs = Some krs \<longrightarrow>
        pj_rows p (fc_topic slot) part (jc_text (fe_codec env) (JArray rs)) = Some (shown_rows html krs)) \<and>
     (\<forall>r. inst (html r) \<and> html r \<noteq> [])"

lemma render_single_ok:
  assumes "renders_rows env p slot part inst html" "key_of (fc_key_column slot) r = Some k"
    "render_single env p slot part k r = Some h"
  shows "h = html r"
proof -
  have "index_by_key (fc_key_column slot) [r] = Some [(k, r)]" using assms(2) by (simp add: index_by_key_def)
  then have "pj_rows p (fc_topic slot) part (jc_text (fe_codec env) (JArray [r])) = Some (shown_rows html [(k, r)])"
    using assms(1) unfolding renders_rows_def by blast
  then show ?thesis using assms(3) by (simp add: render_single_def rr_get_def)
qed

lemma render_each_ok:
  assumes "renders_rows env p slot part inst html"
    "list_all (\<lambda>(k, r). key_of (fc_key_column slot) r = Some k) qs" "set qs \<subseteq> set kns"
    "render_each env p slot part qs acc = Some rs"
    "\<And>k h. rr_get k acc = Some h \<Longrightarrow> \<exists>r. (k, r) \<in> set kns \<and> h = html r"
    "rr_get k rs = Some h"
  shows "\<exists>r. (k, r) \<in> set kns \<and> h = html r"
  using assms(2-)
proof (induction qs arbitrary: acc)
  case (Cons q qs)
  obtain k' r' where q: "q = (k', r')" by (cases q)
  then obtain html' where h: "render_single env p slot part k' r' = Some html'"
    "render_each env p slot part qs (rr_insert k' html' acc) = Some rs"
    using Cons.prems(3) by (auto split: option.splits)
  have "html' = html r'" using render_single_ok[OF assms(1) _ h(1)] Cons.prems(1) q by simp
  then have "\<exists>r. (k'', r) \<in> set kns \<and> g = html r" if "rr_get k'' (rr_insert k' html' acc) = Some g" for k'' g
    using that Cons.prems(2,4) q by (auto simp: rr_get_insert split: if_splits)
  then show ?case using Cons.IH[OF _ _ h(2)] Cons.prems(1,2,5) by simp
qed simp

lemma asserted_in:
  assumes "diff_records (JArray ps) (JArray ns) c = Some chs" "index_by_key c ns = Some kns"
  shows "set (asserted chs) \<subseteq> set kns"
proof -
  obtain kps where k: "index_by_key c ps = Some kps" "chs = retractions kps kns @ concat (map (record_changes kps) kns)"
    using assms by (auto simp: diff_records_def index_value_def split: option.splits)
  have none: "asserted (retractions kps kns) = []"
    by (induction kps) (auto simp: asserted_def retractions_def filter_empty_conv)
  have one: "set (asserted (record_changes kps kr)) \<subseteq> {kr}" for kr
    by (cases kr) (auto simp: asserted_def record_changes_def split: option.splits)
  have app: "asserted (xs @ ys) = asserted xs @ asserted ys" for xs ys by (simp add: asserted_def)
  have "set (asserted (concat (map (record_changes kps) xs))) \<subseteq> set xs" for xs
  proof (induction xs)
    case Nil
    then show ?case by (simp add: asserted_def)
  next
    case (Cons x xs)
    then show ?case using one[of x] by (simp add: app) blast
  qed
  then show ?thesis using k(2) none app by simp
qed

lemma renders_changed:
  assumes rt: "row_text (fe_codec env)" and con: "renders_rows env p slot part inst html"
    and t: "topic_of rg channel = Some t" "bt_value t = jc_text (fe_codec env) (JArray ps)"
    and ix: "index_by_key (fc_key_column slot) ps = Some kps" "index_by_key (fc_key_column slot) ns = Some kns"
    and ch: "render_changed_rows env p slot channel part rg (jc_text (fe_codec env) (JArray ns)) = Some rs"
  shows "renders inst html kns rs"
proof -
  let ?c = "fc_key_column slot" and ?codec = "fe_codec env"
  note d = index_by_key_ok(2)[OF ix(2)]
  have pt: "jc_parse ?codec (jc_text ?codec v) = Some v" for v
    using rt by (simp add: row_text_def json_laws.parse_text)
  have "\<exists>qs. render_each env p slot part qs [] = Some rs \<and> set qs \<subseteq> set kns"
  proof (cases "appended_rows ?codec (jc_text ?codec (JArray ps)) (jc_text ?codec (JArray ns)) ?c")
    case None
    then obtain chs where "diff_records (JArray ps) (JArray ns) ?c = Some chs" "render_each env p slot part (asserted chs) [] = Some rs"
      using ch t pt by (auto simp: render_changed_rows_def Let_def split: option.splits)
    then show ?thesis using asserted_in[OF _ ix(2)] by blast
  next
    case (Some out)
    have op: "list_all is_object ps" "list_all is_object ns"
      using keyed_is_object[OF index_by_key_ok(3)[OF ix(1)]] keyed_is_object[OF index_by_key_ok(3)[OF ix(2)]]
        index_by_key_ok(1)[OF ix(1)] index_by_key_ok(1)[OF ix(2)] by simp_all
    have sp: "ns = ps @ map snd out" "list_all (\<lambda>(k, r). key_of ?c r = Some k) out"
      using row_text.appended_rows_split[OF rt Some op] by simp_all
    have "kns = kps @ out" using row_text.index_append_keys[OF rt ix(1) _ sp(2)] ix(2) sp(1) by simp
    moreover have "render_each env p slot part out [] = Some rs"
      using ch t Some by (simp add: render_changed_rows_def Let_def)
    ultimately show ?thesis by auto
  qed
  then obtain qs where qs: "render_each env p slot part qs [] = Some rs" "set qs \<subseteq> set kns" by blast
  have keyed: "list_all (\<lambda>(k, r). key_of ?c r = Some k) qs"
    using index_by_key_ok(3)[OF ix(2)] qs(2) by (auto simp: list_all_iff)
  have "h = html r" if m: "(k, r) \<in> set kns" and g: "rr_get k rs = Some h" for k r h
  proof -
    obtain r' where "(k, r') \<in> set kns" "h = html r'"
      using render_each_ok[OF con keyed qs(2,1) _ g] by (auto simp: rr_get_def)
    moreover have "r' = r" using calculation(1) m d by (metis map_of_eq_Some_iff option.inject)
    ultimately show ?thesis by simp
  qed
  then show ?thesis using con by (auto simp: renders_def list_all_iff renders_rows_def split: option.split)
qed

lemma rr_get_shown: "distinct (map fst kns) \<Longrightarrow> (k, r) \<in> set kns \<Longrightarrow> rr_get k (shown_rows html kns) = Some (html r)"
  by (simp add: rr_get_def map_of_shown)

lemma rows_to_send_ok:
  assumes rt: "row_text (fe_codec env)" and con: "renders_rows env p (th_slot th) (th_partition th) inst html"
    and t: "topic_of rg (th_channel th) = Some t" "bt_value t = jc_text (fe_codec env) (JArray ps)"
    and ix: "index_by_key (fc_key_column (th_slot th)) ps = Some kps" "index_by_key (fc_key_column (th_slot th)) ns = Some kns"
  shows "\<exists>rs partial. rows_to_send env (Some p) th rg (jc_text (fe_codec env) (JArray ns)) = (Some rs, partial) \<and>
    renders inst html kns rs \<and> (\<not> partial \<longrightarrow> rs = shown_rows html kns)"
proof -
  let ?b = "jc_text (fe_codec env) (JArray ns)"
  have whole: "pj_rows p (fc_topic (th_slot th)) (th_partition th) ?b = Some (shown_rows html kns)"
    using con ix(2) by (simp add: renders_rows_def)
  have all: "renders inst html kns (shown_rows html kns)"
    using con rr_get_shown[OF index_by_key_ok(2)[OF ix(2)], of _ _ html]
    by (auto simp: renders_def list_all_iff renders_rows_def)
  show ?thesis
  proof (cases "pj_class p (fc_topic (th_slot th)) = PerRecord")
    case False
    then show ?thesis using whole all by (intro exI[of _ "shown_rows html kns"] exI[of _ False]) (simp add: rows_to_send_def Let_def)
  next
    case True
    show ?thesis
    proof (cases "render_changed_rows env p (th_slot th) (th_channel th) (th_partition th) rg ?b")
      case None
      then show ?thesis using True whole all
        by (intro exI[of _ "shown_rows html kns"] exI[of _ False]) (simp add: rows_to_send_def Let_def)
    next
      case (Some rs)
      then show ?thesis using True renders_changed[OF rt con t ix Some]
        by (intro exI[of _ rs] exI[of _ True]) (simp add: rows_to_send_def Let_def)
    qed
  qed
qed


definition wall_projector :: projector where
  "wall_projector = \<lparr>pj_class = (\<lambda>topic. PerRecord),
     pj_rows = (\<lambda>topic part bytes.
       case jc_parse small_codec bytes of
         Some (JArray rs) \<Rightarrow> map_option (shown_rows demo_html) (index_by_key ''id'' rs)
       | _ \<Rightarrow> None)\<rparr>"

lemma demo_html_ne: "demo_html r \<noteq> []"
  by (cases r) (auto split: option.split json.split)

lemma wall_renders:
  assumes "fe_codec env = small_codec" "fc_key_column slot = ''id''"
  shows "renders_rows env wall_projector slot part (\<lambda>s. True) demo_html"
  using assms small.parse_text by (simp add: renders_rows_def wall_projector_def demo_html_ne)

definition wall_touched :: touched where
  "wall_touched = \<lparr>th_slot = demo_posts, th_partition = None, th_channel = ''posts'', th_appended = [], th_mutated = True\<rparr>"

definition wall_registry :: registry where
  "wall_registry = reg_run page_env [Op_topic ''posts'' (jc_text small_codec (JArray [])), Op_subscribe 7 ''posts'' 3]
     (registry_new page_sinks)"

lemma wall_registry_ok:
  "consistent wall_registry" "apart 7 3 ''posts'' wall_registry"
  "sees 7 ''posts'' wall_registry = Some (3, None, jc_text small_codec (JArray []))"
proof -
  note defs = wall_registry_def reg_run_def registry_new_def static_topic_def topic_with_identity_def topic_of_def
    put_topic_def subscribe_def index_add_def add_sub_def touch_topic_def Let_def
  show "consistent wall_registry" unfolding wall_registry_def by (rule consistent_run[OF consistent_new])
  show "apart 7 3 ''posts'' wall_registry" by (auto simp: apart_def watches_def defs split: if_splits option.splits)
  show "sees 7 ''posts'' wall_registry = Some (3, None, jc_text small_codec (JArray []))"
    by (simp add: sees_def defs)
qed


end
