(* ===== verification/ForgeSplice.thy ===== *)
theory ForgeSplice
  imports ForgeFanOut
begin

text \<open>
  The splice against the query it replaces (\<open>splice_appended\<close> and the fan-out loop of \<open>apply_writes\<close> in
  \<open>src/forge/write.rs\<close>): for one append to a collection ordered by its key, the value derived from the
  cached one is byte for byte the value the query would return.
\<close>

section \<open>Maps in key order\<close>

lemma bytes_less_irrefl: "\<not> bytes_less a a"
  by (induction a) auto

lemma bytes_less_trans: "bytes_less a b \<Longrightarrow> bytes_less b c \<Longrightarrow> bytes_less a c"
proof (induction a b arbitrary: c rule: bytes_less.induct)
  case (2 b bs)
  then show ?case by (cases c) auto
next
  case (4 a as b bs)
  then show ?case by (cases c) auto
qed auto

lemma bytes_less_total: "a \<noteq> b \<Longrightarrow> bytes_less a b \<or> bytes_less b a"
proof (induction a b rule: bytes_less.induct)
  case (4 a as b bs)
  show ?case
  proof (cases "a = b")
    case False
    then have "byte a \<noteq> byte b" by simp
    then have "byte a < byte b \<or> byte b < byte a" by (rule linorder_neqE) blast+
    then show ?thesis by auto
  qed (use 4 in auto)
qed auto

definition in_key_order :: "record_map \<Rightarrow> bool" where
  "in_key_order ms \<longleftrightarrow> sorted_wrt (\<lambda>x y. bytes_less (fst x) (fst y)) ms"

lemma map_put_keys: "set (map fst (map_put lt c v ms)) = insert c (set (map fst ms))"
proof (induction ms)
  case (Cons m ms)
  obtain c' v' where m: "m = (c', v')" by (cases m)
  show ?case by (cases "c = c'"; cases "lt c c'") (use Cons.IH m in \<open>simp_all add: insert_commute\<close>)
qed simp

lemma map_put_order: "in_key_order ms \<Longrightarrow> in_key_order (map_put bytes_less c v ms)"
proof (induction ms)
  case (Cons m ms)
  obtain c' v' where m: "m = (c', v')" by (cases m)
  have later: "\<forall>y\<in>set ms. bytes_less c' (fst y)" "in_key_order ms" using Cons.prems m by (simp_all add: in_key_order_def)
  consider "c = c'" | "bytes_less c c'" "c \<noteq> c'" | "\<not> bytes_less c c'" "c \<noteq> c'" by blast
  then show ?case
  proof cases
    case 1
    then show ?thesis using Cons.prems m by (simp add: in_key_order_def)
  next
    case 2
    then have "\<forall>y\<in>set ms. bytes_less c (fst y)" using later bytes_less_trans by blast
    then show ?thesis using 2 Cons.prems m by (simp add: in_key_order_def)
  next
    case 3
    then have less: "bytes_less c' c" using bytes_less_total by blast
    have "bytes_less c' (fst y)" if "y \<in> set (map_put bytes_less c v ms)" for y
    proof -
      have "fst y \<in> set (map fst (map_put bytes_less c v ms))" using imageI[OF that, of fst] by simp
      then have "fst y \<in> insert c (set (map fst ms))" unfolding map_put_keys .
      then show ?thesis using less later(1) by auto
    qed
    then show ?thesis using 3 m Cons.IH[OF later(2)] by (simp add: in_key_order_def)
  qed
qed (simp add: in_key_order_def)

lemma map_of_map_put: "in_key_order ms \<Longrightarrow> map_of (map_put bytes_less c v ms) = (map_of ms)(c \<mapsto> v)"
proof (induction ms)
  case (Cons m ms)
  obtain c' v' where m: "m = (c', v')" by (cases m)
  have "in_key_order ms" using Cons.prems by (simp add: in_key_order_def)
  then show ?case using Cons.IH m by (auto simp: fun_eq_iff)
qed (simp add: fun_eq_iff)

lemma key_order_unique:
  assumes "in_key_order xs" "in_key_order ys" "map_of xs = map_of ys"
  shows "xs = ys"
  using assms
proof (induction xs arbitrary: ys)
  case Nil
  then show ?case by (cases ys) (auto simp: fun_eq_iff split: if_splits)
next
  case (Cons x xs)
  obtain c v where x: "x = (c, v)" by (cases x)
  have "map_of ys c = Some v" using Cons.prems(3) x by (metis map_of_Cons_code(2))
  then obtain y ys' where ys: "ys = y # ys'" by (cases ys) auto
  obtain d w where y: "y = (d, w)" by (cases y)
  have inx: "map_of ((c, v) # xs) d = Some w" using Cons.prems(3) x ys y by (metis map_of_Cons_code(2))
  have cd: "c = d"
  proof (rule ccontr)
    assume n: "c \<noteq> d"
    have "bytes_less c d" using inx n Cons.prems(1) x by (auto simp: in_key_order_def dest!: map_of_SomeD)
    moreover have "bytes_less d c" using \<open>map_of ys c = Some v\<close> n Cons.prems(2) ys y by (auto simp: in_key_order_def dest!: map_of_SomeD split: if_splits)
    ultimately show False using bytes_less_trans bytes_less_irrefl by blast
  qed
  have "c \<notin> fst ` set xs" "c \<notin> fst ` set ys'"
    using Cons.prems(1,2) x ys y cd bytes_less_irrefl by (auto simp: in_key_order_def)
  then have none: "map_of xs c = None" "map_of ys' c = None" by (simp_all add: map_of_eq_None_iff)
  have "map_of xs k = map_of ys' k" for k
  proof (cases "k = c")
    case False
    then show ?thesis using fun_cong[OF Cons.prems(3), of k] x ys y cd by simp
  qed (use none in simp)
  then have "map_of xs = map_of ys'" by blast
  then have "xs = ys'" using Cons.IH Cons.prems(1,2) ys by (simp add: in_key_order_def)
  moreover have "v = w" using inx cd by simp
  ultimately show ?case using x y ys cd by simp
qed

definition put_all :: "(string \<Rightarrow> json) \<Rightarrow> string list \<Rightarrow> record_map \<Rightarrow> record_map" where
  "put_all f cs acc = fold (\<lambda>c. map_put bytes_less c (f c)) cs acc"

lemma put_all_order: "in_key_order acc \<Longrightarrow> in_key_order (put_all f cs acc)"
  unfolding put_all_def by (induction cs arbitrary: acc) (simp_all add: map_put_order)

lemma map_of_put_all:
  "in_key_order acc \<Longrightarrow> map_of (put_all f cs acc) = (\<lambda>c. if c \<in> set cs then Some (f c) else map_of acc c)"
  unfolding put_all_def by (induction cs arbitrary: acc) (auto simp: map_put_order map_of_map_put fun_eq_iff)

lemma put_all_set: "set cs = set ds \<Longrightarrow> put_all f cs [] = put_all f ds []"
proof (rule key_order_unique)
  have e: "in_key_order []" by (simp add: in_key_order_def)
  show "in_key_order (put_all f cs [])" "in_key_order (put_all f ds [])" by (simp_all add: put_all_order e)
  show "set cs = set ds \<Longrightarrow> map_of (put_all f cs []) = map_of (put_all f ds [])" by (simp add: map_of_put_all e)
qed

section \<open>One append, spliced or queried\<close>

definition column_json :: "forge_env \<Rightarrow> forge_collection \<Rightarrow> table_row \<Rightarrow> string \<Rightarrow> json" where
  "column_json env slot r c = column_value_to_json env (map_of (fc_fields slot) c) (r c)"

lemma row_members_put: "row_members env (fc_fields slot) cs (map r cs) acc = put_all (column_json env slot r) cs acc"
  unfolding put_all_def by (induction cs arbitrary: acc) (simp_all add: column_json_def)

lemma returned_put:
  "returned_record env (fc_fields slot) cs (map r cs) acc = Some j \<Longrightarrow> j = JObject (put_all (column_json env slot r) cs acc)"
proof (induction cs arbitrary: acc)
  case (Cons c cs)
  then have "returned_record env (fc_fields slot) cs (map r cs)
      (map_put bytes_less c (column_value_to_json env (map_of (fc_fields slot) c) (r c)) acc) = Some j"
    by (cases "r c") simp_all
  from Cons.IH[OF this] show ?case by (simp add: put_all_def column_json_def)
qed (simp add: put_all_def)

definition in_partition :: "forge_env \<Rightarrow> forge_collection \<Rightarrow> sql_value list \<Rightarrow> table_row \<Rightarrow> bool" where
  "in_partition env slot params r = (case fc_partition_by slot of None \<Rightarrow> True | Some column \<Rightarrow> fe_eq env (r column) (hd params))"

definition key_ordered_query :: "forge_env \<Rightarrow> forge_collection \<Rightarrow> string list \<Rightarrow> bool \<Rightarrow> bool" where
  \<comment> \<open>the query the declaration emits: its columns of the rows of the partition, in key order or against it; rows
    enter a table in key order\<close>
  "key_ordered_query env slot cols at_head \<longleftrightarrow>
     (\<forall>params T. fe_select env (fc_query slot) params T =
        (cols, map (\<lambda>r. map r cols)
           (let rs = filter (in_partition env slot params) (T (fc_table slot)) in if at_head then rev rs else rs)))"

definition partition_stored :: "forge_env \<Rightarrow> forge_collection \<Rightarrow> bool" where
  \<comment> \<open>a partition value, stored, equals its key bound as text\<close>
  "partition_stored env slot \<longleftrightarrow>
     (case fc_partition_by slot of
        None \<Rightarrow> True
      | Some column \<Rightarrow> column \<noteq> fc_key_column slot \<and>
          (\<forall>v x key. partition_value_to_key (fc_topic slot) v = Inr key \<longrightarrow> json_to_sqlvalue env column v = Inr x \<longrightarrow>
             fe_eq env (fe_affinity env (fc_table slot) column x) (Text key)))"

definition row_object :: "forge_env \<Rightarrow> forge_collection \<Rightarrow> string list \<Rightarrow> table_row \<Rightarrow> json" where
  "row_object env slot cols r = JObject (put_all (column_json env slot r) cols [])"

lemma materialize_text:
  assumes "key_ordered_query env slot cols at_head" "fd_faults db = []" "slot_params slot part = Inr params"
  shows "fst (materialize_slot env slot part db) = Inr (jc_text (fe_codec env) (JArray (map (row_object env slot cols)
     (let rs = filter (in_partition env slot params) (tb_rows (fd_tables db (fc_table slot))) in if at_head then rev rs else rs))))"
  using assms
  by (simp add: materialize_slot_def then_tx_def lift_tx_def call_plane_def rows_to_json_def key_ordered_query_def
      comp_def row_members_put row_object_def[abs_def] Let_def)

lemma append_touched:
  assumes "apply_append env p slot r [] db = (Inr [th], db')"
  obtains r' cvs row part params where "authorize_append slot r p = Inr r'" "append_partition slot r' = Inr part"
    "bind_columns env check_column r' = Inr cvs"
    "row = inserted_row env (fc_table slot) (fc_key_column slot) cvs (fd_tables db (fc_table slot))"
    "tb_rows (fd_tables db' (fc_table slot)) = tb_rows (fd_tables db (fc_table slot)) @ [row]"
    "th_slot th = slot" "th_partition th = part" "slot_params slot part = Inr params"
    "th_mutated th \<or> th_appended th = [row_object env slot (fc_key_column slot # map fst r') row]"
proof -
  let ?t = "fc_table slot" and ?k = "fc_key_column slot"
  from assms obtain r' part ts st params columns returned row db1 db2 where
    a: "authorize_append slot r p = Inr r'" and pt: "append_partition slot r' = Inr part" and
    n: "note_touched slot part [] = Inr ts" and b: "build_append_returning env ?t ?k r' = Inr (st, params, columns)" and
    i: "run_insert env ?k st params db = (Inr (returned, row), db1)" and
    o: "[th] = note_outcome slot
          (case returned of None \<Rightarrow> None | Some vs \<Rightarrow> returned_record env (fc_fields slot) columns vs []) ts"
    unfolding apply_append_def by (auto simp: then_tx_Inr)
  obtain cvs where c: "bind_columns env check_column r' = Inr cvs" "zip (map fst r') params = cvs"
    "st = Insert_returning ?t (map fst r') (?k # map fst r')" using build_append_ok[OF b] by blast
  have cols: "columns = ?k # map fst r'"
    using b by (auto simp: build_append_returning_def Let_def split: sum.splits)
  have ir: "insert_row env ?t ?k cvs db = (Inr row, db1)" and
    ret: "returned = (if fe_returning env then Some (map row (?k # map fst r')) else None)"
    using i c by (auto simp: then_tx_Inr)
  have row: "row = inserted_row env ?t ?k cvs (fd_tables db ?t)" using insert_row_effect[OF ir] by blast
  obtain r2 cvs2 row2 where e: "authorize_append slot r p = Inr r2" "bind_columns env check_column r2 = Inr cvs2"
    "row2 = inserted_row env ?t ?k cvs2 (fd_tables db ?t)"
    "fd_tables db' = (fd_tables db)(?t := \<lparr>tb_rows = tb_rows (fd_tables db ?t) @ [row2],
       tb_next = next_key (row2 ?k) (tb_next (fd_tables db ?t))\<rparr>)"
    by (rule apply_append_effect[OF assms])
  have rows: "tb_rows (fd_tables db' ?t) = tb_rows (fd_tables db ?t) @ [row]" using e a c(1) row by simp
  obtain th0 where th0: "ts = [th0]" "th_slot th0 = slot" "th_partition th0 = part" "th_appended th0 = []" "\<not> th_mutated th0"
    using n pt o by (auto simp: note_touched_def append_partition_def Let_def note_outcome_def channels_of_def
        split: option.splits sum.splits)
  obtain ps where ps: "slot_params slot part = Inr ps"
    using pt by (auto simp: append_partition_def slot_params_def split: option.splits sum.splits)
  define out where "out = (case returned of None \<Rightarrow> None | Some vs \<Rightarrow> returned_record env (fc_fields slot) columns vs [])"
  have th: "th = (case out of Some j \<Rightarrow> th0\<lparr>th_appended := th_appended th0 @ [j]\<rparr> | None \<Rightarrow> th0\<lparr>th_mutated := True\<rparr>)"
    using o th0 unfolding out_def[symmetric] by (simp add: note_outcome_def channels_of_def)
  have "th_mutated th \<or> th_appended th = [row_object env slot (?k # map fst r') row]"
  proof (cases out)
    case (Some j)
    then have "returned_record env (fc_fields slot) (?k # map fst r') (map row (?k # map fst r')) [] = Some j"
      using ret cols by (simp add: out_def split: if_splits)
    from returned_put[OF this] show ?thesis using th Some th0 by (simp add: row_object_def)
  qed (use th in simp)
  moreover have "th_slot th = slot" "th_partition th = part" using th th0 by (cases out; simp)+
  ultimately show ?thesis using that a pt c(1) row rows ps by blast
qed

lemma transact_one:
  assumes "transact env p schema [w] db = (Inr ts, db')" "slot_for_topic (write_collection w) schema = Some slot"
    "fc_topic slot = write_collection w"
  obtains db1 db2 where "same_store db db1" "apply_one env p slot w [] db1 = (Inr ts, db2)" "same_store db2 db'"
proof -
  have rs: "resolve_slots schema [w] [] = Inr [slot]" using assms(2) by simp
  obtain db1 where d1: "call_plane db = (Inr (), db1)" and
    r: "(case run_writes env p [slot] [w] [] db1 of
               (Inl e, tx) \<Rightarrow> (Inl e, db1\<lparr>fd_faults := fd_faults (snd (call_plane tx))\<rparr>)
             | (Inr ts, tx) \<Rightarrow>
                 (case call_plane tx of
                    (Inl e, tx') \<Rightarrow> (Inl e, db1\<lparr>fd_faults := fd_faults tx'\<rparr>)
                  | (Inr _, tx') \<Rightarrow> (Inr ts, tx'))) = (Inr ts, db')"
    using assms(1) unfolding transact_def rs by (auto simp: then_tx_Inr)
  obtain r1 tx where r1: "run_writes env p [slot] [w] [] db1 = (r1, tx)" by fastforce
  obtain ts1 where ts1: "r1 = Inr ts1" using r r1 by (cases r1) simp_all
  obtain r2 tx' where r2: "call_plane tx = (r2, tx')" by fastforce
  have eq: "r2 = Inr ()" "tx' = db'" "ts1 = ts" using r r1 ts1 r2 by (cases r2; simp)+
  have "apply_one env p slot w [] db1 = (Inr ts, tx)" using r1 ts1 eq(3) assms(3) by (auto simp: then_tx_Inr)
  then show ?thesis using that call_plane_store[OF d1] call_plane_store[OF r2] eq(2) by blast
qed

text \<open>The new row lies in the partition its record names.\<close>

lemma new_row_in_partition:
  assumes "partition_stored env slot" "append_partition slot r' = Inr part" "slot_params slot part = Inr params"
    "bind_columns env check_column r' = Inr cvs"
  shows "in_partition env slot params (inserted_row env (fc_table slot) (fc_key_column slot) cvs tb)"
proof (cases "fc_partition_by slot")
  case (Some column)
  obtain v key where v: "map_of r' column = Some v" "partition_value_to_key (fc_topic slot) v = Inr key" "part = Some key"
    using assms(2) Some by (auto simp: append_partition_def split: option.splits sum.splits)
  obtain x where x: "json_to_sqlvalue env column v = Inr x" "map_of cvs column = Some x"
    using bind_columns_ok[OF assms(4)] v(1) by blast
  have "fe_eq env (fe_affinity env (fc_table slot) column x) (Text key)" "column \<noteq> fc_key_column slot"
    using assms(1) Some v(2) x(1) by (auto simp: partition_stored_def)
  then show ?thesis using assms(3) Some v(3) x(2) by (auto simp: in_partition_def slot_params_def inserted_row_def)
qed (simp add: in_partition_def)

lemma row_object_set: "set cs = set ds \<Longrightarrow> row_object env slot cs r = row_object env slot ds r"
  unfolding row_object_def by (simp add: put_all_set[of cs ds])

lemma row_object_is_object: "list_all is_object (map (row_object env slot cs) rs)"
  by (induction rs) (simp_all add: row_object_def is_object_def)

text \<open>Splicing is requerying: after an action that appends one record, the value the fan-out derives
  from the channel's cached text, without a query, is byte for byte what the query would return: in
  either direction of the key order, in a partition or not, provided the cached text was the query's
  answer before and the record fills the columns the query selects.\<close>

lemma splice_requeries:
  assumes rt: "row_text (fe_codec env)"
    and slot: "slot_for_topic c schema = Some slot" "fc_topic slot = c"
    and query: "key_ordered_query env slot cols at_head" "partition_stored env slot"
      "insert_at_head (fc_key_column slot) (fc_sort slot) = Some at_head"
    and cols: "\<And>r'. authorize_append slot r p = Inr r' \<Longrightarrow> set cols = insert (fc_key_column slot) (fst ` set r')"
    and run: "transact env p schema [Append c r] db = (Inr [th], db')" "fd_faults db = []" "fd_faults db' = []"
    and cached: "topic_of rg (th_channel th) = Some t"
      "fst (materialize_slot env slot (th_partition th) db) = Inr (bt_value t)"
  shows "fst (next_value env th rg db') = fst (materialize_slot env slot (th_partition th) db')"
proof -
  have "slot_for_topic (write_collection (Append c r)) schema = Some slot" "fc_topic slot = write_collection (Append c r)"
    using slot by simp_all
  from transact_one[OF run(1) this] obtain db1 db2 where
    d: "same_store db db1" "apply_append env p slot r [] db1 = (Inr [th], db2)" "same_store db2 db'" by auto
  obtain r' cvs row part params where a: "authorize_append slot r p = Inr r'"
    "append_partition slot r' = Inr part" "bind_columns env check_column r' = Inr cvs"
    "row = inserted_row env (fc_table slot) (fc_key_column slot) cvs (fd_tables db1 (fc_table slot))"
    "tb_rows (fd_tables db2 (fc_table slot)) = tb_rows (fd_tables db1 (fc_table slot)) @ [row]"
    "th_slot th = slot" "th_partition th = part" "slot_params slot part = Inr params"
    "th_mutated th \<or> th_appended th = [row_object env slot (fc_key_column slot # map fst r') row]"
    by (rule append_touched[OF d(2)])
  let ?old = "filter (in_partition env slot params) (tb_rows (fd_tables db (fc_table slot)))"
  let ?J = "\<lambda>rs. jc_text (fe_codec env) (JArray (map (row_object env slot cols) (if at_head then rev rs else rs)))"
  have rows: "tb_rows (fd_tables db' (fc_table slot)) = tb_rows (fd_tables db (fc_table slot)) @ [row]"
    using a(5) d(1,3) by (simp add: same_store_def)
  have "in_partition env slot params row" unfolding a(4) by (rule new_row_in_partition[OF query(2) a(2,8,3)])
  then have after: "fst (materialize_slot env slot (th_partition th) db') = Inr (?J (?old @ [row]))"
    using materialize_text[OF query(1) run(3) a(8)] a(7) rows by (simp add: Let_def)
  have before: "bt_value t = ?J ?old"
    using materialize_text[OF query(1) run(2) a(8)] a(7) cached(2) by (simp add: Let_def)
  show ?thesis
  proof (cases "th_mutated th")
    case True
    then show ?thesis using a(6) by (simp add: next_value_def spliced_value_def)
  next
    case False
    define ks where "ks = fc_key_column slot # map fst r'"
    have ks: "set ks = set cols" unfolding cols[OF a(1)] ks_def by simp
    define j where "j = row_object env slot cols row"
    define ps where "ps = map (row_object env slot cols) (if at_head then rev ?old else ?old)"
    have "th_appended th = [row_object env slot ks row]" using a(9) False unfolding ks_def by blast
    then have app: "th_appended th = [j]" unfolding j_def row_object_set[OF ks] .
    have objs: "list_all is_object ps" "list_all is_object [j]"
      using row_object_is_object[of env slot cols] row_object_is_object[of env slot cols "[row]"]
      by (simp_all only: ps_def j_def list.map)
    have sp: "splice_appended (fe_codec env) (jc_text (fe_codec env) (JArray ps)) [j] at_head =
        Some (jc_text (fe_codec env) (JArray (if at_head then [j] @ ps else ps @ [j])))"
      by (rule row_text.splice_splits[OF rt objs])
    have new: "(if at_head then [j] @ ps else ps @ [j]) =
        map (row_object env slot cols) (if at_head then rev (?old @ [row]) else ?old @ [row])"
      by (simp add: ps_def j_def)
    have "spliced_value env th rg = splice_appended (fe_codec env) (bt_value t) [j] at_head"
      using False app query(3) cached(1) a(6) by (simp add: spliced_value_def)
    then have "spliced_value env th rg = Some (?J (?old @ [row]))"
      unfolding before ps_def[symmetric] sp new .
    then show ?thesis using after by (simp add: next_value_def)
  qed
qed

end
