(* ===== verification/ForgeAction.thy ===== *)
theory ForgeAction
  imports ForgeSplice
begin

text \<open>
  A whole action (\<open>apply_writes\<close> in \<open>src/forge/write.rs\<close>), from the records it writes to the values the
  registry holds when it returns: what the fan-out leaves in each channel, the invariant that a channel's
  cached value is the answer of its query, and the actions that break it.
\<close>

section \<open>The value and identity of a channel\<close>

definition chan_cell :: "string \<Rightarrow> registry \<Rightarrow> (string \<times> topic_identity) option" where
  "chan_cell m rg = map_option (\<lambda>t. (bt_value t, bt_identity t)) (topic_of rg m)"

lemma cell_fields [simp]:
  "chan_cell m (rg\<lparr>rg_sinks := ks\<rparr>) = chan_cell m rg" "chan_cell m (rg\<lparr>rg_tick := x\<rparr>) = chan_cell m rg"
  "chan_cell m (rg\<lparr>rg_next_frame_id := y\<rparr>) = chan_cell m rg" "chan_cell m (rg\<lparr>rg_by_session := b\<rparr>) = chan_cell m rg"
  by (simp_all add: chan_cell_def)

lemma cell_put: "topic_of rg n = Some t \<Longrightarrow> bt_value t' = bt_value t \<Longrightarrow> bt_identity t' = bt_identity t \<Longrightarrow>
    chan_cell m (put_topic n t' rg) = chan_cell m rg"
  by (simp add: chan_cell_def)

lemma cell_touch [simp]: "chan_cell m (snd (touch_topic n rg)) = chan_cell m rg"
  by (auto simp: touch_topic_def chan_cell_def split: option.split)

lemma cell_unsubscribe [simp]: "chan_cell m (unsubscribe s n rg) = chan_cell m rg"
  by (auto simp: unsubscribe_def chan_cell_def split: option.split)

lemma cell_cleanup [simp]: "chan_cell m (cleanup_session s rg) = chan_cell m rg"
  by (cases "topic_of rg m") (simp_all add: chan_cell_def)

lemma cell_releases [simp]: "chan_cell m (fold (release_session n) ss rg) = chan_cell m rg"
  by (induction ss arbitrary: rg) (simp_all add: release_session_def)

lemma cell_write:
  assumes "topic_of rg n = Some t"
  shows "chan_cell m (snd (write_topic_delta env n compute rg)) =
    (if m = n then Some (tt_value (compute (bt_value t)), bt_identity t) else chan_cell m rg)"
proof -
  have "chan_cell m (written n compute t rg) = (if m = n then Some (tt_value (compute (bt_value t)), bt_identity t) else chan_cell m rg)"
    by (simp add: written_def chan_cell_def)
  then show ?thesis by (cases rule: write_topic_cases[OF assms, where env = env and compute = compute]) simp_all
qed

lemma cell_mint: "chan_cell m (snd (static_topic n v rg)) = (if m = n \<and> chan_cell n rg = None then Some (v, Static) else chan_cell m rg)"
  by (auto simp: static_topic_def topic_with_identity_def chan_cell_def Let_def split: option.split)

text \<open>What a fan-out leaves: its value in its own channel, registered if it was not, and the others as they were.\<close>

lemma cell_fan_out:
  "chan_cell m (fan_out_value env benv pj th b rg) =
     (if m = th_channel th then Some (b, case chan_cell m rg of None \<Rightarrow> Static | Some (v, ident) \<Rightarrow> ident) else chan_cell m rg)"
proof -
  let ?n = "th_channel th"
  define rg1 where "rg1 = (case topic_of rg ?n of None \<Rightarrow> snd (static_topic ?n b rg) | Some _ \<Rightarrow> rg)"
  have c1: "chan_cell m rg1 = (if m = ?n \<and> chan_cell ?n rg = None then Some (b, Static) else chan_cell m rg)" for m
    by (cases "topic_of rg ?n") (simp_all add: rg1_def cell_mint chan_cell_def[of ?n])
  obtain t where t: "topic_of rg1 ?n = Some t"
    using c1[of ?n] by (cases "topic_of rg1 ?n"; cases "topic_of rg ?n") (simp_all add: chan_cell_def)
  have ident: "bt_identity t = (case chan_cell ?n rg of None \<Rightarrow> Static | Some (v, ident) \<Rightarrow> ident)"
    using c1[of ?n] t by (auto simp: chan_cell_def split: option.splits)
  have w: "chan_cell m (snd (write_topic_delta benv ?n (\<lambda>previous. \<lparr>tt_value = b, tt_update = u previous\<rparr>) rg')) =
      (if m = ?n then Some (b, bt_identity t) else chan_cell m rg1)"
    if "topic_of rg' ?n = Some t'" "bt_identity t' = bt_identity t" "\<And>m. m \<noteq> ?n \<Longrightarrow> chan_cell m rg' = chan_cell m rg1" for u m rg' t'
    using cell_write[OF that(1)] that(2,3) by simp
  define rg2 where "rg2 = snd (write_topic_delta benv ?n (\<lambda>previous. \<lparr>tt_value = b,
     tt_update = fst (send_update env (th_slot th) (rows_to_send env pj th rg b) b previous)\<rparr>) rg1)"
  have c2: "chan_cell m rg2 = (if m = ?n then Some (b, bt_identity t) else chan_cell m rg1)" for m
    unfolding rg2_def by (rule w[OF t]) simp_all
  obtain t2 where t2: "topic_of rg2 ?n = Some t2" "bt_identity t2 = bt_identity t"
    using c2[of ?n] by (auto simp: chan_cell_def)
  have c3: "chan_cell m (snd (write_topic_delta benv ?n (\<lambda>previous. \<lparr>tt_value = b, tt_update = u\<rparr>) rg2)) =
      (if m = ?n then Some (b, bt_identity t) else chan_cell m rg1)" for u m
    by (rule w[OF t2]) (simp add: c2)
  have "chan_cell m (fan_out_value env benv pj th b rg) = (if m = ?n then Some (b, bt_identity t) else chan_cell m rg1)"
    unfolding fan_out_value_def Let_def rg1_def[symmetric] rg2_def[symmetric]
    by (simp add: c2 c3 split: option.split)
  then show ?thesis using c1[of m] ident by (auto split: if_splits)
qed

lemma cell_remove: "chan_cell m (remove_topic n rg) = (if m = n then None else chan_cell m rg)"
  by (simp add: chan_cell_def)

lemma cell_sweep: "chan_cell m (snd (drop_candidates budget cs footprint dropped rg)) \<in> {None, chan_cell m rg}"
proof (induction cs arbitrary: footprint dropped rg)
  case (Cons c cs)
  obtain x n b where c: "c = (x, n, b)" by (cases c)
  have "chan_cell m (snd (drop_candidates budget cs f d (remove_topic n rg))) \<in> {None, chan_cell m rg}" for f d
    using Cons.IH[of f d "remove_topic n rg"] by (auto simp: cell_remove split: if_splits)
  then show ?case using Cons.IH[of footprint dropped rg] by (simp add: c)
qed simp

lemma cell_budget: "chan_cell m (snd (enforce_topic_budget b rg)) \<in> {None, chan_cell m rg}"
  using cell_sweep by (simp add: enforce_topic_budget_def)

lemma static_cell: "is_static m rg \<longleftrightarrow> (\<exists>v. chan_cell m rg = Some (v, Static))"
  by (auto simp: is_static_def chan_cell_def split: option.split)

lemma static_kept:
  assumes "chan_cell m rg = Some (v, Static)"
  shows "chan_cell m (snd (enforce_topic_budget b rg)) = Some (v, Static)"
proof -
  have "is_static m (snd (enforce_topic_budget b rg))"
    using assms static_sweep[of m rg] static_cell[of m rg] by (simp add: enforce_topic_budget_def)
  then show ?thesis using cell_budget[of m b rg] assms unfolding static_cell by auto
qed

section \<open>The values an action leaves\<close>

lemma transact_slot:
  assumes "slot_for_topic c schema = Some slot" "fc_topic slot = c" "transact env p schema [Append c r] db = (Inr [th], db')"
  shows "th_slot th = slot"
proof -
  have "slot_for_topic (write_collection (Append c r)) schema = Some slot" "fc_topic slot = write_collection (Append c r)"
    using assms by simp_all
  then obtain db1 db2 where "apply_one env p slot (Append c r) [] db1 = (Inr [th], db2)"
    by (rule transact_one[OF assms(3)])
  then have "apply_append env p slot r [] db1 = (Inr [th], db2)" by simp
  then show ?thesis by (rule append_touched)
qed

lemma next_value_store: "fd_faults db = [] \<Longrightarrow> snd (next_value env th rg db) = db"
  by (simp add: next_value_def materialize_slot_def then_tx_def lift_tx_def call_plane_def split: option.split sum.split)

lemma spliced_value_cell:
  assumes "chan_cell (th_channel th) rg = chan_cell (th_channel th) rg'"
  shows "spliced_value env th rg = spliced_value env th rg'"
  using assms by (cases "topic_of rg (th_channel th)"; cases "topic_of rg' (th_channel th)") (simp_all add: spliced_value_def chan_cell_def split: option.split)

lemma next_value_cell:
  "chan_cell (th_channel th) rg = chan_cell (th_channel th) rg' \<Longrightarrow> next_value env th rg db = next_value env th rg' db"
  using spliced_value_cell[of th rg rg'] by (simp add: next_value_def)

definition kept_identity :: "(string \<times> topic_identity) option \<Rightarrow> topic_identity" where
  "kept_identity known = (case known of None \<Rightarrow> Static | Some (v, ident) \<Rightarrow> ident)"

lemma fan_out_all_cells:
  assumes "fd_faults db = []" "distinct (map th_channel ts)" "fan_out_all env benv pj ts db rg = (Inr x, db2, rg2)"
  shows "db2 = db \<and>
    (\<forall>th\<in>set ts. \<exists>b. fst (next_value env th rg db) = Inr b \<and>
       chan_cell (th_channel th) rg2 = Some (b, kept_identity (chan_cell (th_channel th) rg))) \<and>
    (\<forall>m. m \<notin> th_channel ` set ts \<longrightarrow> chan_cell m rg2 = chan_cell m rg)"
  using assms
proof (induction ts arbitrary: rg)
  case (Cons th ts)
  obtain b where b: "next_value env th rg db = (Inr b, db)"
    and rest: "fan_out_all env benv pj ts db (fan_out_value env benv pj th b rg) = (Inr x, db2, rg2)"
    using Cons.prems(3) next_value_store[OF Cons.prems(1), of env th rg]
    by (cases "next_value env th rg db"; cases "fst (next_value env th rg db)") auto
  let ?rg = "fan_out_value env benv pj th b rg"
  have other: "chan_cell m ?rg = chan_cell m rg" if "m \<noteq> th_channel th" for m using that by (simp add: cell_fan_out)
  have IH: "db2 = db" "\<And>u. u \<in> set ts \<Longrightarrow> \<exists>b. fst (next_value env u ?rg db) = Inr b \<and>
       chan_cell (th_channel u) rg2 = Some (b, kept_identity (chan_cell (th_channel u) ?rg))"
    "\<And>m. m \<notin> th_channel ` set ts \<Longrightarrow> chan_cell m rg2 = chan_cell m ?rg"
    using Cons.IH[OF Cons.prems(1) _ rest] Cons.prems(2) by auto
  have "\<exists>b. fst (next_value env u rg db) = Inr b \<and> chan_cell (th_channel u) rg2 = Some (b, kept_identity (chan_cell (th_channel u) rg))"
    if u: "u \<in> set (th # ts)" for u
  proof (cases "u = th")
    case True
    have "th_channel th \<notin> th_channel ` set ts" using Cons.prems(2) by simp
    then show ?thesis using True b IH(3)[of "th_channel th"] by (simp add: cell_fan_out kept_identity_def)
  next
    case False
    then have u': "u \<in> set ts" using u by simp
    moreover have "th_channel u \<noteq> th_channel th" using imageI[OF u', of th_channel] Cons.prems(2) by (auto simp: image_def)
    ultimately show ?thesis using IH(2)[of u] other[of "th_channel u"] next_value_cell[of u ?rg rg env db] by simp
  qed
  moreover have "chan_cell m rg2 = chan_cell m rg" if "m \<notin> th_channel ` set (th # ts)" for m using that IH(3)[of m] other[of m] by simp
  ultimately show ?case using IH(1) by blast
qed simp

text \<open>What an action leaves in a channel that was registered before.\<close>

lemma fan_out_all_done:
  assumes "fd_faults db = []" "distinct (map th_channel ts)" "\<And>u. u \<in> set ts \<Longrightarrow> \<exists>b. fst (next_value env u rg db) = Inr b"
  shows "\<exists>rg2. fan_out_all env benv pj ts db rg = (Inr (), db, rg2)"
  using assms(2,3)
proof (induction ts arbitrary: rg)
  case (Cons th ts)
  obtain b where b: "next_value env th rg db = (Inr b, db)"
    using Cons.prems(2)[of th] next_value_store[OF assms(1), of env th rg] by (cases "next_value env th rg db") auto
  have "\<exists>b'. fst (next_value env u (fan_out_value env benv pj th b rg) db) = Inr b'" if u: "u \<in> set ts" for u
  proof -
    have "th_channel u \<noteq> th_channel th" using imageI[OF u, of th_channel] Cons.prems(1) by (auto simp: image_def)
    then have "next_value env u (fan_out_value env benv pj th b rg) db = next_value env u rg db"
      by (intro next_value_cell) (simp add: cell_fan_out)
    then show ?thesis using Cons.prems(2)[of u] u by simp
  qed
  then obtain rg2 where "fan_out_all env benv pj ts db (fan_out_value env benv pj th b rg) = (Inr (), db, rg2)"
    using Cons.IH[of "fan_out_value env benv pj th b rg"] Cons.prems(1) by auto
  then show ?case using b by simp
qed simp

lemma action_cell:
  assumes "fst (transact env p schema ws db) = Inr ts" "fd_faults (snd (transact env p schema ws db)) = []" "ws \<noteq> []"
    and "distinct (map th_channel ts)" "\<And>u. u \<in> set ts \<Longrightarrow> \<exists>b. fst (next_value env u rg (snd (transact env p schema ws db))) = Inr b"
    and "th \<in> set ts" "fst (next_value env th rg (snd (transact env p schema ws db))) = Inr b"
    and "kept_identity (chan_cell (th_channel th) rg) = Static"
  shows "chan_cell (th_channel th) (snd (snd (apply_writes env benv pj schema ws p db rg))) = Some (b, Static) \<and>
    fst (apply_writes env benv pj schema ws p db rg) = Inr (reached_lanes ts rg) \<and>
    fst (snd (apply_writes env benv pj schema ws p db rg)) = snd (transact env p schema ws db)"
proof -
  define db' where "db' = snd (transact env p schema ws db)"
  note a = assms[folded db'_def]
  obtain rg2 where f: "fan_out_all env benv pj ts db' rg = (Inr (), db', rg2)"
    using fan_out_all_done[OF a(2,4,5)] by blast
  have t: "transact env p schema ws db = (Inr ts, db')" using a(1) by (simp add: db'_def prod_eq_iff)
  have r: "apply_writes env benv pj schema ws p db rg = (Inr (reached_lanes ts rg), db', snd (enforce_topic_budget default_topic_value_budget rg2))"
    using a(3) t f by (simp add: apply_writes_def)
  have "chan_cell (th_channel th) rg2 = Some (b, Static)"
    using fan_out_all_cells[OF a(2,4) f] a(6,7,8) by auto
  then show ?thesis unfolding r by (simp add: static_kept db'_def)
qed


section \<open>A chat\<close>

definition chat_columns :: "string list" where "chat_columns = [''body'', ''id'', ''room'']"

definition chat_plane :: "bool \<Rightarrow> forge_env" where
  \<comment> \<open>a plane whose room column has text affinity, with the query that reads one room\<close>
  "chat_plane at_head = local_plane\<lparr>
     fe_affinity := (\<lambda>t c v. if c = ''room'' then (case v of Integer i \<Rightarrow> Text (show_int i) | _ \<Rightarrow> v) else v),
     fe_select := (\<lambda>q params T. (chat_columns, map (\<lambda>r. map r chat_columns)
        (let rs = filter (\<lambda>r. sqlite_eq (r ''room'') (hd params)) (T ''messages'') in if at_head then rev rs else rs)))\<rparr>"

definition chat :: "bool \<Rightarrow> forge_collection" where
  "chat at_head = \<lparr>fc_topic = ''messages'', fc_table = ''messages'',
     fc_query = ''SELECT body, id, room FROM messages WHERE room = ?1 ORDER BY id'', fc_key_column = ''id'',
     fc_partition_by = Some ''room'', fc_fields = [], fc_sort = [\<lparr>sk_column = ''id'', sk_desc = at_head\<rparr>],
     fc_identity = False, fc_edit = Anyone\<rparr>"

definition said :: "string \<Rightarrow> string \<Rightarrow> forge_write" where
  "said room body = Append ''messages'' [(''room'', JString room), (''body'', JString body)]"

definition message :: "nat \<Rightarrow> string \<Rightarrow> string \<Rightarrow> json" where
  "message i room body = JObject [(''body'', JString body), (''id'', JNumber (PosInt (of_nat i))), (''room'', JString room)]"

definition chat_text :: "json list \<Rightarrow> string" where "chat_text ms = jc_text small_codec (JArray ms)"

definition chat_row :: table_row where
  "chat_row = (\<lambda>c. if c = ''id'' then Integer 1 else if c = ''room'' then Text ''a'' else if c = ''body'' then Text ''x'' else Null)"

definition chat_db :: forge_db where
  "chat_db = \<lparr>fd_tables = (\<lambda>t. \<lparr>tb_rows = [chat_row], tb_next = 2\<rparr>), fd_authors = [], fd_last = Null, fd_faults = []\<rparr>"

definition chat_open :: registry where
  "chat_open = reg_run page_env [Op_topic ''messages:a'' (chat_text [message 1 ''a'' ''x'']), Op_subscribe 7 ''messages:a'' 3]
     (registry_new page_sinks)"

abbreviation chat_run :: "bool \<Rightarrow> forge_write list \<Rightarrow> (forge_error + touched list) \<times> forge_db" where
  "chat_run h ws \<equiv> transact (chat_plane h) None [chat h] ws chat_db"

abbreviation chat_act :: "bool \<Rightarrow> forge_write list \<Rightarrow> (forge_error + u32) \<times> forge_db \<times> registry" where
  "chat_act h ws \<equiv> apply_writes (chat_plane h) page_env None [chat h] ws None chat_db chat_open"

abbreviation room_query :: "bool \<Rightarrow> string \<Rightarrow> forge_db \<Rightarrow> forge_error + string" where
  "room_query h room db \<equiv> fst (materialize_slot (chat_plane h) (chat h) (Some room) db)"

lemma chat_laws:
  "row_text (fe_codec (chat_plane h))" "key_ordered_query (chat_plane h) (chat h) chat_columns h"
  "partition_stored (chat_plane h) (chat h)" "insert_at_head (fc_key_column (chat h)) (fc_sort (chat h)) = Some h"
proof -
  show "row_text (fe_codec (chat_plane h))" using small.row_text_axioms by (simp add: chat_plane_def local_plane_def)
  show "key_ordered_query (chat_plane h) (chat h) chat_columns h"
    by (simp add: key_ordered_query_def chat_plane_def local_plane_def chat_def in_partition_def[abs_def])
  show "insert_at_head (fc_key_column (chat h)) (fc_sort (chat h)) = Some h" by (simp add: insert_at_head_def chat_def)
  show "partition_stored (chat_plane h) (chat h)"
    by (auto simp: partition_stored_def chat_def chat_plane_def local_plane_def partition_value_to_key_def Let_def
        split: json.splits option.splits if_splits)
qed

lemma chat_cell: "chan_cell ''messages:a'' chat_open = Some (chat_text [message 1 ''a'' ''x''], Static)"
  by (simp add: chat_open_def reg_run_def chan_cell_def registry_new_def static_topic_def topic_with_identity_def topic_of_def
      put_topic_def subscribe_def index_add_def add_sub_def touch_topic_def Let_def)

definition touched_room :: "bool \<Rightarrow> string \<Rightarrow> json list \<Rightarrow> touched" where
  "touched_room h room rs = \<lparr>th_slot = chat h, th_partition = Some room, th_channel = ''messages:'' @ room,
     th_appended = rs, th_mutated = False\<rparr>"

lemma message_is_object [simp]: "is_object (message i room body)"
  by (simp add: message_def is_object_def)

lemma spliced_room:
  assumes "list_all is_object rs" "rs \<noteq> []"
  shows "next_value (chat_plane h) (touched_room h ''a'' rs) chat_open db =
    (Inr (chat_text (if h then rs @ [message 1 ''a'' ''x''] else [message 1 ''a'' ''x''] @ rs)), db)"
proof -
  obtain t where t: "topic_of chat_open ''messages:a'' = Some t" "bt_value t = chat_text [message 1 ''a'' ''x'']"
    using chat_cell by (auto simp: chan_cell_def)
  have c: "fe_codec (chat_plane h) = small_codec" by (simp add: chat_plane_def local_plane_def)
  show ?thesis
    using small.splice_splits[of "[message 1 ''a'' ''x'']" rs h] assms t chat_laws(4)[of h] c
    by (simp add: next_value_def spliced_value_def touched_room_def chat_text_def)
qed

lemma chat_appends:
  assumes "fst (chat_run h ws) = Inr ts" "fd_faults (snd (chat_run h ws)) = []" "ws \<noteq> []" "ts = touched_room h ''a'' rs # us"
    and "list_all is_object rs" "rs \<noteq> []"
    and "distinct (map th_channel ts)" "\<And>u. u \<in> set us \<Longrightarrow> \<exists>b. fst (next_value (chat_plane h) u chat_open (snd (chat_run h ws))) = Inr b"
  shows "chan_cell ''messages:a'' (snd (snd (chat_act h ws))) =
      Some (chat_text (if h then rs @ [message 1 ''a'' ''x''] else [message 1 ''a'' ''x''] @ rs), Static) \<and>
    fst (chat_act h ws) = Inr (reached_lanes ts chat_open) \<and> fst (snd (chat_act h ws)) = snd (chat_run h ws)"
proof -
  have n: "th_channel (touched_room h ''a'' rs) = ''messages:a''" by (simp add: touched_room_def)
  show ?thesis
    by (rule action_cell[OF assms(1,2,3,7), where th = "touched_room h ''a'' rs", unfolded n])
      (use assms spliced_room[OF assms(5,6)] chat_cell in \<open>auto simp: kept_identity_def\<close>)
qed


end
