(* ===== verification/ForgeGaps.thy ===== *)
theory ForgeGaps
  imports ForgeAction
begin

text \<open>
  Actions after which a channel's cached value is not the answer of its query, and actions that are
  committed and not told (\<open>apply_writes\<close> in \<open>src/forge/write.rs\<close>), each run on the chat of
  \<open>ForgeAction\<close>: a collection partitioned by room, one subscriber in room \<open>a\<close>.
\<close>

lemma chat_cold: "chan_cell ''messages:b'' chat_open = None"
  by code_simp

lemma cold_room:
  "next_value (chat_plane h) (touched_room h ''b'' rs) chat_open db = materialize_slot (chat_plane h) (chat h) (Some ''b'') db"
  using chat_cold by (simp add: next_value_def spliced_value_def touched_room_def chan_cell_def split: option.split)

text \<open>Two rooms in one action. An action that appends a row to room \<open>a\<close> and then one to room \<open>b\<close> puts the
  row of room \<open>b\<close> into the cached value of room \<open>a\<close>, which goes to the subscribers of \<open>a\<close>: an append is
  recorded on every channel of its collection the action has touched, not on its own. The query of room
  \<open>a\<close> does not return that row.\<close>

theorem two_rooms_leak:
  "chan_cell ''messages:a'' (snd (snd (chat_act False [said ''a'' ''y'', said ''b'' ''z'']))) =
     Some (chat_text [message 1 ''a'' ''x'', message 2 ''a'' ''y'', message 3 ''b'' ''z''], Static) \<and>
   (\<exists>lanes. fst (chat_act False [said ''a'' ''y'', said ''b'' ''z'']) = Inr lanes) \<and>
   room_query False ''a'' (fst (snd (chat_act False [said ''a'' ''y'', said ''b'' ''z'']))) =
     Inr (chat_text [message 1 ''a'' ''x'', message 2 ''a'' ''y''])"
proof -
  let ?ws = "[said ''a'' ''y'', said ''b'' ''z'']"
  let ?us = "[touched_room False ''b'' [message 3 ''b'' ''z'']]"
  let ?ts = "touched_room False ''a'' [message 2 ''a'' ''y'', message 3 ''b'' ''z''] # ?us"
  have r: "fst (chat_run False ?ws) = Inr ?ts" by code_simp
  have f: "fd_faults (snd (chat_run False ?ws)) = []" by code_simp
  have q: "room_query False ''a'' (snd (chat_run False ?ws)) = Inr (chat_text [message 1 ''a'' ''x'', message 2 ''a'' ''y''])"
    by code_simp
  have "room_query False ''b'' (snd (chat_run False ?ws)) = Inr (chat_text [message 3 ''b'' ''z''])" by code_simp
  then have b: "fst (next_value (chat_plane False) (touched_room False ''b'' [message 3 ''b'' ''z'']) chat_open (snd (chat_run False ?ws))) =
      Inr (chat_text [message 3 ''b'' ''z''])" unfolding cold_room .
  show ?thesis using chat_appends[OF r f _ refl] b q by (simp add: touched_room_def)
qed

text \<open>Two appends in one action to a collection shown newest first are spliced in the order of the action, so the
  older comes before the newer.\<close>

theorem newest_first_swapped:
  "chan_cell ''messages:a'' (snd (snd (chat_act True [said ''a'' ''y'', said ''a'' ''z'']))) =
     Some (chat_text [message 2 ''a'' ''y'', message 3 ''a'' ''z'', message 1 ''a'' ''x''], Static) \<and>
   room_query True ''a'' (fst (snd (chat_act True [said ''a'' ''y'', said ''a'' ''z'']))) =
     Inr (chat_text [message 3 ''a'' ''z'', message 2 ''a'' ''y'', message 1 ''a'' ''x''])"
proof -
  let ?ws = "[said ''a'' ''y'', said ''a'' ''z'']"
  let ?ts = "[touched_room True ''a'' [message 2 ''a'' ''y'', message 3 ''a'' ''z'']]"
  have r: "fst (chat_run True ?ws) = Inr ?ts" by code_simp
  have f: "fd_faults (snd (chat_run True ?ws)) = []" by code_simp
  have q: "room_query True ''a'' (snd (chat_run True ?ws)) =
      Inr (chat_text [message 3 ''a'' ''z'', message 2 ''a'' ''y'', message 1 ''a'' ''x''])" by code_simp
  show ?thesis using chat_appends[OF r f _ refl] q by simp
qed

text \<open>An append whose record leaves a column out is spliced without that column; the query returns it as \<open>null\<close>.\<close>

theorem spliced_row_lacks_columns:
  "chan_cell ''messages:a'' (snd (snd (chat_act False [Append ''messages'' [(''room'', JString ''a'')]]))) =
     Some (chat_text [message 1 ''a'' ''x'', JObject [(''id'', JNumber (PosInt 2)), (''room'', JString ''a'')]], Static) \<and>
   room_query False ''a'' (fst (snd (chat_act False [Append ''messages'' [(''room'', JString ''a'')]]))) =
     Inr (chat_text [message 1 ''a'' ''x'', JObject [(''body'', JNull), (''id'', JNumber (PosInt 2)), (''room'', JString ''a'')]])"
proof -
  let ?ws = "[Append ''messages'' [(''room'', JString ''a'')]]"
  let ?j = "JObject [(''id'', JNumber (PosInt 2)), (''room'', JString ''a'')]"
  let ?ts = "[touched_room False ''a'' [?j]]"
  have r: "fst (chat_run False ?ws) = Inr ?ts" by code_simp
  have f: "fd_faults (snd (chat_run False ?ws)) = []" by code_simp
  have q: "room_query False ''a'' (snd (chat_run False ?ws)) =
     Inr (chat_text [message 1 ''a'' ''x'', JObject [(''body'', JNull), (''id'', JNumber (PosInt 2)), (''room'', JString ''a'')]])"
    by code_simp
  show ?thesis using chat_appends[OF r f _ refl] q by (simp add: is_object_def)
qed

text \<open>A channel first heard of by a write is registered as static, so no sweep ever reclaims it, whatever the budget.\<close>

theorem cold_write_pins_the_channel:
  "\<exists>v. chan_cell ''messages:b'' (snd (enforce_topic_budget budget (snd (snd (chat_act False [said ''b'' ''z'']))))) = Some (v, Static)"
proof -
  let ?ws = "[said ''b'' ''z'']"
  let ?th = "touched_room False ''b'' [message 2 ''b'' ''z'']"
  have r: "fst (chat_run False ?ws) = Inr [?th]" by code_simp
  have f: "fd_faults (snd (chat_run False ?ws)) = []" by code_simp
  have "room_query False ''b'' (snd (chat_run False ?ws)) = Inr (chat_text [message 2 ''b'' ''z''])" by code_simp
  then have b: "fst (next_value (chat_plane False) ?th chat_open (snd (chat_run False ?ws))) = Inr (chat_text [message 2 ''b'' ''z''])"
    unfolding cold_room .
  have n: "th_channel ?th = ''messages:b''" by (simp add: touched_room_def)
  have "chan_cell (th_channel ?th) (snd (snd (chat_act False ?ws))) = Some (chat_text [message 2 ''b'' ''z''], Static)"
    using action_cell[OF r f, of chat_open ?th] b n chat_cold by (simp add: kept_identity_def)
  from static_kept[OF this] show ?thesis unfolding n by blast
qed

text \<open>Committed and refused. If the action's transaction commits and the query that refreshes the first
  channel it touched fails, the action returns that error, the store keeps what was written, and no channel
  is refreshed, the others neither.\<close>

theorem committed_but_refused:
  assumes "ws \<noteq> []" "transact env p schema ws db = (Inr (th # ts), db')" "next_value env th rg db' = (Inl e, db2)"
  shows "apply_writes env benv pj schema ws p db rg = (Inl e, db2, rg) \<and> same_store db' db2"
proof -
  have "same_store db' db2"
    using assms(3) call_plane_store[of db'] by (auto simp: next_value_def materialize_slot_def then_tx_def lift_tx_def split: option.splits sum.splits prod.splits)
  then show ?thesis using assms by (simp add: apply_writes_def)
qed

definition chat_failing :: forge_db where
  \<comment> \<open>the plane begins, inserts and commits, and then fails\<close>
  "chat_failing = chat_db\<lparr>fd_faults := [None, None, None, Some ''disk'']\<rparr>"

lemma committed_but_refused_witness:
  "\<exists>db2. apply_writes (chat_plane False) page_env None [chat False] [said ''b'' ''z''] None chat_failing chat_open =
      (Inl (Storage ''disk''), db2, chat_open) \<and>
    length (tb_rows (fd_tables db2 ''messages'')) = 2"
proof -
  let ?run = "transact (chat_plane False) None [chat False] [said ''b'' ''z''] chat_failing"
  let ?th = "touched_room False ''b'' [message 2 ''b'' ''z'']"
  have r: "fst ?run = Inr [?th]" by code_simp
  have n: "length (tb_rows (fd_tables (snd ?run) ''messages'')) = 2" by code_simp
  have "fd_faults (snd ?run) = [Some ''disk'']" by code_simp
  then obtain db2 where e: "next_value (chat_plane False) ?th chat_open (snd ?run) = (Inl (Storage ''disk''), db2)"
    unfolding cold_room by (simp add: materialize_slot_def then_tx_def lift_tx_def call_plane_def slot_params_def chat_def)
  have t: "?run = (Inr [?th], snd ?run)" using r by (simp add: prod_eq_iff)
  have "apply_writes (chat_plane False) page_env None [chat False] [said ''b'' ''z''] None chat_failing chat_open =
      (Inl (Storage ''disk''), db2, chat_open) \<and> same_store (snd ?run) db2"
    by (rule committed_but_refused[OF _ t e]) simp
  then show ?thesis using n by (auto simp: same_store_def)
qed

end
