(* ===== verification/RenderGraph.thy ===== *)
theory RenderGraph
  imports Strings "HOL-Library.AList" "HOL-Library.Multiset"
begin

text \<open>
  The graph of components the compiler builds (\<open>src/graph.rs\<close>) and the order it renders them in
  (\<open>src/analysis/parallel_topo.rs\<close>): levels of components, each after everything it depends on. A hash
  map is iterated in an order of its own: the parameter \<open>ord\<close> puts the keys of a map or set into it. The
  concurrent maps are filled before they are read, so each operation is one step.
\<close>

section \<open>The graph\<close>

type_synonym component_id = u64

record component =
  co_id :: component_id
  co_name :: string
  co_centi :: u64 \<comment> \<open>\<open>(weight * 100.0).clamp(0.0, usize::MAX as f64) as usize\<close>\<close>

record component_graph =
  cg_components :: "(component_id \<times> component) list"
  cg_names :: "(string \<times> component_id) list"
  cg_dependencies :: "(component_id \<times> component_id list) list"
  cg_dependents :: "(component_id \<times> component_id list) list"
  cg_total :: u64
  cg_count :: u64
  cg_next :: u64

datatype compiler_error =
    CircularDependency "component_id list"
  | ComponentNotFound component_id
  | InvalidGraph string

type_synonym order = "component_id list \<Rightarrow> component_id list"

definition graph_new :: component_graph where
  "graph_new = \<lparr>cg_components = [], cg_names = [], cg_dependencies = [], cg_dependents = [], cg_total = 0, cg_count = 0, cg_next = 0\<rparr>"

definition next_id :: "component_graph \<Rightarrow> component_id \<times> component_graph" where
  "next_id g = (cg_next g, g\<lparr>cg_next := cg_next g + 1\<rparr>)"

definition add_component :: "component \<Rightarrow> component_graph \<Rightarrow> component_id \<times> component_graph" where
  "add_component c g =
     (let (i, g1) = (if co_id c = 0 then next_id g else (co_id c, g));
          c1 = c\<lparr>co_id := i\<rparr> in
      (i, g1\<lparr>cg_names := AList.update (co_name c1) i (cg_names g1),
             cg_dependencies := AList.update i [] (cg_dependencies g1),
             cg_dependents := AList.update i [] (cg_dependents g1),
             cg_components := AList.update i c1 (cg_components g1),
             cg_count := cg_count g1 + 1,
             cg_total := cg_total g1 + co_centi c1\<rparr>))"

definition set_insert :: "'a \<Rightarrow> 'a list \<Rightarrow> 'a list" where
  "set_insert x xs = (if x \<in> set xs then xs else xs @ [x])"

definition insert_edge :: "component_id \<Rightarrow> component_id \<Rightarrow> (component_id \<times> component_id list) list \<Rightarrow> (component_id \<times> component_id list) list" where
  \<comment> \<open>\<open>entry(from).or_default().insert(to)\<close>\<close>
  "insert_edge a b es = AList.update a (set_insert b (case map_of es a of None \<Rightarrow> [] | Some xs \<Rightarrow> xs)) es"

definition add_dependency :: "component_id \<Rightarrow> component_id \<Rightarrow> component_graph \<Rightarrow> (compiler_error + unit) \<times> component_graph" where
  "add_dependency a b g =
     (if map_of (cg_components g) a = None then (Inl (ComponentNotFound a), g)
      else if map_of (cg_components g) b = None then (Inl (ComponentNotFound b), g)
      else (Inr (), g\<lparr>cg_dependencies := insert_edge a b (cg_dependencies g),
                      cg_dependents := insert_edge b a (cg_dependents g)\<rparr>))"

definition component_ids :: "order \<Rightarrow> component_graph \<Rightarrow> component_id list" where
  "component_ids ord g = ord (map fst (cg_components g))"

definition edges_of :: "order \<Rightarrow> (component_id \<times> component_id list) list \<Rightarrow> component_id \<Rightarrow> component_id list" where
  "edges_of ord es n = (case map_of es n of None \<Rightarrow> [] | Some xs \<Rightarrow> ord xs)"

definition get_dependencies :: "order \<Rightarrow> component_graph \<Rightarrow> component_id \<Rightarrow> component_id list" where
  "get_dependencies ord g n = edges_of ord (cg_dependencies g) n"

definition get_dependents :: "order \<Rightarrow> component_graph \<Rightarrow> component_id \<Rightarrow> component_id list" where
  "get_dependents ord g n = edges_of ord (cg_dependents g) n"

definition get_by_name :: "string \<Rightarrow> component_graph \<Rightarrow> component option" where
  "get_by_name n g = Option.bind (map_of (cg_names g) n) (map_of (cg_components g))"

section \<open>Cycles\<close>

text \<open>The loop over the dependencies of one component, with the call on each that was not visited.\<close>

function detect_in :: "order \<Rightarrow> component_graph \<Rightarrow> component_id \<Rightarrow> component_id list \<Rightarrow> component_id set \<Rightarrow> component_id set \<Rightarrow>
    component_id list option \<times> component_id set \<times> component_id set" where
  "detect_in ord g n [] v r = (None, v, r - {n})"
| "detect_in ord g n (m # ms) v r =
     (if m \<notin> v then
        (case detect_in ord g m (get_dependencies ord g m) (insert m v) (insert m r) of
           (Some c, v', r') \<Rightarrow> (Some c, v', r')
         | (None, v', r') \<Rightarrow> detect_in ord g n ms v' r')
      else if m \<in> r then (Some [n, m], v, r)
      else detect_in ord g n ms v r)"
  by pat_completeness auto

lemma detect_in_visited:
  "detect_in_dom (ord, g, n, ms, v, r) \<Longrightarrow> v \<subseteq> fst (snd (detect_in ord g n ms v r))"
proof (induction rule: detect_in.pinduct)
  case (1 ord g n v r)
  then show ?case by (simp add: detect_in.psimps)
next
  case (2 ord g n m ms v r)
  show ?case
  proof (cases "m \<in> v")
    case True
    then show ?thesis using 2 by (simp add: detect_in.psimps)
  next
    case False
    obtain res v' r' where d: "detect_in ord g m (get_dependencies ord g m) (insert m v) (insert m r) = (res, v', r')"
      using prod_cases3 by blast
    have "v \<subseteq> v'" using 2(2)[OF False] d by simp
    then show ?thesis using False 2(1) 2(3)[OF False d[symmetric]] d
      by (cases res) (auto simp: detect_in.psimps)
  qed
qed

termination detect_in
proof (relation "inv_image (finite_psubset <*lex*> less_than)
    (\<lambda>(ord, g, n, ms, v, r). (fst ` set (cg_dependencies g) - v, length ms))", goal_cases)
  case 1
  show ?case by (intro wf_inv_image wf_lex_prod wf_finite_psubset wf_less_than)
next
  case (2 ord g n m ms v r)
  then show ?case
    by (cases "m \<in> fst ` set (cg_dependencies g)")
      (auto simp: finite_psubset_def get_dependencies_def edges_of_def map_of_eq_None_iff[symmetric])
next
  case (3 ord g n m ms v r x c d)
  let ?N = "fst ` set (cg_dependencies g)"
  have "v \<subseteq> fst (snd (detect_in ord g m (get_dependencies ord g m) (insert m v) (insert m r)))"
    using detect_in_visited[of ord g m "get_dependencies ord g m" "insert m v" "insert m r"] 3 by blast
  moreover have "fst (snd (detect_in ord g m (get_dependencies ord g m) (insert m v) (insert m r))) = d"
    using 3(2,3,4)[symmetric] by simp
  ultimately have "?N - d \<subseteq> ?N - v" by blast
  then have "?N - d \<subset> ?N - v \<or> ?N - d = ?N - v" by (simp only: psubset_eq) blast
  moreover have "finite (?N - v)" by simp
  ultimately show ?case by (simp add: finite_psubset_def)
qed (auto simp: finite_psubset_def)

definition detect_cycle_dfs :: "order \<Rightarrow> component_graph \<Rightarrow> component_id \<Rightarrow> component_id set \<Rightarrow> component_id set \<Rightarrow>
    component_id list option \<times> component_id set \<times> component_id set" where
  "detect_cycle_dfs ord g n v r = detect_in ord g n (get_dependencies ord g n) (insert n v) (insert n r)"

fun validate_from :: "order \<Rightarrow> component_graph \<Rightarrow> component_id list \<Rightarrow> component_id set \<Rightarrow> component_id set \<Rightarrow> compiler_error + unit" where
  "validate_from ord g [] v r = Inr ()"
| "validate_from ord g (i # is) v r =
     (if i \<in> v then validate_from ord g is v r
      else (case detect_cycle_dfs ord g i v r of
              (Some c, v', r') \<Rightarrow> Inl (CircularDependency c)
            | (None, v', r') \<Rightarrow> validate_from ord g is v' r'))"

definition validate :: "order \<Rightarrow> component_graph \<Rightarrow> compiler_error + unit" where
  "validate ord g = validate_from ord g (component_ids ord g) {} {}"

section \<open>Levels\<close>

type_synonym degrees = "component_id \<rightharpoonup> nat"

definition calculate_out_degrees :: "order \<Rightarrow> component_graph \<Rightarrow> degrees" where
  "calculate_out_degrees ord g =
     map_of (map (\<lambda>i. (i, case map_of (cg_dependencies g) i of None \<Rightarrow> 0 | Some ds \<Rightarrow> length ds)) (component_ids ord g))"

definition parallel_threshold :: nat where "parallel_threshold = 20"

definition visit_dependent :: "component_id set \<Rightarrow> component_id \<Rightarrow> component_id list \<times> degrees \<Rightarrow> component_id list \<times> degrees" where
  "visit_dependent processed x s =
     (let (nxt, deg) = s in
      if x \<in> processed then s
      else (case deg x of
              None \<Rightarrow> s
            | Some d \<Rightarrow> (if d - 1 = 0 then set_insert x nxt else nxt, deg(x \<mapsto> d - 1))))"

definition serial_next_level :: "order \<Rightarrow> component_graph \<Rightarrow> component_id list \<Rightarrow> degrees \<Rightarrow> component_id set \<Rightarrow> component_id list \<times> degrees" where
  "serial_next_level ord g current deg processed =
     fold (\<lambda>n. fold (visit_dependent processed) (get_dependents ord g n)) current ([], deg)"

definition count_dependent :: "component_id set \<Rightarrow> component_id \<Rightarrow> (component_id \<times> nat) list \<Rightarrow> (component_id \<times> nat) list" where
  "count_dependent processed x m =
     (if x \<in> processed then m else AList.update x (Suc (case map_of m x of None \<Rightarrow> 0 | Some k \<Rightarrow> k)) m)"

definition settle_dependent :: "(component_id \<times> nat) list \<Rightarrow> component_id \<Rightarrow> component_id list \<times> degrees \<Rightarrow> component_id list \<times> degrees" where
  "settle_dependent counts x s =
     (let (nxt, deg) = s in
      case deg x of
        None \<Rightarrow> s
      | Some d \<Rightarrow>
          let d' = d - (case map_of counts x of None \<Rightarrow> 0 | Some k \<Rightarrow> k) in
          (if d' = 0 then nxt @ [x] else nxt, deg(x \<mapsto> d')))"

definition parallel_next_level :: "order \<Rightarrow> component_graph \<Rightarrow> component_id list \<Rightarrow> degrees \<Rightarrow> component_id set \<Rightarrow> component_id list \<times> degrees" where
  \<comment> \<open>the counts are taken concurrently and only added to, so in any order\<close>
  "parallel_next_level ord g current deg processed =
     (let counts = fold (\<lambda>n. fold (count_dependent processed) (get_dependents ord g n)) current [] in
      fold (settle_dependent counts) (ord (map fst counts)) ([], deg))"

definition next_level :: "order \<Rightarrow> component_graph \<Rightarrow> component_id list \<Rightarrow> degrees \<Rightarrow> component_id set \<Rightarrow> component_id list \<times> degrees" where
  "next_level ord g current deg processed =
     (if length current > parallel_threshold then parallel_next_level ord g current deg processed
      else serial_next_level ord g current deg processed)"

partial_function (option) schedule_levels :: "order \<Rightarrow> component_graph \<Rightarrow> degrees \<Rightarrow> component_id set \<Rightarrow> component_id list \<Rightarrow>
    component_id list list \<Rightarrow> (component_id list list \<times> component_id set) option" where
  "schedule_levels ord g deg processed current levels =
     (if current = [] then Some (levels, processed)
      else let processed' = processed \<union> set current;
               (nxt, deg') = next_level ord g current deg processed' in
           schedule_levels ord g deg' processed' nxt (levels @ [current]))"

declare schedule_levels.simps [code]

definition sort_levels :: "order \<Rightarrow> component_graph \<Rightarrow> (compiler_error + component_id list list) option" where
  "sort_levels ord g =
     (case validate ord g of
        Inl e \<Rightarrow> Some (Inl e)
      | Inr _ \<Rightarrow>
          let deg = calculate_out_degrees ord g;
              current = filter (\<lambda>i. deg i = Some 0) (component_ids ord g) in
          if current = [] \<and> cg_count g \<noteq> 0
          then Some (Inl (InvalidGraph ''No components with zero dependencies found''))
          else (case schedule_levels ord g deg {} current [] of
                  None \<Rightarrow> None
                | Some (levels, processed) \<Rightarrow>
                    if card processed \<noteq> unat (cg_count g)
                    then Some (Inl (InvalidGraph (''Only processed '' @ show_nat (card processed) @ '' of '' @
                           show_nat (unat (cg_count g)) @ '' components - possible cycle'')))
                    else Some (Inr levels)))"

section \<open>Edges\<close>

definition orders :: "order \<Rightarrow> bool" where
  "orders ord \<longleftrightarrow> (\<forall>xs. mset (ord xs) = mset xs)"

lemma ordersD:
  assumes "orders ord"
  shows "set (ord xs) = set xs" "distinct (ord xs) = distinct xs" "length (ord xs) = length xs"
  using assms mset_eq_setD mset_eq_imp_distinct_iff mset_eq_length unfolding orders_def by blast+

definition depends_on :: "component_graph \<Rightarrow> component_id \<Rightarrow> component_id set" where
  "depends_on g n = (case map_of (cg_dependencies g) n of None \<Rightarrow> {} | Some ds \<Rightarrow> set ds)"

definition dependency :: "component_graph \<Rightarrow> component_id rel" where
  "dependency g = {(a, b). b \<in> depends_on g a}"

lemma set_dependencies [simp]: "orders ord \<Longrightarrow> set (get_dependencies ord g n) = depends_on g n"
  by (auto simp: get_dependencies_def edges_of_def depends_on_def ordersD split: option.split)

lemma dependency_iff [simp]: "(a, b) \<in> dependency g \<longleftrightarrow> b \<in> depends_on g a"
  by (simp add: dependency_def)

section \<open>Cycle detection is exact\<close>

definition finished :: "component_graph \<Rightarrow> component_id set \<Rightarrow> bool" where
  \<comment> \<open>closed under dependencies and on no cycle\<close>
  "finished g F \<longleftrightarrow> (\<forall>a\<in>F. depends_on g a \<subseteq> F) \<and> (\<forall>a\<in>F. (a, a) \<notin> (dependency g)\<^sup>+)"

lemma finished_closed:
  assumes "finished g F" "a \<in> F" "(a, b) \<in> (dependency g)\<^sup>*"
  shows "b \<in> F"
  using assms(3,2)
proof (induction rule: rtrancl_induct)
  case (step y z)
  then show ?case using assms(1) by (auto simp: finished_def)
qed

lemma finish_one:
  assumes "finished g F" "depends_on g n \<subseteq> F" "n \<notin> F"
  shows "finished g (insert n F)"
proof -
  have "(n, n) \<notin> (dependency g)\<^sup>+"
  proof
    assume "(n, n) \<in> (dependency g)\<^sup>+"
    then obtain b where "(n, b) \<in> dependency g" "(b, n) \<in> (dependency g)\<^sup>*" by (meson tranclD)
    then show False using assms finished_closed[OF assms(1), of b n] by auto
  qed
  then show ?thesis using assms by (auto simp: finished_def)
qed

definition on_cycle :: "component_graph \<Rightarrow> component_id list \<Rightarrow> bool" where
  "on_cycle g c \<longleftrightarrow> (\<exists>a b. c = [a, b] \<and> (a, b) \<in> dependency g \<and> (b, a) \<in> (dependency g)\<^sup>*)"

lemma detect_in_spec:
  "orders ord \<Longrightarrow> r \<subseteq> v \<Longrightarrow> n \<in> r \<Longrightarrow> (\<And>x. x \<in> r \<Longrightarrow> (x, n) \<in> (dependency g)\<^sup>*) \<Longrightarrow> set ms \<subseteq> depends_on g n \<Longrightarrow>
    depends_on g n - set ms \<subseteq> v - r \<Longrightarrow> finished g (v - r) \<Longrightarrow>
    (case detect_in ord g n ms v r of
       (Some c, _, _) \<Rightarrow> on_cycle g c
     | (None, v', r') \<Rightarrow> r' = r - {n} \<and> v \<subseteq> v' \<and> finished g (v' - r'))"
proof (induction ord g n ms v r rule: detect_in.induct)
  case (1 ord g n v r)
  have "v - (r - {n}) = insert n (v - r)" using 1(2,3) by auto
  then show ?case using 1(2-) finish_one[of g "v - r" n] by simp
next
  case (2 ord g n m ms v r)
  have e: "(n, m) \<in> dependency g" using 2(8) by simp
  show ?case
  proof (cases "m \<in> v")
    case in_v: True
    show ?thesis
    proof (cases "m \<in> r")
      case True
      then show ?thesis using in_v e 2(7)[OF True] by (auto simp: on_cycle_def)
    next
      case False
      have "depends_on g n - set ms \<subseteq> v - r" using 2(9) in_v False by auto
      then show ?thesis using in_v False 2(3)[OF _ False 2(4,5,6,7)] 2(8,10) by simp
    qed
  next
    case m: False
    then have mr: "m \<notin> r" using 2(5) by blast
    have same: "insert m v - insert m r = v - r" using m by auto
    have stack: "(x, m) \<in> (dependency g)\<^sup>*" if "x \<in> insert m r" for x
      using that 2(7)[of x] e by (auto intro: rtrancl_into_rtrancl)
    obtain res v' r' where d: "detect_in ord g m (get_dependencies ord g m) (insert m v) (insert m r) = (res, v', r')"
      using prod_cases3 by blast
    have IH: "case (res, v', r') of (Some c, _, _) \<Rightarrow> on_cycle g c
        | (None, v', r') \<Rightarrow> r' = insert m r - {m} \<and> insert m v \<subseteq> v' \<and> finished g (v' - r')"
      using 2(1)[OF m 2(4) _ _ stack] 2(4,5,10) same d by (simp add: subset_insertI2)
    show ?thesis
    proof (cases res)
      case (Some c)
      then show ?thesis using IH m d by simp
    next
      case None
      then have r': "r' = r" "insert m v \<subseteq> v'" "finished g (v' - r)" using IH mr by auto
      have fin: "depends_on g n - set ms \<subseteq> v' - r" using 2(9) mr r'(2) by auto
      have "case detect_in ord g n ms v' r' of (Some c, _, _) \<Rightarrow> on_cycle g c
          | (None, v'', r'') \<Rightarrow> r'' = r' - {n} \<and> v' \<subseteq> v'' \<and> finished g (v'' - r'')"
        using 2(2)[OF m d[symmetric] None refl] 2(4,5,6,7,8) r' fin by auto
      then show ?thesis using m d None r' by (auto split: prod.splits option.splits)
    qed
  qed
qed

lemma detect_cycle_spec:
  assumes "orders ord" "finished g v" "n \<notin> v" "detect_cycle_dfs ord g n v {} = (res, v', r')"
  shows "case res of Some c \<Rightarrow> on_cycle g c | None \<Rightarrow> r' = {} \<and> insert n v \<subseteq> v' \<and> finished g v'"
proof -
  have "insert n v - {n} = v" using assms(3) by auto
  then show ?thesis
    using detect_in_spec[of ord "{n}" "insert n v" n g "get_dependencies ord g n"] assms
    by (auto simp: detect_cycle_dfs_def split: option.splits)
qed

lemma validate_from_spec:
  "orders ord \<Longrightarrow> finished g v \<Longrightarrow>
   (case validate_from ord g is v {} of
      Inl e \<Rightarrow> \<exists>c. e = CircularDependency c \<and> on_cycle g c
    | Inr _ \<Rightarrow> \<exists>F. finished g F \<and> v \<union> set is \<subseteq> F)"
proof (induction "is" arbitrary: v)
  case (Cons i "is")
  show ?case
  proof (cases "i \<in> v")
    case True
    then show ?thesis using Cons.IH[OF Cons.prems] by (auto split: sum.splits)
  next
    case False
    obtain res v' r' where d: "detect_cycle_dfs ord g i v {} = (res, v', r')" using prod_cases3 by blast
    note spec = detect_cycle_spec[OF Cons.prems False d]
    show ?thesis
    proof (cases res)
      case (Some c)
      then show ?thesis using False d spec by auto
    next
      case None
      then have "r' = {}" "insert i v \<subseteq> v'" "finished g v'" using spec by auto
      then show ?thesis using False d None Cons.IH[OF Cons.prems(1), of v'] by (auto split: sum.splits)
    qed
  qed
qed auto

text \<open>The shape operations on fresh components give: the two edge maps mirror each other on the known components.\<close>

definition well_formed :: "component_graph \<Rightarrow> bool" where
  "well_formed g \<longleftrightarrow> distinct (map fst (cg_components g)) \<and> unat (cg_count g) = length (cg_components g) \<and>
     (\<forall>n. n \<notin> fst ` set (cg_components g) \<longrightarrow> depends_on g n = {}) \<and>
     (\<forall>n. depends_on g n \<subseteq> fst ` set (cg_components g)) \<and>
     (\<forall>n ds. map_of (cg_dependencies g) n = Some ds \<longrightarrow> distinct ds) \<and>
     (\<forall>n ds. map_of (cg_dependents g) n = Some ds \<longrightarrow> distinct ds) \<and>
     (\<forall>a b. a \<in> (case map_of (cg_dependents g) b of None \<Rightarrow> {} | Some xs \<Rightarrow> set xs) \<longleftrightarrow> b \<in> depends_on g a)"

abbreviation nodes :: "component_graph \<Rightarrow> component_id set" where
  "nodes g \<equiv> fst ` set (cg_components g)"

lemma well_formedD:
  assumes "well_formed g"
  shows "distinct (map fst (cg_components g))" "unat (cg_count g) = length (cg_components g)"
    "\<forall>n. n \<notin> nodes g \<longrightarrow> depends_on g n = {}" "\<forall>n. depends_on g n \<subseteq> nodes g"
    "\<forall>n ds. map_of (cg_dependencies g) n = Some ds \<longrightarrow> distinct ds"
    "\<forall>n ds. map_of (cg_dependents g) n = Some ds \<longrightarrow> distinct ds"
    "\<forall>a b. a \<in> (case map_of (cg_dependents g) b of None \<Rightarrow> {} | Some xs \<Rightarrow> set xs) \<longleftrightarrow> b \<in> depends_on g a"
  by (insert assms[unfolded well_formed_def], (elim conjE, assumption)+)

lemma component_ids_ok:
  assumes "orders ord" "well_formed g"
  shows "set (component_ids ord g) = nodes g" "distinct (component_ids ord g)"
  using well_formedD(1)[OF assms(2)] by (simp_all add: component_ids_def ordersD[OF assms(1)])

lemma set_dependents:
  assumes "orders ord" "well_formed g"
  shows "x \<in> set (get_dependents ord g n) \<longleftrightarrow> n \<in> depends_on g x" "distinct (get_dependents ord g n)"
proof -
  have "x \<in> (case map_of (cg_dependents g) n of None \<Rightarrow> {} | Some xs \<Rightarrow> set xs) \<longleftrightarrow> n \<in> depends_on g x"
    by (rule spec[OF spec[OF well_formedD(7)[OF assms(2)]]])
  then show "x \<in> set (get_dependents ord g n) \<longleftrightarrow> n \<in> depends_on g x"
    by (cases "map_of (cg_dependents g) n") (simp_all add: get_dependents_def edges_of_def ordersD[OF assms(1)])
  show "distinct (get_dependents ord g n)"
  proof (cases "map_of (cg_dependents g) n")
    case (Some xs)
    then have "distinct xs" using well_formedD(6)[OF assms(2)] by blast
    then show ?thesis using Some by (simp add: get_dependents_def edges_of_def ordersD[OF assms(1)])
  qed (simp add: get_dependents_def edges_of_def)
qed

lemma validate_ok:
  assumes "orders ord" "well_formed g"
  shows "validate ord g = Inr () \<longleftrightarrow> acyclic (dependency g)"
    "validate ord g = Inl e \<Longrightarrow> \<exists>c. e = CircularDependency c \<and> on_cycle g c"
proof -
  have f: "finished g {}" by (simp add: finished_def)
  note spec = validate_from_spec[OF assms(1) f, of "component_ids ord g", folded validate_def]
  show "validate ord g = Inl e \<Longrightarrow> \<exists>c. e = CircularDependency c \<and> on_cycle g c" using spec by simp
  show "validate ord g = Inr () \<longleftrightarrow> acyclic (dependency g)"
  proof
    assume "validate ord g = Inr ()"
    then obtain F where F: "finished g F" "nodes g \<subseteq> F" using spec component_ids_ok(1)[OF assms] by auto
    have "(a, a) \<notin> (dependency g)\<^sup>+" for a
    proof
      assume c: "(a, a) \<in> (dependency g)\<^sup>+"
      then obtain b where "b \<in> depends_on g a" by (metis converse_tranclE dependency_iff)
      then have "a \<in> nodes g" using well_formedD(3)[OF assms(2)] by auto
      then show False using c F by (auto simp: finished_def)
    qed
    then show "acyclic (dependency g)" by (simp add: acyclic_def)
  next
    assume a: "acyclic (dependency g)"
    show "validate ord g = Inr ()"
    proof (cases "validate ord g")
      case (Inl e)
      then obtain a b where "(a, b) \<in> dependency g" "(b, a) \<in> (dependency g)\<^sup>*" using spec by (auto simp: on_cycle_def)
      then have "(a, a) \<in> (dependency g)\<^sup>+" by (rule rtrancl_into_trancl2)
      then show ?thesis using a by (simp add: acyclic_def)
    qed simp
  qed
qed

section \<open>The next level\<close>

definition visits :: "order \<Rightarrow> component_graph \<Rightarrow> component_id list \<Rightarrow> component_id list" where
  \<comment> \<open>the dependents of a level, one by one\<close>
  "visits ord g current = concat (map (get_dependents ord g) current)"

lemma fold_nested: "fold (\<lambda>n. fold f (h n)) xs s = fold f (concat (map h xs)) s"
  by (induction xs arbitrary: s) simp_all

lemma set_insert_props [simp]:
  "set (set_insert x xs) = insert x (set xs)" "distinct (set_insert x xs) = distinct xs"
  by (auto simp: set_insert_def)

definition reached_zero :: "component_id set \<Rightarrow> component_id list \<Rightarrow> degrees \<Rightarrow> component_id set" where
  "reached_zero P ps deg = {x. x \<notin> P \<and> x \<in> set ps \<and> (\<exists>d. deg x = Some d \<and> d \<le> count_list ps x)}"

definition lowered :: "component_id set \<Rightarrow> component_id list \<Rightarrow> degrees \<Rightarrow> degrees" where
  "lowered P ps deg = (\<lambda>x. if x \<in> P then deg x else map_option (\<lambda>d. d - count_list ps x) (deg x))"

lemma reached_zero_Cons:
  assumes "y \<notin> P" "deg y = Some d"
  shows "reached_zero P (y # ps) deg = (if d - 1 = 0 then {y} else {}) \<union> reached_zero P ps (deg(y \<mapsto> d - 1))"
proof -
  have "x \<in> reached_zero P (y # ps) deg \<longleftrightarrow> (x = y \<and> d - 1 = 0) \<or> x \<in> reached_zero P ps (deg(y \<mapsto> d - 1))" for x
  proof (cases "x = y")
    case True
    have l: "x \<in> reached_zero P (y # ps) deg \<longleftrightarrow> d \<le> Suc (count_list ps y)"
      using True assms by (simp add: reached_zero_def)
    have r: "x \<in> reached_zero P ps (deg(y \<mapsto> d - 1)) \<longleftrightarrow> y \<in> set ps \<and> d - 1 \<le> count_list ps y"
      using True assms by (simp add: reached_zero_def)
    show ?thesis
    proof (cases "y \<in> set ps")
      case False
      then have "count_list ps y = 0" by (rule count_notin)
      then show ?thesis unfolding l r using True False by simp
    next
      case in_ps: True
      show ?thesis unfolding l r using True in_ps by auto
    qed
  next
    case False
    then show ?thesis by (simp add: reached_zero_def)
  qed
  then show ?thesis by (intro set_eqI) simp
qed

lemma lowered_Cons:
  assumes "y \<notin> P" "deg y = Some d"
  shows "lowered P (y # ps) deg = lowered P ps (deg(y \<mapsto> d - 1))"
  using assms by (auto simp: lowered_def fun_eq_iff)

lemma skip_visit:
  assumes "y \<in> P \<or> deg y = None"
  shows "reached_zero P (y # ps) deg = reached_zero P ps deg" "lowered P (y # ps) deg = lowered P ps deg"
  using assms by (auto simp: reached_zero_def lowered_def fun_eq_iff)

lemma visit_all:
  "distinct nxt \<Longrightarrow> fold (visit_dependent P) ps (nxt, deg) = (nxt', deg') \<Longrightarrow>
   distinct nxt' \<and> set nxt' = set nxt \<union> reached_zero P ps deg \<and> deg' = lowered P ps deg"
proof (induction ps arbitrary: nxt deg)
  case Nil
  then show ?case by (auto simp: reached_zero_def lowered_def fun_eq_iff option.map_ident)
next
  case (Cons y ps)
  show ?case
  proof (cases "y \<in> P \<or> deg y = None")
    case True
    then have "visit_dependent P y (nxt, deg) = (nxt, deg)" by (auto simp: visit_dependent_def)
    then show ?thesis using Cons skip_visit[of y P deg ps] True by simp
  next
    case False
    then obtain d where d: "deg y = Some d" "y \<notin> P" by auto
    have v: "visit_dependent P y (nxt, deg) = (if d - 1 = 0 then set_insert y nxt else nxt, deg(y \<mapsto> d - 1))"
      using d by (simp add: visit_dependent_def)
    have "distinct nxt' \<and> set nxt' = set (if d - 1 = 0 then set_insert y nxt else nxt) \<union> reached_zero P ps (deg(y \<mapsto> d - 1)) \<and>
        deg' = lowered P ps (deg(y \<mapsto> d - 1))"
    proof (rule Cons.IH)
      show "distinct (if d - 1 = 0 then set_insert y nxt else nxt)" using Cons.prems(1) by simp
      show "fold (visit_dependent P) ps (if d - 1 = 0 then set_insert y nxt else nxt, deg(y \<mapsto> d - 1)) = (nxt', deg')"
        using Cons.prems(2) unfolding fold_Cons comp_apply v .
    qed
    then show ?thesis unfolding reached_zero_Cons[of y P deg, OF d(2,1)] lowered_Cons[of y P deg, OF d(2,1)] by auto
  qed
qed

lemma counts_all:
  "distinct (map fst m) \<Longrightarrow>
   distinct (map fst (fold (count_dependent P) ps m)) \<and>
   map_of (fold (count_dependent P) ps m) x =
     (if x \<notin> P \<and> x \<in> set ps then Some ((case map_of m x of None \<Rightarrow> 0 | Some k \<Rightarrow> k) + count_list ps x) else map_of m x)"
proof (induction ps arbitrary: m)
  case (Cons y ps)
  have "distinct (map fst (count_dependent P y m))" using Cons.prems by (simp add: count_dependent_def distinct_update)
  note IH = Cons.IH[OF this]
  show ?case
  proof (cases "y \<in> P")
    case True
    then show ?thesis using IH by (auto simp: count_dependent_def)
  next
    case False
    then have "map_of (count_dependent P y m) x = (if x = y then Some (Suc (case map_of m y of None \<Rightarrow> 0 | Some k \<Rightarrow> k)) else map_of m x)"
      by (auto simp: count_dependent_def update_conv)
    then show ?thesis using IH False by auto
  qed
qed simp

lemma settle_all:
  "distinct ks \<Longrightarrow>
   fold (settle_dependent m) ks (nxt, deg) =
     (nxt @ filter (\<lambda>x. \<exists>d. deg x = Some d \<and> d \<le> (case map_of m x of None \<Rightarrow> 0 | Some k \<Rightarrow> k)) ks,
      \<lambda>x. if x \<in> set ks then map_option (\<lambda>d. d - (case map_of m x of None \<Rightarrow> 0 | Some k \<Rightarrow> k)) (deg x) else deg x)"
proof (induction ks arbitrary: nxt deg)
  case (Cons y ks)
  let ?c = "\<lambda>x. case map_of m x of None \<Rightarrow> 0 | Some k \<Rightarrow> k"
  have y: "y \<notin> set ks" "distinct ks" using Cons.prems by simp_all
  show ?case
  proof (cases "deg y")
    case None
    then show ?thesis using Cons.IH[OF y(2)] by (auto simp: settle_dependent_def fun_eq_iff)
  next
    case (Some d)
    let ?deg = "deg(y \<mapsto> d - ?c y)" and ?nxt = "if d - ?c y = 0 then nxt @ [y] else nxt"
    have s: "settle_dependent m y (nxt, deg) = (?nxt, ?deg)" using Some by (simp add: settle_dependent_def Let_def)
    have f: "filter (\<lambda>x. \<exists>d. ?deg x = Some d \<and> d \<le> ?c x) ks = filter (\<lambda>x. \<exists>d. deg x = Some d \<and> d \<le> ?c x) ks"
      by (rule filter_cong[OF refl]) (use y in auto)
    have "fold (settle_dependent m) ks (?nxt, ?deg) =
        (?nxt @ filter (\<lambda>x. \<exists>d. deg x = Some d \<and> d \<le> ?c x) ks,
         \<lambda>x. if x \<in> set ks then map_option (\<lambda>d. d - ?c x) (?deg x) else ?deg x)"
      unfolding Cons.IH[OF y(2)] f ..
    then show ?thesis using Some y by (simp add: s fun_eq_iff)
  qed
qed simp

lemma next_level_spec:
  assumes "orders ord"
  shows "serial_next_level ord g current deg P = (nxt, deg') \<Longrightarrow>
     distinct nxt \<and> set nxt = reached_zero P (visits ord g current) deg \<and> deg' = lowered P (visits ord g current) deg"
    "parallel_next_level ord g current deg P = (nxt, deg') \<Longrightarrow>
     distinct nxt \<and> set nxt = reached_zero P (visits ord g current) deg \<and> deg' = lowered P (visits ord g current) deg"
proof -
  let ?ps = "visits ord g current"
  show "serial_next_level ord g current deg P = (nxt, deg') \<Longrightarrow>
     distinct nxt \<and> set nxt = reached_zero P ?ps deg \<and> deg' = lowered P ?ps deg"
    using visit_all[of "[]" P ?ps deg nxt deg'] by (simp add: serial_next_level_def fold_nested visits_def)
  assume p: "parallel_next_level ord g current deg P = (nxt, deg')"
  define m where "m = fold (count_dependent P) ?ps []"
  have m: "distinct (map fst m)" "map_of m x = (if x \<notin> P \<and> x \<in> set ?ps then Some (count_list ?ps x) else None)" for x
    unfolding m_def using counts_all[of "[]" P ?ps x] by simp_all
  have ks: "distinct (ord (map fst m))" "set (ord (map fst m)) = {x. x \<notin> P \<and> x \<in> set ?ps}"
  proof -
    show "distinct (ord (map fst m))" using m(1) ordersD(2)[OF assms] by simp
    have "x \<in> fst ` set m \<longleftrightarrow> x \<notin> P \<and> x \<in> set ?ps" for x
      using m(2)[of x] map_of_eq_None_iff[of m x] by (auto split: if_splits)
    then show "set (ord (map fst m)) = {x. x \<notin> P \<and> x \<in> set ?ps}"
      unfolding ordersD(1)[OF assms] set_map by blast
  qed
  have "fold (settle_dependent m) (ord (map fst m)) ([], deg) = (nxt, deg')"
    using p by (simp add: parallel_next_level_def fold_nested m_def visits_def Let_def)
  then have e: "nxt = filter (\<lambda>x. \<exists>d. deg x = Some d \<and> d \<le> (case map_of m x of None \<Rightarrow> 0 | Some k \<Rightarrow> k)) (ord (map fst m))"
    "deg' = (\<lambda>x. if x \<in> set (ord (map fst m)) then map_option (\<lambda>d. d - (case map_of m x of None \<Rightarrow> 0 | Some k \<Rightarrow> k)) (deg x) else deg x)"
    unfolding settle_all[OF ks(1)] by simp_all
  have "distinct nxt" using ks(1) e(1) by simp
  moreover have "set nxt = reached_zero P ?ps deg" unfolding e(1) using ks(2) m(2) by (auto simp: reached_zero_def)
  moreover have "deg' = lowered P ?ps deg"
    unfolding e(2) using ks(2) m(2) count_notin[of _ ?ps] by (auto simp: lowered_def fun_eq_iff option.map_ident)
  ultimately show "distinct nxt \<and> set nxt = reached_zero P ?ps deg \<and> deg' = lowered P ?ps deg" by simp
qed

lemma next_level_either:
  assumes "orders ord" "next_level ord g current deg P = (nxt, deg')"
  shows "distinct nxt \<and> set nxt = reached_zero P (visits ord g current) deg \<and> deg' = lowered P (visits ord g current) deg"
  using assms(2) next_level_spec[OF assms(1)] by (simp add: next_level_def split: if_splits)

section \<open>The schedule\<close>

definition unblocked :: "component_graph \<Rightarrow> component_id set \<Rightarrow> component_id set" where
  "unblocked g P = {x \<in> nodes g. x \<notin> P \<and> depends_on g x \<subseteq> P}"

fun layered :: "component_graph \<Rightarrow> component_id set \<Rightarrow> component_id list list \<Rightarrow> bool" where
  \<comment> \<open>each level is what the levels before it make ready, until nothing is\<close>
  "layered g P [] \<longleftrightarrow> unblocked g P = {}"
| "layered g P (L # Ls) \<longleftrightarrow> L \<noteq> [] \<and> distinct L \<and> set L = unblocked g P \<and> layered g (P \<union> set L) Ls"

definition frontier :: "component_graph \<Rightarrow> degrees \<Rightarrow> component_id set \<Rightarrow> component_id list \<Rightarrow> bool" where
  "frontier g deg P C \<longleftrightarrow> distinct C \<and> set C = unblocked g P \<and>
     (\<forall>x. x \<notin> P \<longrightarrow> deg x = (if x \<in> nodes g then Some (card (depends_on g x - P)) else None))"

lemma finite_depends [simp]: "finite (depends_on g x)"
  by (simp add: depends_on_def split: option.split)

lemma count_list_distinct: "distinct xs \<Longrightarrow> count_list xs x = (if x \<in> set xs then 1 else 0)"
  by (induction xs) auto

lemma count_visits:
  assumes "orders ord" "well_formed g" "distinct C"
  shows "count_list (visits ord g C) x = card (set C \<inter> depends_on g x)"
  using assms(3)
proof (induction C)
  case (Cons n C)
  have one: "count_list (get_dependents ord g n) x = (if n \<in> depends_on g x then 1 else 0)"
    using set_dependents(1)[OF assms(1,2), of x n] count_list_distinct[OF set_dependents(2)[OF assms(1,2), of n], of x] by simp
  have "(insert n (set C)) \<inter> depends_on g x = (if n \<in> depends_on g x then insert n (set C \<inter> depends_on g x) else set C \<inter> depends_on g x)"
    by auto
  then show ?case using Cons one by (simp add: visits_def)
qed (simp add: visits_def)

lemma set_visits:
  assumes "orders ord" "well_formed g"
  shows "x \<in> set (visits ord g C) \<longleftrightarrow> set C \<inter> depends_on g x \<noteq> {}"
  using set_dependents(1)[OF assms] by (auto simp: visits_def)

lemma frontier_step:
  assumes ord: "orders ord" and wf: "well_formed g" and f: "frontier g deg P C"
    and n: "next_level ord g C deg (P \<union> set C) = (nxt, deg')"
  shows "frontier g deg' (P \<union> set C) nxt"
proof -
  let ?P = "P \<union> set C"
  have C: "distinct C" "set C = unblocked g P" using f by (simp_all add: frontier_def)
  have disj: "set C \<inter> depends_on g x \<subseteq> depends_on g x - P" for x using C(2) by (auto simp: unblocked_def)
  have left: "card (depends_on g x - P) - count_list (visits ord g C) x = card (depends_on g x - ?P)" for x
  proof -
    have "depends_on g x - ?P = (depends_on g x - P) - (set C \<inter> depends_on g x)" by auto
    then show ?thesis unfolding count_visits[OF ord wf C(1)] by (simp add: card_Diff_subset[OF _ disj])
  qed
  have deg: "x \<notin> ?P \<Longrightarrow> deg x = (if x \<in> nodes g then Some (card (depends_on g x - P)) else None)" for x
    using f by (simp add: frontier_def)
  have res: "distinct nxt" "set nxt = reached_zero ?P (visits ord g C) deg" "deg' = lowered ?P (visits ord g C) deg"
    using next_level_either[OF ord n] by simp_all
  have "deg' x = (if x \<in> nodes g then Some (card (depends_on g x - ?P)) else None)" if "x \<notin> ?P" for x
    using deg[OF that] left[of x] that unfolding res(3) lowered_def by simp
  moreover have "x \<in> set nxt \<longleftrightarrow> x \<in> unblocked g ?P" for x
  proof
    assume "x \<in> set nxt"
    then obtain d where d: "x \<notin> ?P" "deg x = Some d" "d \<le> count_list (visits ord g C) x"
      unfolding res(2) reached_zero_def by blast
    then have "x \<in> nodes g" "card (depends_on g x - P) = d" using deg[OF d(1)] by (auto split: if_splits)
    moreover have "card (depends_on g x - ?P) = 0" using left[of x] calculation(2) d(3) by simp
    ultimately show "x \<in> unblocked g ?P" using d(1) by (simp add: unblocked_def)
  next
    assume r: "x \<in> unblocked g ?P"
    then have x: "x \<in> nodes g" "x \<notin> ?P" "depends_on g x \<subseteq> ?P" by (simp_all add: unblocked_def)
    have "\<not> depends_on g x \<subseteq> P" using x C(2) by (auto simp: unblocked_def)
    then have "set C \<inter> depends_on g x \<noteq> {}" using x(3) by blast
    then have "x \<in> set (visits ord g C)" using set_visits[OF ord wf] by blast
    moreover have "card (depends_on g x - ?P) = 0" using x(3) by (simp add: Diff_eq_empty_iff)
    then have "card (depends_on g x - P) \<le> count_list (visits ord g C) x" using left[of x] by linarith
    ultimately show "x \<in> set nxt" unfolding res(2) reached_zero_def using deg[OF x(2)] x(1,2) by simp
  qed
  ultimately show ?thesis using res(1) by (auto simp: frontier_def)
qed

text \<open>The loop ends: each level takes components out of those left.\<close>

lemma schedule_ends:
  assumes "orders ord" "well_formed g"
  shows "frontier g deg P C \<Longrightarrow>
    \<exists>Ls. schedule_levels ord g deg P C levels = Some (levels @ Ls, P \<union> set (concat Ls)) \<and> layered g P Ls"
proof (induction "card (nodes g - P)" arbitrary: deg P C levels rule: less_induct)
  case less
  show ?case
  proof (cases "C = []")
    case True
    then have "unblocked g P = {}" using less.prems by (simp add: frontier_def)
    then show ?thesis using True by (intro exI[of _ "[]"]) (simp add: schedule_levels.simps)
  next
    case False
    obtain nxt deg' where n: "next_level ord g C deg (P \<union> set C) = (nxt, deg')" by fastforce
    have C: "distinct C" "set C = unblocked g P" using less.prems by (simp_all add: frontier_def)
    obtain x where "x \<in> set C" using False by (cases C) auto
    then have "x \<in> nodes g - P" "x \<notin> nodes g - (P \<union> set C)" using C(2) by (auto simp: unblocked_def)
    then have "nodes g - (P \<union> set C) \<subset> nodes g - P" by blast
    then have smaller: "card (nodes g - (P \<union> set C)) < card (nodes g - P)" by (intro psubset_card_mono) simp_all
    obtain Ls where Ls: "schedule_levels ord g deg' (P \<union> set C) nxt (levels @ [C]) =
        Some ((levels @ [C]) @ Ls, P \<union> set C \<union> set (concat Ls))" "layered g (P \<union> set C) Ls"
      using less.hyps[OF smaller frontier_step[OF assms less.prems n]] by blast
    have "schedule_levels ord g deg P C levels = schedule_levels ord g deg' (P \<union> set C) nxt (levels @ [C])"
      using False n by (simp add: schedule_levels.simps[of ord g deg P C])
    then show ?thesis using Ls False C by (intro exI[of _ "C # Ls"]) (simp add: Un_assoc)
  qed
qed

lemma layered_all:
  assumes "layered g P Ls"
  shows "set (concat Ls) \<subseteq> nodes g - P \<and> distinct (concat Ls) \<and> unblocked g (P \<union> set (concat Ls)) = {} \<and>
    (\<forall>i<length Ls. set (Ls ! i) = unblocked g (P \<union> set (concat (take i Ls))))"
  using assms
proof (induction Ls arbitrary: P)
  case (Cons L Ls)
  have "layered g (P \<union> set L) Ls" using Cons.prems unfolding layered.simps by blast
  note lay = Cons.IH[OF this]
  have IH: "set (concat Ls) \<subseteq> nodes g - (P \<union> set L)" "distinct (concat Ls)" "unblocked g (P \<union> set L \<union> set (concat Ls)) = {}"
    "\<And>i. i < length Ls \<Longrightarrow> set (Ls ! i) = unblocked g (P \<union> set L \<union> set (concat (take i Ls)))"
    using lay by blast+
  have L: "set L \<subseteq> nodes g - P" "distinct L" "set L = unblocked g P" using Cons.prems by (auto simp: unblocked_def)
  have "set ((L # Ls) ! i) = unblocked g (P \<union> set (concat (take i (L # Ls))))" if "i < length (L # Ls)" for i
    using that L(3) IH(4)[of "i - 1"] by (cases i) (simp_all add: Un_assoc)
  moreover have "set (concat (L # Ls)) \<subseteq> nodes g - P" using IH(1) L(1) by auto
  moreover have "distinct (concat (L # Ls))" using IH(1,2) L(2) by auto
  moreover have "unblocked g (P \<union> set (concat (L # Ls))) = {}" using IH(3) by (simp add: Un_assoc)
  ultimately show ?case by blast
qed simp

lemma acyclic_ready:
  assumes "well_formed g" "acyclic (dependency g)" "unblocked g P = {}"
  shows "nodes g \<subseteq> P"
proof (rule ccontr)
  assume "\<not> nodes g \<subseteq> P"
  then obtain x where x: "x \<in> nodes g - P" by blast
  have "dependency g \<subseteq> nodes g \<times> nodes g"
    using well_formedD(3,4)[OF assms(1)] by (auto simp: dependency_def)
  then have "finite (dependency g)" by (rule finite_subset) simp
  then have "wf ((dependency g)\<inverse>)" using assms(2) by (rule finite_acyclic_wf_converse)
  from wfE_min[OF this x] obtain z where z: "z \<in> nodes g - P" "\<And>y. (y, z) \<in> (dependency g)\<inverse> \<Longrightarrow> y \<notin> nodes g - P" by blast
  have "depends_on g z \<subseteq> P"
  proof
    fix y assume y: "y \<in> depends_on g z"
    then have "y \<in> nodes g" using well_formedD(4)[OF assms(1)] by blast
    then show "y \<in> P" using z(2)[of y] y by auto
  qed
  then show False using z(1) assms(3) by (auto simp: unblocked_def)
qed

text \<open>C37. The two ways to compute a level agree: counting the edges of a whole level concurrently and lowering
  every degree once gives the same degrees and the same components as lowering them edge by edge.\<close>

theorem parallel_is_serial:
  assumes "orders ord"
  shows "snd (parallel_next_level ord g current deg P) = snd (serial_next_level ord g current deg P) \<and>
    set (fst (parallel_next_level ord g current deg P)) = set (fst (serial_next_level ord g current deg P)) \<and>
    distinct (fst (parallel_next_level ord g current deg P)) \<and> distinct (fst (serial_next_level ord g current deg P))"
  using next_level_spec[OF assms, of g current deg P "fst (serial_next_level ord g current deg P)" "snd (serial_next_level ord g current deg P)"]
    next_level_spec[OF assms, of g current deg P "fst (parallel_next_level ord g current deg P)" "snd (parallel_next_level ord g current deg P)"]
  by simp

lemma first_frontier:
  assumes "orders ord" "well_formed g"
  shows "frontier g (calculate_out_degrees ord g) {} (filter (\<lambda>i. calculate_out_degrees ord g i = Some 0) (component_ids ord g))"
proof -
  have d: "calculate_out_degrees ord g x = (if x \<in> nodes g then Some (card (depends_on g x)) else None)" for x
  proof -
    have "card (depends_on g x) = (case map_of (cg_dependencies g) x of None \<Rightarrow> 0 | Some ds \<Rightarrow> length ds)"
    proof (cases "map_of (cg_dependencies g) x")
      case (Some ds)
      then have "distinct ds" using well_formedD(5)[OF assms(2)] by blast
      then show ?thesis using Some by (simp add: depends_on_def distinct_card)
    qed (simp add: depends_on_def)
    then show ?thesis using component_ids_ok(1)[OF assms] by (simp add: calculate_out_degrees_def map_of_map_restrict restrict_map_def)
  qed
  have "x \<in> unblocked g {} \<longleftrightarrow> x \<in> nodes g \<and> card (depends_on g x) = 0" for x by (simp add: unblocked_def)
  then show ?thesis using component_ids_ok[OF assms] by (auto simp: frontier_def d)
qed

text \<open>What a sort means: every component once, each level exactly what the levels before it make ready.\<close>

definition sorted_into :: "component_graph \<Rightarrow> component_id list list \<Rightarrow> bool" where
  "sorted_into g Ls \<longleftrightarrow> distinct (concat Ls) \<and> set (concat Ls) = nodes g \<and>
     (\<forall>i<length Ls. set (Ls ! i) = {x \<in> nodes g. x \<notin> set (concat (take i Ls)) \<and> depends_on g x \<subseteq> set (concat (take i Ls))})"

lemma sort_cases:
  assumes "orders ord" "well_formed g"
  shows "if acyclic (dependency g) then (\<exists>Ls. sort_levels ord g = Some (Inr Ls) \<and> sorted_into g Ls)
    else (\<exists>a b. sort_levels ord g = Some (Inl (CircularDependency [a, b])) \<and>
       (a, b) \<in> dependency g \<and> (b, a) \<in> (dependency g)\<^sup>*)"
proof (cases "acyclic (dependency g)")
  case False
  obtain e where e: "validate ord g = Inl e" using validate_ok(1)[OF assms] False by (cases "validate ord g") auto
  then show ?thesis using validate_ok(2)[OF assms e] False by (auto simp: sort_levels_def on_cycle_def)
next
  case True
  let ?deg = "calculate_out_degrees ord g"
  let ?C = "filter (\<lambda>i. ?deg i = Some 0) (component_ids ord g)"
  have v: "validate ord g = Inr ()" using validate_ok(1)[OF assms] True by simp
  note f = first_frontier[OF assms]
  obtain Ls where Ls: "schedule_levels ord g ?deg {} ?C [] = Some (Ls, set (concat Ls))" "layered g {} Ls"
    using schedule_ends[OF assms f, of "[]"] by auto
  have all: "set (concat Ls) \<subseteq> nodes g" "distinct (concat Ls)" "unblocked g (set (concat Ls)) = {}"
    "\<And>i. i < length Ls \<Longrightarrow> set (Ls ! i) = unblocked g (set (concat (take i Ls)))"
    using layered_all[OF Ls(2)] by simp_all
  have nodes: "set (concat Ls) = nodes g" using all(1) acyclic_ready[OF assms(2) True all(3)] by blast
  have cnt: "card (nodes g) = unat (cg_count g)"
    using well_formedD(1,2)[OF assms(2)] distinct_card[of "map fst (cg_components g)"] by simp
  have some: "cg_count g = 0" if "?C = []"
  proof -
    have "set ?C = unblocked g {}" by (rule conjunct1[OF conjunct2[OF f[unfolded frontier_def]]])
    then have "unblocked g {} = {}" unfolding that list.set(1) by (rule sym)
    from acyclic_ready[OF assms(2) True this] have "nodes g = {}" by (rule subset_empty[THEN iffD1])
    then have "unat (cg_count g) = 0" using cnt by simp
    then show ?thesis by (simp only: unat_eq_zero)
  qed
  have "sort_levels ord g = Some (Inr Ls)"
  proof -
    have c: "(?C = [] \<and> cg_count g \<noteq> 0) = False" using some by blast
    have d: "(card (set (concat Ls)) \<noteq> unat (cg_count g)) = False" unfolding nodes cnt by simp
    show ?thesis unfolding sort_levels_def v sum.case Let_def c if_False Ls(1) option.case prod.case d ..
  qed
  then show ?thesis using True all nodes by (simp add: sorted_into_def unblocked_def)
qed

section \<open>Graphs as they are built\<close>

datatype graph_op = Add component | Depend component_id component_id

fun graph_step :: "graph_op \<Rightarrow> component_graph \<Rightarrow> component_graph" where
  "graph_step (Add c) g = snd (add_component c g)"
| "graph_step (Depend a b) g = snd (add_dependency a b g)"

definition graph_run :: "graph_op list \<Rightarrow> component_graph" where
  "graph_run ops = fold graph_step ops graph_new"

fun unassigned :: "graph_op \<Rightarrow> bool" where
  "unassigned (Add c) \<longleftrightarrow> co_id c = 0"
| "unassigned (Depend a b) \<longleftrightarrow> True"

definition growing :: "component_graph \<Rightarrow> bool" where
  "growing g \<longleftrightarrow> well_formed g \<and> cg_next g = cg_count g \<and> (\<forall>n\<in>nodes g. unat n < unat (cg_next g))"

lemma update_nonkey: "k \<notin> fst ` set xs \<Longrightarrow> AList.update k v xs = xs @ [(k, v)]"
  by (induction xs) auto

lemma growing_add:
  assumes "growing g" "co_id c = 0" "unat (cg_count g) + 1 < 2 ^ 64"
  shows "growing (snd (add_component c g))" "cg_count (snd (add_component c g)) = cg_count g + 1"
proof -
  define i where "i = cg_next g"
  let ?g = "snd (add_component c g)"
  have wf: "well_formed g" and nx: "cg_next g = cg_count g" and lt: "\<And>n. n \<in> nodes g \<Longrightarrow> unat n < unat i"
    using assms(1) by (auto simp: growing_def i_def)
  have fresh: "i \<notin> nodes g" using lt by blast
  have g: "cg_components ?g = cg_components g @ [(i, c\<lparr>co_id := i\<rparr>)]" "cg_count ?g = cg_count g + 1" "cg_next ?g = i + 1"
    "cg_dependencies ?g = AList.update i [] (cg_dependencies g)" "cg_dependents ?g = AList.update i [] (cg_dependents g)"
    using assms(2) fresh by (simp_all add: add_component_def next_id_def i_def update_nonkey)
  show "cg_count ?g = cg_count g + 1" by (rule g(2))
  have deps: "depends_on ?g n = depends_on g n" for n
    using well_formedD(3)[OF wf] fresh by (auto simp: depends_on_def g update_conv)
  have none: "i \<notin> depends_on g n" for n using well_formedD(4)[OF wf] fresh by blast
  have suc: "unat (i + 1) = unat i + 1" using assms(3) nx by (simp add: i_def unat_add_small)
  have mirror: "a \<in> (case map_of (cg_dependents ?g) b of None \<Rightarrow> {} | Some xs \<Rightarrow> set xs) \<longleftrightarrow> b \<in> depends_on ?g a" for a b
    using spec[OF spec[OF well_formedD(7)[OF wf]], of a b] none by (simp add: deps g update_conv)
  have "well_formed ?g"
    unfolding well_formed_def
  proof (intro conjI allI impI)
    show "distinct (map fst (cg_components ?g))" using well_formedD(1)[OF wf] fresh by (simp add: g)
    show "unat (cg_count ?g) = length (cg_components ?g)" using well_formedD(2)[OF wf] suc nx by (simp add: g i_def)
    show "depends_on ?g n = {}" if "n \<notin> nodes ?g" for n using that well_formedD(3)[OF wf] by (simp add: deps g)
    show "depends_on ?g n \<subseteq> nodes ?g" for n using well_formedD(4)[OF wf] by (auto simp: deps g)
    show "distinct ds" if "map_of (cg_dependencies ?g) n = Some ds" for n ds
    proof (cases "n = i")
      case False
      then have "map_of (cg_dependencies g) n = Some ds" using that by (simp add: g update_conv)
      then show ?thesis using well_formedD(5)[OF wf] by blast
    qed (use that in \<open>simp add: g update_conv\<close>)
    show "distinct ds" if "map_of (cg_dependents ?g) n = Some ds" for n ds
    proof (cases "n = i")
      case False
      then have "map_of (cg_dependents g) n = Some ds" using that by (simp add: g update_conv)
      then show ?thesis using well_formedD(6)[OF wf] by blast
    qed (use that in \<open>simp add: g update_conv\<close>)
  qed (rule mirror)
  then show "growing ?g" using lt suc nx by (auto simp: growing_def g i_def less_Suc_eq)
qed

lemma insert_edge_get: "map_of (insert_edge a b es) n = (if n = a then Some (set_insert b (case map_of es a of None \<Rightarrow> [] | Some xs \<Rightarrow> xs)) else map_of es n)"
  by (simp add: insert_edge_def update_conv)

lemma growing_depend:
  assumes "growing g"
  shows "growing (snd (add_dependency a b g))" "cg_count (snd (add_dependency a b g)) = cg_count g"
proof -
  let ?g = "snd (add_dependency a b g)"
  show "cg_count ?g = cg_count g" by (simp add: add_dependency_def)
  show "growing ?g"
  proof (cases "map_of (cg_components g) a = None \<or> map_of (cg_components g) b = None")
    case True
    then have "?g = g" by (auto simp: add_dependency_def)
    then show ?thesis using assms by simp
  next
    case False
    then have ab: "a \<in> nodes g" "b \<in> nodes g" by (auto simp: map_of_eq_None_iff)
    obtain ca cb where known: "map_of (cg_components g) a = Some ca" "map_of (cg_components g) b = Some cb" using False by auto
    have wf: "well_formed g" using assms by (simp add: growing_def)
    have g: "cg_components ?g = cg_components g" "cg_count ?g = cg_count g" "cg_next ?g = cg_next g"
      "cg_dependencies ?g = insert_edge a b (cg_dependencies g)" "cg_dependents ?g = insert_edge b a (cg_dependents g)"
      by (simp_all add: add_dependency_def known)
    have deps: "depends_on ?g n = (if n = a then insert b (depends_on g a) else depends_on g n)" for n
      by (simp add: depends_on_def g insert_edge_get split: option.split)
    have m: "x \<in> (case map_of (cg_dependents g) y of None \<Rightarrow> {} | Some xs \<Rightarrow> set xs) \<longleftrightarrow> y \<in> depends_on g x" for x y
      by (rule spec[OF spec[OF well_formedD(7)[OF wf]]])
    have dis: "distinct (case map_of es k of None \<Rightarrow> [] | Some xs \<Rightarrow> xs)"
      if "\<forall>n ds. map_of es n = Some ds \<longrightarrow> distinct ds" for es :: "(component_id \<times> component_id list) list" and k
    proof (cases "map_of es k")
      case (Some xs)
      then have "distinct xs" using that by blast
      then show ?thesis using Some by simp
    qed simp
    have "well_formed ?g"
      unfolding well_formed_def
    proof (intro conjI allI impI)
      show "distinct (map fst (cg_components ?g))" using well_formedD(1)[OF wf] by (simp add: g)
      show "unat (cg_count ?g) = length (cg_components ?g)" using well_formedD(2)[OF wf] by (simp add: g)
      show "depends_on ?g n = {}" if "n \<notin> nodes ?g" for n using that ab well_formedD(3)[OF wf] by (auto simp: deps g)
      show "depends_on ?g n \<subseteq> nodes ?g" for n using well_formedD(4)[OF wf] ab by (auto simp: deps g)
      show "distinct ds" if "map_of (cg_dependencies ?g) n = Some ds" for n ds
      proof (cases "n = a")
        case True
        then have "ds = set_insert b (case map_of (cg_dependencies g) a of None \<Rightarrow> [] | Some xs \<Rightarrow> xs)"
          using that unfolding g insert_edge_get by simp
        then show ?thesis using dis[OF well_formedD(5)[OF wf], of a] by (simp only: set_insert_props)
      next
        case False
        then have "map_of (cg_dependencies g) n = Some ds" using that unfolding g insert_edge_get by simp
        then show ?thesis using well_formedD(5)[OF wf] by blast
      qed
      show "distinct ds" if "map_of (cg_dependents ?g) n = Some ds" for n ds
      proof (cases "n = b")
        case True
        then have "ds = set_insert a (case map_of (cg_dependents g) b of None \<Rightarrow> [] | Some xs \<Rightarrow> xs)"
          using that unfolding g insert_edge_get by simp
        then show ?thesis using dis[OF well_formedD(6)[OF wf], of b] by (simp only: set_insert_props)
      next
        case False
        then have "map_of (cg_dependents g) n = Some ds" using that unfolding g insert_edge_get by simp
        then show ?thesis using well_formedD(6)[OF wf] by blast
      qed
      show "(x \<in> (case map_of (cg_dependents ?g) y of None \<Rightarrow> {} | Some xs \<Rightarrow> set xs)) = (y \<in> depends_on ?g x)" for x y
        using m[of x y] m[of x b] by (auto simp: deps g insert_edge_get split: option.splits)
    qed
    then show ?thesis using assms unfolding growing_def g by auto
  qed
qed

lemma growing_run:
  assumes "list_all unassigned ops" "length (filter (\<lambda>p. \<exists>c. p = Add c) ops) < 2 ^ 64"
  shows "growing (graph_run ops) \<and> unat (cg_count (graph_run ops)) = length (filter (\<lambda>p. \<exists>c. p = Add c) ops)"
  using assms
proof (induction ops rule: rev_induct)
  case Nil
  show ?case by (simp add: graph_run_def growing_def graph_new_def well_formed_def depends_on_def)
next
  case (snoc p ops)
  have IH: "growing (graph_run ops)" "unat (cg_count (graph_run ops)) = length (filter (\<lambda>p. \<exists>c. p = Add c) ops)"
    using snoc by (simp_all split: if_splits)
  show ?case
  proof (cases p)
    case (Add c)
    then have "co_id c = 0" "unat (cg_count (graph_run ops)) + 1 < 2 ^ 64" using snoc.prems IH(2) by simp_all
    from growing_add[OF IH(1) this] show ?thesis using IH(2) Add snoc.prems(2)
      by (simp add: graph_run_def unat_add_small)
  next
    case (Depend a b)
    then show ?thesis using growing_depend[OF IH(1), of a b] IH(2) by (simp add: graph_run_def)
  qed
qed

text \<open>C36. The compiler always gets a schedule_levels or a cycle. Whatever is added and connected in whatever order,
  with the identifiers the graph gives out, sorting ends; if the dependencies form no cycle it yields
  every component exactly once, each level holding exactly the components whose dependencies all lie in
  the levels before it; otherwise it reports two components on a cycle.\<close>

theorem build_then_sort:
  assumes "orders ord" "list_all unassigned ops" "length (filter (\<lambda>p. \<exists>c. p = Add c) ops) < 2 ^ 64"
  shows "if acyclic (dependency (graph_run ops))
    then (\<exists>Ls. sort_levels ord (graph_run ops) = Some (Inr Ls) \<and> sorted_into (graph_run ops) Ls)
    else (\<exists>a b. sort_levels ord (graph_run ops) = Some (Inl (CircularDependency [a, b])) \<and>
       (a, b) \<in> dependency (graph_run ops) \<and> (b, a) \<in> (dependency (graph_run ops))\<^sup>*)"
proof -
  have "well_formed (graph_run ops)" using growing_run[OF assms(2,3)] by (simp add: growing_def)
  then show ?thesis by (rule sort_cases[OF assms(1)])
qed

definition part :: "component_id \<Rightarrow> string \<Rightarrow> component" where
  "part i n = \<lparr>co_id = i, co_name = n, co_centi = 100\<rparr>"

definition page_ops :: "graph_op list" where
  "page_ops = [Add (part 0 ''App''), Add (part 0 ''Nav''), Add (part 0 ''Button''), Depend 0 1, Depend 1 2, Depend 0 2]"

lemma build_then_sort_witness:
  "\<exists>Ls. sort_levels rev (graph_run page_ops) = Some (Inr Ls) \<and> sorted_into (graph_run page_ops) Ls \<and> Ls = [[2], [1], [0]]"
proof -
  have o: "orders rev" by (simp add: orders_def)
  have s: "sort_levels rev (graph_run page_ops) = Some (Inr [[2], [1], [0]])" by code_simp
  have "list_all unassigned page_ops" "length (filter (\<lambda>p. \<exists>c. p = Add c) page_ops) < 2 ^ 64" by (simp_all add: page_ops_def part_def)
  from build_then_sort[OF o this] show ?thesis using s by (simp split: if_splits)
qed

lemma parallel_is_serial_witness:
  "set (fst (parallel_next_level rev (graph_run page_ops) [2] (calculate_out_degrees rev (graph_run page_ops)) {2})) = {1}"
proof -
  have "set (fst (serial_next_level rev (graph_run page_ops) [2] (calculate_out_degrees rev (graph_run page_ops)) {2})) = {1}"
    by code_simp
  moreover have "orders rev" by (simp add: orders_def)
  ultimately show ?thesis using parallel_is_serial[of rev] by blast
qed

text \<open>The generator of identifiers does not look at those in use: a component added under an explicit identifier
  is overwritten when the generator reaches it, with its edges, while the count goes on, and a graph without
  a cycle is refused from then on.\<close>

theorem reused_id_breaks_the_sort:
  "sort_levels (\<lambda>xs. xs) (graph_run [Add (part 0 ''App''), Add (part 1 ''Nav''), Depend 0 1, Add (part 0 ''Button'')]) =
     Some (Inl (InvalidGraph ''Only processed 1 of 3 components - possible cycle'')) \<and>
   map_option co_name (get_by_name ''Nav'' (graph_run [Add (part 0 ''App''), Add (part 1 ''Nav''), Depend 0 1, Add (part 0 ''Button'')])) =
     Some ''Button''"
  by code_simp

text \<open>An edge that closes a cycle is accepted when it is added.\<close>

theorem cyclic_edge_accepted:
  "fst (add_dependency 1 0 (graph_run [Add (part 0 ''App''), Add (part 0 ''Nav''), Depend 0 1])) = Inr () \<and>
   sort_levels (\<lambda>xs. xs) (graph_run [Add (part 0 ''App''), Add (part 0 ''Nav''), Depend 0 1, Depend 1 0]) =
     Some (Inl (CircularDependency [1, 0]))"
  by code_simp

end
