(* ===== verification/AuthCalls.thy ===== *)
theory AuthCalls
  imports Broadcast JobQueue "HOL-Library.List_Lexorder" "HOL-Library.Char_ord"
begin

text \<open>
  The database of the sign-in code (\<open>src/auth/schema.rs\<close> and the tables of \<open>src/auth/email_token.rs\<close>) and
  what it means to call it: the substrate of the sources is an external SQL engine, so a call can fail, as the
  list of faults of the state says, a statement runs as a whole or not at all, and a transaction that is
  refused, rolled back or dropped on an error leaves nothing. Columns are typed, so the errors of a cell of the
  wrong type cannot be built. \<open>preserves\<close> and the locale \<open>table_law\<close> prove what every operation preserves.
\<close>

section \<open>Tables\<close>

record user_row =
  us_principal :: string
  us_email :: "string option"
  us_name :: "string option"
  us_image :: "string option"
  us_created :: int
  us_updated :: int

record account_row =
  ac_principal :: string
  ac_provider :: string
  ac_subject :: string
  ac_created :: int

record session_row =
  se_id :: int
  se_principal :: string
  se_token_hash :: string
  se_provider :: string
  se_created :: int
  se_expires :: int
  se_rotated_from :: "string option"

record credential_row =
  cr_principal :: string
  cr_provider :: string
  cr_secret_hash :: "string option"
  cr_created :: int

record token_row =
  tk_hash :: string
  tk_purpose :: string
  tk_provider :: string
  tk_principal :: "string option"
  tk_email :: string
  tk_next :: "string option"
  tk_expires :: int
  tk_created :: int

record verified_row =
  vf_principal :: string
  vf_email :: string
  vf_at :: int

record auth_db =
  db_users :: "user_row list"
  db_accounts :: "account_row list"
  db_sessions :: "session_row list"
  db_credentials :: "credential_row list"
  db_tokens :: "token_row list"
  db_verified :: "verified_row list"
  db_budget :: "(string \<times> int) list"
  db_next_session :: int
  db_faults :: "string option list"

datatype store_error = Substrate string | Corrupt string

type_synonym 'a auth_op = "auth_db \<Rightarrow> (store_error + 'a) \<times> auth_db"

section \<open>Calls and transactions\<close>

definition give :: "'a \<Rightarrow> 'a auth_op" where
  "give x db = (Inr x, db)"

definition refuse :: "store_error \<Rightarrow> 'a auth_op" where
  "refuse e db = (Inl e, db)"

definition bind_op :: "'a auth_op \<Rightarrow> ('a \<Rightarrow> 'b auth_op) \<Rightarrow> 'b auth_op" where
  \<comment> \<open>the \<open>?\<close> operator\<close>
  "bind_op m f db = (case m db of (Inl e, db') \<Rightarrow> (Inl e, db') | (Inr x, db') \<Rightarrow> f x db')"

definition caught :: "'a auth_op \<Rightarrow> (store_error + 'a) auth_op" where
  "caught m db = (case m db of (r, db') \<Rightarrow> (Inr r, db'))"

definition call_substrate :: "unit auth_op" where
  "call_substrate db =
     (case db_faults db of
        [] \<Rightarrow> (Inr (), db)
      | f # fs \<Rightarrow> ((case f of None \<Rightarrow> Inr () | Some why \<Rightarrow> Inl (Substrate why)), db\<lparr>db_faults := fs\<rparr>))"

definition statement_on :: "'a auth_op \<Rightarrow> 'a auth_op" where
  \<comment> \<open>one statement: the call fails, or it runs as a whole\<close>
  "statement_on f = bind_op call_substrate (\<lambda>_. f)"

definition query_on :: "(auth_db \<Rightarrow> 'a) \<Rightarrow> 'a auth_op" where
  "query_on f = statement_on (\<lambda>db. (Inr (f db), db))"

datatype 'a ended = Committed 'a | Rolled_back 'a

definition undone :: "auth_db \<Rightarrow> auth_db \<Rightarrow> auth_db" where
  \<comment> \<open>the tables of before, the calls still to come of after\<close>
  "undone before after = before\<lparr>db_faults := db_faults after\<rparr>"

definition transaction :: "'a ended auth_op \<Rightarrow> 'a auth_op" where
  \<comment> \<open>\<open>begin\<close>, the body, then \<open>commit\<close> or \<open>rollback\<close>; an error inside drops the transaction unresolved\<close>
  "transaction body = bind_op call_substrate (\<lambda>_ db.
     (case body db of
        (Inl e, tx) \<Rightarrow> (Inl e, undone db tx)
      | (Inr (Rolled_back x), tx) \<Rightarrow> bind_op call_substrate (\<lambda>_. give x) (undone db tx)
      | (Inr (Committed x), tx) \<Rightarrow>
          (case call_substrate tx of
             (Inl e, tx') \<Rightarrow> (Inl e, undone db tx')
           | (Inr _, tx') \<Rightarrow> (Inr x, tx'))))"


section \<open>What a successful call did\<close>

named_theorems ok \<open>when an operation answers, what it answers and leaves\<close>

definition runs :: "auth_db \<Rightarrow> string option list \<Rightarrow> bool" where
  \<comment> \<open>the next call succeeds\<close>
  "runs db fs \<longleftrightarrow> db_faults db = [] \<and> fs = [] \<or> db_faults db = None # fs"

lemma give_ok [ok]: "give x db = (Inr y, db') \<longleftrightarrow> y = x \<and> db' = db"
  by (auto simp: give_def)

lemma refuse_ok [ok]: "refuse e db = (Inr y, db') \<longleftrightarrow> False"
  by (simp add: refuse_def)

lemma bind_ok [ok]: "bind_op m f db = (Inr y, db') \<longleftrightarrow> (\<exists>x db1. m db = (Inr x, db1) \<and> f x db1 = (Inr y, db'))"
  by (auto simp: bind_op_def split: prod.splits sum.splits)

lemma caught_ok: "caught m db = (Inr y, db') \<longleftrightarrow> m db = (y, db')"
  by (auto simp: caught_def split: prod.splits)

lemma call_ok [ok]: "call_substrate db = (Inr u, db') \<longleftrightarrow> (\<exists>fs. runs db fs \<and> db' = db\<lparr>db_faults := fs\<rparr>)"
  by (cases db) (auto simp: call_substrate_def runs_def split: list.splits option.splits)

lemma statement_ok [ok]:
  "statement_on f db = (Inr y, db') \<longleftrightarrow> (\<exists>fs. runs db fs \<and> f (db\<lparr>db_faults := fs\<rparr>) = (Inr y, db'))"
  by (auto simp: statement_on_def bind_ok call_ok)

lemma query_ok [ok]:
  "query_on f db = (Inr y, db') \<longleftrightarrow> (\<exists>fs. runs db fs \<and> y = f (db\<lparr>db_faults := fs\<rparr>) \<and> db' = db\<lparr>db_faults := fs\<rparr>)"
  by (auto simp: query_on_def statement_ok)

lemma transaction_ok [ok]:
  "transaction body db = (Inr y, db') \<longleftrightarrow>
     (\<exists>fs fs'. runs db fs \<and>
       ((\<exists>tx. body (db\<lparr>db_faults := fs\<rparr>) = (Inr (Committed y), tx) \<and> runs tx fs' \<and> db' = tx\<lparr>db_faults := fs'\<rparr>)
        \<or> (\<exists>tx. body (db\<lparr>db_faults := fs\<rparr>) = (Inr (Rolled_back y), tx) \<and> runs tx fs' \<and> db' = db\<lparr>db_faults := fs'\<rparr>)))"
  (is "?l \<longleftrightarrow> ?r")
proof -
  have roll: "bind_op call_substrate (\<lambda>_. give x) (undone (db\<lparr>db_faults := fs\<rparr>) tx) = (Inr y, db') \<longleftrightarrow>
      x = y \<and> (\<exists>fs'. runs tx fs' \<and> db' = db\<lparr>db_faults := fs'\<rparr>)" for x fs tx
    by (auto simp: bind_ok call_ok give_ok undone_def runs_def)
  have commit: "(case call_substrate tx of (Inl e, tx') \<Rightarrow> (Inl e, undone d tx') | (Inr _, tx') \<Rightarrow> (Inr x, tx')) = (Inr y, db') \<longleftrightarrow>
      x = y \<and> (\<exists>fs'. runs tx fs' \<and> db' = tx\<lparr>db_faults := fs'\<rparr>)" for x :: 'a and d tx
    by (cases tx) (auto simp: call_substrate_def runs_def split: list.splits option.splits)
  have one: "(case body db0 of
        (Inl e, tx) \<Rightarrow> (Inl e, undone db0 tx)
      | (Inr (Rolled_back x), tx) \<Rightarrow> bind_op call_substrate (\<lambda>_. give x) (undone db0 tx)
      | (Inr (Committed x), tx) \<Rightarrow>
          (case call_substrate tx of
             (Inl e, tx') \<Rightarrow> (Inl e, undone db0 tx')
           | (Inr _, tx') \<Rightarrow> (Inr x, tx'))) = (Inr y, db') \<longleftrightarrow>
      (\<exists>fs'. (\<exists>tx. body db0 = (Inr (Committed y), tx) \<and> runs tx fs' \<and> db' = tx\<lparr>db_faults := fs'\<rparr>)
        \<or> (\<exists>tx. body db0 = (Inr (Rolled_back y), tx) \<and> runs tx fs' \<and> db' = db\<lparr>db_faults := fs'\<rparr>))"
    if "db0 = db\<lparr>db_faults := fs\<rparr>" for db0 fs
    using that by (auto split: prod.splits sum.splits ended.splits simp: roll commit dest: sym)
  have "?l \<longleftrightarrow> (\<exists>db0. (\<exists>fs. runs db fs \<and> db0 = db\<lparr>db_faults := fs\<rparr>) \<and> (case body db0 of
        (Inl e, tx) \<Rightarrow> (Inl e, undone db0 tx)
      | (Inr (Rolled_back x), tx) \<Rightarrow> bind_op call_substrate (\<lambda>_. give x) (undone db0 tx)
      | (Inr (Committed x), tx) \<Rightarrow>
          (case call_substrate tx of
             (Inl e, tx') \<Rightarrow> (Inl e, undone db0 tx')
           | (Inr _, tx') \<Rightarrow> (Inr x, tx'))) = (Inr y, db'))"
    unfolding transaction_def bind_ok call_ok by blast
  also have "\<dots> \<longleftrightarrow> (\<exists>fs. runs db fs \<and> (\<exists>fs'. (\<exists>tx. body (db\<lparr>db_faults := fs\<rparr>) = (Inr (Committed y), tx) \<and> runs tx fs' \<and> db' = tx\<lparr>db_faults := fs'\<rparr>)
        \<or> (\<exists>tx. body (db\<lparr>db_faults := fs\<rparr>) = (Inr (Rolled_back y), tx) \<and> runs tx fs' \<and> db' = db\<lparr>db_faults := fs'\<rparr>)))"
    using one[OF refl] by blast
  also have "\<dots> \<longleftrightarrow> ?r" by blast
  finally show ?thesis .
qed

lemma transaction_failed:
  assumes "transaction body db = (Inl e, db')"
  shows "db' = db\<lparr>db_faults := db_faults db'\<rparr>"
proof -
  have call: "\<exists>fs. snd (call_substrate d) = d\<lparr>db_faults := fs\<rparr>" for d
  proof (cases "db_faults d")
    case Nil
    then show ?thesis by (cases d) (auto simp: call_substrate_def intro!: exI[of _ "[]"])
  next
    case (Cons f fs)
    then show ?thesis by (auto simp: call_substrate_def)
  qed
  have rolled: "\<exists>fs. snd (bind_op call_substrate (\<lambda>_. give x) d) = d\<lparr>db_faults := fs\<rparr>" for x :: 'a and d
    using call[of d] by (auto simp: bind_op_def give_def split: prod.splits sum.splits)
  have "\<exists>fs. db' = db\<lparr>db_faults := fs\<rparr>"
  proof (cases "call_substrate db")
    case (Pair r d)
    obtain fs where d: "d = db\<lparr>db_faults := fs\<rparr>" using call[of db] Pair by auto
    show ?thesis
    proof (cases r)
      case (Inl a)
      then show ?thesis using assms Pair d by (auto simp: transaction_def bind_op_def)
    next
      case (Inr u)
      obtain q tx where body: "body d = (q, tx)" by (cases "body d")
      show ?thesis
      proof (cases q)
        case (Inl a)
        then show ?thesis using assms Pair Inr body d by (auto simp: transaction_def bind_op_def undone_def)
      next
        case (Inr w)
        show ?thesis
        proof (cases w)
          case (Committed x)
          then show ?thesis using assms Pair \<open>r = Inr u\<close> \<open>q = Inr w\<close> body d
            by (auto simp: transaction_def bind_op_def undone_def split: sum.splits prod.splits)
        next
          case (Rolled_back x)
          then have "bind_op call_substrate (\<lambda>_. give x) (undone d tx) = (Inl e, db')"
            using assms Pair \<open>r = Inr u\<close> \<open>q = Inr w\<close> body
            by (simp add: transaction_def bind_op_def)
          with rolled[of x "undone d tx"] obtain fs' where "db' = (undone d tx)\<lparr>db_faults := fs'\<rparr>" by auto
          then show ?thesis using d by (auto simp: undone_def)
        qed
      qed
    qed
  qed
  then show ?thesis by auto
qed

section \<open>What every operation preserves\<close>

definition preserves :: "(auth_db \<Rightarrow> bool) \<Rightarrow> 'a auth_op \<Rightarrow> bool" where
  "preserves P m \<longleftrightarrow> (\<forall>db. P db \<longrightarrow> P (snd (m db)))"

lemma keepsD: "preserves P m \<Longrightarrow> P db \<Longrightarrow> m db = (r, db') \<Longrightarrow> P db'"
  unfolding preserves_def by (metis snd_conv)

lemma keeps_give [intro]: "preserves P (give x)"
  by (simp add: preserves_def give_def)

lemma keeps_refuse [intro]: "preserves P (refuse e)"
  by (simp add: preserves_def refuse_def)

lemma keeps_bind [intro]: "preserves P m \<Longrightarrow> (\<And>x. preserves P (f x)) \<Longrightarrow> preserves P (bind_op m f)"
  unfolding preserves_def bind_op_def by (fastforce split: prod.splits sum.splits)

lemma keeps_caught [intro]: "preserves P m \<Longrightarrow> preserves P (caught m)"
  unfolding preserves_def caught_def by (auto split: prod.splits)

locale call_law =
  fixes P :: "auth_db \<Rightarrow> bool"
  assumes keeps_call: "preserves P call_substrate"
    and undone_law: "P db \<Longrightarrow> P tx \<Longrightarrow> P (undone db tx)"
begin

lemma keeps_statement: "(\<And>db. P db \<Longrightarrow> P (snd (f db))) \<Longrightarrow> preserves P (statement_on f)"
  unfolding statement_on_def by (rule keeps_bind[OF keeps_call]) (simp add: preserves_def)

lemma keeps_query: "preserves P (query_on f)"
  unfolding query_on_def by (rule keeps_statement) simp

lemma keeps_transaction:
  assumes "preserves P body" shows "preserves P (transaction body)"
  unfolding transaction_def
proof (rule keeps_bind[OF keeps_call])
  fix u
  have roll: "preserves P (bind_op call_substrate (\<lambda>_. give x))" for x :: 'b
    by (rule keeps_bind[OF keeps_call]) (rule keeps_give)
  have rolled: "P (snd (bind_op call_substrate (\<lambda>_. give x) (undone db tx)))" if "P db" "P tx" for x :: 'b and db tx
    by (rule spec[OF roll[unfolded preserves_def], THEN mp]) (rule undone_law[OF that])
  have failed: "P (undone db tx')" if "P db" "P tx" "call_substrate tx = (q, tx')" for db tx tx' q
    by (rule undone_law[OF that(1) keepsD[OF keeps_call that(2,3)]])
  have commit: "P (snd (call_substrate tx))" if "P db" "body db = (r, tx)" for db r tx
    by (rule spec[OF keeps_call[unfolded preserves_def], THEN mp]) (rule keepsD[OF assms that])
  show "preserves P (\<lambda>db. case body db of
        (Inl e, tx) \<Rightarrow> (Inl e, undone db tx)
      | (Inr (Rolled_back x), tx) \<Rightarrow> bind_op call_substrate (\<lambda>_. give x) (undone db tx)
      | (Inr (Committed x), tx) \<Rightarrow>
          (case call_substrate tx of
             (Inl e, tx') \<Rightarrow> (Inl e, undone db tx')
           | (Inr _, tx') \<Rightarrow> (Inr x, tx')))"
    unfolding preserves_def
  proof (intro allI impI)
    fix db assume p: "P db"
    show "P (snd (case body db of
        (Inl e, tx) \<Rightarrow> (Inl e, undone db tx)
      | (Inr (Rolled_back x), tx) \<Rightarrow> bind_op call_substrate (\<lambda>_. give x) (undone db tx)
      | (Inr (Committed x), tx) \<Rightarrow>
          (case call_substrate tx of
             (Inl e, tx') \<Rightarrow> (Inl e, undone db tx')
           | (Inr _, tx') \<Rightarrow> (Inr x, tx'))))"
    proof (cases "body db")
      case (Pair r tx)
      then show ?thesis
        using p rolled[OF p keepsD[OF assms p Pair]] commit[OF p Pair] undone_law[OF p keepsD[OF assms p Pair]]
          failed[OF p keepsD[OF assms p Pair]]
        by (cases r; cases "call_substrate tx") (auto split: ended.splits sum.splits)
    qed
  qed
qed

lemmas keeps_rules = keeps_give keeps_refuse keeps_bind keeps_caught keeps_call keeps_query keeps_transaction

end

locale table_law =
  fixes P :: "auth_db \<Rightarrow> bool"
  assumes faults_free: "P (db\<lparr>db_faults := fs\<rparr>) \<longleftrightarrow> P db"
begin

sublocale call_law P
proof
  have "snd (call_substrate db) = db \<or> (\<exists>fs. snd (call_substrate db) = db\<lparr>db_faults := fs\<rparr>)" for db
    by (auto simp: call_substrate_def split: list.splits)
  then show "preserves P call_substrate" unfolding preserves_def using faults_free by metis
qed (simp add: undone_def faults_free)

end

interpretation quiet: call_law "\<lambda>db. db_faults db = []"
  by unfold_locales (simp_all add: preserves_def call_substrate_def undone_def)

end
