(* ===== verification/Accounts.thy ===== *)
theory Accounts
  imports AuthCalls
begin

text \<open>
  Who is signed in (\<open>src/auth/store.rs\<close>, \<open>src/auth/session.rs\<close>, \<open>src/auth/principal.rs\<close>): the tables of
  users, accounts, sessions and credentials, and every operation on them. The tables of mailed tokens and
  proven addresses (\<open>src/auth/email_token.rs\<close>) are part of the same database, so they are fields of the
  state; their operations are in \<open>EmailToken\<close>.

  The statements run on an external SQL engine: a call to it can fail, as the list of faults says, and a
  transaction that is dropped or refused leaves nothing. The hash of a token, the random values a function
  mints and the clock are arguments.
\<close>

section \<open>Principals and session tokens\<close>

definition parse_principal :: "string \<Rightarrow> string auth_op" where
  "parse_principal raw = (if is_valid_partition_key raw then give raw else refuse (Corrupt raw))"

record principal_profile =
  pr_id :: string
  pr_email :: "string option"
  pr_name :: "string option"
  pr_image :: "string option"
  pr_provider :: string
  pr_providers :: "string list"
  pr_claims :: "(string \<times> json) list"

record provider_profile =
  pp_email :: "string option"
  pp_name :: "string option"
  pp_image :: "string option"
  pp_claims :: "(string \<times> json) list"

definition from_presented :: "string \<Rightarrow> string option" where
  "from_presented raw = (if raw = [] \<or> length raw > 512 then None else Some raw)"

definition cookie_entry :: "string \<Rightarrow> (string \<times> string) option" where
  "cookie_entry entry =
     (let e = trim entry; k = takeWhile (\<lambda>c. c \<noteq> CHR ''='') e in
      if length k = length e then None else Some (trim k, trim (drop (Suc (length k)) e)))"

definition cookie_entries :: "string \<Rightarrow> (string \<times> string) list" where
  "cookie_entries header = List.map_filter cookie_entry (split_on CHR '';'' header)"

definition read_cookie :: "string \<Rightarrow> string \<Rightarrow> string option" where
  "read_cookie header name = map_option snd (find (\<lambda>e. fst e = name) (cookie_entries header))"

definition set_cookie_value :: "string \<Rightarrow> string \<Rightarrow> u64 \<Rightarrow> string" where
  "set_cookie_value name token max_age =
     name @ ''='' @ token @ ''; Path=/; HttpOnly; Secure; SameSite=Lax; Max-Age='' @ show_nat (unat max_age)"

definition clear_cookie_value :: "string \<Rightarrow> string" where
  "clear_cookie_value name = name @ ''=; Path=/; HttpOnly; Secure; SameSite=Lax; Max-Age=0''"

datatype session_rejection = NoCookie | UnknownToken | Expired | PrincipalGone

datatype resolved = Signed_in principal_profile | Anonymous session_rejection

definition provider_list :: "string option \<Rightarrow> string list" where
  "provider_list concatenated =
     remdups_adj (sort (filter (\<lambda>n. n \<noteq> []) (split_on CHR '','' (case concatenated of None \<Rightarrow> [] | Some s \<Rightarrow> s))))"

section \<open>The statements\<close>

abbreviation not_unique :: store_error where
  "not_unique \<equiv> Substrate ''UNIQUE constraint failed''"

definition owned :: "string \<Rightarrow> string \<Rightarrow> account_row \<Rightarrow> bool" where
  "owned provider subject a \<longleftrightarrow> ac_provider a = provider \<and> ac_subject a = subject"

definition insert_user :: "user_row \<Rightarrow> unit auth_op" where
  "insert_user u = statement_on (\<lambda>db.
     if \<exists>v\<in>set (db_users db). us_principal v = us_principal u then (Inl not_unique, db)
     else (Inr (), db\<lparr>db_users := db_users db @ [u]\<rparr>))"

definition insert_account :: "account_row \<Rightarrow> unit auth_op" where
  "insert_account a = statement_on (\<lambda>db.
     if \<exists>b\<in>set (db_accounts db). owned (ac_provider a) (ac_subject a) b then (Inl not_unique, db)
     else (Inr (), db\<lparr>db_accounts := db_accounts db @ [a]\<rparr>))"

definition insert_or_ignore_account :: "account_row \<Rightarrow> unit auth_op" where
  "insert_or_ignore_account a = statement_on (\<lambda>db.
     if \<exists>b\<in>set (db_accounts db). owned (ac_provider a) (ac_subject a) b then (Inr (), db)
     else (Inr (), db\<lparr>db_accounts := db_accounts db @ [a]\<rparr>))"

definition insert_session :: "string \<Rightarrow> string \<Rightarrow> string \<Rightarrow> int \<Rightarrow> int \<Rightarrow> string option \<Rightarrow> unit auth_op" where
  "insert_session p token_hash provider created expires from = statement_on (\<lambda>db.
     if \<exists>s\<in>set (db_sessions db). se_token_hash s = token_hash then (Inl not_unique, db)
     else (Inr (), db\<lparr>db_sessions := db_sessions db @
            [\<lparr>se_id = db_next_session db, se_principal = p, se_token_hash = token_hash, se_provider = provider,
              se_created = created, se_expires = expires, se_rotated_from = from\<rparr>],
            db_next_session := db_next_session db + 1\<rparr>))"

definition insert_credential :: "credential_row \<Rightarrow> unit auth_op" where
  \<comment> \<open>a password row has no credential id, so no index refuses it\<close>
  "insert_credential c = statement_on (\<lambda>db. (Inr (), db\<lparr>db_credentials := db_credentials db @ [c]\<rparr>))"

definition delete_users :: "(user_row \<Rightarrow> bool) \<Rightarrow> nat auth_op" where
  "delete_users p = statement_on (\<lambda>db.
     (Inr (length (filter p (db_users db))), db\<lparr>db_users := filter (\<lambda>x. \<not> p x) (db_users db)\<rparr>))"

definition delete_accounts :: "(account_row \<Rightarrow> bool) \<Rightarrow> nat auth_op" where
  "delete_accounts p = statement_on (\<lambda>db.
     (Inr (length (filter p (db_accounts db))), db\<lparr>db_accounts := filter (\<lambda>x. \<not> p x) (db_accounts db)\<rparr>))"

definition delete_sessions :: "(session_row \<Rightarrow> bool) \<Rightarrow> nat auth_op" where
  "delete_sessions p = statement_on (\<lambda>db.
     (Inr (length (filter p (db_sessions db))), db\<lparr>db_sessions := filter (\<lambda>x. \<not> p x) (db_sessions db)\<rparr>))"

definition delete_credentials :: "(credential_row \<Rightarrow> bool) \<Rightarrow> nat auth_op" where
  "delete_credentials p = statement_on (\<lambda>db.
     (Inr (length (filter p (db_credentials db))),
      db\<lparr>db_credentials := filter (\<lambda>x. \<not> p x) (db_credentials db)\<rparr>))"

definition delete_tokens :: "(token_row \<Rightarrow> bool) \<Rightarrow> nat auth_op" where
  "delete_tokens p = statement_on (\<lambda>db.
     (Inr (length (filter p (db_tokens db))), db\<lparr>db_tokens := filter (\<lambda>x. \<not> p x) (db_tokens db)\<rparr>))"

section \<open>Sessions\<close>

definition session_join :: "string \<Rightarrow> auth_db \<Rightarrow> (session_row \<times> user_row) list" where
  "session_join token_hash db =
     [(s, u). s \<leftarrow> db_sessions db, se_token_hash s = token_hash, u \<leftarrow> db_users db, us_principal u = se_principal s]"

definition connected_providers :: "string \<Rightarrow> auth_db \<Rightarrow> string list" where
  "connected_providers p db = map ac_provider (filter (\<lambda>a. ac_principal a = p) (db_accounts db))"

fun join_commas :: "string list \<Rightarrow> string option" where
  \<comment> \<open>\<open>group_concat\<close>, null of no rows\<close>
  "join_commas [] = None"
| "join_commas [x] = Some x"
| "join_commas (x # y # ys) = map_option (\<lambda>r. x @ '','' @ r) (join_commas (y # ys))"

definition resolve_session :: "(string \<Rightarrow> string) \<Rightarrow> string \<Rightarrow> int \<Rightarrow> resolved auth_op" where
  "resolve_session hash token now =
     bind_op (query_on (\<lambda>db. (session_join (hash token) db, \<lambda>p. join_commas (connected_providers p db)))) (\<lambda>(joined, concatenated).
       (case joined of
          [] \<Rightarrow>
            bind_op (query_on (\<lambda>db. filter (\<lambda>s. se_token_hash s = hash token) (db_sessions db))) (\<lambda>orphaned.
              give (Anonymous (if orphaned = [] then UnknownToken else PrincipalGone)))
        | (s, u) # _ \<Rightarrow>
            if se_expires s \<le> now then give (Anonymous Expired)
            else bind_op (parse_principal (se_principal s)) (\<lambda>p.
              give (Signed_in \<lparr>pr_id = p, pr_email = us_email u, pr_name = us_name u, pr_image = us_image u,
                               pr_provider = se_provider s, pr_providers = provider_list (concatenated p),
                               pr_claims = []\<rparr>))))"

definition create_session :: "(string \<Rightarrow> string) \<Rightarrow> string \<Rightarrow> string \<Rightarrow> string \<Rightarrow> int \<Rightarrow> int \<Rightarrow> string auth_op" where
  "create_session hash minted p provider now ttl =
     bind_op (insert_session p (hash minted) provider now (i64_sat_add now ttl) None) (\<lambda>_. give minted)"

definition rotate_session ::
  "(string \<Rightarrow> string) \<Rightarrow> string \<Rightarrow> string \<Rightarrow> string \<Rightarrow> string \<Rightarrow> int \<Rightarrow> int \<Rightarrow> string auth_op" where
  "rotate_session hash minted old_hash p provider now ttl = transaction
     (bind_op (delete_sessions (\<lambda>s. se_token_hash s = old_hash)) (\<lambda>_.
      bind_op (insert_session p (hash minted) provider now (i64_sat_add now ttl) (Some old_hash)) (\<lambda>_.
      give (Committed minted))))"

definition revoke_session :: "string \<Rightarrow> nat auth_op" where
  "revoke_session token_hash = delete_sessions (\<lambda>s. se_token_hash s = token_hash)"

definition revoke_all_sessions :: "string \<Rightarrow> nat auth_op" where
  "revoke_all_sessions p = delete_sessions (\<lambda>s. se_principal s = p)"

definition purge_expired_sessions :: "int \<Rightarrow> nat auth_op" where
  "purge_expired_sessions now = delete_sessions (\<lambda>s. se_expires s \<le> now)"

fun parse_all :: "session_row list \<Rightarrow> session_row list auth_op" where
  "parse_all [] = give []"
| "parse_all (s # ss) = bind_op (parse_principal (se_principal s)) (\<lambda>_.
     bind_op (parse_all ss) (\<lambda>rest. give (s # rest)))"

definition sessions_for :: "string \<Rightarrow> int \<Rightarrow> session_row list auth_op" where
  "sessions_for p now =
     bind_op (query_on (\<lambda>db. sort_key se_created (filter (\<lambda>s. se_principal s = p \<and> se_expires s > now) (db_sessions db))))
       parse_all"

section \<open>Accounts\<close>

definition lookup_account :: "string \<Rightarrow> string \<Rightarrow> string option auth_op" where
  "lookup_account provider subject =
     bind_op (query_on (\<lambda>db. filter (owned provider subject) (db_accounts db))) (\<lambda>found.
       (case found of
          [] \<Rightarrow> give None
        | a # _ \<Rightarrow> bind_op (parse_principal (ac_principal a)) (\<lambda>p. give (Some p))))"

definition build_principal :: "string \<Rightarrow> string \<Rightarrow> provider_profile \<Rightarrow> principal_profile" where
  "build_principal p provider profile =
     \<lparr>pr_id = p, pr_email = pp_email profile, pr_name = pp_name profile, pr_image = pp_image profile,
      pr_provider = provider, pr_providers = [], pr_claims = pp_claims profile\<rparr>"

definition new_user :: "string \<Rightarrow> provider_profile \<Rightarrow> int \<Rightarrow> user_row" where
  "new_user p profile now =
     \<lparr>us_principal = p, us_email = pp_email profile, us_name = pp_name profile, us_image = pp_image profile,
      us_created = now, us_updated = now\<rparr>"

definition new_account :: "string \<Rightarrow> string \<Rightarrow> string \<Rightarrow> int \<Rightarrow> account_row" where
  "new_account p provider subject now =
     \<lparr>ac_principal = p, ac_provider = provider, ac_subject = subject, ac_created = now\<rparr>"

definition new_credential :: "string \<Rightarrow> string \<Rightarrow> string \<Rightarrow> int \<Rightarrow> credential_row" where
  "new_credential p provider secret now =
     \<lparr>cr_principal = p, cr_provider = provider, cr_secret_hash = Some secret, cr_created = now\<rparr>"

definition coalesce :: "'a option \<Rightarrow> 'a option \<Rightarrow> 'a option" where
  "coalesce x y = (case x of None \<Rightarrow> y | Some _ \<Rightarrow> x)"

definition refresh_user :: "string \<Rightarrow> provider_profile \<Rightarrow> int \<Rightarrow> nat auth_op" where
  "refresh_user p profile now = statement_on (\<lambda>db.
     (Inr (length (filter (\<lambda>u. us_principal u = p) (db_users db))),
      db\<lparr>db_users := map (\<lambda>u. if us_principal u = p
           then u\<lparr>us_email := coalesce (pp_email profile) (us_email u), us_name := coalesce (pp_name profile) (us_name u),
                  us_image := coalesce (pp_image profile) (us_image u), us_updated := now\<rparr>
           else u) (db_users db)\<rparr>))"

definition upsert_found ::
  "string \<Rightarrow> string \<Rightarrow> string \<Rightarrow> provider_profile \<Rightarrow> int \<Rightarrow> string option \<Rightarrow> principal_profile auth_op" where
  \<comment> \<open>what follows the look-up; another request may have run in between\<close>
  "upsert_found minted provider subject profile now found =
     (case found of
        Some existing \<Rightarrow>
          bind_op (refresh_user existing profile now) (\<lambda>_. give (build_principal existing provider profile))
      | None \<Rightarrow>
          bind_op (transaction
            (bind_op (insert_user (new_user minted profile now)) (\<lambda>_.
             bind_op (caught (insert_account (new_account minted provider subject now))) (\<lambda>account.
               (case account of
                  Inr _ \<Rightarrow> give (Committed True)
                | Inl _ \<Rightarrow> give (Rolled_back False)))))) (\<lambda>won.
          if won then give (build_principal minted provider profile)
          else bind_op (lookup_account provider subject) (\<lambda>winner.
            (case winner of
               None \<Rightarrow> refuse (Corrupt ''insert failed but no row exists'')
             | Some w \<Rightarrow> give (build_principal w provider profile)))))"

definition upsert_principal ::
  "string \<Rightarrow> string \<Rightarrow> string \<Rightarrow> provider_profile \<Rightarrow> int \<Rightarrow> principal_profile auth_op" where
  "upsert_principal minted provider subject profile now =
     bind_op (lookup_account provider subject) (upsert_found minted provider subject profile now)"

definition delete_principal :: "string \<Rightarrow> unit auth_op" where
  "delete_principal p = transaction
     (bind_op (delete_sessions (\<lambda>s. se_principal s = p)) (\<lambda>_.
      bind_op (delete_credentials (\<lambda>c. cr_principal c = p)) (\<lambda>_.
      bind_op (delete_accounts (\<lambda>a. ac_principal a = p)) (\<lambda>_.
      bind_op (delete_users (\<lambda>u. us_principal u = p)) (\<lambda>_.
      give (Committed ()))))))"

definition create_found ::
  "string \<Rightarrow> string \<Rightarrow> string \<Rightarrow> provider_profile \<Rightarrow> string \<Rightarrow> int \<Rightarrow> string option \<Rightarrow> principal_profile option auth_op" where
  "create_found minted provider subject profile secret now found =
     (if found \<noteq> None then give None
      else transaction
        (bind_op (insert_user (new_user minted profile now)) (\<lambda>_.
         bind_op (caught (insert_account (new_account minted provider subject now))) (\<lambda>claimed.
           (case claimed of
              Inl _ \<Rightarrow> give (Rolled_back None)
            | Inr _ \<Rightarrow>
                bind_op (insert_credential (new_credential minted provider secret now)) (\<lambda>_.
                give (Committed (Some (build_principal minted provider profile)))))))))"

definition create_credential_account ::
  "string \<Rightarrow> string \<Rightarrow> string \<Rightarrow> provider_profile \<Rightarrow> string \<Rightarrow> int \<Rightarrow> principal_profile option auth_op" where
  "create_credential_account minted provider subject profile secret now =
     bind_op (lookup_account provider subject) (create_found minted provider subject profile secret now)"

definition credential_join :: "string \<Rightarrow> string \<Rightarrow> auth_db \<Rightarrow> (string \<times> string) list" where
  "credential_join provider subject db =
     [(ac_principal a, secret). a \<leftarrow> db_accounts db, owned provider subject a,
        c \<leftarrow> db_credentials db, cr_principal c = ac_principal a \<and> cr_provider c = ac_provider a,
        secret \<leftarrow> (case cr_secret_hash c of None \<Rightarrow> [] | Some h \<Rightarrow> [h])]"

definition lookup_credential :: "string \<Rightarrow> string \<Rightarrow> (string \<times> string) option auth_op" where
  "lookup_credential provider subject =
     bind_op (query_on (credential_join provider subject)) (\<lambda>found.
       (case found of
          [] \<Rightarrow> give None
        | (p, secret) # _ \<Rightarrow> bind_op (parse_principal p) (\<lambda>p. give (Some (p, secret)))))"

definition load_principal :: "string \<Rightarrow> principal_profile option auth_op" where
  "load_principal p =
     query_on (\<lambda>db. map_option
       (\<lambda>u. \<lparr>pr_id = p, pr_email = us_email u, pr_name = us_name u, pr_image = us_image u, pr_provider = [],
             pr_providers = provider_list (join_commas (connected_providers p db)), pr_claims = []\<rparr>)
       (find (\<lambda>u. us_principal u = p) (db_users db)))"

datatype link_outcome = Linked | AlreadyLinked | TakenByAnother | ProviderAlreadyConnected

definition whose_identity :: "string \<Rightarrow> string \<Rightarrow> link_outcome" where
  "whose_identity p owner = (if owner = p then AlreadyLinked else TakenByAnother)"

definition link_insert :: "string \<Rightarrow> string \<Rightarrow> string \<Rightarrow> int \<Rightarrow> link_outcome auth_op" where
  "link_insert p provider subject now =
     bind_op (caught (insert_account (new_account p provider subject now))) (\<lambda>inserted.
       (case inserted of
          Inr _ \<Rightarrow> give Linked
        | Inl e \<Rightarrow> bind_op (lookup_account provider subject) (\<lambda>winner.
            (case winner of Some owner \<Rightarrow> give (whose_identity p owner) | None \<Rightarrow> refuse e))))"

definition link_found :: "string \<Rightarrow> string \<Rightarrow> string \<Rightarrow> int \<Rightarrow> string option \<Rightarrow> link_outcome auth_op" where
  "link_found p provider subject now found =
     (case found of
        Some owner \<Rightarrow> give (whose_identity p owner)
      | None \<Rightarrow>
          bind_op (query_on (\<lambda>db. filter (\<lambda>a. ac_principal a = p \<and> ac_provider a = provider) (db_accounts db))) (\<lambda>existing.
          if existing \<noteq> [] then give ProviderAlreadyConnected
          else link_insert p provider subject now))"

definition link_account :: "string \<Rightarrow> string \<Rightarrow> string \<Rightarrow> int \<Rightarrow> link_outcome auth_op" where
  "link_account p provider subject now =
     bind_op (lookup_account provider subject) (link_found p provider subject now)"

datatype unlink_outcome = Unlinked nat | LastMethod | NotConnected

definition unlink_account :: "string \<Rightarrow> string \<Rightarrow> string \<Rightarrow> unlink_outcome auth_op" where
  "unlink_account p provider keep = transaction
     (bind_op (query_on (connected_providers p)) (\<lambda>providers.
        if provider \<notin> set providers then give (Rolled_back NotConnected)
        else if list_all (\<lambda>name. name = provider) providers then give (Rolled_back LastMethod)
        else bind_op (delete_accounts (\<lambda>a. ac_principal a = p \<and> ac_provider a = provider)) (\<lambda>_.
             bind_op (delete_credentials (\<lambda>c. cr_principal c = p \<and> cr_provider c = provider)) (\<lambda>_.
             bind_op (delete_sessions (\<lambda>s. se_principal s = p \<and> se_provider s = provider \<and> se_token_hash s \<noteq> keep)) (\<lambda>sessions_ended.
             give (Committed (Unlinked sessions_ended)))))))"

section \<open>Which operations keep what\<close>

lemma keeps_parse [intro]: "preserves P (parse_principal raw)"
  unfolding parse_principal_def by (auto intro: keeps_give keeps_refuse)

definition tables_sound :: "auth_db \<Rightarrow> bool" where
  \<comment> \<open>the unique indexes of the schema\<close>
  "tables_sound db \<longleftrightarrow>
     distinct (map us_principal (db_users db)) \<and>
     distinct (map (\<lambda>a. (ac_provider a, ac_subject a)) (db_accounts db)) \<and>
     distinct (map se_token_hash (db_sessions db)) \<and>
     distinct (map tk_hash (db_tokens db)) \<and>
     distinct (map (\<lambda>v. (vf_principal v, vf_email v)) (db_verified db)) \<and>
     distinct (map fst (db_budget db))"

interpretation sound: table_law tables_sound
  by unfold_locales (simp add: tables_sound_def)

lemma distinct_map_filter: "distinct (map f xs) \<Longrightarrow> distinct (map f (filter p xs))"
  by (induction xs) auto

lemma sound_statements [intro]:
  "preserves tables_sound (insert_user u)" "preserves tables_sound (insert_account a)"
  "preserves tables_sound (insert_or_ignore_account a)" "preserves tables_sound (insert_session p h pr c e fr)"
  "preserves tables_sound (insert_credential cr)"
  "preserves tables_sound (delete_users pu)" "preserves tables_sound (delete_accounts pa)"
  "preserves tables_sound (delete_sessions ps)" "preserves tables_sound (delete_credentials pc)"
  "preserves tables_sound (delete_tokens pt)" "preserves tables_sound (refresh_user p profile now)"
  unfolding insert_user_def insert_account_def insert_or_ignore_account_def insert_session_def insert_credential_def
    delete_users_def delete_accounts_def delete_sessions_def delete_credentials_def delete_tokens_def refresh_user_def
  by (rule sound.keeps_statement, force simp: tables_sound_def owned_def distinct_map_filter comp_def if_distrib cong: if_cong)+

locale session_law =
  fixes P :: "session_row list \<Rightarrow> bool"
  assumes fewer: "P xs \<Longrightarrow> P (filter p xs)"
begin

sublocale table_law "\<lambda>db. P (db_sessions db)"
  by unfold_locales simp

lemma statements:
  "preserves (\<lambda>db. P (db_sessions db)) (insert_user u)" "preserves (\<lambda>db. P (db_sessions db)) (insert_account a)"
  "preserves (\<lambda>db. P (db_sessions db)) (insert_or_ignore_account a)"
  "preserves (\<lambda>db. P (db_sessions db)) (insert_credential cr)"
  "preserves (\<lambda>db. P (db_sessions db)) (delete_users pu)" "preserves (\<lambda>db. P (db_sessions db)) (delete_accounts pa)"
  "preserves (\<lambda>db. P (db_sessions db)) (delete_sessions ps)" "preserves (\<lambda>db. P (db_sessions db)) (delete_credentials pc)"
  "preserves (\<lambda>db. P (db_sessions db)) (delete_tokens pt)" "preserves (\<lambda>db. P (db_sessions db)) (refresh_user p profile now)"
  unfolding insert_user_def insert_account_def insert_or_ignore_account_def insert_credential_def
    delete_users_def delete_accounts_def delete_sessions_def delete_credentials_def delete_tokens_def refresh_user_def
  by (rule keeps_statement, simp add: fewer)+

end

locale account_law =
  fixes P :: "account_row list \<Rightarrow> bool"
begin

sublocale table_law "\<lambda>db. P (db_accounts db)"
  by unfold_locales simp

lemma statements:
  "preserves (\<lambda>db. P (db_accounts db)) (insert_user u)"
  "preserves (\<lambda>db. P (db_accounts db)) (insert_session p h pr c e fr)"
  "preserves (\<lambda>db. P (db_accounts db)) (insert_credential cr)"
  "preserves (\<lambda>db. P (db_accounts db)) (delete_users pu)"
  "preserves (\<lambda>db. P (db_accounts db)) (delete_sessions ps)" "preserves (\<lambda>db. P (db_accounts db)) (delete_credentials pc)"
  "preserves (\<lambda>db. P (db_accounts db)) (delete_tokens pt)" "preserves (\<lambda>db. P (db_accounts db)) (refresh_user p profile now)"
  unfolding insert_user_def insert_session_def insert_credential_def
    delete_users_def delete_sessions_def delete_credentials_def delete_tokens_def refresh_user_def
  by (rule keeps_statement, simp)+

lemma insert_keeps:
  assumes "\<And>xs. P xs \<Longrightarrow> \<not> (\<exists>b\<in>set xs. owned (ac_provider a) (ac_subject a) b) \<Longrightarrow> P (xs @ [a])"
  shows "preserves (\<lambda>db. P (db_accounts db)) (insert_account a)"
    and "preserves (\<lambda>db. P (db_accounts db)) (insert_or_ignore_account a)"
  unfolding insert_account_def insert_or_ignore_account_def
  by (rule keeps_statement, simp add: assms)+

lemma delete_keeps:
  assumes "\<And>xs. P xs \<Longrightarrow> P (filter (\<lambda>x. \<not> p x) xs)"
  shows "preserves (\<lambda>db. P (db_accounts db)) (delete_accounts p)"
  unfolding delete_accounts_def by (rule keeps_statement) (simp add: assms)

end

locale token_law =
  fixes P :: "token_row list \<Rightarrow> bool"
  assumes fewer: "P xs \<Longrightarrow> P (filter p xs)"
begin

sublocale table_law "\<lambda>db. P (db_tokens db)"
  by unfold_locales simp

lemma statements:
  "preserves (\<lambda>db. P (db_tokens db)) (insert_user u)" "preserves (\<lambda>db. P (db_tokens db)) (insert_account a)"
  "preserves (\<lambda>db. P (db_tokens db)) (insert_or_ignore_account a)"
  "preserves (\<lambda>db. P (db_tokens db)) (insert_session q h pr c e fr)"
  "preserves (\<lambda>db. P (db_tokens db)) (insert_credential cr)"
  "preserves (\<lambda>db. P (db_tokens db)) (delete_users pu)" "preserves (\<lambda>db. P (db_tokens db)) (delete_accounts pa)"
  "preserves (\<lambda>db. P (db_tokens db)) (delete_sessions ps)" "preserves (\<lambda>db. P (db_tokens db)) (delete_credentials pc)"
  "preserves (\<lambda>db. P (db_tokens db)) (delete_tokens pt)" "preserves (\<lambda>db. P (db_tokens db)) (refresh_user q profile now)"
  unfolding insert_user_def insert_account_def insert_or_ignore_account_def insert_session_def insert_credential_def
    delete_users_def delete_accounts_def delete_sessions_def delete_credentials_def delete_tokens_def refresh_user_def
  by (rule keeps_statement, simp add: fewer)+

end

end
