(* ===== verification/EmailToken.thy ===== *)
theory EmailToken
  imports Accounts "HOL-Library.AList" "HOL-Library.Product_Lexorder"
begin

text \<open>
  Single-use tokens mailed to an address, the record that an address was proven, and the budget of links one
  mailbox may receive (\<open>src/auth/email_token.rs\<close>), over the database of \<open>Accounts\<close>.
\<close>

section \<open>Purposes\<close>

datatype email_purpose = PasswordReset | VerifyEmail | MagicLink

fun purpose_name :: "email_purpose \<Rightarrow> string" where
  "purpose_name PasswordReset = ''reset''"
| "purpose_name VerifyEmail = ''verify''"
| "purpose_name MagicLink = ''magiclink''"

fun ttl_minutes :: "email_purpose \<Rightarrow> int" where
  "ttl_minutes PasswordReset = 30"
| "ttl_minutes MagicLink = 15"
| "ttl_minutes VerifyEmail = 24 * 60"

definition ttl_ms :: "email_purpose \<Rightarrow> int" where
  "ttl_ms purpose = ttl_minutes purpose * 60000"

record redeemed =
  rd_provider :: string
  rd_principal :: "string option"
  rd_email :: string
  rd_next :: "string option"

section \<open>Statements on the two tables\<close>

definition insert_token :: "token_row \<Rightarrow> unit auth_op" where
  "insert_token t = statement_on (\<lambda>db.
     if \<exists>u\<in>set (db_tokens db). tk_hash u = tk_hash t then (Inl not_unique, db)
     else (Inr (), db\<lparr>db_tokens := db_tokens db @ [t]\<rparr>))"

definition insert_or_ignore_verified :: "verified_row \<Rightarrow> unit auth_op" where
  "insert_or_ignore_verified v = statement_on (\<lambda>db.
     if \<exists>w\<in>set (db_verified db). vf_principal w = vf_principal v \<and> vf_email w = vf_email v then (Inr (), db)
     else (Inr (), db\<lparr>db_verified := db_verified db @ [v]\<rparr>))"

definition live_token :: "string \<Rightarrow> email_purpose \<Rightarrow> int \<Rightarrow> token_row \<Rightarrow> bool" where
  \<comment> \<open>\<open>token_hash = ?1 AND purpose = ?2 AND expires_at > ?3\<close>\<close>
  "live_token token_hash purpose now t \<longleftrightarrow>
     tk_hash t = token_hash \<and> tk_purpose t = purpose_name purpose \<and> tk_expires t > now"

section \<open>Issue, peek, redeem\<close>

definition issue ::
  "(string \<Rightarrow> string) \<Rightarrow> string \<Rightarrow> email_purpose \<Rightarrow> string \<Rightarrow> string option \<Rightarrow> string \<Rightarrow> string option \<Rightarrow> int \<Rightarrow> string auth_op"
where
  "issue hash minted purpose provider p email next now = transaction
     (bind_op (delete_tokens (\<lambda>t. tk_purpose t = purpose_name purpose \<and> tk_provider t = provider \<and> tk_email t = email)) (\<lambda>_.
      bind_op (insert_token \<lparr>tk_hash = hash minted, tk_purpose = purpose_name purpose, tk_provider = provider,
                 tk_principal = p, tk_email = email, tk_next = next,
                 tk_expires = i64_sat_add now (ttl_ms purpose), tk_created = now\<rparr>) (\<lambda>_.
      give (Committed minted))))"

definition peek_token :: "(string \<Rightarrow> string) \<Rightarrow> email_purpose \<Rightarrow> string \<Rightarrow> int \<Rightarrow> bool auth_op" where
  "peek_token hash purpose token now =
     query_on (\<lambda>db. filter (live_token (hash token) purpose now) (db_tokens db) \<noteq> [])"

fun parse_optional :: "string option \<Rightarrow> string option auth_op" where
  "parse_optional None = give None"
| "parse_optional (Some raw) = bind_op (parse_principal raw) (\<lambda>p. give (Some p))"

definition consume :: "(string \<Rightarrow> string) \<Rightarrow> email_purpose \<Rightarrow> string \<Rightarrow> int \<Rightarrow> redeemed option auth_op" where
  "consume hash purpose token now = transaction
     (bind_op (query_on (\<lambda>db. filter (live_token (hash token) purpose now) (db_tokens db))) (\<lambda>found.
       (case found of
          [] \<Rightarrow> give (Rolled_back None)
        | t # _ \<Rightarrow>
            bind_op (parse_optional (tk_principal t)) (\<lambda>p.
            bind_op (delete_tokens (\<lambda>u. tk_hash u = hash token)) (\<lambda>deleted.
            if deleted \<noteq> 1 then give (Rolled_back None)
            else give (Committed (Some
              \<lparr>rd_provider = tk_provider t, rd_principal = p, rd_email = tk_email t, rd_next = tk_next t\<rparr>)))))))"

section \<open>Resetting a password\<close>

definition update_secret :: "string \<Rightarrow> string \<Rightarrow> string \<Rightarrow> nat auth_op" where
  "update_secret p provider secret = statement_on (\<lambda>db.
     let mine = (\<lambda>c. cr_principal c = p \<and> cr_provider c = provider \<and> cr_secret_hash c \<noteq> None) in
     (Inr (length (filter mine (db_credentials db))),
      db\<lparr>db_credentials := map (\<lambda>c. if mine c then c\<lparr>cr_secret_hash := Some secret\<rparr> else c) (db_credentials db)\<rparr>))"

definition claim_address :: "string \<Rightarrow> string \<Rightarrow> string \<Rightarrow> int \<Rightarrow> bool auth_op" where
  \<comment> \<open>whether \<open>(provider, email)\<close> signs in as this principal, made so when nobody holds it\<close>
  "claim_address p provider email now =
     bind_op (query_on (\<lambda>db. \<exists>u\<in>set (db_users db). us_principal u = p)) (\<lambda>exists.
     if \<not> exists then give False
     else bind_op (insert_or_ignore_account (new_account p provider email now)) (\<lambda>_.
          bind_op (query_on (\<lambda>db. filter (owned provider email) (db_accounts db))) (\<lambda>owner.
          give (case owner of [] \<Rightarrow> False | a # _ \<Rightarrow> ac_principal a = p))))"

definition end_access :: "string \<Rightarrow> bool ended auth_op" where
  "end_access p =
     bind_op (delete_sessions (\<lambda>s. se_principal s = p)) (\<lambda>_.
     bind_op (delete_tokens (\<lambda>t. tk_principal t = Some p \<and> tk_purpose t = purpose_name PasswordReset)) (\<lambda>_.
     give (Committed True)))"

definition reset_password :: "string \<Rightarrow> string \<Rightarrow> string \<Rightarrow> string \<Rightarrow> int \<Rightarrow> bool auth_op" where
  "reset_password p provider email secret now = transaction
     (bind_op (update_secret p provider secret) (\<lambda>updated.
      if updated = 0 then
        bind_op (claim_address p provider email now) (\<lambda>claimed.
        if \<not> claimed then give (Rolled_back False)
        else bind_op (insert_credential (new_credential p provider secret now)) (\<lambda>_. end_access p))
      else end_access p))"

section \<open>Proven addresses and magic links\<close>

definition verified_first :: "verified_row list \<Rightarrow> verified_row list" where
  \<comment> \<open>\<open>ORDER BY verified_at, principal\<close>\<close>
  "verified_first = sort_key (\<lambda>v. (vf_at v, vf_principal v))"

definition verified_principal :: "string \<Rightarrow> string option auth_op" where
  "verified_principal email =
     bind_op (query_on (\<lambda>db. verified_first (filter (\<lambda>v. vf_email v = email) (db_verified db)))) (\<lambda>found.
       (case found of
          [] \<Rightarrow> give None
        | v # _ \<Rightarrow> bind_op (parse_principal (vf_principal v)) (\<lambda>p. give (Some p))))"

definition magic_target :: "string option \<Rightarrow> string \<Rightarrow> (string option \<times> bool) auth_op" where
  "magic_target password_provider email =
     bind_op (verified_principal email) (\<lambda>proven.
       (case proven of
          Some p \<Rightarrow> give (Some p, False)
        | None \<Rightarrow>
            (case password_provider of
               Some provider \<Rightarrow> bind_op (lookup_account provider email) (\<lambda>found. give (found, True))
             | None \<Rightarrow> give (None, False))))"

definition strip_ways_in :: "string \<Rightarrow> string \<Rightarrow> unit auth_op" where
  "strip_ways_in p magic_provider =
     bind_op (delete_credentials (\<lambda>c. cr_principal c = p)) (\<lambda>_.
     bind_op (delete_accounts (\<lambda>a. ac_principal a = p \<and> ac_provider a \<noteq> magic_provider)) (\<lambda>_.
     bind_op (delete_sessions (\<lambda>s. se_principal s = p)) (\<lambda>_.
     bind_op (delete_tokens (\<lambda>t. tk_principal t = Some p)) (\<lambda>_.
     give ()))))"

definition link_magic :: "string \<Rightarrow> string \<Rightarrow> int \<Rightarrow> string \<Rightarrow> bool \<Rightarrow> (string \<times> bool) auth_op" where
  "link_magic magic_provider email now target took_over =
     bind_op (transaction
       (bind_op (insert_or_ignore_account (new_account target magic_provider email now)) (\<lambda>_.
        bind_op (if took_over then strip_ways_in target magic_provider else give ()) (\<lambda>_.
        give (Committed ()))))) (\<lambda>_.
     bind_op (lookup_account magic_provider email) (\<lambda>found.
       (case found of
          None \<Rightarrow> refuse (Corrupt ''a magic-link account was linked but cannot be read back'')
        | Some p \<Rightarrow> give (p, took_over \<and> p = target))))"

definition mail_profile :: "string \<Rightarrow> provider_profile" where
  "mail_profile email = \<lparr>pp_email = Some email, pp_name = None, pp_image = None, pp_claims = []\<rparr>"

definition resolve_magic_link ::
  "string \<Rightarrow> string \<Rightarrow> string option \<Rightarrow> string \<Rightarrow> int \<Rightarrow> (string \<times> bool) auth_op" where
  \<comment> \<open>the principal to sign in as, and whether an unproven account was taken over\<close>
  "resolve_magic_link minted magic_provider password_provider email now =
     bind_op (lookup_account magic_provider email) (\<lambda>known.
       (case known of
          Some p \<Rightarrow> give (p, False)
        | None \<Rightarrow>
            bind_op (magic_target password_provider email) (\<lambda>(target, took_over).
              (case target of
                 Some p \<Rightarrow> link_magic magic_provider email now p took_over
               | None \<Rightarrow>
                   bind_op (upsert_principal minted magic_provider email (mail_profile email) now) (\<lambda>p.
                   give (pr_id p, False))))))"

definition mark_verified :: "string \<Rightarrow> string \<Rightarrow> int \<Rightarrow> unit auth_op" where
  "mark_verified p email now = insert_or_ignore_verified \<lparr>vf_principal = p, vf_email = email, vf_at = now\<rparr>"

definition is_verified :: "string \<Rightarrow> string \<Rightarrow> bool auth_op" where
  "is_verified p email = query_on (\<lambda>db. \<exists>v\<in>set (db_verified db). vf_principal v = p \<and> vf_email v = email)"

section \<open>The budget of a mailbox\<close>

definition mail_burst :: int where "mail_burst = 3"
definition mail_interval_ms :: int where "mail_interval_ms = 6 * 60 * 1000"

definition admit_mail :: "string \<Rightarrow> int \<Rightarrow> bool auth_op" where
  \<comment> \<open>one statement: insert, or on conflict update where the new time is within the burst\<close>
  "admit_mail address now = statement_on (\<lambda>db.
     (case map_of (db_budget db) address of
        None \<Rightarrow> (Inr True, db\<lparr>db_budget := (address, now + mail_interval_ms) # db_budget db\<rparr>)
      | Some tat \<Rightarrow>
          if max tat now + mail_interval_ms - now \<le> mail_burst * mail_interval_ms
          then (Inr True, db\<lparr>db_budget := AList.update address (max tat now + mail_interval_ms) (db_budget db)\<rparr>)
          else (Inr False, db)))"

definition purge_expired :: "int \<Rightarrow> nat auth_op" where
  "purge_expired now =
     bind_op (delete_tokens (\<lambda>t. tk_expires t \<le> now)) (\<lambda>tokens.
     bind_op (statement_on (\<lambda>db. (Inr (length (filter (\<lambda>b. snd b \<le> now) (db_budget db))),
                 db\<lparr>db_budget := filter (\<lambda>b. \<not> snd b \<le> now) (db_budget db)\<rparr>))) (\<lambda>budgets.
     give (tokens + budgets)))"

end
