(* ===== verification/AuthTrace.thy ===== *)
theory AuthTrace
  imports EmailToken
begin

text \<open>
  The operations of \<open>Accounts\<close> and \<open>EmailToken\<close> as one vocabulary of calls, and what any sequence of them
  preserves. An operation that reads and then writes appears by its writing half with any answer of the read,
  so a sequence also stands for requests that ran between the two. The locale \<open>auth_law\<close> proves once that a
  law kept by every statement is kept by every call.
\<close>

section \<open>Calls\<close>

datatype auth_call =
    Resolve string int
  | Create string string string int int
  | Rotate string string string string int int
  | Revoke string
  | Revoke_all string
  | Purge_sessions int
  | Upsert string string string provider_profile int "string option"
  | Register string string string provider_profile string int "string option"
  | Delete_person string
  | Link string string string int "string option"
  | Link_late string string string int
  | Unlink string string string
  | Issue string email_purpose string "string option" string "string option" int
  | Peek email_purpose string int
  | Consume email_purpose string int
  | Reset string string string string int
  | Join_magic string string int string bool
  | Prove string string int
  | Admit string int
  | Purge int

definition quietly :: "'a auth_op \<Rightarrow> redeemed option auth_op" where
  "quietly m = bind_op m (\<lambda>_. give None)"

fun call_op :: "(string \<Rightarrow> string) \<Rightarrow> auth_call \<Rightarrow> redeemed option auth_op" where
  "call_op hash (Resolve token now) = quietly (resolve_session hash token now)"
| "call_op hash (Create minted p provider now ttl) = quietly (create_session hash minted p provider now ttl)"
| "call_op hash (Rotate minted old p provider now ttl) = quietly (rotate_session hash minted old p provider now ttl)"
| "call_op hash (Revoke h) = quietly (revoke_session h)"
| "call_op hash (Revoke_all p) = quietly (revoke_all_sessions p)"
| "call_op hash (Purge_sessions now) = quietly (purge_expired_sessions now)"
| "call_op hash (Upsert minted provider subject profile now found) =
     quietly (upsert_found minted provider subject profile now found)"
| "call_op hash (Register minted provider subject profile secret now found) =
     quietly (create_found minted provider subject profile secret now found)"
| "call_op hash (Delete_person p) = quietly (delete_principal p)"
| "call_op hash (Link p provider subject now found) = quietly (link_found p provider subject now found)"
| "call_op hash (Link_late p provider subject now) = quietly (link_insert p provider subject now)"
| "call_op hash (Unlink p provider keep) = quietly (unlink_account p provider keep)"
| "call_op hash (Issue minted purpose provider p email next now) = quietly (issue hash minted purpose provider p email next now)"
| "call_op hash (Peek purpose token now) = quietly (peek_token hash purpose token now)"
| "call_op hash (Consume purpose token now) = consume hash purpose token now"
| "call_op hash (Reset p provider email secret now) = quietly (reset_password p provider email secret now)"
| "call_op hash (Join_magic provider email now target took_over) = quietly (link_magic provider email now target took_over)"
| "call_op hash (Prove p email now) = quietly (mark_verified p email now)"
| "call_op hash (Admit address now) = quietly (admit_mail address now)"
| "call_op hash (Purge now) = quietly (purge_expired now)"

definition after_call :: "(string \<Rightarrow> string) \<Rightarrow> auth_db \<Rightarrow> auth_call \<Rightarrow> auth_db" where
  "after_call hash db c = snd (call_op hash c db)"

definition after_calls :: "(string \<Rightarrow> string) \<Rightarrow> auth_call list \<Rightarrow> auth_db \<Rightarrow> auth_db" where
  "after_calls hash cs db = foldl (after_call hash) db cs"

definition answered :: "store_error + 'a option \<Rightarrow> bool" where
  "answered r = (case r of Inr (Some _) \<Rightarrow> True | _ \<Rightarrow> False)"

lemma answered_iff: "answered r \<longleftrightarrow> (\<exists>x. r = Inr (Some x))"
  by (auto simp: answered_def split: sum.splits option.splits)

fun redemptions :: "(string \<Rightarrow> string) \<Rightarrow> string \<Rightarrow> auth_call list \<Rightarrow> auth_db \<Rightarrow> nat" where
  \<comment> \<open>how many of the calls redeem this token\<close>
  "redemptions hash token [] db = 0"
| "redemptions hash token (c # cs) db =
     (case c of
        Consume purpose token' now \<Rightarrow>
          (if token' = token \<and> answered (fst (call_op hash c db)) then 1 else 0)
      | _ \<Rightarrow> 0) + redemptions hash token cs (after_call hash db c)"

section \<open>Laws of a call\<close>

lemma keeps_quietly [intro]: "preserves P m \<Longrightarrow> preserves P (quietly m)"
  unfolding quietly_def by (rule keeps_bind) (auto intro: keeps_give)

lemma keeps_if: "preserves P m \<Longrightarrow> preserves P m' \<Longrightarrow> preserves P (if b then m else m')"
  by simp

lemma keeps_option: "preserves P m \<Longrightarrow> (\<And>x. preserves P (f x)) \<Longrightarrow> preserves P (case v of None \<Rightarrow> m | Some x \<Rightarrow> f x)"
  by (cases v) auto

lemma keeps_list: "preserves P m \<Longrightarrow> (\<And>x xs. preserves P (f x xs)) \<Longrightarrow> preserves P (case v of [] \<Rightarrow> m | x # xs \<Rightarrow> f x xs)"
  by (cases v) auto

lemma keeps_sum: "(\<And>x. preserves P (f x)) \<Longrightarrow> (\<And>y. preserves P (g y)) \<Longrightarrow> preserves P (case v of Inl x \<Rightarrow> f x | Inr y \<Rightarrow> g y)"
  by (cases v) auto

lemma keeps_pair: "(\<And>x y. preserves P (f x y)) \<Longrightarrow> preserves P (case v of (x, y) \<Rightarrow> f x y)"
  by (cases v) auto

lemmas keeps_cases = keeps_if keeps_option keeps_list keeps_sum keeps_pair

locale auth_law = call_law P for P :: "auth_db \<Rightarrow> bool" +
  fixes may_open :: "string \<Rightarrow> bool"
    and may_issue :: "string \<Rightarrow> bool"
    and may_give_up :: "(account_row \<Rightarrow> bool) \<Rightarrow> bool"
    and may_charge :: "string \<Rightarrow> bool"
    and may_sweep :: bool
  assumes insert_user: "preserves P (insert_user u)"
    and insert_account: "preserves P (insert_account a)"
    and insert_or_ignore_account: "preserves P (insert_or_ignore_account a)"
    and insert_credential: "preserves P (insert_credential cr)"
    and insert_session: "may_open h \<Longrightarrow> preserves P (insert_session p h provider created expires from)"
    and insert_token: "may_issue (tk_hash t) \<Longrightarrow> preserves P (insert_token t)"
    and insert_verified: "preserves P (insert_or_ignore_verified v)"
    and delete_users: "preserves P (delete_users pu)"
    and delete_accounts: "may_give_up pa \<Longrightarrow> preserves P (delete_accounts pa)"
    and delete_sessions: "preserves P (delete_sessions ps)"
    and delete_credentials: "preserves P (delete_credentials pc)"
    and delete_tokens: "preserves P (delete_tokens pt)"
    and refresh_user: "preserves P (refresh_user p profile now)"
    and update_secret: "preserves P (update_secret p provider secret)"
    and admit_mail: "may_charge address \<Longrightarrow> preserves P (admit_mail address now)"
    and purge_budget: "may_sweep \<Longrightarrow> P db \<Longrightarrow> P (db\<lparr>db_budget := filter pb (db_budget db)\<rparr>)"
begin

fun lawful :: "(string \<Rightarrow> string) \<Rightarrow> auth_call \<Rightarrow> bool" where
  "lawful hash (Create minted p provider now ttl) = may_open (hash minted)"
| "lawful hash (Rotate minted old p provider now ttl) = may_open (hash minted)"
| "lawful hash (Issue minted purpose provider p email next now) = may_issue (hash minted)"
| "lawful hash (Delete_person p) = may_give_up (\<lambda>a. ac_principal a = p)"
| "lawful hash (Unlink p provider keep) = may_give_up (\<lambda>a. ac_principal a = p \<and> ac_provider a = provider)"
| "lawful hash (Join_magic provider email now target took_over) =
     (took_over \<longrightarrow> may_give_up (\<lambda>a. ac_principal a = target \<and> ac_provider a \<noteq> provider))"
| "lawful hash (Admit address now) = may_charge address"
| "lawful hash (Purge now) = may_sweep"
| "lawful hash _ = True"

lemmas steps = insert_user insert_account insert_or_ignore_account insert_credential insert_session insert_token
  insert_verified delete_users delete_accounts delete_sessions delete_credentials delete_tokens refresh_user
  update_secret admit_mail keeps_parse keeps_give keeps_refuse keeps_query keeps_caught

lemma keeps_lookup: "preserves P (lookup_account provider subject)"
  unfolding lookup_account_def by (intro keeps_bind keeps_cases steps)

lemma keeps_call_op:
  assumes "lawful hash c" shows "preserves P (call_op hash c)"
proof (cases c)
  case (Resolve token now)
  then show ?thesis unfolding resolve_session_def by (auto intro!: keeps_quietly keeps_bind keeps_cases steps simp: resolve_session_def)
next
  case (Create minted p provider now ttl)
  then show ?thesis using assms by (auto intro!: keeps_quietly keeps_bind steps simp: create_session_def)
next
  case (Rotate minted old p provider now ttl)
  then show ?thesis using assms
    by (auto intro!: keeps_quietly keeps_transaction keeps_bind steps simp: rotate_session_def)
next
  case (Upsert minted provider subject profile now found)
  then show ?thesis
    by (auto intro!: keeps_quietly keeps_transaction keeps_bind keeps_cases steps keeps_lookup simp: upsert_found_def)
next
  case (Register minted provider subject profile secret now found)
  then show ?thesis
    by (auto intro!: keeps_quietly keeps_transaction keeps_bind keeps_cases steps simp: create_found_def)
next
  case (Delete_person p)
  then show ?thesis using assms
    by (auto intro!: keeps_quietly keeps_transaction keeps_bind steps simp: delete_principal_def)
next
  case (Link p provider subject now found)
  then show ?thesis
    by (auto intro!: keeps_quietly keeps_bind keeps_cases steps keeps_lookup simp: link_found_def link_insert_def)
next
  case (Link_late p provider subject now)
  then show ?thesis
    by (auto intro!: keeps_quietly keeps_bind keeps_cases steps keeps_lookup simp: link_insert_def)
next
  case (Unlink p provider keep)
  then show ?thesis using assms
    by (auto intro!: keeps_quietly keeps_transaction keeps_bind keeps_cases steps simp: unlink_account_def)
next
  case (Issue minted purpose provider p email onward now)
  then show ?thesis using assms
    by (auto intro!: keeps_quietly keeps_transaction keeps_bind steps simp: issue_def)
next
  case (Consume purpose token now)
  have opt: "preserves P (parse_optional x)" for x
    by (cases x) (auto intro!: keeps_bind steps)
  show ?thesis unfolding Consume call_op.simps consume_def
    by (intro keeps_transaction keeps_bind keeps_cases steps opt)
next
  case (Reset p provider email secret now)
  have ended: "preserves P (end_access q)" for q unfolding end_access_def by (intro keeps_bind steps)
  have claim: "preserves P (claim_address a b c d)" for a b c d
    unfolding claim_address_def by (intro keeps_bind keeps_cases steps)
  show ?thesis unfolding Reset call_op.simps reset_password_def
    by (intro keeps_quietly keeps_transaction keeps_bind keeps_cases steps ended claim)
next
  case (Join_magic provider email now target took_over)
  have "preserves P (if took_over then strip_ways_in target provider else give ())"
    using assms Join_magic by (auto intro!: keeps_bind steps simp: strip_ways_in_def)
  note strip = this
  show ?thesis unfolding Join_magic call_op.simps link_magic_def
    by (rule keeps_quietly, rule keeps_bind, rule keeps_transaction, rule keeps_bind, rule insert_or_ignore_account,
        rule keeps_bind[OF strip], rule keeps_give) (intro keeps_bind keeps_cases steps keeps_lookup)
next
  case (Admit address now)
  then show ?thesis using assms by (auto intro!: keeps_quietly admit_mail)
next
  case (Purge now)
  then show ?thesis using assms
    by (auto intro!: keeps_quietly keeps_bind steps keeps_statement purge_budget simp: purge_expired_def)
qed (auto intro!: keeps_quietly steps simp: revoke_session_def revoke_all_sessions_def purge_expired_sessions_def
      peek_token_def mark_verified_def)

lemma keeps_reads:
  "preserves P (resolve_session hash token now)" "preserves P (lookup_credential provider subject)"
  "preserves P (verified_principal email)" "preserves P (is_verified p email)" "preserves P (load_principal p)"
  unfolding resolve_session_def lookup_credential_def verified_principal_def is_verified_def load_principal_def
  by (intro keeps_bind keeps_cases steps)+

lemma keeps_quiet_call: "lawful hash c \<Longrightarrow> call_op hash c = quietly m \<Longrightarrow> preserves P m"
proof -
  assume c: "lawful hash c" "call_op hash c = quietly m"
  have "snd (quietly m db) = snd (m db)" for db
    by (simp add: quietly_def bind_op_def give_def split: prod.split sum.split)
  then show ?thesis using keeps_call_op[OF c(1)] by (simp add: c(2) preserves_def)
qed

lemma keeps_upsert: "preserves P (upsert_principal minted provider subject profile now)"
  unfolding upsert_principal_def
  by (rule keeps_bind[OF keeps_lookup]) (rule keeps_quiet_call[where c = "Upsert minted provider subject profile now found" for found], simp_all)

lemma keeps_sign_up: "preserves P (create_credential_account minted provider subject profile secret now)"
  unfolding create_credential_account_def
  by (rule keeps_bind[OF keeps_lookup]) (rule keeps_quiet_call[where c = "Register minted provider subject profile secret now found" for found], simp_all)

lemma keeps_magic:
  assumes "\<And>q. may_give_up q" shows "preserves P (resolve_magic_link minted magic password email now)"
proof -
  have "preserves P (link_magic magic email now p took_over)" for p took_over
    by (rule keeps_quiet_call[where c = "Join_magic magic email now p took_over"]) (simp_all add: assms)
  then show ?thesis unfolding resolve_magic_link_def magic_target_def
    by (intro keeps_bind keeps_cases keeps_lookup keeps_reads keeps_give keeps_upsert)
qed

lemma after_call_law: "P db \<Longrightarrow> lawful hash c \<Longrightarrow> P (after_call hash db c)"
  unfolding after_call_def using keeps_call_op[of hash c] by (simp add: preserves_def)

lemma after_calls_law: "P db \<Longrightarrow> (\<And>c. c \<in> set cs \<Longrightarrow> lawful hash c) \<Longrightarrow> P (after_calls hash cs db)"
  unfolding after_calls_def by (induction cs arbitrary: db) (auto intro: after_call_law)

end

section \<open>The laws of the tables\<close>

context session_law begin

lemma mail_statements:
  "preserves (\<lambda>db. P (db_sessions db)) (insert_token t)"
  "preserves (\<lambda>db. P (db_sessions db)) (insert_or_ignore_verified v)"
  "preserves (\<lambda>db. P (db_sessions db)) (update_secret p provider secret)"
  "preserves (\<lambda>db. P (db_sessions db)) (EmailToken.admit_mail address now)"
  unfolding insert_token_def insert_or_ignore_verified_def update_secret_def admit_mail_def
  by (rule keeps_statement, simp add: Let_def split: option.split)+

end

context account_law begin

lemma mail_statements:
  "preserves (\<lambda>db. P (db_accounts db)) (insert_token t)"
  "preserves (\<lambda>db. P (db_accounts db)) (insert_or_ignore_verified v)"
  "preserves (\<lambda>db. P (db_accounts db)) (update_secret p provider secret)"
  "preserves (\<lambda>db. P (db_accounts db)) (EmailToken.admit_mail address now)"
  unfolding insert_token_def insert_or_ignore_verified_def update_secret_def admit_mail_def
  by (rule keeps_statement, simp add: Let_def split: option.split)+

end

context token_law begin

lemma mail_statements:
  "preserves (\<lambda>db. P (db_tokens db)) (insert_or_ignore_verified v)"
  "preserves (\<lambda>db. P (db_tokens db)) (update_secret p provider secret)"
  "preserves (\<lambda>db. P (db_tokens db)) (EmailToken.admit_mail address now)"
  unfolding insert_or_ignore_verified_def update_secret_def admit_mail_def
  by (rule keeps_statement, simp add: Let_def split: option.split)+

end

lemma distinct_update_budget:
  "distinct (map fst b) \<Longrightarrow> distinct (map fst (AList.update k v b))"
  by (simp add: distinct_update)

lemma sound_mail_statements:
  "preserves tables_sound (insert_token t)" "preserves tables_sound (insert_or_ignore_verified v)"
  "preserves tables_sound (update_secret p provider secret)" "preserves tables_sound (admit_mail address now)"
  unfolding insert_token_def insert_or_ignore_verified_def update_secret_def admit_mail_def
  by (rule sound.keeps_statement,
      force simp: tables_sound_def Let_def distinct_update_budget map_of_eq_None_iff split: option.split)+

lemma purge_sound: "tables_sound db \<Longrightarrow> tables_sound (db\<lparr>db_budget := filter p (db_budget db)\<rparr>)"
  by (simp add: tables_sound_def distinct_map_filter)

section \<open>Interpretations\<close>

definition no_session :: "string \<Rightarrow> session_row list \<Rightarrow> bool" where
  "no_session h ss \<longleftrightarrow> (\<forall>s\<in>set ss. se_token_hash s \<noteq> h)"

definition no_token :: "string \<Rightarrow> token_row list \<Rightarrow> bool" where
  "no_token h ts \<longleftrightarrow> (\<forall>t\<in>set ts. tk_hash t \<noteq> h)"

definition held_by :: "string \<Rightarrow> string \<Rightarrow> string \<Rightarrow> account_row list \<Rightarrow> bool" where
  \<comment> \<open>the identity signs in as this principal\<close>
  "held_by provider subject p as \<longleftrightarrow> map_option ac_principal (find (owned provider subject) as) = Some p"

interpretation sound_trace: auth_law tables_sound "\<lambda>_. True" "\<lambda>_. True" "\<lambda>_. True" "\<lambda>_. True" True
  by unfold_locales (auto intro: sound_statements sound_mail_statements purge_sound)

lemma quiet_statements:
  "preserves (\<lambda>db. db_faults db = []) (insert_user u)" "preserves (\<lambda>db. db_faults db = []) (insert_account a)"
  "preserves (\<lambda>db. db_faults db = []) (insert_or_ignore_account a)" "preserves (\<lambda>db. db_faults db = []) (insert_credential cr)"
  "preserves (\<lambda>db. db_faults db = []) (insert_session q h pr c e fr)" "preserves (\<lambda>db. db_faults db = []) (insert_token t)"
  "preserves (\<lambda>db. db_faults db = []) (insert_or_ignore_verified vf)"
  "preserves (\<lambda>db. db_faults db = []) (delete_users pu)" "preserves (\<lambda>db. db_faults db = []) (delete_accounts pa)"
  "preserves (\<lambda>db. db_faults db = []) (delete_sessions ps)" "preserves (\<lambda>db. db_faults db = []) (delete_credentials pc)"
  "preserves (\<lambda>db. db_faults db = []) (delete_tokens pt)" "preserves (\<lambda>db. db_faults db = []) (refresh_user q profile now)"
  "preserves (\<lambda>db. db_faults db = []) (update_secret q provider secret)" "preserves (\<lambda>db. db_faults db = []) (admit_mail address now)"
  unfolding insert_user_def insert_account_def insert_or_ignore_account_def insert_session_def insert_credential_def
    delete_users_def delete_accounts_def delete_sessions_def delete_credentials_def delete_tokens_def refresh_user_def
    insert_token_def insert_or_ignore_verified_def update_secret_def admit_mail_def
  by (rule quiet.keeps_statement, simp add: Let_def split: option.split)+

interpretation quiet_trace: auth_law "\<lambda>db. db_faults db = []" "\<lambda>_. True" "\<lambda>_. True" "\<lambda>_. True" "\<lambda>_. True" True
  by unfold_locales (auto intro: quiet_statements)

interpretation gone: session_law "no_session h" for h
  by unfold_locales (auto simp: no_session_def)

lemma gone_insert: "h' \<noteq> h \<Longrightarrow> preserves (\<lambda>db. no_session h (db_sessions db)) (insert_session p h' provider created expires from)"
  unfolding insert_session_def by (rule gone.keeps_statement) (simp add: no_session_def)

interpretation gone_trace: auth_law "\<lambda>db. no_session h (db_sessions db)" "\<lambda>h'. h' \<noteq> h" "\<lambda>_. True" "\<lambda>_. True" "\<lambda>_. True" True for h
  by unfold_locales (auto intro: gone.statements gone.mail_statements gone_insert)

interpretation spent: token_law "no_token h" for h
  by unfold_locales (auto simp: no_token_def)

lemma spent_insert: "tk_hash t \<noteq> h \<Longrightarrow> preserves (\<lambda>db. no_token h (db_tokens db)) (insert_token t)"
  unfolding insert_token_def by (rule spent.keeps_statement) (simp add: no_token_def)

interpretation spent_trace: auth_law "\<lambda>db. no_token h (db_tokens db)" "\<lambda>_. True" "\<lambda>h'. h' \<noteq> h" "\<lambda>_. True" "\<lambda>_. True" True for h
  by unfold_locales (auto intro: spent.statements spent.mail_statements spent_insert)

interpretation ident: account_law "held_by provider subject p" for provider subject p .

lemma find_append_some: "find p xs = Some x \<Longrightarrow> find p (xs @ ys) = Some x"
  by (induction xs) (auto split: if_splits)

lemma find_filter_some: "find p xs = Some x \<Longrightarrow> \<not> q x \<Longrightarrow> find p (filter (\<lambda>x. \<not> q x) xs) = Some x"
  by (induction xs) (auto split: if_splits)

lemma held_append: "held_by provider subject p xs \<Longrightarrow> held_by provider subject p (xs @ ys)"
  by (auto simp: held_by_def find_append_some)

lemma held_filter:
  "held_by provider subject p xs \<Longrightarrow> (\<And>a. owned provider subject a \<Longrightarrow> ac_principal a = p \<Longrightarrow> \<not> q a) \<Longrightarrow>
   held_by provider subject p (filter (\<lambda>x. \<not> q x) xs)"
proof -
  assume h: "held_by provider subject p xs" and q: "\<And>a. owned provider subject a \<Longrightarrow> ac_principal a = p \<Longrightarrow> \<not> q a"
  from h obtain a where f: "find (owned provider subject) xs = Some a" "ac_principal a = p"
    by (auto simp: held_by_def)
  then have "owned provider subject a" by (auto simp: find_Some_iff)
  with f q have "find (owned provider subject) (filter (\<lambda>x. \<not> q x) xs) = Some a"
    by (intro find_filter_some) auto
  with f show "held_by provider subject p (filter (\<lambda>x. \<not> q x) xs)" by (simp add: held_by_def)
qed

interpretation ident_trace: auth_law "\<lambda>db. held_by provider subject p (db_accounts db)" "\<lambda>_. True" "\<lambda>_. True"
    "\<lambda>q. \<forall>a. owned provider subject a \<and> ac_principal a = p \<longrightarrow> \<not> q a" "\<lambda>_. True" True for provider subject p
  by unfold_locales (auto intro: ident.statements ident.mail_statements ident.insert_keeps ident.delete_keeps
      held_append held_filter)

section \<open>What every sequence of calls guarantees\<close>

fun gives_up :: "string \<Rightarrow> string \<Rightarrow> auth_call \<Rightarrow> bool" where
  \<comment> \<open>the call asks, in so many words, to take this provider's identity from this principal\<close>
  "gives_up provider p (Delete_person q) = (q = p)"
| "gives_up provider p (Unlink q name keep) = (q = p \<and> name = provider)"
| "gives_up provider p (Join_magic magic email now target took_over) = (took_over \<and> target = p \<and> magic \<noteq> provider)"
| "gives_up provider p _ = False"

lemma not_given_up: "\<not> gives_up provider p c \<Longrightarrow> ident_trace.lawful provider subject p hash c"
  by (cases c) (simp_all add: ident_trace.lawful.simps, auto simp: owned_def)

fun mints_session :: "(string \<Rightarrow> string) \<Rightarrow> string \<Rightarrow> auth_call \<Rightarrow> bool" where
  "mints_session hash h (Create minted p provider now ttl) = (hash minted = h)"
| "mints_session hash h (Rotate minted old p provider now ttl) = (hash minted = h)"
| "mints_session hash h _ = False"

lemma not_minted: "\<not> mints_session hash h c \<Longrightarrow> gone_trace.lawful h hash c"
  by (cases c) (simp_all add: gone_trace.lawful.simps)

fun issues :: "(string \<Rightarrow> string) \<Rightarrow> string \<Rightarrow> auth_call \<Rightarrow> bool" where
  "issues hash h (Issue minted purpose provider p email next now) = (hash minted = h)"
| "issues hash h _ = False"

lemma not_issued: "\<not> issues hash h c \<Longrightarrow> spent_trace.lawful h hash c"
  by (cases c) (simp_all add: spent_trace.lawful.simps)

lemma sound_lawful: "sound_trace.lawful hash c"
  by (cases c) (simp_all add: sound_trace.lawful.simps)

lemma after_calls_sound: "tables_sound db \<Longrightarrow> tables_sound (after_calls hash cs db)"
  by (rule sound_trace.after_calls_law) (auto simp: sound_lawful)

lemma find_owned: "map_option ac_principal (find (owned provider subject) as) = Some p \<longleftrightarrow> held_by provider subject p as"
  by (simp add: held_by_def)

lemma held_lookup:
  assumes "held_by provider subject p (db_accounts db)"
  shows "\<exists>as a. filter (owned provider subject) (db_accounts db) = a # as \<and> ac_principal a = p"
proof -
  have find_hd: "find q xs = (case filter q xs of [] \<Rightarrow> None | x # _ \<Rightarrow> Some x)" for q and xs :: "account_row list"
    by (induction xs) auto
  show ?thesis using assms by (auto simp: held_by_def find_hd split: list.splits)
qed

lemma lookup_account_ok:
  "lookup_account provider subject db = (Inr found, db') \<Longrightarrow>
   found = (case filter (owned provider subject) (db_accounts db) of [] \<Rightarrow> None | a # _ \<Rightarrow> Some (ac_principal a)) \<and>
   (\<exists>fs. runs db fs \<and> db' = db\<lparr>db_faults := fs\<rparr>)"
  by (cases "filter (owned provider subject) (db_accounts db)")
    (auto simp: lookup_account_def parse_principal_def ok split: if_split_asm)

text \<open>C14. Identities never move. Whatever requests run, in whatever order, interleaved between their reads and
  their writes and whichever calls of the database fail, an identity \<open>(provider, subject)\<close> that signs in as a
  principal goes on signing in as that principal and no other, unless one of the calls deletes that principal,
  disconnects that provider from it, or hands its unproven account to the owner of the mailbox.\<close>

theorem identity_never_moves:
  assumes held: "held_by provider subject p (db_accounts db)"
    and kept: "\<And>c. c \<in> set cs \<Longrightarrow> \<not> gives_up provider p c"
  shows "held_by provider subject p (db_accounts (after_calls hash cs db)) \<and>
    (\<forall>found db'. lookup_account provider subject (after_calls hash cs db) = (Inr found, db') \<longrightarrow> found = Some p)"
proof -
  have still: "held_by provider subject p (db_accounts (after_calls hash cs db))"
    by (rule ident_trace.after_calls_law[OF held]) (rule not_given_up[OF kept])
  then show ?thesis
    using held_lookup[OF still] by (auto dest!: lookup_account_ok)
qed

definition ada_db :: auth_db where
  "ada_db = \<lparr>db_users = [new_user ''u_ada'' (mail_profile ''ada@x.dev'') 0, new_user ''u_eve'' (mail_profile ''eve@x.dev'') 0],
     db_accounts = [new_account ''u_ada'' ''password'' ''ada@x.dev'' 0, new_account ''u_eve'' ''github'' ''gh-eve'' 0],
     db_sessions = [\<lparr>se_id = 1, se_principal = ''u_ada'', se_token_hash = ''s1'', se_provider = ''password'',
       se_created = 0, se_expires = 1000, se_rotated_from = None\<rparr>],
     db_credentials = [new_credential ''u_ada'' ''password'' ''h'' 0], db_tokens = [],
     db_verified = [\<lparr>vf_principal = ''u_ada'', vf_email = ''ada@x.dev'', vf_at = 0\<rparr>],
     db_budget = [], db_next_session = 2, db_faults = []\<rparr>"

definition hostile_calls :: "auth_call list" where
  "hostile_calls =
    [Register ''u_new'' ''password'' ''ada@x.dev'' (mail_profile ''ada@x.dev'') ''mine'' 5 None,
     Link ''u_eve'' ''password'' ''ada@x.dev'' 6 None, Upsert ''u_late'' ''password'' ''ada@x.dev'' (mail_profile ''a'') 7 None,
     Unlink ''u_eve'' ''github'' ''s9'', Reset ''u_eve'' ''password'' ''ada@x.dev'' ''mine'' 8, Delete_person ''u_eve'']"

theorem identity_never_moves_witness:
  "held_by ''password'' ''ada@x.dev'' ''u_ada'' (db_accounts (after_calls id hostile_calls ada_db)) \<and>
   fst (lookup_account ''password'' ''ada@x.dev'' (after_calls id hostile_calls ada_db)) = Inr (Some ''u_ada'')"
proof -
  have "held_by ''password'' ''ada@x.dev'' ''u_ada'' (db_accounts ada_db)"
    by (simp add: held_by_def ada_db_def owned_def new_account_def)
  moreover have "\<not> gives_up ''password'' ''u_ada'' c" if "c \<in> set hostile_calls" for c
    using that by (auto simp: hostile_calls_def)
  ultimately have "held_by ''password'' ''ada@x.dev'' ''u_ada'' (db_accounts (after_calls id hostile_calls ada_db))"
    using identity_never_moves[of "''password''" "''ada@x.dev''" "''u_ada''" ada_db hostile_calls id] by blast
  then show ?thesis by code_simp
qed


section \<open>A mailed token is spent once\<close>

lemma parse_optional_ok: "parse_optional x db = (Inr p, db') \<Longrightarrow> p = x \<and> db' = db"
  by (cases x) (auto simp: parse_principal_def ok split: if_split_asm)

lemma consume_ok:
  assumes "consume hash purpose token now db = (Inr (Some r), db')"
  shows "(\<exists>t\<in>set (db_tokens db). live_token (hash token) purpose now t \<and>
            r = \<lparr>rd_provider = tk_provider t, rd_principal = tk_principal t, rd_email = tk_email t, rd_next = tk_next t\<rparr>) \<and>
         db_tokens db' = filter (\<lambda>u. tk_hash u \<noteq> hash token) (db_tokens db)"
proof (cases "filter (live_token (hash token) purpose now) (db_tokens db)")
  case Nil
  then show ?thesis using assms by (auto simp: consume_def ok)
next
  case (Cons t ts)
  then have "t \<in> set (db_tokens db) \<and> live_token (hash token) purpose now t"
    using filter_eq_ConsD by fastforce
  then show ?thesis using assms Cons
    by (auto simp: consume_def ok delete_tokens_def split: if_split_asm dest!: parse_optional_ok)
qed

lemma spent_never_redeems:
  assumes "no_token (hash token) (db_tokens db)" "\<forall>c\<in>set cs. \<not> issues hash (hash token) c"
  shows "redemptions hash token cs db = 0"
  using assms
proof (induction cs arbitrary: db)
  case (Cons c cs)
  have "no_token (hash token) (db_tokens (after_call hash db c))"
    using Cons.prems by (intro spent_trace.after_call_law not_issued) auto
  moreover have "fst (consume hash purpose token now db) \<noteq> Inr (Some r)" for purpose now r
  proof
    assume "fst (consume hash purpose token now db) = Inr (Some r)"
    then obtain db' where "consume hash purpose token now db = (Inr (Some r), db')" by (metis prod.collapse)
    from consume_ok[OF this] Cons.prems(1) show False by (auto simp: no_token_def live_token_def)
  qed
  ultimately show ?case using Cons by (auto split: auth_call.split simp: answered_iff)
qed simp

text \<open>C13. Single use. However the requests interleave and whichever calls fail, and even if two redemptions of one
  link race, a mailed token is redeemed at most once, for any purpose, unless the very same token is issued again.\<close>

theorem token_redeems_once:
  assumes "\<forall>c\<in>set cs. \<not> issues hash (hash token) c"
  shows "redemptions hash token cs db \<le> 1"
  using assms
proof (induction cs arbitrary: db)
  case (Cons c cs)
  show ?case
  proof (cases "\<exists>purpose now r. c = Consume purpose token now \<and> fst (call_op hash c db) = Inr (Some r)")
    case True
    then obtain purpose now r where c: "c = Consume purpose token now"
      and "fst (consume hash purpose token now db) = Inr (Some r)" by auto
    then have "consume hash purpose token now db = (Inr (Some r), after_call hash db c)"
      by (simp add: after_call_def prod_eq_iff)
    from consume_ok[OF this] have "no_token (hash token) (db_tokens (after_call hash db c))"
      by (simp add: no_token_def)
    then have "redemptions hash token cs (after_call hash db c) = 0"
      using Cons.prems by (intro spent_never_redeems) auto
    then show ?thesis by (simp add: c)
  next
    case False
    then have "redemptions hash token (c # cs) db = redemptions hash token cs (after_call hash db c)"
      by (auto split: auth_call.split simp: answered_iff)
    with Cons show ?thesis by simp
  qed
qed simp

text \<open>C39. An issued link is worth exactly what was written on it. After \<open>issue\<close> answers, redeeming the token
  before its expiry for its own purpose gives back the provider, principal, address and return path it was issued
  with; for another purpose or after the expiry it gives nothing; and every older link of the same purpose,
  provider and address is dead.\<close>

theorem issued_token_redeems:
  assumes issued: "issue hash minted purpose provider p email onward now db = (Inr token, db')"
    and person: "case p of None \<Rightarrow> True | Some who \<Rightarrow> is_valid_partition_key who"
    and fine: "db_faults db' = []"
  shows "token = minted \<and>
    fst (consume hash wanted token later db') =
      Inr (if wanted = purpose \<and> later < i64_sat_add now (ttl_ms purpose)
           then Some \<lparr>rd_provider = provider, rd_principal = p, rd_email = email, rd_next = onward\<rparr> else None) \<and>
    (\<forall>t\<in>set (db_tokens db'). tk_purpose t = purpose_name purpose \<and> tk_provider t = provider \<and> tk_email t = email \<longrightarrow>
       tk_hash t = hash token)"
proof -
  let ?row = "\<lparr>tk_hash = hash minted, tk_purpose = purpose_name purpose, tk_provider = provider,
     tk_principal = p, tk_email = email, tk_next = onward, tk_expires = i64_sat_add now (ttl_ms purpose), tk_created = now\<rparr>"
  let ?old = "filter (\<lambda>t. \<not> (tk_purpose t = purpose_name purpose \<and> tk_provider t = provider \<and> tk_email t = email)) (db_tokens db)"
  have token: "token = minted" and new: "db_tokens db' = ?old @ [?row]" and fresh: "\<forall>u\<in>set ?old. tk_hash u \<noteq> hash minted"
    using issued by (auto simp: issue_def ok delete_tokens_def insert_token_def split: if_split_asm)
  have name: "purpose_name a = purpose_name b \<longleftrightarrow> a = b" for a b
    by (cases a; cases b) simp_all
  have found: "filter (live_token (hash minted) wanted later) (db_tokens db') =
      (if wanted = purpose \<and> later < i64_sat_add now (ttl_ms purpose) then [?row] else [])"
    using fresh by (auto simp: new live_token_def name filter_empty_conv)
  have gone: "filter (\<lambda>u. tk_hash u = hash minted) (db_tokens db') = [?row]"
    using fresh by (auto simp: new filter_empty_conv)
  have call: "call_substrate db' = (Inr (), db')"
    by (simp add: call_substrate_def fine)
  have parsed: "parse_optional p d = (Inr p, d)" for d
    using person by (cases p) (auto simp: bind_op_def parse_principal_def give_def)
  have "fst (consume hash wanted minted later db') =
      Inr (if wanted = purpose \<and> later < i64_sat_add now (ttl_ms purpose)
           then Some \<lparr>rd_provider = provider, rd_principal = p, rd_email = email, rd_next = onward\<rparr> else None)"
    by (simp add: consume_def transaction_def bind_op_def call query_on_def statement_on_def found gone parsed give_def
        delete_tokens_def undone_def call_substrate_def fine)
  then show ?thesis using token by (auto simp: new)
qed

section \<open>Instances\<close>

definition signed_out :: auth_db where
  "signed_out = after_calls id [Revoke ''s1''] ada_db"


definition mailed :: auth_db where
  "mailed = after_calls id [Issue ''t1'' PasswordReset ''password'' (Some ''u_ada'') ''ada@x.dev'' None 0] ada_db"

definition racing :: "auth_call list" where
  "racing = [Peek PasswordReset ''t1'' 4, Consume VerifyEmail ''t1'' 5, Consume PasswordReset ''t1'' 5, Consume PasswordReset ''t1'' 5]"

theorem token_redeems_once_witness:
  "redemptions id ''t1'' racing mailed \<le> 1 \<and> redemptions id ''t1'' racing mailed = 1"
proof -
  have "\<forall>c\<in>set racing. \<not> issues id (id ''t1'') c" by (simp add: racing_def)
  then have "redemptions id ''t1'' racing mailed \<le> 1" by (rule token_redeems_once)
  moreover have "redemptions id ''t1'' racing mailed = 1" by code_simp
  ultimately show ?thesis by blast
qed

theorem issued_token_redeems_witness:
  "fst (consume id PasswordReset ''t1'' 1799999 mailed) =
     Inr (Some \<lparr>rd_provider = ''password'', rd_principal = Some ''u_ada'', rd_email = ''ada@x.dev'', rd_next = None\<rparr>)"
proof -
  have "issue id ''t1'' PasswordReset ''password'' (Some ''u_ada'') ''ada@x.dev'' None 0 ada_db = (Inr ''t1'', mailed)"
    by code_simp
  moreover have "is_valid_partition_key ''u_ada''" "db_faults mailed = []" by code_simp+
  ultimately show ?thesis
    using issued_token_redeems[of id "''t1''" PasswordReset "''password''" "Some ''u_ada''" "''ada@x.dev''" None 0 ada_db
        "''t1''" mailed PasswordReset 1799999]
    by (simp add: ttl_ms_def i64_sat_add_def i64_max_def i64_min_def)
qed

end
