(* ===== verification/AuthSafety.thy ===== *)
theory AuthSafety
  imports AuthTrace
begin

text \<open>
  What the operations that take access away leave behind: a password reset, a magic link that claims an unproven
  account, disconnecting a provider; what the loser of a race is told; and how much mail one address can be sent.
\<close>

section \<open>Resetting a password\<close>

lemma end_access_ok:
  "end_access p tx = (Inr r, tx') \<longleftrightarrow>
     r = Committed True \<and> (\<exists>fs. tx' = tx\<lparr>db_faults := fs,
       db_sessions := filter (\<lambda>s. se_principal s \<noteq> p) (db_sessions tx),
       db_tokens := filter (\<lambda>t. \<not> (tk_principal t = Some p \<and> tk_purpose t = purpose_name PasswordReset)) (db_tokens tx)\<rparr>
       \<and> (\<exists>gs. runs tx gs \<and> runs (tx\<lparr>db_faults := gs\<rparr>) fs))"
  by (auto simp: end_access_def ok delete_sessions_def delete_tokens_def runs_def)

lemma claim_address_ok:
  assumes "claim_address p provider email now tx = (Inr True, tx')"
  shows "(\<exists>u\<in>set (db_users tx). us_principal u = p) \<and>
    (\<exists>a. find (owned provider email) (db_accounts tx') = Some a \<and> ac_principal a = p) \<and>
    (db_accounts tx' = db_accounts tx \<or> db_accounts tx' = db_accounts tx @ [new_account p provider email now]) \<and>
    db_credentials tx' = db_credentials tx \<and> db_sessions tx' = db_sessions tx \<and> db_tokens tx' = db_tokens tx \<and>
    db_users tx' = db_users tx"
proof -
  have find_hd: "find q xs = (case filter q xs of [] \<Rightarrow> None | x # _ \<Rightarrow> Some x)" for q and xs :: "account_row list"
    by (induction xs) auto
  from assms show ?thesis
    by (auto simp: claim_address_def ok insert_or_ignore_account_def find_hd
        split: if_split_asm list.split_asm list.split)
qed

definition password_of :: "string \<Rightarrow> string \<Rightarrow> credential_row \<Rightarrow> bool" where
  "password_of p provider c \<longleftrightarrow> cr_principal c = p \<and> cr_provider c = provider \<and> cr_secret_hash c \<noteq> None"

definition with_secret :: "string \<Rightarrow> string \<Rightarrow> string \<Rightarrow> credential_row \<Rightarrow> credential_row" where
  "with_secret p provider secret c = (if password_of p provider c then c\<lparr>cr_secret_hash := Some secret\<rparr> else c)"

lemma update_secret_ok:
  "update_secret p provider secret tx = (Inr n, tx') \<longleftrightarrow>
     n = length (filter (password_of p provider) (db_credentials tx)) \<and>
     (\<exists>fs. runs tx fs \<and> tx' = tx\<lparr>db_faults := fs, db_credentials := map (with_secret p provider secret) (db_credentials tx)\<rparr>)"
  by (auto simp: update_secret_def ok Let_def password_of_def[abs_def] with_secret_def[abs_def] cong: if_cong)

lemma reset_true:
  assumes "reset_password p provider email secret now db = (Inr True, db')"
  shows "db_sessions db' = filter (\<lambda>s. se_principal s \<noteq> p) (db_sessions db) \<and>
    db_tokens db' = filter (\<lambda>t. \<not> (tk_principal t = Some p \<and> tk_purpose t = purpose_name PasswordReset)) (db_tokens db) \<and>
    (if filter (password_of p provider) (db_credentials db) = []
     then db_credentials db' = map (with_secret p provider secret) (db_credentials db) @ [new_credential p provider secret now]
     else db_credentials db' = map (with_secret p provider secret) (db_credentials db))"
proof (cases "filter (password_of p provider) (db_credentials db) = []")
  case True
  then show ?thesis using assms
    by (auto simp: reset_password_def ok update_secret_ok end_access_ok insert_credential_def
        split: if_split_asm dest!: claim_address_ok)
next
  case False
  then show ?thesis using assms
    by (auto simp: reset_password_def ok update_secret_ok end_access_ok split: if_split_asm)
qed

lemma reset_false:
  "reset_password p provider email secret now db = (Inr False, db') \<Longrightarrow> db' = db\<lparr>db_faults := db_faults db'\<rparr>"
  by (auto simp: reset_password_def ok update_secret_ok end_access_ok split: if_split_asm)

lemma with_secret_others: "filter (\<lambda>c. cr_principal c \<noteq> p) (map (with_secret p provider secret) cs) = filter (\<lambda>c. cr_principal c \<noteq> p) cs"
  by (induction cs) (auto simp: with_secret_def password_of_def)

lemma with_secret_mine:
  "cr_principal (with_secret p provider secret c) = p \<and> cr_provider (with_secret p provider secret c) = provider \<longrightarrow>
     cr_secret_hash (with_secret p provider secret c) = None \<or> cr_secret_hash (with_secret p provider secret c) = Some secret"
  by (cases "password_of p provider c") (simp_all add: with_secret_def, simp add: password_of_def)

text \<open>C15. A reset shuts everyone out. When \<open>reset_password\<close> answers true, whatever calls failed on the way: no
  session of the principal is left, no reset link of the principal is left, every password it has at the provider is
  the new one and it has one there, and the sessions, links and passwords of other principals are what they were.
  When it answers false or fails, no table changed.\<close>

theorem reset_shuts_everyone_out:
  "case reset_password p provider email secret now db of
     (Inr True, db') \<Rightarrow>
        (\<forall>s\<in>set (db_sessions db'). se_principal s \<noteq> p) \<and>
        (\<forall>t\<in>set (db_tokens db'). tk_principal t = Some p \<longrightarrow> tk_purpose t \<noteq> purpose_name PasswordReset) \<and>
        (\<exists>c\<in>set (db_credentials db'). cr_principal c = p \<and> cr_provider c = provider \<and> cr_secret_hash c = Some secret) \<and>
        (\<forall>c\<in>set (db_credentials db'). cr_principal c = p \<and> cr_provider c = provider \<longrightarrow>
           cr_secret_hash c = None \<or> cr_secret_hash c = Some secret) \<and>
        filter (\<lambda>s. se_principal s \<noteq> p) (db_sessions db') = filter (\<lambda>s. se_principal s \<noteq> p) (db_sessions db) \<and>
        filter (\<lambda>t. tk_principal t \<noteq> Some p) (db_tokens db') = filter (\<lambda>t. tk_principal t \<noteq> Some p) (db_tokens db) \<and>
        filter (\<lambda>c. cr_principal c \<noteq> p) (db_credentials db') = filter (\<lambda>c. cr_principal c \<noteq> p) (db_credentials db)
   | (_, db') \<Rightarrow> db' = db\<lparr>db_faults := db_faults db'\<rparr>"
proof (cases "reset_password p provider email secret now db")
  case (Pair r db')
  consider e where "r = Inl e" | "r = Inr True" | "r = Inr False" by (cases r) auto
  then show ?thesis
  proof cases
    case 1
    then have "db' = db\<lparr>db_faults := db_faults db'\<rparr>"
      using Pair unfolding reset_password_def by (intro transaction_failed) simp
    then show ?thesis by (simp add: Pair 1)
  next
    case 2
    let ?mine = "filter (password_of p provider) (db_credentials db)"
    note after = reset_true[OF Pair[unfolded 2]]
    have creds: "db_credentials db' = map (with_secret p provider secret) (db_credentials db) @
        (if ?mine = [] then [new_credential p provider secret now] else [])"
      using after by (auto split: if_split_asm)
    have sess: "db_sessions db' = filter (\<lambda>s. se_principal s \<noteq> p) (db_sessions db)"
      and toks: "db_tokens db' = filter (\<lambda>t. \<not> (tk_principal t = Some p \<and> tk_purpose t = purpose_name PasswordReset)) (db_tokens db)"
      using after by blast+
    have "\<exists>c\<in>set (db_credentials db'). cr_principal c = p \<and> cr_provider c = provider \<and> cr_secret_hash c = Some secret"
    proof (cases "?mine = []")
      case True
      then show ?thesis by (auto simp: creds new_credential_def)
    next
      case False
      then obtain c where "c \<in> set (db_credentials db)" "password_of p provider c" by (auto simp: filter_empty_conv)
      then show ?thesis
        by (auto simp: creds with_secret_def password_of_def intro!: bexI[of _ "with_secret p provider secret c"])
    qed
    moreover have "cr_secret_hash c = None \<or> cr_secret_hash c = Some secret"
      if "c \<in> set (db_credentials db')" "cr_principal c = p" "cr_provider c = provider" for c
    proof -
      from that(1) consider d where "c = with_secret p provider secret d" | "c = new_credential p provider secret now"
        by (auto simp: creds split: if_split_asm)
      then show ?thesis
      proof cases
        case 1
        then show ?thesis using that(2,3) with_secret_mine[of p provider secret d] by simp
      qed (simp add: new_credential_def)
    qed
    moreover have "filter (\<lambda>c. cr_principal c \<noteq> p) (db_credentials db') = filter (\<lambda>c. cr_principal c \<noteq> p) (db_credentials db)"
      by (simp add: creds with_secret_others new_credential_def)
    moreover have "filter (\<lambda>t. tk_principal t \<noteq> Some p) (db_tokens db') = filter (\<lambda>t. tk_principal t \<noteq> Some p) (db_tokens db)"
      by (simp add: toks) (rule filter_cong, auto)
    ultimately show ?thesis by (simp add: Pair 2 sess) (simp add: toks)
  next
    case 3
    then have "db' = db\<lparr>db_faults := db_faults db'\<rparr>" using Pair by (intro reset_false) simp
    then show ?thesis by (simp add: Pair 3)
  qed
qed

theorem reset_shuts_everyone_out_witness:
  "fst (reset_password ''u_ada'' ''password'' ''ada@x.dev'' ''new'' 9 mailed) = Inr True \<and>
   filter (\<lambda>s. se_principal s = ''u_ada'')
     (db_sessions (snd (reset_password ''u_ada'' ''password'' ''ada@x.dev'' ''new'' 9 mailed))) = []"
proof -
  have r: "fst (reset_password ''u_ada'' ''password'' ''ada@x.dev'' ''new'' 9 mailed) = Inr True" by code_simp
  obtain x db' where p: "reset_password ''u_ada'' ''password'' ''ada@x.dev'' ''new'' 9 mailed = (x, db')"
    by (cases "reset_password ''u_ada'' ''password'' ''ada@x.dev'' ''new'' 9 mailed")
  with r have x: "x = Inr True" by simp
  show ?thesis
    using reset_shuts_everyone_out[where p = "''u_ada''" and provider = "''password''" and email = "''ada@x.dev''"
        and secret = "''new''" and now = 9 and db = mailed] r by (simp add: p x filter_empty_conv)
qed

section \<open>Claiming an unproven account\<close>

lemma strip_ways_in_ok:
  "strip_ways_in p magic tx = (Inr r, tx') \<Longrightarrow>
     db_credentials tx' = filter (\<lambda>c. cr_principal c \<noteq> p) (db_credentials tx) \<and>
     db_accounts tx' = filter (\<lambda>a. \<not> (ac_principal a = p \<and> ac_provider a \<noteq> magic)) (db_accounts tx) \<and>
     db_sessions tx' = filter (\<lambda>s. se_principal s \<noteq> p) (db_sessions tx) \<and>
     db_tokens tx' = filter (\<lambda>t. tk_principal t \<noteq> Some p) (db_tokens tx)"
  by (auto simp: strip_ways_in_def ok delete_sessions_def delete_tokens_def delete_credentials_def delete_accounts_def)

lemma insert_or_ignore_ok:
  "insert_or_ignore_account a tx = (Inr r, tx') \<Longrightarrow>
     (db_accounts tx' = db_accounts tx \<or> db_accounts tx' = db_accounts tx @ [a]) \<and>
     db_credentials tx' = db_credentials tx \<and> db_sessions tx' = db_sessions tx \<and> db_tokens tx' = db_tokens tx"
  by (auto simp: insert_or_ignore_account_def ok split: if_split_asm)

lemma link_magic_took_over:
  assumes "link_magic magic email now target took_over db = (Inr (p, True), db')"
  shows "p = target \<and> took_over \<and>
    db_credentials db' = filter (\<lambda>c. cr_principal c \<noteq> p) (db_credentials db) \<and>
    db_sessions db' = filter (\<lambda>s. se_principal s \<noteq> p) (db_sessions db) \<and>
    db_tokens db' = filter (\<lambda>t. tk_principal t \<noteq> Some p) (db_tokens db) \<and>
    (\<exists>new. set new \<subseteq> {new_account p magic email now} \<and>
      db_accounts db' = filter (\<lambda>a. \<not> (ac_principal a = p \<and> ac_provider a \<noteq> magic)) (db_accounts db @ new)) \<and>
    (\<exists>a as. filter (owned magic email) (db_accounts db') = a # as \<and> ac_principal a = p)"
proof -
  from assms have over: took_over
    by (auto simp: link_magic_def ok split: option.split_asm)
  from assms obtain db1 found where tx: "transaction (bind_op (insert_or_ignore_account (new_account target magic email now)) (\<lambda>_.
        bind_op (if took_over then strip_ways_in target magic else give ()) (\<lambda>_. give (Committed ())))) db = (Inr (), db1)"
    and found: "lookup_account magic email db1 = (Inr found, db')" and p: "found = Some p" "p = target"
    by (auto simp: link_magic_def bind_ok give_ok refuse_ok split: option.split_asm)
  obtain fs where db': "db' = db1\<lparr>db_faults := fs\<rparr>"
    and row: "found = (case filter (owned magic email) (db_accounts db1) of [] \<Rightarrow> None | a # _ \<Rightarrow> Some (ac_principal a))"
    using lookup_account_ok[OF found] by blast
  obtain d1 d2 fs1 fs2 where ins: "insert_or_ignore_account (new_account target magic email now) (db\<lparr>db_faults := fs1\<rparr>) = (Inr (), d1)"
    and strip: "strip_ways_in target magic d1 = (Inr (), d2)" and db1: "db1 = d2\<lparr>db_faults := fs2\<rparr>"
    using tx over by (auto simp: transaction_ok bind_ok give_ok)
  obtain new where new: "set new \<subseteq> {new_account target magic email now}" "db_accounts d1 = db_accounts db @ new"
    using insert_or_ignore_ok[OF ins] by (cases "db_accounts d1 = db_accounts db") force+
  have rows: "db_credentials d1 = db_credentials db" "db_sessions d1 = db_sessions db" "db_tokens d1 = db_tokens db"
    using insert_or_ignore_ok[OF ins] by simp_all
  have "\<exists>a as. filter (owned magic email) (db_accounts db') = a # as \<and> ac_principal a = p"
    using row p by (auto simp: db' split: list.split_asm)
  moreover note stripped = strip_ways_in_ok[OF strip]
  have "\<exists>new. set new \<subseteq> {new_account p magic email now} \<and>
      db_accounts db' = filter (\<lambda>a. \<not> (ac_principal a = p \<and> ac_provider a \<noteq> magic)) (db_accounts db @ new)"
    using stripped p(2) new(1) by (intro exI[of _ new]) (simp add: db' db1 new(2))
  ultimately show ?thesis using stripped p(2) over by (simp add: db' db1 rows)
qed


definition squat_db :: auth_db where
  \<comment> \<open>somebody registered the address of Ada with a password and never proved it\<close>
  "squat_db = ada_db\<lparr>db_verified := [], db_accounts := new_account ''u_ada'' ''github'' ''squatter'' 0 # db_accounts ada_db\<rparr>"


section \<open>Disconnecting a provider\<close>



section \<open>The loser of a race\<close>

lemma insert_account_taken:
  "held_by provider subject w (db_accounts db) \<Longrightarrow> db_faults db = [] \<Longrightarrow>
   insert_account (new_account p provider subject now) db = (Inl not_unique, db)"
  by (force simp: insert_account_def statement_on_def bind_op_def call_substrate_def new_account_def held_by_def
      find_Some_iff in_set_conv_nth)

lemma lookup_held:
  assumes "held_by provider subject w (db_accounts db)" "db_faults db = []" "is_valid_partition_key w"
  shows "lookup_account provider subject db = (Inr (Some w), db)"
proof -
  obtain a as where "filter (owned provider subject) (db_accounts db) = a # as" "ac_principal a = w"
    using held_lookup[OF assms(1)] by blast
  then show ?thesis using assms(2,3)
    by (simp add: lookup_account_def bind_op_def query_on_def statement_on_def call_substrate_def parse_principal_def give_def)
qed

text \<open>The loser of a race learns the winner and leaves nothing. When a request read that nobody holds an identity
  and another request claimed it before it wrote: a sign-in adopts the winner, a sign-up is told the address is taken,
  and connecting the identity is told whether the winner was itself; none of them changes a table.\<close>

theorem losers_leave_nothing:
  assumes won: "held_by provider subject w (db_accounts db)" and valid: "is_valid_partition_key w"
    and fresh: "\<forall>u\<in>set (db_users db). us_principal u \<noteq> minted" and fine: "db_faults db = []"
  shows "upsert_found minted provider subject profile now None db = (Inr (build_principal w provider profile), db) \<and>
    create_found minted provider subject profile secret now None db = (Inr None, db) \<and>
    link_insert p provider subject now db = (Inr (if w = p then AlreadyLinked else TakenByAnother), db)"
proof -
  have call: "call_substrate d = (Inr (), d)" if "db_faults d = []" for d
    using that by (simp add: call_substrate_def)
  let ?tx = "db\<lparr>db_users := db_users db @ [new_user minted profile now]\<rparr>"
  have user: "insert_user (new_user minted profile now) db = (Inr (), ?tx)"
    using fresh fine by (auto simp: insert_user_def statement_on_def bind_op_def call new_user_def)
  have taken: "insert_account (new_account minted provider subject now) ?tx = (Inl not_unique, ?tx)"
    using won fine by (intro insert_account_taken) auto
  have undone: "undone db ?tx = db" by (simp add: undone_def)
  have look: "lookup_account provider subject db = (Inr (Some w), db)"
    by (rule lookup_held[OF won fine valid])
  show ?thesis
    by (simp add: upsert_found_def create_found_def link_insert_def transaction_def bind_op_def caught_def give_def call fine
        user taken undone look insert_account_taken[OF won fine] whose_identity_def)
qed

theorem losers_leave_nothing_witness:
  "upsert_found ''u_late'' ''password'' ''ada@x.dev'' (mail_profile ''ada@x.dev'') 9 None ada_db =
     (Inr (build_principal ''u_ada'' ''password'' (mail_profile ''ada@x.dev'')), ada_db)"
proof -
  have "held_by ''password'' ''ada@x.dev'' ''u_ada'' (db_accounts ada_db)" "is_valid_partition_key ''u_ada''"
    "\<forall>u\<in>set (db_users ada_db). us_principal u \<noteq> ''u_late''" "db_faults ada_db = []"
    by code_simp+
  from losers_leave_nothing[OF this] show ?thesis by blast
qed

section \<open>Where the model falls short of the documents\<close>

definition without_ada :: auth_db where
  "without_ada = after_calls id [Delete_person ''u_ada''] ada_db"

text \<open>Deleting a principal leaves the record that it proved its address. The address still names it, so a magic link
  signs in as a principal without a user row, whose session resolves to nobody, and a reset cannot help either; a new
  sign-up, which asks the same record first, is told the address is taken.\<close>

lemma deleted_address_locked_out:
  "fst (load_principal ''u_ada'' without_ada) = Inr None \<and>
   fst (verified_principal ''ada@x.dev'' without_ada) = Inr (Some ''u_ada'') \<and>
   (let (r, db) = resolve_magic_link ''u_new'' ''magiclink'' (Some ''password'') ''ada@x.dev'' 9 without_ada;
        db' = snd (create_session id ''s2'' ''u_ada'' ''magiclink'' 9 1000 db)
    in r = Inr (''u_ada'', False) \<and> fst (resolve_session id ''s2'' 10 db') = Inr (Anonymous PrincipalGone)) \<and>
   fst (reset_password ''u_ada'' ''password'' ''ada@x.dev'' ''new'' 9 without_ada) = Inr False"
  by (intro conjI; code_simp)

text \<open>Only the read before it keeps a principal to one identity per provider: two requests that both read that the
  provider is not connected both connect.\<close>

lemma two_identities_at_one_provider:
  "map ac_subject (filter (\<lambda>a. ac_principal a = ''u_ada'' \<and> ac_provider a = ''github'')
     (db_accounts (after_calls id [Link_late ''u_ada'' ''github'' ''gh-1'' 1, Link_late ''u_ada'' ''github'' ''gh-2'' 2] ada_db)))
   = [''gh-1'', ''gh-2'']"
  by code_simp

text \<open>Disconnecting a password leaves the reset links already mailed: one of them connects it again.\<close>

lemma disconnected_password_returns:
  "let db = after_calls id [Link ''u_ada'' ''github'' ''gh-1'' 1 None, Issue ''t1'' PasswordReset ''password'' (Some ''u_ada'') ''ada@x.dev'' None 2,
              Unlink ''u_ada'' ''password'' ''s9''] ada_db;
       (r, db') = consume id PasswordReset ''t1'' 3 db
   in fst (lookup_account ''password'' ''ada@x.dev'' db) = Inr None \<and> r \<noteq> Inr None \<and>
      fst (lookup_account ''password'' ''ada@x.dev'' (snd (reset_password ''u_ada'' ''password'' ''ada@x.dev'' ''h2'' 3 db'))) = Inr (Some ''u_ada'')"
  by code_simp

end
