(* ===== verification/AuthRoutes.thy ===== *)
theory AuthRoutes
  imports AuthTrace Shutter
begin

text \<open>
  The sign-in routes of the server (\<open>crates/albedo-server/src/handlers/auth_routes.rs\<close> and
  \<open>email_routes.rs\<close>, the password policy of \<open>src/auth/password.rs\<close>, identity resolution of
  \<open>crates/albedo-server/src/auth.rs\<close>) over the database of \<open>Accounts\<close> and the limiter of \<open>Shutter\<close>.

  A handler gives a response and leaves a server: the database, the limiter, the identities of the live lanes, and
  the tasks it spawned, which run later and put mail in the outbox. The hash of a token, the key derivation, the CSRF
  check, the clock (its successive readings within one request), the values minted and the paths a form may return to
  are arguments. A refusal keeps its status; the sentences of the pages are left out.
\<close>

section \<open>Passwords and addresses\<close>

definition min_password_bytes :: nat where "min_password_bytes = 8"
definition max_password_bytes :: nat where "max_password_bytes = 4096"
definition max_email_bytes :: nat where "max_email_bytes = 254"

datatype password_error = TooShort | TooLong | InvalidEmail | Kdf string

definition check_policy :: "string \<Rightarrow> password_error option" where
  "check_policy plaintext =
     (if length plaintext < min_password_bytes then Some TooShort
      else if length plaintext > max_password_bytes then Some TooLong
      else None)"

definition hash_password :: "(string \<Rightarrow> string + string) \<Rightarrow> string \<Rightarrow> password_error + string" where
  "hash_password kdf plaintext =
     (case check_policy plaintext of
        Some e \<Rightarrow> Inl e
      | None \<Rightarrow> (case kdf plaintext of Inl why \<Rightarrow> Inl (Kdf why) | Inr secret \<Rightarrow> Inr secret))"

definition verify_password :: "(string \<Rightarrow> string \<Rightarrow> bool) \<Rightarrow> string \<Rightarrow> string \<Rightarrow> bool" where
  "verify_password kdf_check stored presented = (length presented \<le> max_password_bytes \<and> kdf_check stored presented)"

definition control_codes :: "string list" where
  "control_codes = map (\<lambda>n. [char_of n]) ([0..<32] @ [127 :: nat]) @ map (\<lambda>n. [char_of (194 :: nat), char_of n]) [128..<160 :: nat]"

definition any_code :: "string list \<Rightarrow> string \<Rightarrow> bool" where
  "any_code codes s = list_ex (\<lambda>i. lead_code codes (drop i s) \<noteq> None) [0..<length s]"

definition normalize_email :: "string \<Rightarrow> string option" where
  "normalize_email raw =
     (let trimmed = trim raw;
          local = takeWhile (\<lambda>c. c \<noteq> CHR ''@'') trimmed;
          domain = drop (Suc (length local)) trimmed in
      if length trimmed > max_email_bytes \<or> trimmed = [] then None
      else if length local = length trimmed then None
      else if local = [] \<or> domain = [] \<or> CHR ''@'' \<in> set domain then None
      else if CHR ''.'' \<notin> set domain \<or> hd domain = CHR ''.'' \<or> last domain = CHR ''.'' then None
      else if any_code whitespace_codes trimmed \<or> any_code control_codes trimmed then None
      else Some (to_ascii_lowercase trimmed))"

section \<open>The server\<close>

datatype provider_kind = Passkey | Password | MagicLinks | OAuth | Oidc | Delegated | Custom

record resolved_provider =
  pv_name :: string
  pv_kind :: provider_kind
  pv_verify_email :: bool
  pv_reset_by_email :: bool

record auth_registry =
  ar_providers :: "resolved_provider list"
  ar_cookie :: string
  ar_ttl :: duration
  ar_login_path :: "string option"

datatype identity = Nobody | Authenticated principal_profile string

fun identity_principal :: "identity \<Rightarrow> principal_profile option" where
  "identity_principal Nobody = None"
| "identity_principal (Authenticated p token) = Some p"

fun identity_token :: "identity \<Rightarrow> string option" where
  "identity_token Nobody = None"
| "identity_token (Authenticated p token) = Some token"

datatype auth_email = ResetMail | VerifyMail | MagicMail | AlreadyRegistered

record mail =
  ml_kind :: auth_email
  ml_address :: string
  ml_token :: "string option"

datatype mail_task =
    Forgot_task string string
  | First_password_task string string string
  | Magic_task string string "string option"
  | Register_task string string string string
  | Verify_task string string string string

record server =
  sv_db :: auth_db
  sv_shutter :: shutter
  sv_lanes :: "identity list"
  sv_tasks :: "mail_task list"
  sv_outbox :: "mail list"

record outside =
  or_sha :: "string \<Rightarrow> string"
  or_kdf :: "string \<Rightarrow> string + string"
  or_check :: "string \<Rightarrow> string \<Rightarrow> bool"
  or_now :: "nat \<Rightarrow> int"
  or_token :: string
  or_principal :: string
  or_path :: "string \<Rightarrow> string option"
  or_csrf :: "string \<Rightarrow> bool"
  or_forget :: string \<comment> \<open>the cookie that forgets a remembered destination\<close>
  or_origin :: bool \<comment> \<open>links have an origin\<close>
  or_queued :: bool \<comment> \<open>the mail job can be queued\<close>
  or_clock :: env

record auth_request =
  rq_identity :: identity
  rq_form :: "(string \<times> string) list"
  rq_return :: string
  rq_caller :: key
  rq_email :: bool
  rq_jobs :: bool
  rq_destination :: "string option"

datatype response = Refusal nat | Limited verdict | See_other string "string list"

definition field :: "auth_request \<Rightarrow> string \<Rightarrow> string option" where
  "field rq name = map_option snd (find (\<lambda>f. fst f = name) (rq_form rq))"

definition declares :: "auth_registry \<Rightarrow> provider_kind \<Rightarrow> resolved_provider option" where
  "declares ar kind = find (\<lambda>p. pv_kind p = kind) (ar_providers ar)"

fun offers :: "resolved_provider \<Rightarrow> email_purpose \<Rightarrow> bool" where
  "offers p PasswordReset = pv_reset_by_email p"
| "offers p VerifyEmail = pv_verify_email p"
| "offers p MagicLink = (pv_kind p = MagicLinks)"

definition mail_ready :: "auth_registry \<Rightarrow> auth_request \<Rightarrow> provider_kind \<Rightarrow> email_purpose \<Rightarrow> string option" where
  "mail_ready ar rq kind purpose =
     (case declares ar kind of
        None \<Rightarrow> None
      | Some p \<Rightarrow> if offers p purpose \<and> rq_email rq \<and> rq_jobs rq then Some (pv_name p) else None)"

definition on_db :: "'a auth_op \<Rightarrow> server \<Rightarrow> (store_error + 'a) \<times> server" where
  "on_db m sv = (case m (sv_db sv) of (r, db) \<Rightarrow> (r, sv\<lparr>sv_db := db\<rparr>))"

definition end_lanes_where :: "(identity \<Rightarrow> bool) \<Rightarrow> server \<Rightarrow> server" where
  "end_lanes_where revoked sv = sv\<lparr>sv_lanes := filter (\<lambda>i. \<not> revoked i) (sv_lanes sv)\<rparr>"

definition end_lanes_of :: "string \<Rightarrow> server \<Rightarrow> server" where
  "end_lanes_of p = end_lanes_where (\<lambda>i. map_option pr_id (identity_principal i) = Some p)"

definition spawn :: "mail_task \<Rightarrow> server \<Rightarrow> server" where
  "spawn t sv = sv\<lparr>sv_tasks := sv_tasks sv @ [t]\<rparr>"

definition as_secs :: "duration \<Rightarrow> u64" where
  "as_secs d = word_of_int (int d div 1000000000)"

definition ttl_of :: "auth_registry \<Rightarrow> int" where
  \<comment> \<open>\<open>i64::try_from(ttl.as_millis())\<close>, the largest \<open>i64\<close> when it does not fit\<close>
  "ttl_of ar = (let ms = int (ar_ttl ar) div 1000000 in if ms \<le> i64_max then ms else i64_max)"

section \<open>Who is asking\<close>

definition presented_token :: "auth_registry \<Rightarrow> string option \<Rightarrow> string option" where
  "presented_token ar cookie_header =
     (case cookie_header of
        None \<Rightarrow> None
      | Some raw \<Rightarrow> (case read_cookie raw (ar_cookie ar) of None \<Rightarrow> None | Some v \<Rightarrow> from_presented v))"

definition resolve_identity :: "auth_registry \<Rightarrow> outside \<Rightarrow> string option \<Rightarrow> server \<Rightarrow> identity \<times> server" where
  \<comment> \<open>never an error: what cannot be answered is nobody\<close>
  "resolve_identity ar orc cookie_header sv =
     (if ar_providers ar = [] then (Nobody, sv)
      else case presented_token ar cookie_header of
        None \<Rightarrow> (Nobody, sv)
      | Some token \<Rightarrow>
          (case on_db (resolve_session (or_sha orc) token (or_now orc 0)) sv of
             (Inr (Signed_in p), sv') \<Rightarrow> (Authenticated p (or_sha orc token), sv')
           | (_, sv') \<Rightarrow> (Nobody, sv')))"

section \<open>Opening and ending sessions\<close>

definition open_session :: "auth_registry \<Rightarrow> outside \<Rightarrow> nat \<Rightarrow> auth_request \<Rightarrow> string \<Rightarrow> string \<Rightarrow> string \<Rightarrow> server \<Rightarrow> response \<times> server" where
  "open_session ar orc k rq p provider back_to sv =
     (case on_db (case identity_token (rq_identity rq) of
             Some existing \<Rightarrow> rotate_session (or_sha orc) (or_token orc) existing p provider (or_now orc k) (ttl_of ar)
           | None \<Rightarrow> create_session (or_sha orc) (or_token orc) p provider (or_now orc k) (ttl_of ar)) sv of
        (Inl e, sv') \<Rightarrow> (Refusal 500, sv')
      | (Inr token, sv') \<Rightarrow>
          (See_other (case rq_destination rq of Some d \<Rightarrow> d | None \<Rightarrow> back_to)
             [set_cookie_value (ar_cookie ar) token (as_secs (ar_ttl ar)), or_forget orc], sv'))"

definition logout :: "auth_registry \<Rightarrow> auth_request \<Rightarrow> server \<Rightarrow> response \<times> server" where
  "logout ar rq sv =
     (See_other (rq_return rq) [clear_cookie_value (ar_cookie ar)],
      case identity_token (rq_identity rq) of
        None \<Rightarrow> sv
      | Some token \<Rightarrow> end_lanes_where (\<lambda>i. identity_token i = Some token) (snd (on_db (revoke_session token) sv)))"

definition logout_all :: "auth_registry \<Rightarrow> auth_request \<Rightarrow> server \<Rightarrow> response \<times> server" where
  "logout_all ar rq sv =
     (See_other (rq_return rq) [clear_cookie_value (ar_cookie ar)],
      case identity_principal (rq_identity rq) of
        None \<Rightarrow> sv
      | Some p \<Rightarrow> end_lanes_of (pr_id p) (snd (on_db (revoke_all_sessions (pr_id p)) sv)))"

definition is_valid_provider_name :: "string \<Rightarrow> bool" where
  "is_valid_provider_name name \<longleftrightarrow> name \<noteq> [] \<and> length name \<le> 32 \<and>
     list_all (\<lambda>c. 97 \<le> byte c \<and> byte c \<le> 122 \<or> is_ascii_digit c \<or> c = CHR ''_'' \<or> c = CHR ''-'') name"

definition unlink :: "auth_request \<Rightarrow> server \<Rightarrow> response \<times> server" where
  "unlink rq sv =
     (case rq_identity rq of
        Nobody \<Rightarrow> (Refusal 403, sv)
      | Authenticated p token \<Rightarrow>
          (case field rq ''provider'' of
             None \<Rightarrow> (Refusal 400, sv)
           | Some provider \<Rightarrow>
               if \<not> is_valid_provider_name provider then (Refusal 400, sv)
               else (case on_db (unlink_account (pr_id p) provider token) sv of
                  (Inr (Unlinked n), sv') \<Rightarrow>
                    (See_other (rq_return rq) [],
                     end_lanes_where (\<lambda>i. identity_token i \<noteq> Some token \<and>
                       (case identity_principal i of None \<Rightarrow> False
                        | Some who \<Rightarrow> pr_id who = pr_id p \<and> pr_provider who = provider)) sv')
                | (Inr LastMethod, sv') \<Rightarrow> (Refusal 409, sv')
                | (Inr NotConnected, sv') \<Rightarrow> (Refusal 404, sv')
                | (Inl e, sv') \<Rightarrow> (Refusal 500, sv'))))"

section \<open>Signing up and in with a password\<close>

definition register_quietly :: "outside \<Rightarrow> auth_request \<Rightarrow> resolved_provider \<Rightarrow> string \<Rightarrow> string \<Rightarrow> server \<Rightarrow> response \<times> server" where
  "register_quietly orc rq declared email secret sv =
     (if \<not> (rq_email rq \<and> rq_jobs rq) then (Refusal 500, sv)
      else let onward = (case field rq ''next'' of None \<Rightarrow> ''/''
             | Some raw \<Rightarrow> (case or_path orc raw of None \<Rightarrow> ''/'' | Some p \<Rightarrow> p)) in
        (See_other (rq_return rq) [], spawn (Register_task (pv_name declared) email secret onward) sv))"

definition new_account_op :: "outside \<Rightarrow> nat \<Rightarrow> string \<Rightarrow> string \<Rightarrow> string \<Rightarrow> principal_profile option auth_op" where
  \<comment> \<open>an address somebody has proven is taken, whatever it signs in with\<close>
  "new_account_op orc k provider email secret =
     bind_op (verified_principal email) (\<lambda>proven.
       (case proven of
          Some _ \<Rightarrow> give None
        | None \<Rightarrow> create_credential_account (or_principal orc) provider email (mail_profile email) secret (or_now orc k)))"

definition register :: "auth_registry \<Rightarrow> outside \<Rightarrow> auth_request \<Rightarrow> server \<Rightarrow> response \<times> server" where
  "register ar orc rq sv =
     (case declares ar Password of
        None \<Rightarrow> (Refusal 404, sv)
      | Some declared \<Rightarrow>
          (case Option.bind (field rq ''email'') normalize_email of
             None \<Rightarrow> (Refusal 400, sv)
           | Some email \<Rightarrow>
               (case hash_password (or_kdf orc) (case field rq ''password'' of None \<Rightarrow> [] | Some pw \<Rightarrow> pw) of
                  Inl (Kdf why) \<Rightarrow> (Refusal 500, sv)
                | Inl InvalidEmail \<Rightarrow> (Refusal 500, sv)
                | Inl _ \<Rightarrow> (Refusal 400, sv)
                | Inr secret \<Rightarrow>
                    if pv_verify_email declared then register_quietly orc rq declared email secret sv
                    else (case on_db (new_account_op orc 0 (pv_name declared) email secret) sv of
                       (Inl e, sv') \<Rightarrow> (Refusal 500, sv')
                     | (Inr None, sv') \<Rightarrow> (Refusal 409, sv')
                     | (Inr (Some p), sv') \<Rightarrow> open_session ar orc 1 rq (pr_id p) (pv_name declared) (rq_return rq) sv'))))"

definition address_proven :: "string \<Rightarrow> string \<Rightarrow> server \<Rightarrow> bool \<times> server" where
  "address_proven p email sv =
     (case on_db (is_verified p email) sv of (Inr v, sv') \<Rightarrow> (v, sv') | (Inl e, sv') \<Rightarrow> (False, sv'))"

definition unverified_login :: "auth_request \<Rightarrow> string \<Rightarrow> string \<Rightarrow> string \<Rightarrow> server \<Rightarrow> response \<times> server" where
  "unverified_login rq provider p email sv =
     (Refusal 403, if rq_email rq \<and> rq_jobs rq then spawn (Verify_task provider p email (rq_return rq)) sv else sv)"

definition login :: "auth_registry \<Rightarrow> outside \<Rightarrow> auth_request \<Rightarrow> server \<Rightarrow> response \<times> server" where
  "login ar orc rq sv =
     (case declares ar Password of
        None \<Rightarrow> (Refusal 404, sv)
      | Some declared \<Rightarrow>
          (let password = (case field rq ''password'' of None \<Rightarrow> [] | Some pw \<Rightarrow> pw) in
           case Option.bind (field rq ''email'') normalize_email of
             None \<Rightarrow>
               (let (v, sh) = shutter_charge (or_clock orc) (rq_caller rq) (flat Credential) (sv_shutter sv) in
                (if verdict_admitted v then Refusal 401 else Limited v, sv\<lparr>sv_shutter := sh\<rparr>))
           | Some email \<Rightarrow>
               (let (v, sh) = credential_attempt (or_clock orc) (rq_caller rq) email (sv_shutter sv); sv = sv\<lparr>sv_shutter := sh\<rparr> in
                if \<not> verdict_admitted v then (Limited v, sv)
                else let note_failure = (\<lambda>sv. sv\<lparr>sv_shutter := note_credential_failure (or_clock orc) email (sv_shutter sv)\<rparr>) in
                  (case on_db (lookup_credential (pv_name declared) email) sv of
                     (Inl e, sv) \<Rightarrow> (Refusal 401, sv)
                   | (Inr None, sv) \<Rightarrow> (Refusal 401, note_failure sv)
                   | (Inr (Some (p, secret)), sv) \<Rightarrow>
                       if \<not> verify_password (or_check orc) secret password then (Refusal 401, note_failure sv)
                       else if \<not> pv_verify_email declared then open_session ar orc 0 rq p (pv_name declared) (rq_return rq) sv
                       else (case address_proven p email sv of
                          (True, sv) \<Rightarrow> open_session ar orc 0 rq p (pv_name declared) (rq_return rq) sv
                        | (False, sv) \<Rightarrow> unverified_login rq (pv_name declared) p email sv)))))"

section \<open>Links by mail\<close>

definition note_verified :: "outside \<Rightarrow> nat \<Rightarrow> string \<Rightarrow> string \<Rightarrow> server \<Rightarrow> server" where
  \<comment> \<open>a failure is only logged\<close>
  "note_verified orc k p email sv = snd (on_db (mark_verified p email (or_now orc k)) sv)"

definition next_of :: "outside \<Rightarrow> redeemed \<Rightarrow> string" where
  "next_of orc rd = (case Option.bind (rd_next rd) (or_path orc) of None \<Rightarrow> ''/'' | Some p \<Rightarrow> p)"

definition redeem :: "outside \<Rightarrow> nat \<Rightarrow> email_purpose \<Rightarrow> string \<Rightarrow> string \<Rightarrow> server \<Rightarrow> (string \<times> redeemed) option \<times> server" where
  "redeem orc k purpose token provider sv =
     (case on_db (consume (or_sha orc) purpose token (or_now orc k)) sv of
        (Inr (Some rd), sv') \<Rightarrow>
          (if rd_provider rd = provider then map_option (\<lambda>p. (p, rd)) (rd_principal rd) else None, sv')
      | (_, sv') \<Rightarrow> (None, sv'))"

definition forgot :: "auth_registry \<Rightarrow> auth_request \<Rightarrow> server \<Rightarrow> response \<times> server" where
  "forgot ar rq sv =
     (case mail_ready ar rq Password PasswordReset of
        None \<Rightarrow> (Refusal 404, sv)
      | Some provider \<Rightarrow>
          (case Option.bind (field rq ''email'') normalize_email of
             None \<Rightarrow> (Refusal 400, sv)
           | Some email \<Rightarrow> (See_other (rq_return rq) [], spawn (Forgot_task provider email) sv)))"

definition set_password :: "auth_registry \<Rightarrow> auth_request \<Rightarrow> server \<Rightarrow> response \<times> server" where
  "set_password ar rq sv =
     (case mail_ready ar rq Password PasswordReset of
        None \<Rightarrow> (Refusal 404, sv)
      | Some provider \<Rightarrow>
          (case identity_principal (rq_identity rq) of
             None \<Rightarrow> (Refusal 401, sv)
           | Some p \<Rightarrow>
               if provider \<in> set (pr_providers p) then (Refusal 409, sv)
               else (case Option.bind (pr_email p) normalize_email of
                  None \<Rightarrow> (Refusal 409, sv)
                | Some email \<Rightarrow> (See_other (rq_return rq) [], spawn (First_password_task provider (pr_id p) email) sv))))"

definition magic_start :: "auth_registry \<Rightarrow> outside \<Rightarrow> auth_request \<Rightarrow> server \<Rightarrow> response \<times> server" where
  "magic_start ar orc rq sv =
     (case mail_ready ar rq MagicLinks MagicLink of
        None \<Rightarrow> (Refusal 404, sv)
      | Some provider \<Rightarrow>
          (case Option.bind (field rq ''email'') normalize_email of
             None \<Rightarrow> (Refusal 400, sv)
           | Some email \<Rightarrow>
               (See_other (rq_return rq) [],
                spawn (Magic_task provider email (Option.bind (field rq ''next'') (or_path orc))) sv)))"

definition reset :: "auth_registry \<Rightarrow> outside \<Rightarrow> auth_request \<Rightarrow> server \<Rightarrow> response \<times> server" where
  "reset ar orc rq sv =
     (case declares ar Password of
        None \<Rightarrow> (Refusal 404, sv)
      | Some provider \<Rightarrow>
          if \<not> pv_reset_by_email provider then (Refusal 404, sv)
          else (case Option.bind (field rq ''token'') from_presented of
             None \<Rightarrow> (Refusal 410, sv)
           | Some token \<Rightarrow>
               (case hash_password (or_kdf orc) (case field rq ''password'' of None \<Rightarrow> [] | Some pw \<Rightarrow> pw) of
                  Inl (Kdf why) \<Rightarrow> (Refusal 500, sv)
                | Inl InvalidEmail \<Rightarrow> (Refusal 500, sv)
                | Inl _ \<Rightarrow> (Refusal 400, sv)
                | Inr secret \<Rightarrow>
                    (case redeem orc 0 PasswordReset token (pv_name provider) sv of
                       (None, sv) \<Rightarrow> (Refusal 410, sv)
                     | (Some (p, rd), sv) \<Rightarrow>
                         (case on_db (reset_password p (pv_name provider) (rd_email rd) secret (or_now orc 1)) sv of
                            (Inl e, sv) \<Rightarrow> (Refusal 500, sv)
                          | (Inr False, sv) \<Rightarrow> (Refusal 410, sv)
                          | (Inr True, sv) \<Rightarrow>
                              open_session ar orc 3 rq p (pv_name provider) (next_of orc rd)
                                (note_verified orc 2 p (rd_email rd) (end_lanes_of p sv)))))))"

definition magic_signin :: "auth_registry \<Rightarrow> outside \<Rightarrow> auth_request \<Rightarrow> server \<Rightarrow> response \<times> server" where
  "magic_signin ar orc rq sv =
     (case declares ar MagicLinks of
        None \<Rightarrow> (Refusal 404, sv)
      | Some provider \<Rightarrow>
          (case Option.bind (field rq ''token'') from_presented of
             None \<Rightarrow> (Refusal 410, sv)
           | Some token \<Rightarrow>
               (case on_db (consume (or_sha orc) MagicLink token (or_now orc 0)) sv of
                  (Inr (Some rd), sv) \<Rightarrow>
                    if rd_provider rd \<noteq> pv_name provider then (Refusal 410, sv)
                    else (case on_db (resolve_magic_link (or_principal orc) (pv_name provider)
                               (map_option pv_name (declares ar Password)) (rd_email rd) (or_now orc 1)) sv of
                       (Inl e, sv) \<Rightarrow> (Refusal 500, sv)
                     | (Inr (p, took_over), sv) \<Rightarrow>
                         open_session ar orc 3 rq p (pv_name provider) (next_of orc rd)
                           (note_verified orc 2 p (rd_email rd) (if took_over then end_lanes_of p sv else sv)))
                | (_, sv) \<Rightarrow> (Refusal 410, sv))))"

definition verify_route :: "auth_registry \<Rightarrow> outside \<Rightarrow> auth_request \<Rightarrow> server \<Rightarrow> response \<times> server" where
  "verify_route ar orc rq sv =
     (case declares ar Password of
        None \<Rightarrow> (Refusal 404, sv)
      | Some provider \<Rightarrow>
          if \<not> pv_verify_email provider then (Refusal 404, sv)
          else (case Option.bind (field rq ''token'') from_presented of
             None \<Rightarrow> (Refusal 410, sv)
           | Some token \<Rightarrow>
               (case redeem orc 0 VerifyEmail token (pv_name provider) sv of
                  (None, sv) \<Rightarrow> (Refusal 410, sv)
                | (Some (p, rd), sv) \<Rightarrow>
                    open_session ar orc 2 rq p (pv_name provider) (next_of orc rd) (note_verified orc 1 p (rd_email rd) sv))))"

section \<open>The spawned tasks\<close>

definition mail_admitted :: "outside \<Rightarrow> nat \<Rightarrow> string \<Rightarrow> server \<Rightarrow> bool \<times> server" where
  "mail_admitted orc k email sv =
     (case on_db (admit_mail email (or_now orc k)) sv of (r, sv') \<Rightarrow> (r = Inr True, sv'))"

definition put_mail :: "outside \<Rightarrow> mail \<Rightarrow> server \<Rightarrow> server" where
  "put_mail orc m sv = (if or_origin orc \<and> or_queued orc then sv\<lparr>sv_outbox := sv_outbox sv @ [m]\<rparr> else sv)"

definition mail_link ::
  "outside \<Rightarrow> nat \<Rightarrow> auth_email \<Rightarrow> email_purpose \<Rightarrow> string \<Rightarrow> string option \<Rightarrow> string \<Rightarrow> string option \<Rightarrow> server \<Rightarrow> server" where
  "mail_link orc k kind purpose provider p email onward sv =
     (case on_db (issue (or_sha orc) (or_token orc) purpose provider p email onward (or_now orc k)) sv of
        (Inl e, sv') \<Rightarrow> sv'
      | (Inr token, sv') \<Rightarrow> put_mail orc \<lparr>ml_kind = kind, ml_address = email, ml_token = Some token\<rparr> sv')"

definition forgotten_principal :: "string \<Rightarrow> string \<Rightarrow> string option auth_op" where
  "forgotten_principal provider email =
     bind_op (lookup_credential provider email) (\<lambda>found.
       (case found of Some (p, secret) \<Rightarrow> give (Some p) | None \<Rightarrow> verified_principal email))"

fun run_task :: "outside \<Rightarrow> mail_task \<Rightarrow> server \<Rightarrow> server" where
  "run_task orc (Forgot_task provider email) sv =
     (case mail_admitted orc 0 email sv of
        (False, sv) \<Rightarrow> sv
      | (True, sv) \<Rightarrow>
          (case on_db (forgotten_principal provider email) sv of
             (Inr (Some p), sv) \<Rightarrow> mail_link orc 1 ResetMail PasswordReset provider (Some p) email None sv
           | (_, sv) \<Rightarrow> sv))"
| "run_task orc (First_password_task provider p email) sv =
     (case mail_admitted orc 0 email sv of
        (False, sv) \<Rightarrow> sv
      | (True, sv) \<Rightarrow> mail_link orc 1 ResetMail PasswordReset provider (Some p) email None sv)"
| "run_task orc (Magic_task provider email onward) sv =
     (case mail_admitted orc 0 email sv of
        (False, sv) \<Rightarrow> sv
      | (True, sv) \<Rightarrow> mail_link orc 1 MagicMail MagicLink provider None email onward sv)"
| "run_task orc (Register_task provider email secret onward) sv =
     (case on_db (new_account_op orc 0 provider email secret) sv of
        (Inl e, sv) \<Rightarrow> sv
      | (Inr created, sv) \<Rightarrow>
          (case mail_admitted orc 1 email sv of
             (False, sv) \<Rightarrow> sv
           | (True, sv) \<Rightarrow>
               (case created of
                  Some p \<Rightarrow> mail_link orc 2 VerifyMail VerifyEmail provider (Some (pr_id p)) email (Some onward) sv
                | None \<Rightarrow> put_mail orc \<lparr>ml_kind = AlreadyRegistered, ml_address = email, ml_token = None\<rparr> sv)))"
| "run_task orc (Verify_task provider p email onward) sv =
     (case mail_admitted orc 0 email sv of
        (False, sv) \<Rightarrow> sv
      | (True, sv) \<Rightarrow> mail_link orc 1 VerifyMail VerifyEmail provider (Some p) email (Some onward) sv)"

section \<open>Routes\<close>

datatype auth_route =
    PasswordRegister | PasswordLogin | Logout | LogoutAll | PasswordForgot | ResetRoute
  | MagicLinkStart | MagicLinkSignIn | VerifyRoute | UnlinkRoute | PasswordSet

definition match_auth_route :: "string \<Rightarrow> auth_route option" where
  "match_auth_route path =
     map_of [(''/_albedo/auth/password/register'', PasswordRegister), (''/_albedo/auth/password/login'', PasswordLogin),
       (''/_albedo/auth/logout'', Logout), (''/_albedo/auth/logout-all'', LogoutAll),
       (''/_albedo/auth/password/forgot'', PasswordForgot), (''/_albedo/auth/password/reset'', ResetRoute),
       (''/_albedo/auth/magiclink/start'', MagicLinkStart), (''/_albedo/auth/magiclink/signin'', MagicLinkSignIn),
       (''/_albedo/auth/email/verify'', VerifyRoute), (''/_albedo/auth/unlink'', UnlinkRoute),
       (''/_albedo/auth/password/set'', PasswordSet)] path"

fun serve_route :: "auth_route \<Rightarrow> auth_registry \<Rightarrow> outside \<Rightarrow> auth_request \<Rightarrow> server \<Rightarrow> response \<times> server" where
  "serve_route PasswordRegister ar orc rq sv = register ar orc rq sv"
| "serve_route PasswordLogin ar orc rq sv = login ar orc rq sv"
| "serve_route Logout ar orc rq sv = logout ar rq sv"
| "serve_route LogoutAll ar orc rq sv = logout_all ar rq sv"
| "serve_route PasswordForgot ar orc rq sv = forgot ar rq sv"
| "serve_route ResetRoute ar orc rq sv = reset ar orc rq sv"
| "serve_route MagicLinkStart ar orc rq sv = magic_start ar orc rq sv"
| "serve_route MagicLinkSignIn ar orc rq sv = magic_signin ar orc rq sv"
| "serve_route VerifyRoute ar orc rq sv = verify_route ar orc rq sv"
| "serve_route UnlinkRoute ar orc rq sv = unlink rq sv"
| "serve_route PasswordSet ar orc rq sv = set_password ar rq sv"

definition run_auth_route ::
  "auth_route \<Rightarrow> auth_registry \<Rightarrow> outside \<Rightarrow> (string \<times> string) list option \<Rightarrow> auth_request \<Rightarrow> server \<Rightarrow> response \<times> server" where
  \<comment> \<open>the form as decoded, if it could be\<close>
  "run_auth_route route ar orc decoded rq sv =
     (case decoded of
        None \<Rightarrow> (Refusal 400, sv)
      | Some form \<Rightarrow>
          (let rq = rq\<lparr>rq_form := form\<rparr> in
           case field rq ''_csrf'' of
             None \<Rightarrow> (Refusal 403, sv)
           | Some token \<Rightarrow> if or_csrf orc token then serve_route route ar orc rq sv else (Refusal 403, sv)))"

end
