(* ===== verification/MailBudget.thy ===== *)
theory MailBudget
  imports AuthTrace
begin

text \<open>
  How much mail one address can be sent (\<open>admit_mail\<close> of \<open>src/auth/email_token.rs\<close>): the row of the address is
  a time, and the potential \<open>level\<close>, that time or the clock, whichever is later, rises by one interval with each
  admission and is at most a burst ahead of the clock. The times are SQLite integers; they stay far inside 64 bits.
\<close>

definition level :: "string \<Rightarrow> int \<Rightarrow> auth_db \<Rightarrow> int" where
  "level address now db = (case map_of (db_budget db) address of None \<Rightarrow> now | Some tat \<Rightarrow> max tat now)"

fun admissions :: "(string \<Rightarrow> string) \<Rightarrow> string \<Rightarrow> auth_call list \<Rightarrow> auth_db \<Rightarrow> nat" where
  "admissions hash address [] db = 0"
| "admissions hash address (c # cs) db =
     (case c of
        Admit whom now \<Rightarrow> (if whom = address \<and> fst (admit_mail address now db) = Inr True then 1 else 0)
      | _ \<Rightarrow> 0) + admissions hash address cs (after_call hash db c)"

fun clocked :: "int \<Rightarrow> int \<Rightarrow> auth_call list \<Rightarrow> bool" where
  \<comment> \<open>the calls that read the budget's clock read times in order, within the window\<close>
  "clocked t0 t1 [] = (t0 \<le> t1)"
| "clocked t0 t1 (Admit whom now # cs) = (t0 \<le> now \<and> clocked now t1 cs)"
| "clocked t0 t1 (Purge now # cs) = (t0 \<le> now \<and> clocked now t1 cs)"
| "clocked t0 t1 (c # cs) = clocked t0 t1 cs"

lemma clocked_le: "clocked t0 t1 cs \<Longrightarrow> t0 \<le> t1"
  by (induction t0 t1 cs rule: clocked.induct) auto

lemma level_mono: "t \<le> t' \<Longrightarrow> level address t db \<le> level address t' db"
  by (auto simp: level_def split: option.split)

lemma level_faults [simp]: "level address t (db\<lparr>db_faults := fs\<rparr>) = level address t db"
  by (simp add: level_def)

interpretation row: table_law "\<lambda>db. map_of (db_budget db) address = v" for address v
  by unfold_locales simp

lemma row_statements:
  "preserves (\<lambda>db. map_of (db_budget db) address = v) (insert_user u)" "preserves (\<lambda>db. map_of (db_budget db) address = v) (insert_account a)"
  "preserves (\<lambda>db. map_of (db_budget db) address = v) (insert_or_ignore_account a)"
  "preserves (\<lambda>db. map_of (db_budget db) address = v) (insert_credential cr)"
  "preserves (\<lambda>db. map_of (db_budget db) address = v) (insert_session q h pr c e fr)"
  "preserves (\<lambda>db. map_of (db_budget db) address = v) (delete_users pu)" "preserves (\<lambda>db. map_of (db_budget db) address = v) (delete_accounts pa)"
  "preserves (\<lambda>db. map_of (db_budget db) address = v) (delete_sessions ps)" "preserves (\<lambda>db. map_of (db_budget db) address = v) (delete_credentials pc)"
  "preserves (\<lambda>db. map_of (db_budget db) address = v) (delete_tokens pt)" "preserves (\<lambda>db. map_of (db_budget db) address = v) (refresh_user q profile now)"
  "preserves (\<lambda>db. map_of (db_budget db) address = v) (insert_token t)"
  "preserves (\<lambda>db. map_of (db_budget db) address = v) (insert_or_ignore_verified vf)"
  "preserves (\<lambda>db. map_of (db_budget db) address = v) (update_secret q provider secret)"
  unfolding insert_user_def insert_account_def insert_or_ignore_account_def insert_session_def insert_credential_def
    delete_users_def delete_accounts_def delete_sessions_def delete_credentials_def delete_tokens_def refresh_user_def
    insert_token_def insert_or_ignore_verified_def update_secret_def
  by (rule row.keeps_statement, simp add: Let_def)+

lemma row_other: "whom \<noteq> address \<Longrightarrow> preserves (\<lambda>db. map_of (db_budget db) address = v) (admit_mail whom now)"
  unfolding admit_mail_def by (rule row.keeps_statement) (auto simp: update_conv' split: option.split)

interpretation row_trace: auth_law "\<lambda>db. map_of (db_budget db) address = v" "\<lambda>_. True" "\<lambda>_. True" "\<lambda>_. True"
    "\<lambda>whom. whom \<noteq> address" False for address v
  by unfold_locales (auto intro: row_statements row_other)

lemma level_kept:
  assumes "row_trace.lawful address hash c" shows "level address t (after_call hash db c) = level address t db"
  using row_trace.after_call_law[of db address "map_of (db_budget db) address" hash c] assms by (simp add: level_def)

lemma map_of_filter_swept:
  "distinct (map fst b) \<Longrightarrow>
   map_of (filter (\<lambda>r. \<not> snd r \<le> now) b) k = (case map_of b k of Some tat \<Rightarrow> if tat \<le> now then None else Some tat | None \<Rightarrow> None)"
  for b :: "(string \<times> int) list"
  by (induction b) (auto simp: map_of_eq_None_iff split: option.splits intro!: map_of_eq_None_iff[THEN iffD2])

interpretation pot: table_law "\<lambda>db. distinct (map fst (db_budget db)) \<and> level address now db = L" for address now L
  by unfold_locales simp

lemma level_purge:
  assumes "tables_sound db"
  shows "level address now (after_call hash db (Purge now)) = level address now db"
proof -
  let ?P = "\<lambda>d. distinct (map fst (db_budget d)) \<and> level address now d = level address now db"
  have "preserves ?P (delete_tokens p)" for p
    unfolding delete_tokens_def by (rule pot.keeps_statement) (simp add: level_def)
  moreover have "preserves ?P (statement_on (\<lambda>d. (Inr (length (filter (\<lambda>b. snd b \<le> now) (db_budget d))),
                 d\<lparr>db_budget := filter (\<lambda>b. \<not> snd b \<le> now) (db_budget d)\<rparr>)))"
    by (rule pot.keeps_statement) (auto simp: level_def map_of_filter_swept distinct_map_filter simp del: map_of_eq_Some_iff Some_eq_map_of_iff split: option.splits)
  ultimately have "preserves ?P (call_op hash (Purge now))"
    by (auto simp: purge_expired_def intro!: keeps_quietly keeps_bind keeps_give)
  then show ?thesis using assms by (simp add: preserves_def after_call_def tables_sound_def)
qed

lemma level_admit:
  assumes "tables_sound db"
  shows "if fst (admit_mail address now db) = Inr True
     then level address now (after_call hash db (Admit address now)) = level address now db + mail_interval_ms \<and>
          level address now db + mail_interval_ms \<le> now + mail_burst * mail_interval_ms
     else level address now (after_call hash db (Admit address now)) = level address now db"
proof -
  have same: "after_call hash db (Admit address now) = snd (admit_mail address now db)"
    by (simp add: after_call_def quietly_def bind_op_def give_def split: prod.split sum.split)
  show ?thesis
  proof (cases "call_substrate db")
    case (Pair r d)
    then have d: "map_of (db_budget d) address = map_of (db_budget db) address"
      by (auto simp: call_substrate_def split: list.splits option.splits)
    show ?thesis
    proof (cases r)
      case (Inl e)
      then show ?thesis using Pair d by (simp add: same admit_mail_def statement_on_def bind_op_def level_def)
    next
      case (Inr u)
      then show ?thesis using Pair d
        by (auto simp: same admit_mail_def statement_on_def bind_op_def level_def update_conv' mail_interval_ms_def mail_burst_def split: option.split)
    qed
  qed
qed

lemma budget_invariant:
  assumes "tables_sound db" "clocked t0 t1 cs"
  shows "mail_interval_ms * int (admissions hash address cs db) \<le> max 0 (t1 + mail_burst * mail_interval_ms - level address t0 db)"
  using assms
proof (induction cs arbitrary: db t0)
  case (Cons c cs)
  have sound: "tables_sound (after_call hash db c)"
    using after_calls_sound[OF Cons.prems(1), of hash "[c]"] by (simp add: after_calls_def)
  consider whom now where "c = Admit whom now" | now where "c = Purge now"
    | "\<forall>whom now. c \<noteq> Admit whom now" "\<forall>now. c \<noteq> Purge now" by blast
  then show ?case
  proof cases
    case (1 whom now)
    have later: "clocked now t1 cs" and late: "level address t0 db \<le> level address now db" "now \<le> t1"
      using Cons.prems(2) clocked_le level_mono by (auto simp: 1)
    show ?thesis
    proof (cases "whom = address")
      case True
      show ?thesis using level_admit[OF Cons.prems(1), of address now hash] Cons.IH[OF sound later] late
        by (cases "fst (admit_mail address now db) = Inr True") (auto simp: 1 True algebra_simps)
    next
      case False
      have "level address now (after_call hash db c) = level address now db"
        by (rule level_kept) (simp add: row_trace.lawful.simps False 1)
      then show ?thesis using Cons.IH[OF sound later] late False by (auto simp: 1)
    qed
  next
    case (2 now)
    have later: "clocked now t1 cs" and late: "level address t0 db \<le> level address now db"
      using Cons.prems(2) level_mono by (auto simp: 2)
    then show ?thesis using Cons.IH[OF sound later] level_purge[OF Cons.prems(1), of address now hash] by (auto simp: 2)
  next
    case 3
    have "row_trace.lawful address hash c" using 3 by (cases c) (simp_all add: row_trace.lawful.simps)
    then have "level address t0 (after_call hash db c) = level address t0 db" by (rule level_kept)
    moreover have "clocked t0 t1 cs" using Cons.prems(2) 3 by (cases c) simp_all
    moreover have "admissions hash address (c # cs) db = admissions hash address cs (after_call hash db c)"
      using 3 by (cases c) simp_all
    ultimately show ?thesis using Cons.IH[OF sound, of t0] by simp
  qed
qed simp

text \<open>A mailbox's budget holds whatever runs. In any sequence of calls, with failing calls, sweeps of the table and
  charges of other addresses between them, whose budget calls read times within a window in order, one address is
  admitted at most a burst of three links and one more for every six minutes of the window.\<close>

theorem mailbox_budget_bound:
  assumes "tables_sound db" and "clocked t0 t1 cs"
  shows "int (admissions hash address cs db) \<le> mail_burst + (t1 - t0) div mail_interval_ms"
proof -
  have "t0 \<le> level address t0 db" by (simp add: level_def split: option.split)
  then have "mail_interval_ms * int (admissions hash address cs db) \<le> (t1 - t0) + mail_burst * mail_interval_ms"
    using budget_invariant[OF assms, of hash address] clocked_le[OF assms(2)] by (simp add: mail_burst_def mail_interval_ms_def)
  then show ?thesis by (simp add: mail_interval_ms_def mail_burst_def)
qed

definition hammering :: "auth_call list" where
  "hammering = replicate 5 (Admit ''ada@x.dev'' 0) @ [Purge 1, Admit ''eve@x.dev'' 1] @ replicate 5 (Admit ''ada@x.dev'' 360000)"

theorem mailbox_budget_bound_witness:
  "admissions id ''ada@x.dev'' hammering ada_db = 4 \<and>
   int (admissions id ''ada@x.dev'' hammering ada_db) \<le> mail_burst + (360000 - 0) div mail_interval_ms"
proof -
  have "tables_sound ada_db" "clocked 0 360000 hammering" by code_simp+
  from mailbox_budget_bound[OF this] show ?thesis by (intro conjI) (code_simp, blast)
qed

end
