(* ===== verification/AuthServer.thy ===== *)
theory AuthServer
  imports AuthRoutes MailBudget Schedule
begin

text \<open>
  What the sign-in routes guarantee together, over any sequence of requests and spawned tasks.
\<close>

datatype server_event =
    Request auth_route outside "(string \<times> string) list option" auth_request
  | Run_task outside

fun serve_event :: "auth_registry \<Rightarrow> server \<Rightarrow> server_event \<Rightarrow> server" where
  "serve_event ar sv (Request route orc decoded rq) = snd (run_auth_route route ar orc decoded rq sv)"
| "serve_event ar sv (Run_task orc) =
     (case sv_tasks sv of [] \<Rightarrow> sv | t # ts \<Rightarrow> run_task orc t (sv\<lparr>sv_tasks := ts\<rparr>))"

definition serve_events :: "auth_registry \<Rightarrow> server_event list \<Rightarrow> server \<Rightarrow> server" where
  "serve_events ar es sv = foldl (serve_event ar) sv es"

section \<open>Nobody signs in unproven\<close>

definition proven :: "string \<Rightarrow> auth_db \<Rightarrow> bool" where
  "proven pw db \<longleftrightarrow>
     (\<forall>s\<in>set (db_sessions db). se_provider s = pw \<longrightarrow> (\<exists>v\<in>set (db_verified db). vf_principal v = se_principal s))"

definition vouched :: "string \<Rightarrow> auth_db \<Rightarrow> bool" where
  "vouched p db \<longleftrightarrow> (\<exists>v\<in>set (db_verified db). vf_principal v = p)"

interpretation proof_law: table_law "proven pw" for pw
  by unfold_locales (simp add: proven_def)

lemma proven_statements:
  "preserves (proven pw) (insert_user u)" "preserves (proven pw) (insert_account a)"
  "preserves (proven pw) (insert_or_ignore_account a)" "preserves (proven pw) (insert_credential cr)"
  "preserves (proven pw) (insert_token t)" "preserves (proven pw) (insert_or_ignore_verified vf)"
  "preserves (proven pw) (delete_users pu)" "preserves (proven pw) (delete_accounts pa)"
  "preserves (proven pw) (delete_sessions ps)" "preserves (proven pw) (delete_credentials pc)"
  "preserves (proven pw) (delete_tokens pt)" "preserves (proven pw) (refresh_user q profile now)"
  "preserves (proven pw) (update_secret q provider secret)" "preserves (proven pw) (admit_mail address now)"
  unfolding insert_user_def insert_account_def insert_or_ignore_account_def insert_credential_def
    delete_users_def delete_accounts_def delete_sessions_def delete_credentials_def delete_tokens_def refresh_user_def
    insert_token_def insert_or_ignore_verified_def update_secret_def admit_mail_def
  by (rule proof_law.keeps_statement, auto simp: proven_def Let_def split: option.split)+

interpretation proof_trace: auth_law "proven pw" "\<lambda>_. False" "\<lambda>_. True" "\<lambda>_. True" "\<lambda>_. True" True for pw
  by unfold_locales (auto intro: proven_statements simp: proven_def)

interpretation open_law: table_law "\<lambda>db. proven pw db \<and> (provider = pw \<longrightarrow> vouched p db)" for pw provider p
  by unfold_locales (simp add: proven_def vouched_def)

lemma opens:
  "preserves (\<lambda>db. proven pw db \<and> (provider = pw \<longrightarrow> vouched p db)) (create_session hash minted p provider now ttl)"
  "preserves (\<lambda>db. proven pw db \<and> (provider = pw \<longrightarrow> vouched p db)) (rotate_session hash minted old p provider now ttl)"
proof -
  have ins: "preserves (\<lambda>db. proven pw db \<and> (provider = pw \<longrightarrow> vouched p db)) (insert_session p h provider a b c)" for h a b c
    unfolding insert_session_def by (rule open_law.keeps_statement) (auto simp: proven_def vouched_def)
  have del: "preserves (\<lambda>db. proven pw db \<and> (provider = pw \<longrightarrow> vouched p db)) (delete_sessions q)" for q
    unfolding delete_sessions_def by (rule open_law.keeps_statement) (auto simp: proven_def vouched_def)
  show "preserves (\<lambda>db. proven pw db \<and> (provider = pw \<longrightarrow> vouched p db)) (create_session hash minted p provider now ttl)"
    unfolding create_session_def by (intro keeps_bind ins keeps_give)
  show "preserves (\<lambda>db. proven pw db \<and> (provider = pw \<longrightarrow> vouched p db)) (rotate_session hash minted old p provider now ttl)"
    unfolding rotate_session_def by (intro open_law.keeps_transaction keeps_bind ins del keeps_give)
qed

definition healthy :: "string \<Rightarrow> server \<Rightarrow> bool" where
  "healthy pw sv \<longleftrightarrow> db_faults (sv_db sv) = [] \<and> proven pw (sv_db sv)"

lemma healthy_on_db:
  assumes "healthy pw sv" "preserves (\<lambda>db. db_faults db = []) m" "preserves (proven pw) m" "on_db m sv = (r, sv')"
  shows "healthy pw sv'"
proof -
  obtain db where run: "m (sv_db sv) = (r, db)" and sv': "sv' = sv\<lparr>sv_db := db\<rparr>"
    using assms(4) by (auto simp: on_db_def split: prod.splits)
  show ?thesis using keepsD[OF assms(2) _ run] keepsD[OF assms(3) _ run] assms(1) by (simp add: healthy_def sv')
qed

lemma healthy_frame [simp]:
  "healthy pw (sv\<lparr>sv_shutter := sh\<rparr>) = healthy pw sv" "healthy pw (sv\<lparr>sv_lanes := l\<rparr>) = healthy pw sv"
  "healthy pw (sv\<lparr>sv_tasks := t\<rparr>) = healthy pw sv" "healthy pw (sv\<lparr>sv_outbox := b\<rparr>) = healthy pw sv"
  "healthy pw (end_lanes_where f sv) = healthy pw sv" "healthy pw (spawn k sv) = healthy pw sv"
  "healthy pw (end_lanes_of p sv) = healthy pw sv"
  by (simp_all add: healthy_def end_lanes_where_def spawn_def end_lanes_of_def)

lemma quiet_lawful: "quiet_trace.lawful hash c"
  by (cases c) (simp_all add: quiet_trace.lawful.simps)

lemma quiet_op: "call_op hash c = quietly m \<Longrightarrow> preserves (\<lambda>db. db_faults db = []) m"
  by (rule quiet_trace.keeps_quiet_call[OF quiet_lawful])

lemma proof_op: "proof_trace.lawful hash c \<Longrightarrow> call_op hash c = quietly m \<Longrightarrow> preserves (proven pw) m"
  by (rule proof_trace.keeps_quiet_call)

lemma quiet_open:
  "preserves (\<lambda>db. db_faults db = []) (create_session hash minted p provider now ttl)"
  "preserves (\<lambda>db. db_faults db = []) (rotate_session hash minted old p provider now ttl)"
  by (rule quiet_op[where c = "Create minted p provider now ttl" and hash = hash], simp)
    (rule quiet_op[where c = "Rotate minted old p provider now ttl" and hash = hash], simp)

lemma open_session_healthy:
  assumes "healthy pw sv" "provider = pw \<longrightarrow> vouched p (sv_db sv)"
  shows "healthy pw (snd (open_session ar orc k rq p provider onward sv))"
proof -
  define m where "m = (case identity_token (rq_identity rq) of
             Some existing \<Rightarrow> rotate_session (or_sha orc) (or_token orc) existing p provider (or_now orc k) (ttl_of ar)
           | None \<Rightarrow> create_session (or_sha orc) (or_token orc) p provider (or_now orc k) (ttl_of ar))"
  have quiet: "preserves (\<lambda>db. db_faults db = []) m"
    unfolding m_def by (cases "identity_token (rq_identity rq)") (simp_all add: quiet_open)
  have law: "preserves (\<lambda>db. proven pw db \<and> (provider = pw \<longrightarrow> vouched p db)) m"
    unfolding m_def by (cases "identity_token (rq_identity rq)") (simp_all add: opens)
  obtain r db where run: "m (sv_db sv) = (r, db)" by (cases "m (sv_db sv)")
  have "db_faults db = []" "proven pw db"
    using keepsD[OF quiet _ run] keepsD[OF law _ run] assms by (simp_all add: healthy_def)
  then show ?thesis
    by (simp add: open_session_def on_db_def m_def[symmetric] run healthy_def split: sum.split)
qed

definition settled :: "'a auth_op \<Rightarrow> bool" where
  "settled m \<longleftrightarrow> preserves (\<lambda>db. db_faults db = []) m \<and> (\<forall>pw. preserves (proven pw) m)"

lemma settled_call: "call_op hash c = quietly m \<Longrightarrow> (\<And>pw. proof_trace.lawful hash c) \<Longrightarrow> settled m"
  unfolding settled_def using quiet_op proof_op by blast

lemma settled_bind: "settled m \<Longrightarrow> (\<And>x. settled (f x)) \<Longrightarrow> settled (bind_op m f)"
  by (auto simp: settled_def intro: keeps_bind)

lemma settled_give: "settled (give x)"
  by (auto simp: settled_def intro: keeps_give)

lemma settled_ops:
  "settled (revoke_session h)" "settled (revoke_all_sessions p)" "settled (unlink_account p provider keep)"
  "settled (reset_password p provider email secret now)" "settled (mark_verified p email now)"
  "settled (admit_mail address now)" "settled (issue hash minted purpose provider who email onward now)"
  by (rule settled_call[where c = "Revoke h" and hash = id], simp_all add: proof_trace.lawful.simps)
    (rule settled_call[where c = "Revoke_all p" and hash = id], simp_all add: proof_trace.lawful.simps,
     rule settled_call[where c = "Unlink p provider keep" and hash = id], simp_all add: proof_trace.lawful.simps,
     rule settled_call[where c = "Reset p provider email secret now" and hash = id], simp_all add: proof_trace.lawful.simps,
     rule settled_call[where c = "Prove p email now" and hash = id], simp_all add: proof_trace.lawful.simps,
     rule settled_call[where c = "auth_call.Admit address now" and hash = id], simp_all add: proof_trace.lawful.simps,
     rule settled_call[where c = "Issue minted purpose provider who email onward now" and hash = hash],
     simp_all add: proof_trace.lawful.simps)

lemma settled_reads:
  "settled (lookup_credential provider subject)" "settled (verified_principal email)" "settled (is_verified p email)"
  "settled (consume hash purpose token now)"
  "settled (create_credential_account minted provider subject profile secret now)"
  "settled (resolve_magic_link minted magic password email now)"
  using quiet_trace.keeps_reads proof_trace.keeps_reads quiet_trace.keeps_sign_up proof_trace.keeps_sign_up
    quiet_trace.keeps_magic proof_trace.keeps_magic
    quiet_trace.keeps_call_op[OF quiet_lawful, of hash "Consume purpose token now"]
    proof_trace.keeps_call_op[of hash "Consume purpose token now"]
  by (auto simp: settled_def proof_trace.lawful.simps)

lemma settled_sign_up: "settled (new_account_op orc k provider email secret)"
  unfolding new_account_op_def
  by (rule settled_bind) (auto intro: settled_reads settled_give split: option.split)

lemma settled_forgotten: "settled (forgotten_principal provider email)"
  unfolding forgotten_principal_def
  by (rule settled_bind) (auto intro: settled_reads settled_give split: option.split)

lemmas settled_rules = settled_ops settled_reads settled_sign_up settled_forgotten

lemma settled_healthy: "settled m \<Longrightarrow> healthy pw sv \<Longrightarrow> on_db m sv = (r, sv') \<Longrightarrow> healthy pw sv'"
  unfolding settled_def by (rule healthy_on_db) auto

lemma settled_snd: "settled m \<Longrightarrow> healthy pw sv \<Longrightarrow> healthy pw (snd (on_db m sv))"
  by (cases "on_db m sv") (auto dest: settled_healthy)

lemma note_verified_healthy:
  assumes "healthy pw sv"
  shows "healthy pw (note_verified orc k p email sv) \<and> vouched p (sv_db (note_verified orc k p email sv))"
proof
  show "healthy pw (note_verified orc k p email sv)"
    unfolding note_verified_def by (rule settled_snd[OF settled_ops(5) assms])
  show "vouched p (sv_db (note_verified orc k p email sv))"
    using assms by (auto simp: note_verified_def on_db_def mark_verified_def insert_or_ignore_verified_def statement_on_def
        bind_op_def call_substrate_def healthy_def vouched_def)
qed

lemma address_proven_healthy:
  assumes "healthy pw sv" "address_proven p email sv = (v, sv')"
  shows "healthy pw sv' \<and> (v \<longrightarrow> vouched p (sv_db sv'))"
proof -
  obtain r sv1 where run: "on_db (is_verified p email) sv = (r, sv1)" by (cases "on_db (is_verified p email) sv")
  have "healthy pw sv1" by (rule settled_healthy[OF settled_reads(3) assms(1) run])
  moreover have "r = Inr True \<Longrightarrow> vouched p (sv_db sv1)"
    using run by (auto simp: on_db_def is_verified_def ok vouched_def split: prod.splits)
  ultimately show ?thesis using assms(2) run by (auto simp: address_proven_def split: sum.splits)
qed

lemma redeem_healthy: "healthy pw sv \<Longrightarrow> redeem orc k purpose token provider sv = (r, sv') \<Longrightarrow> healthy pw sv'"
  using settled_healthy[OF settled_reads(4)] by (auto simp: redeem_def split: prod.splits sum.splits option.splits)

lemma simple_healthy:
  assumes "healthy pw sv"
  shows "healthy pw (snd (logout ar rq sv))" "healthy pw (snd (logout_all ar rq sv))" "healthy pw (snd (unlink rq sv))"
    "healthy pw (snd (forgot ar rq sv))" "healthy pw (snd (set_password ar rq sv))" "healthy pw (snd (magic_start ar orc rq sv))"
  using assms settled_snd[OF settled_ops(1) assms] settled_snd[OF settled_ops(2) assms]
  by (auto simp: logout_def logout_all_def forgot_def set_password_def magic_start_def split: option.split)
    (auto simp: unlink_def split: identity.split option.split prod.split sum.split unlink_outcome.split
      dest: settled_healthy[OF settled_ops(3) assms])

lemma register_healthy:
  assumes "healthy pw sv" "declares ar Password = Some d" "pv_verify_email d"
  shows "healthy pw (snd (register ar orc rq sv))"
  using assms by (auto simp: register_def register_quietly_def Let_def split: option.split sum.split password_error.split)

lemma login_healthy:
  assumes "healthy pw sv" "declares ar Password = Some d" "pv_verify_email d"
  shows "healthy pw (snd (login ar orc rq sv))"
proof (cases "Option.bind (field rq ''email'') normalize_email")
  case None
  then show ?thesis using assms by (simp add: login_def Let_def split: prod.split)
next
  case (Some email)
  obtain v sh where v: "credential_attempt (or_clock orc) (rq_caller rq) email (sv_shutter sv) = (v, sh)"
    by (cases "credential_attempt (or_clock orc) (rq_caller rq) email (sv_shutter sv)")
  let ?sv = "sv\<lparr>sv_shutter := sh\<rparr>"
  obtain r sv1 where run: "on_db (lookup_credential (pv_name d) email) ?sv = (r, sv1)"
    by (cases "on_db (lookup_credential (pv_name d) email) ?sv")
  have one: "healthy pw sv1"
    by (rule settled_healthy[OF settled_reads(1) _ run]) (simp add: assms)
  have two: "healthy pw (snd (case address_proven p email sv1 of
        (True, sv) \<Rightarrow> open_session ar orc 0 rq p (pv_name d) (rq_return rq) sv
      | (False, sv) \<Rightarrow> unverified_login rq (pv_name d) p email sv))" for p
  proof (cases "address_proven p email sv1")
    case (Pair b sv2)
    from address_proven_healthy[OF one Pair] show ?thesis
      by (cases b) (auto simp: Pair unverified_login_def open_session_healthy)
  qed
  show ?thesis
    using assms one two by (auto simp: login_def Some v run Let_def split: sum.split option.split)
qed

lemma reset_healthy:
  assumes "healthy pw sv" "declares ar Password = Some d"
  shows "healthy pw (snd (reset ar orc rq sv))"
proof -
  have inner: "healthy pw (snd (case redeem orc 0 PasswordReset token (pv_name d) sv of
       (None, sv) \<Rightarrow> (Refusal 410, sv)
     | (Some (p, rd), sv) \<Rightarrow>
         (case on_db (reset_password p (pv_name d) (rd_email rd) secret (or_now orc 1)) sv of
            (Inl e, sv) \<Rightarrow> (Refusal 500, sv)
          | (Inr False, sv) \<Rightarrow> (Refusal 410, sv)
          | (Inr True, sv) \<Rightarrow>
              open_session ar orc 3 rq p (pv_name d) (next_of orc rd)
                (note_verified orc 2 p (rd_email rd) (end_lanes_of p sv)))))" for token secret
  proof (cases "redeem orc 0 PasswordReset token (pv_name d) sv")
    case (Pair r sv1)
    note one = redeem_healthy[OF assms(1) Pair]
    show ?thesis
    proof (cases r)
      case None
      then show ?thesis using one by (simp add: Pair)
    next
      case (Some x)
      obtain p rd where x: "x = (p, rd)" by (cases x)
      obtain q sv2 where run: "on_db (reset_password p (pv_name d) (rd_email rd) secret (or_now orc 1)) sv1 = (q, sv2)"
        by (cases "on_db (reset_password p (pv_name d) (rd_email rd) secret (or_now orc 1)) sv1")
      have two: "healthy pw (end_lanes_of p sv2)"
        using settled_healthy[OF settled_ops(4) one run] by simp
      show ?thesis using two note_verified_healthy[OF two]
        by (auto simp: Pair Some x run open_session_healthy simp del: One_nat_def split: sum.split bool.split)
    qed
  qed
  show ?thesis
    using assms inner by (auto simp: reset_def split: option.split sum.split password_error.split)
qed

lemma verify_healthy:
  assumes "healthy pw sv" "declares ar Password = Some d"
  shows "healthy pw (snd (verify_route ar orc rq sv))"
proof -
  have inner: "healthy pw (snd (case redeem orc 0 VerifyEmail token (pv_name d) sv of
       (None, sv) \<Rightarrow> (Refusal 410, sv)
     | (Some (p, rd), sv) \<Rightarrow>
         open_session ar orc 2 rq p (pv_name d) (next_of orc rd) (note_verified orc 1 p (rd_email rd) sv)))" for token
  proof (cases "redeem orc 0 VerifyEmail token (pv_name d) sv")
    case (Pair r sv1)
    note one = redeem_healthy[OF assms(1) Pair]
    show ?thesis using one note_verified_healthy[OF one]
      by (auto simp: Pair open_session_healthy split: option.split)
  qed
  show ?thesis using assms inner by (auto simp: verify_route_def split: option.split)
qed

lemma magic_healthy:
  assumes "healthy pw sv" "\<And>m. declares ar MagicLinks = Some m \<Longrightarrow> pv_name m \<noteq> pw"
  shows "healthy pw (snd (magic_signin ar orc rq sv))"
proof (cases "declares ar MagicLinks")
  case None
  then show ?thesis using assms by (simp add: magic_signin_def)
next
  case (Some m)
  have inner: "healthy pw (snd (case on_db (consume (or_sha orc) MagicLink token (or_now orc 0)) sv of
       (Inr (Some rd), sv) \<Rightarrow>
         if rd_provider rd \<noteq> pv_name m then (Refusal 410, sv)
         else (case on_db (resolve_magic_link (or_principal orc) (pv_name m)
                    (map_option pv_name (declares ar Password)) (rd_email rd) (or_now orc 1)) sv of
            (Inl e, sv) \<Rightarrow> (Refusal 500, sv)
          | (Inr (p, took_over), sv) \<Rightarrow>
              open_session ar orc 3 rq p (pv_name m) (next_of orc rd)
                (note_verified orc 2 p (rd_email rd) (if took_over then end_lanes_of p sv else sv)))
     | (_, sv) \<Rightarrow> (Refusal 410, sv)))" for token
  proof (cases "on_db (consume (or_sha orc) MagicLink token (or_now orc 0)) sv")
    case (Pair r sv1)
    note one = settled_healthy[OF settled_reads(4) assms(1) Pair]
    have two: "healthy pw (snd (case on_db (resolve_magic_link (or_principal orc) (pv_name m)
                    (map_option pv_name (declares ar Password)) (rd_email rd) (or_now orc 1)) sv1 of
            (Inl e, sv) \<Rightarrow> (Refusal 500, sv)
          | (Inr (p, took_over), sv) \<Rightarrow>
              open_session ar orc 3 rq p (pv_name m) (next_of orc rd)
                (note_verified orc 2 p (rd_email rd) (if took_over then end_lanes_of p sv else sv))))" for rd
    proof (cases "on_db (resolve_magic_link (or_principal orc) (pv_name m)
                    (map_option pv_name (declares ar Password)) (rd_email rd) (or_now orc 1)) sv1")
      case (Pair q sv2)
      note after = settled_healthy[OF settled_reads(6) one Pair]
      then have "healthy pw (if t then end_lanes_of p sv2 else sv2)" for t p by simp
      from note_verified_healthy[OF this] show ?thesis using after assms(2)[OF Some]
        by (auto simp: Pair open_session_healthy simp del: One_nat_def split: sum.split)
    qed
    show ?thesis using one two by (auto simp: Pair split: sum.split option.split)
  qed
  show ?thesis using assms inner by (auto simp: magic_signin_def Some split: option.split)
qed

lemma put_mail_healthy [simp]: "healthy pw (put_mail orc m sv) = healthy pw sv"
  by (simp add: put_mail_def)

lemma mail_admitted_healthy: "healthy pw sv \<Longrightarrow> mail_admitted orc k email sv = (b, sv') \<Longrightarrow> healthy pw sv'"
  using settled_healthy[OF settled_ops(6)] by (auto simp: mail_admitted_def split: prod.splits)

lemma mail_link_healthy: "healthy pw sv \<Longrightarrow> healthy pw (mail_link orc k kind purpose provider p email onward sv)"
  by (auto simp: mail_link_def split: prod.split sum.split dest: settled_healthy[OF settled_ops(7)])

lemma admitted_healthy:
  assumes "healthy pw sv" "\<And>sv. healthy pw sv \<Longrightarrow> healthy pw (f sv)"
  shows "healthy pw (case mail_admitted orc k email sv of (False, sv) \<Rightarrow> sv | (True, sv) \<Rightarrow> f sv)"
proof (cases "mail_admitted orc k email sv")
  case (Pair b sv1)
  from mail_admitted_healthy[OF assms(1) Pair] assms(2) show ?thesis by (cases b) (simp_all add: Pair)
qed

lemma run_task_healthy:
  assumes "healthy pw sv" shows "healthy pw (run_task orc t sv)"
proof (cases t)
  case (Forgot_task provider email)
  have "healthy pw (case on_db (forgotten_principal provider email) sv of
      (Inr (Some p), sv) \<Rightarrow> mail_link orc 1 ResetMail PasswordReset provider (Some p) email None sv | (_, sv) \<Rightarrow> sv)"
    if "healthy pw sv" for sv
  proof (cases "on_db (forgotten_principal provider email) sv")
    case (Pair r sv1)
    note one = settled_healthy[OF settled_forgotten that Pair]
    show ?thesis by (simp add: Pair one mail_link_healthy[OF one] split: sum.split option.split)
  qed
  then show ?thesis unfolding Forgot_task run_task.simps by (rule admitted_healthy[OF assms])
next
  case (Register_task provider email secret onward)
  show ?thesis
  proof (cases "on_db (new_account_op orc 0 provider email secret) sv")
    case (Pair r sv1)
    note one = settled_healthy[OF settled_sign_up assms Pair]
    have "healthy pw (case mail_admitted orc 1 email sv1 of
        (False, sv) \<Rightarrow> sv
      | (True, sv) \<Rightarrow> (case created of
            Some p \<Rightarrow> mail_link orc 2 VerifyMail VerifyEmail provider (Some (pr_id p)) email (Some onward) sv
          | None \<Rightarrow> put_mail orc \<lparr>ml_kind = AlreadyRegistered, ml_address = email, ml_token = None\<rparr> sv))" for created
      by (rule admitted_healthy[OF one]) (simp add: mail_link_healthy split: option.split)
    then show ?thesis using one by (cases r) (simp_all add: Register_task Pair del: One_nat_def)
  qed
qed (simp_all only: run_task.simps, (rule admitted_healthy[OF assms], erule mail_link_healthy)+)

text \<open>C19. Nobody signs in unproven. In an app whose password provider asks for proof of the address, and while the
  database answers, no sequence of requests to the sign-in routes and of spawned tasks, whatever the requests carry,
  leaves a session opened by the password provider whose principal has not proven an address.\<close>

theorem unproven_never_signs_in:
  assumes declared: "declares ar Password = Some d" "pv_verify_email d"
    and distinct: "\<And>m. declares ar MagicLinks = Some m \<Longrightarrow> pv_name m \<noteq> pv_name d"
    and start: "db_faults (sv_db sv) = []" "\<forall>s\<in>set (db_sessions (sv_db sv)). se_provider s \<noteq> pv_name d"
  shows "\<forall>s\<in>set (db_sessions (sv_db (serve_events ar es sv))). se_provider s = pv_name d \<longrightarrow>
    (\<exists>v\<in>set (db_verified (sv_db (serve_events ar es sv))). vf_principal v = se_principal s)"
proof -
  have route: "healthy (pv_name d) (snd (serve_route r ar orc rq sv))" if "healthy (pv_name d) sv" for r orc rq sv
    using that declared distinct
    by (cases r) (simp_all add: simple_healthy register_healthy login_healthy reset_healthy verify_healthy magic_healthy)
  have event: "healthy (pv_name d) (serve_event ar sv e)" if "healthy (pv_name d) sv" for sv e
    using that by (cases e) (auto simp: run_auth_route_def Let_def route run_task_healthy split: option.split list.split)
  have "healthy (pv_name d) sv" using start by (simp add: healthy_def proven_def)
  then have "healthy (pv_name d) (serve_events ar es sv)"
    unfolding serve_events_def by (induction es arbitrary: sv) (simp_all add: event)
  then show ?thesis by (simp add: healthy_def proven_def)
qed

definition demo_registry :: auth_registry where
  "demo_registry = \<lparr>ar_providers = [\<lparr>pv_name = ''password'', pv_kind = Password, pv_verify_email = True, pv_reset_by_email = True\<rparr>],
     ar_cookie = ''sid'', ar_ttl = 0, ar_login_path = None\<rparr>"

definition demo_outside :: "env \<Rightarrow> string \<Rightarrow> int \<Rightarrow> outside" where
  "demo_outside e minted now = \<lparr>or_sha = id, or_kdf = (\<lambda>pw. Inr (CHR ''#'' # pw)), or_check = (\<lambda>stored pw. stored = CHR ''#'' # pw),
     or_now = (\<lambda>_. now), or_token = minted, or_principal = ''u_new'', or_path = Some, or_csrf = (\<lambda>t. t = ''c''),
     or_forget = ''f'', or_origin = True, or_queued = True, or_clock = e\<rparr>"

definition demo_request :: auth_request where
  "demo_request = \<lparr>rq_identity = Nobody, rq_form = [], rq_return = ''/'', rq_caller = Account [], rq_email = True,
     rq_jobs = True, rq_destination = None\<rparr>"

definition demo_server :: "shutter \<Rightarrow> server" where
  \<comment> \<open>an account was made and its address is to be confirmed\<close>
  "demo_server sh = \<lparr>sv_db = after_calls id
       [Register ''u_new'' ''password'' ''ada@x.dev'' (mail_profile ''ada@x.dev'') ''#secret'' 0 None,
        Issue ''link'' VerifyEmail ''password'' (Some ''u_new'') ''ada@x.dev'' None 1]
       \<lparr>db_users = [], db_accounts = [], db_sessions = [], db_credentials = [], db_tokens = [],
        db_verified = [], db_budget = [], db_next_session = 1, db_faults = []\<rparr>,
     sv_shutter = sh, sv_lanes = [], sv_tasks = [], sv_outbox = []\<rparr>"

definition confirming :: "env \<Rightarrow> server_event list" where
  "confirming e =
    [Request VerifyRoute (demo_outside e ''sess'' 2) (Some [(''_csrf'', ''c''), (''token'', ''guess'')]) demo_request,
     Run_task (demo_outside e ''x'' 2),
     Request VerifyRoute (demo_outside e ''sess'' 2) (Some [(''_csrf'', ''c''), (''token'', ''link'')]) demo_request]"

theorem unproven_never_signs_in_witness:
  "filter (\<lambda>s. se_provider s = ''password'' \<and>
      \<not> (\<exists>v\<in>set (db_verified (sv_db (serve_events demo_registry (confirming demo_env) (demo_server demo_shutter)))).
         vf_principal v = se_principal s))
     (db_sessions (sv_db (serve_events demo_registry (confirming demo_env) (demo_server demo_shutter)))) = [] \<and>
   map se_principal (db_sessions (sv_db (serve_events demo_registry (confirming demo_env) (demo_server demo_shutter)))) = [''u_new'']"
proof -
  let ?d = "\<lparr>pv_name = ''password'', pv_kind = Password, pv_verify_email = True, pv_reset_by_email = True\<rparr>"
  have "declares demo_registry Password = Some ?d" "pv_verify_email ?d"
    "\<And>m. declares demo_registry MagicLinks = Some m \<Longrightarrow> pv_name m \<noteq> pv_name ?d"
    by (simp_all add: declares_def demo_registry_def)
  moreover have "db_faults (sv_db (demo_server demo_shutter)) = []"
    "\<forall>s\<in>set (db_sessions (sv_db (demo_server demo_shutter))). se_provider s \<noteq> pv_name ?d"
    by (simp_all only: demo_server_def server.select_convs) code_simp+
  ultimately have "\<forall>s\<in>set (db_sessions (sv_db (serve_events demo_registry (confirming demo_env) (demo_server demo_shutter)))).
      se_provider s = pv_name ?d \<longrightarrow>
      (\<exists>v\<in>set (db_verified (sv_db (serve_events demo_registry (confirming demo_env) (demo_server demo_shutter)))).
         vf_principal v = se_principal s)"
    by (rule unproven_never_signs_in)
  moreover have "map se_principal (db_sessions (sv_db (serve_events demo_registry (confirming e) (demo_server sh)))) = [''u_new'']" for e sh
    by code_simp
  ultimately show ?thesis by (simp add: filter_empty_conv)
qed

section \<open>What a sign-in takes\<close>

interpretation same: table_law "\<lambda>db. db\<lparr>db_faults := []\<rparr> = D" for D
  by unfold_locales simp

definition only_reads :: "'a auth_op \<Rightarrow> bool" where
  "only_reads m \<longleftrightarrow> (\<forall>D. preserves (\<lambda>db. db\<lparr>db_faults := []\<rparr> = D) m)"

lemma only_reads_db:
  assumes "only_reads m" "m db = (r, db')" shows "db' = db\<lparr>db_faults := db_faults db'\<rparr>"
proof -
  have "db'\<lparr>db_faults := []\<rparr> = db\<lparr>db_faults := []\<rparr>"
    using keepsD[OF spec[OF assms(1)[unfolded only_reads_def], of "db\<lparr>db_faults := []\<rparr>"] _ assms(2)] by simp
  then show ?thesis by (cases db; cases db') simp
qed

lemma reads: "only_reads (lookup_credential provider subject)" "only_reads (is_verified p email)"
  unfolding only_reads_def lookup_credential_def is_verified_def
  by (intro allI keeps_bind keeps_cases same.keeps_query keeps_parse keeps_give)+

lemma lookup_credential_ok:
  "lookup_credential provider email db = (Inr (Some (p, secret)), db') \<Longrightarrow>
   (\<exists>a\<in>set (db_accounts db). owned provider email a \<and> ac_principal a = p) \<and>
   (\<exists>c\<in>set (db_credentials db). cr_principal c = p \<and> cr_provider c = provider \<and> cr_secret_hash c = Some secret)"
proof -
  assume run: "lookup_credential provider email db = (Inr (Some (p, secret)), db')"
  have join: "credential_join provider email (db\<lparr>db_faults := fs\<rparr>) = credential_join provider email db" for fs
    by (simp add: credential_join_def cong: if_cong)
  have "(p, secret) \<in> set (credential_join provider email db)"
    using run by (cases "credential_join provider email db")
      (auto simp: lookup_credential_def ok join parse_principal_def split: if_split_asm)
  then show ?thesis
    by (auto simp: credential_join_def owned_def split: if_split_asm option.split_asm)
qed

lemma open_session_outcome:
  assumes "open_session ar orc k rq p provider onward sv = (resp, sv')"
  shows "(resp = Refusal 500 \<and> sv_db sv' = (sv_db sv)\<lparr>db_faults := db_faults (sv_db sv')\<rparr> \<or>
      (\<exists>dest cookies. resp = See_other dest cookies) \<and>
      db_accounts (sv_db sv') = db_accounts (sv_db sv) \<and> db_credentials (sv_db sv') = db_credentials (sv_db sv) \<and>
      db_users (sv_db sv') = db_users (sv_db sv) \<and> db_tokens (sv_db sv') = db_tokens (sv_db sv) \<and>
      db_verified (sv_db sv') = db_verified (sv_db sv) \<and>
      (\<exists>s\<in>set (db_sessions (sv_db sv')). se_token_hash s = or_sha orc (or_token orc) \<and> se_principal s = p \<and> se_provider s = provider))
    \<and> sv_lanes sv' = sv_lanes sv"
proof -
  define m where "m = (case identity_token (rq_identity rq) of
             Some existing \<Rightarrow> rotate_session (or_sha orc) (or_token orc) existing p provider (or_now orc k) (ttl_of ar)
           | None \<Rightarrow> create_session (or_sha orc) (or_token orc) p provider (or_now orc k) (ttl_of ar))"
  obtain r db where run: "m (sv_db sv) = (r, db)" by (cases "m (sv_db sv)")
  have out: "(resp, sv') = (case r of Inl e \<Rightarrow> (Refusal 500, sv\<lparr>sv_db := db\<rparr>)
      | Inr token \<Rightarrow> (See_other (case rq_destination rq of Some d \<Rightarrow> d | None \<Rightarrow> onward)
             [set_cookie_value (ar_cookie ar) token (as_secs (ar_ttl ar)), or_forget orc], sv\<lparr>sv_db := db\<rparr>))"
    using assms by (simp add: open_session_def on_db_def m_def[symmetric] run split: sum.splits)
  have same: "db = (sv_db sv)\<lparr>db_faults := db_faults db\<rparr>" if "r = Inl e" for e
  proof (cases "identity_token (rq_identity rq)")
    case (Some h)
    then show ?thesis using run that by (auto simp: m_def rotate_session_def dest: transaction_failed)
  next
    case None
    then show ?thesis using run that
      by (auto simp: m_def create_session_def insert_session_def statement_on_def bind_op_def call_substrate_def give_def
          split: list.split_asm option.split_asm if_split_asm)
  qed
  show ?thesis
  proof (cases r)
    case (Inl e)
    then show ?thesis using out same by simp
  next
    case (Inr token)
    have "db_accounts db = db_accounts (sv_db sv) \<and> db_credentials db = db_credentials (sv_db sv) \<and> db_users db = db_users (sv_db sv) \<and>
      db_tokens db = db_tokens (sv_db sv) \<and> db_verified db = db_verified (sv_db sv) \<and>
      (\<exists>s\<in>set (db_sessions db). se_token_hash s = or_sha orc (or_token orc) \<and> se_principal s = p \<and> se_provider s = provider)"
      using run Inr by (cases "identity_token (rq_identity rq)")
        (auto simp: m_def create_session_def rotate_session_def ok insert_session_def delete_sessions_def split: if_split_asm)
    then show ?thesis using out Inr by simp
  qed
qed


definition plain :: "char \<Rightarrow> bool" where
  "plain c \<longleftrightarrow> 33 \<le> byte c \<and> byte c < 127"

lemma plain_codes: "list_all plain s \<Longrightarrow> \<not> any_code whitespace_codes s \<and> \<not> any_code control_codes s"
proof -
  assume s: "list_all plain s"
  have none: "lead_code codes t = None" if "t \<noteq> []" "plain (hd t)" "list_all (\<lambda>w. w \<noteq> [] \<and> \<not> plain (hd w)) codes" for t codes
    using that by (auto simp: lead_code_def find_None_iff list_all_iff neq_Nil_conv)
  have "list_all (\<lambda>w. w \<noteq> [] \<and> \<not> plain (hd w)) control_codes" "list_all (\<lambda>w. w \<noteq> [] \<and> \<not> plain (hd w)) whitespace_codes"
    by (auto simp: control_codes_def whitespace_codes_def plain_def list_all_iff)
  moreover have "plain (hd (drop i s))" if "i < length s" for i
    using that s by (simp add: hd_drop_conv_nth list_all_length)
  ultimately show ?thesis by (auto simp: any_code_def list_ex_iff none)
qed

definition open_registry :: auth_registry where
  "open_registry = demo_registry\<lparr>ar_providers := [\<lparr>pv_name = ''password'', pv_kind = Password, pv_verify_email = False, pv_reset_by_email = True\<rparr>]\<rparr>"

definition login_request :: auth_request where
  "login_request = demo_request\<lparr>rq_caller := Address (V4 9) Credential,
     rq_form := [(''email'', ''A@b.c''), (''password'', ''open sesame'')]\<rparr>"

definition known_db :: auth_db where
  "known_db = ada_db\<lparr>db_accounts := [new_account ''u_ada'' ''password'' ''a@b.c'' 0],
     db_credentials := [new_credential ''u_ada'' ''password'' ''#open sesame'' 0], db_sessions := []\<rparr>"

definition known_server :: server where
  "known_server = (demo_server demo_shutter)\<lparr>sv_db := known_db\<rparr>"

lemma known [simp]: "sv_db known_server = known_db" "sv_shutter known_server = demo_shutter"
  by (simp_all add: known_server_def demo_server_def)

lemma demo_attempt: "verdict_admitted (fst (credential_attempt demo_env (Address (V4 9) Credential) acct demo_shutter))"
proof -
  let ?k = "Address (V4 9) Credential"
  obtain v s' where r: "credential_attempt demo_env ?k acct demo_shutter = (v, s')"
    by (metis prod.exhaust)
  have p: "peek (quota_for demo_shutter (Account acct)) now 1 cell_new"
    "peek (quota_for demo_shutter ?k) now 1 cell_new" for now
    by (auto intro!: peek_fresh simp: quota_for_def demo_shutter_def Let_def default_limits_value unat_charge_increment)
  have "has_room 3 demo_shutter" by (rule demo_room) simp
  from credential_attempt_charges [OF this r] show ?thesis
    using r p by (simp add: verdict_admitted_def)
qed


section \<open>Mail to one address\<close>

definition mails_to :: "string \<Rightarrow> server \<Rightarrow> nat" where
  "mails_to address sv = length (filter (\<lambda>m. ml_address m = address) (sv_outbox sv))"

fun task_address :: "mail_task \<Rightarrow> string" where
  "task_address (Forgot_task provider email) = email"
| "task_address (First_password_task provider p email) = email"
| "task_address (Magic_task provider email onward) = email"
| "task_address (Register_task provider email secret onward) = email"
| "task_address (Verify_task provider p email onward) = email"

fun task_time :: "outside \<Rightarrow> mail_task \<Rightarrow> int" where
  \<comment> \<open>when the task charges the mailbox\<close>
  "task_time orc (Register_task provider email secret onward) = or_now orc 1"
| "task_time orc _ = or_now orc 0"

definition free_of_charge :: "'a auth_op \<Rightarrow> bool" where
  "free_of_charge m \<longleftrightarrow> (\<forall>address v. preserves (\<lambda>db. map_of (db_budget db) address = v) m) \<and> preserves tables_sound m"

lemma free_ops:
  "free_of_charge (issue hash minted purpose provider who email onward now)"
  "free_of_charge (new_account_op orc k provider email secret)" "free_of_charge (forgotten_principal provider email)"
proof -
  show "free_of_charge (issue hash minted purpose provider who email onward now)"
    unfolding free_of_charge_def
    by (intro conjI allI row_trace.keeps_quiet_call[where c = "Issue minted purpose provider who email onward now" and hash = hash]
        sound_trace.keeps_quiet_call[where c = "Issue minted purpose provider who email onward now" and hash = hash])
      (simp_all add: row_trace.lawful.simps sound_trace.lawful.simps)
  show "free_of_charge (new_account_op orc k provider email secret)"
    unfolding free_of_charge_def new_account_op_def
    by (intro conjI allI; rule keeps_bind, rule row_trace.keeps_reads sound_trace.keeps_reads,
        auto intro!: keeps_give row_trace.keeps_sign_up sound_trace.keeps_sign_up split: option.split)
  show "free_of_charge (forgotten_principal provider email)"
    unfolding free_of_charge_def forgotten_principal_def
    by (intro conjI allI; rule keeps_bind, rule row_trace.keeps_reads sound_trace.keeps_reads,
        auto intro!: keeps_give row_trace.keeps_reads sound_trace.keeps_reads split: option.split)
qed

lemma free_on_db:
  assumes "free_of_charge m" "on_db m sv = (r, sv')"
  shows "level address t (sv_db sv') = level address t (sv_db sv) \<and> sv_outbox sv' = sv_outbox sv \<and>
    (tables_sound (sv_db sv) \<longrightarrow> tables_sound (sv_db sv'))"
proof -
  obtain db where run: "m (sv_db sv) = (r, db)" and sv': "sv' = sv\<lparr>sv_db := db\<rparr>"
    using assms(2) by (auto simp: on_db_def split: prod.splits)
  have "map_of (db_budget db) address = map_of (db_budget (sv_db sv)) address"
    using keepsD[OF spec[OF spec[OF conjunct1[OF assms(1)[unfolded free_of_charge_def]]]] _ run] by blast
  moreover have "tables_sound (sv_db sv) \<longrightarrow> tables_sound db"
    using keepsD[OF conjunct2[OF assms(1)[unfolded free_of_charge_def]] _ run] by blast
  ultimately show ?thesis by (simp add: sv' level_def)
qed

lemma mail_admitted_level:
  assumes sound: "tables_sound (sv_db sv)" and run: "mail_admitted orc k whom sv = (b, sv')"
  shows "sv_outbox sv' = sv_outbox sv \<and> tables_sound (sv_db sv') \<and>
    (if whom = address \<and> b
     then level address (or_now orc k) (sv_db sv') = level address (or_now orc k) (sv_db sv) + mail_interval_ms \<and>
          level address (or_now orc k) (sv_db sv) + mail_interval_ms \<le> or_now orc k + mail_burst * mail_interval_ms
     else level address (or_now orc k) (sv_db sv') = level address (or_now orc k) (sv_db sv))"
proof -
  let ?now = "or_now orc k"
  have after: "after_call id db (auth_call.Admit w ?now) = snd (admit_mail w ?now db)" for w db
    by (simp add: after_call_def quietly_def bind_op_def give_def split: prod.split sum.split)
  have sv': "sv' = sv\<lparr>sv_db := snd (admit_mail whom ?now (sv_db sv))\<rparr>" "b \<longleftrightarrow> fst (admit_mail whom ?now (sv_db sv)) = Inr True"
    using run by (auto simp: mail_admitted_def on_db_def split: prod.splits)
  have "tables_sound (after_calls id [auth_call.Admit whom ?now] (sv_db sv))" by (rule after_calls_sound[OF sound])
  then have "tables_sound (sv_db sv')" by (simp add: after_calls_def sv' after)
  moreover have "whom \<noteq> address \<Longrightarrow> level address ?now (sv_db sv') = level address ?now (sv_db sv)"
    using level_kept[of address id "auth_call.Admit whom ?now" ?now "sv_db sv"] by (simp add: row_trace.lawful.simps after sv')
  ultimately show ?thesis using level_admit[OF sound, of address ?now id]
    by (cases "whom = address") (auto simp: sv' after split: if_split_asm)
qed

definition mailed_by :: "string \<Rightarrow> int \<Rightarrow> server \<Rightarrow> server \<Rightarrow> nat \<Rightarrow> bool" where
  "mailed_by address t sv sv' n \<longleftrightarrow> mails_to address sv' \<le> mails_to address sv + n \<and>
     level address t (sv_db sv') = level address t (sv_db sv) \<and> (tables_sound (sv_db sv) \<longrightarrow> tables_sound (sv_db sv'))"

lemma mailed_by_after:
  "level address t (sv_db sv1) = level address t (sv_db sv) \<and> sv_outbox sv1 = sv_outbox sv \<and>
     (tables_sound (sv_db sv) \<longrightarrow> tables_sound (sv_db sv1)) \<Longrightarrow>
   mailed_by address t sv1 sv' n \<Longrightarrow> mailed_by address t sv sv' n"
  by (auto simp: mailed_by_def mails_to_def)

lemma mailed_by_none: "mailed_by address t sv sv n"
  by (simp add: mailed_by_def)

lemma mail_link_mails:
  "mailed_by address t sv (mail_link orc k kind purpose provider p email onward sv) (if email = address then 1 else 0)"
proof (cases "on_db (issue (or_sha orc) (or_token orc) purpose provider p email onward (or_now orc k)) sv")
  case (Pair r sv1)
  from free_on_db[OF free_ops(1) Pair, of address t] show ?thesis
    by (auto simp: mail_link_def Pair put_mail_def mailed_by_def mails_to_def split: sum.split)
qed

lemma admitted_mails:
  assumes sound: "tables_sound (sv_db sv)"
    and rest: "\<And>sv. mailed_by address (or_now orc k) sv (f sv) (if whom = address then 1 else 0)"
    and result: "sv' = (case mail_admitted orc k whom sv of (False, sv) \<Rightarrow> sv | (True, sv) \<Rightarrow> f sv)"
  shows "tables_sound (sv_db sv') \<and> level address (or_now orc k) (sv_db sv) \<le> level address (or_now orc k) (sv_db sv') \<and>
    (mails_to address sv' \<le> mails_to address sv \<or>
     mails_to address sv' \<le> mails_to address sv + 1 \<and>
     level address (or_now orc k) (sv_db sv') = level address (or_now orc k) (sv_db sv) + mail_interval_ms \<and>
     level address (or_now orc k) (sv_db sv') \<le> or_now orc k + mail_burst * mail_interval_ms)"
proof -
  obtain b sv1 where run: "mail_admitted orc k whom sv = (b, sv1)" by (cases "mail_admitted orc k whom sv")
  have res: "sv' = (if b then f sv1 else sv1)" by (simp add: result run split: bool.split)
  have pos: "0 \<le> mail_interval_ms" by (simp add: mail_interval_ms_def)
  from mail_admitted_level[OF sound run, of address] rest[of sv1] pos show ?thesis
    by (cases b; cases "whom = address") (auto simp: res mailed_by_def mails_to_def)
qed

lemma run_task_mails:
  assumes sound: "tables_sound (sv_db sv)"
    and now_def: "now = task_time orc t" and sv'_def: "sv' = run_task orc t sv"
  shows "tables_sound (sv_db sv') \<and> level address now (sv_db sv) \<le> level address now (sv_db sv') \<and>
    (mails_to address sv' \<le> mails_to address sv \<or>
     mails_to address sv' \<le> mails_to address sv + 1 \<and>
     level address now (sv_db sv') = level address now (sv_db sv) + mail_interval_ms \<and>
     level address now (sv_db sv') \<le> now + mail_burst * mail_interval_ms)"
proof (cases t)
  case (Forgot_task provider email)
  have "mailed_by address now sv (case on_db (forgotten_principal provider email) sv of
      (Inr (Some p), sv) \<Rightarrow> mail_link orc 1 ResetMail PasswordReset provider (Some p) email None sv | (_, sv) \<Rightarrow> sv)
      (if email = address then 1 else 0)" for sv
  proof (cases "on_db (forgotten_principal provider email) sv")
    case (Pair r sv1)
    show ?thesis
      by (rule mailed_by_after[OF free_on_db[OF free_ops(3) Pair]])
        (simp add: Pair mail_link_mails mailed_by_none split: sum.split option.split split del: if_split del: One_nat_def)
  qed
  from admitted_mails[OF sound this[unfolded now_def Forgot_task task_time.simps]] show ?thesis
    by (simp add: now_def sv'_def Forgot_task)
next
  case (Register_task provider email secret onward)
  show ?thesis
  proof (cases "on_db (new_account_op orc 0 provider email secret) sv")
    case (Pair r sv1)
    note one = free_on_db[OF free_ops(2) Pair, of address now]
    show ?thesis
    proof (cases r)
      case (Inl e)
      then show ?thesis using one sound by (simp add: sv'_def Register_task Pair mails_to_def)
    next
      case (Inr created)
      let ?f = "\<lambda>sv. case created of
            Some p \<Rightarrow> mail_link orc 2 VerifyMail VerifyEmail provider (Some (pr_id p)) email (Some onward) sv
          | None \<Rightarrow> put_mail orc \<lparr>ml_kind = AlreadyRegistered, ml_address = email, ml_token = None\<rparr> sv"
      have rest: "mailed_by address (or_now orc 1) sv (?f sv) (if email = address then 1 else 0)" for sv
      proof (cases created)
        case None
        then show ?thesis by (simp add: mailed_by_def mails_to_def put_mail_def)
      next
        case (Some p)
        then show ?thesis by (simp add: mail_link_mails del: One_nat_def split del: if_split)
      qed
      have "sv' = (case mail_admitted orc 1 email sv1 of (False, sv) \<Rightarrow> sv | (True, sv) \<Rightarrow> ?f sv)"
        by (simp add: sv'_def Register_task Pair Inr)
      from admitted_mails[OF conjunct2[OF conjunct2[OF one], rule_format, OF sound] rest this] one show ?thesis
        by (simp add: now_def Register_task mails_to_def)
    qed
  qed
next
  case (First_password_task provider p email)
  have rest: "mailed_by address (or_now orc 0) s (mail_link orc 1 ResetMail PasswordReset provider (Some p) email None s) (if email = address then 1 else 0)" for s
    by (rule mail_link_mails)
  from admitted_mails[OF sound rest refl] show ?thesis
    by (simp add: now_def sv'_def First_password_task)
next
  case (Magic_task provider email onward)
  have rest: "mailed_by address (or_now orc 0) s (mail_link orc 1 MagicMail MagicLink provider None email onward s) (if email = address then 1 else 0)" for s
    by (rule mail_link_mails)
  from admitted_mails[OF sound rest refl] show ?thesis
    by (simp add: now_def sv'_def Magic_task)
next
  case (Verify_task provider p email onward)
  have rest: "mailed_by address (or_now orc 0) s (mail_link orc 1 VerifyMail VerifyEmail provider (Some p) email (Some onward) s) (if email = address then 1 else 0)" for s
    by (rule mail_link_mails)
  from admitted_mails[OF sound rest refl] show ?thesis
    by (simp add: now_def sv'_def Verify_task)
qed

definition run_tasks :: "(outside \<times> mail_task) list \<Rightarrow> server \<Rightarrow> server" where
  "run_tasks ts sv = foldl (\<lambda>sv (orc, t). run_task orc t sv) sv ts"

text \<open>C17. However many forms a stranger submits for one address (forgotten passwords, sign-in links, sign-ups,
  unconfirmed logins, first passwords), the tasks they spawn put at most a burst of three mails to that address in the
  outbox, and one more for every six minutes of the window in which they run.\<close>

theorem mails_within_budget:
  assumes "tables_sound (sv_db sv)"
    and "sorted (map (\<lambda>(orc, t). task_time orc t) ts)"
    and "\<forall>(orc, t) \<in> set ts. t0 \<le> task_time orc t \<and> task_time orc t \<le> t1" and "t0 \<le> t1"
  shows "int (mails_to address (run_tasks ts sv)) \<le> int (mails_to address sv) + mail_burst + (t1 - t0) div mail_interval_ms"
proof -
  have potential: "mail_interval_ms * (int (mails_to address (run_tasks ts sv)) - int (mails_to address sv))
      \<le> max 0 (t1 + mail_burst * mail_interval_ms - level address t0 (sv_db sv))"
    using assms
  proof (induction ts arbitrary: sv t0)
    case (Cons x ts)
    obtain orc t where x: "x = (orc, t)" by (cases x)
    let ?sv = "run_task orc t sv" and ?now = "task_time orc t"
    note step = run_task_mails[OF Cons.prems(1) refl refl, of orc t address]
    have late: "level address t0 (sv_db sv) \<le> level address ?now (sv_db sv)" "?now \<le> t1"
      using Cons.prems(3) level_mono by (auto simp: x)
    have ih: "mail_interval_ms * (int (mails_to address (run_tasks ts ?sv)) - int (mails_to address ?sv))
        \<le> max 0 (t1 + mail_burst * mail_interval_ms - level address ?now (sv_db ?sv))"
      using Cons.prems step by (intro Cons.IH) (auto simp: x)
    have run: "run_tasks (x # ts) sv = run_tasks ts ?sv" by (simp add: run_tasks_def x)
    have pos: "0 \<le> mail_interval_ms" by (simp add: mail_interval_ms_def)
    consider "mails_to address ?sv \<le> mails_to address sv"
      | "mails_to address ?sv \<le> mails_to address sv + 1"
        "level address ?now (sv_db ?sv) = level address ?now (sv_db sv) + mail_interval_ms"
        "level address ?now (sv_db ?sv) \<le> ?now + mail_burst * mail_interval_ms"
      using step by blast
    then show ?case
    proof cases
      case 1
      then have "mail_interval_ms * (int (mails_to address (run_tasks ts ?sv)) - int (mails_to address sv))
          \<le> mail_interval_ms * (int (mails_to address (run_tasks ts ?sv)) - int (mails_to address ?sv))"
        by (intro mult_left_mono pos) simp
      moreover have "level address ?now (sv_db sv) \<le> level address ?now (sv_db ?sv)" using step by blast
      ultimately show ?thesis using ih late unfolding run by linarith
    next
      case 2
      then have "mail_interval_ms * (int (mails_to address (run_tasks ts ?sv)) - int (mails_to address sv))
          \<le> mail_interval_ms * (int (mails_to address (run_tasks ts ?sv)) - int (mails_to address ?sv) + 1)"
        by (intro mult_left_mono pos) simp
      then show ?thesis using ih late 2 by (simp add: run algebra_simps)
    qed
  qed (simp add: run_tasks_def)
  have "t0 \<le> level address t0 (sv_db sv)" by (simp add: level_def split: option.split)
  then have "mail_interval_ms * (int (mails_to address (run_tasks ts sv)) - int (mails_to address sv))
      \<le> (t1 - t0) + mail_burst * mail_interval_ms"
    using potential assms(4) by (simp add: mail_burst_def mail_interval_ms_def)
  then show ?thesis by (simp add: mail_interval_ms_def mail_burst_def)
qed

definition stubborn :: "env \<Rightarrow> (outside \<times> mail_task) list" where
  "stubborn e = replicate 5 (demo_outside e ''x'' 0, Magic_task ''magic'' ''a@x.dev'' None) @
     [(demo_outside e ''y'' 360000, Magic_task ''magic'' ''a@x.dev'' None), (demo_outside e ''z'' 360000, Magic_task ''magic'' ''a@x.dev'' None)]"

theorem mails_within_budget_witness:
  "int (mails_to ''a@x.dev'' (run_tasks (stubborn demo_env) (demo_server demo_shutter))) \<le> 0 + mail_burst + (360000 - 0) div mail_interval_ms \<and>
   mails_to ''a@x.dev'' (run_tasks (stubborn demo_env) (demo_server demo_shutter)) = 4"
proof -
  have none: "mails_to ''a@x.dev'' (demo_server demo_shutter) = 0" by (simp add: mails_to_def demo_server_def)
  have "tables_sound (sv_db (demo_server sh))" for sh by code_simp
  moreover have "sorted (map (\<lambda>(orc, t). task_time orc t) (stubborn demo_env))"
    "\<forall>(orc, t) \<in> set (stubborn demo_env). 0 \<le> task_time orc t \<and> task_time orc t \<le> 360000"
    by (simp_all add: stubborn_def demo_outside_def numeral_eq_Suc)
  ultimately have "int (mails_to ''a@x.dev'' (run_tasks (stubborn demo_env) (demo_server demo_shutter)))
      \<le> int (mails_to ''a@x.dev'' (demo_server demo_shutter)) + mail_burst + (360000 - 0) div mail_interval_ms"
    by (intro mails_within_budget) simp_all
  moreover have "mails_to ''a@x.dev'' (run_tasks (stubborn e) (demo_server sh)) = 4" for e sh
    by code_simp
  ultimately show ?thesis by (simp add: none)
qed

section \<open>A lost proof\<close>

text \<open>The proof of an address is recorded by a write whose failure is only logged; the session is opened all the same.
  Here the fifth call of the database fails: the link is spent, nobody is recorded as proven, and the principal is in.\<close>

lemma lost_proof_signs_in:
  "let sv = serve_event demo_registry
       ((demo_server sh)\<lparr>sv_db := (sv_db (demo_server sh))\<lparr>db_faults := [None, None, None, None, Some ''disk full'']\<rparr>\<rparr>)
       (Request VerifyRoute (demo_outside e ''sess'' 2) (Some [(''_csrf'', ''c''), (''token'', ''link'')]) demo_request)
   in db_verified (sv_db sv) = [] \<and> map se_principal (db_sessions (sv_db sv)) = [''u_new'']"
  by code_simp

end
