(* ===== verification/Reserve.thy ===== *)
theory Reserve
  imports Strings
begin

text \<open>
  Claiming a bounded resource (\<open>src/forge/reserve.rs\<close>): the two tables, \<open>define\<close>, \<open>remaining\<close>, \<open>reserve\<close> and \<open>release\<close>.
  The statements run on an external SQL engine. A call to it fails when the list of faults of the state says
  so, a statement runs as a whole or is refused by a constraint of the schema, and a transaction holds the
  write lock from its beginning, so other requests run before or after it and a transaction not committed leaves
  nothing. The reads before the transaction take no lock: \<open>advance\<close> runs a request one access of the database at a
  time, and \<open>contend\<close> interleaves any number of requests, releases and definitions.
\<close>

section \<open>Tables\<close>

record resource_row =
  fr_key :: string
  fr_capacity :: int
  fr_remaining :: int

record reservation_row =
  fv_id :: int
  fv_resource :: string
  fv_holder :: string
  fv_quantity :: int
  fv_key :: "string option"

record reserve_db =
  fd_resources :: "resource_row list"
  fd_reservations :: "reservation_row list"
  fd_next :: int
  fd_faults :: "string option list"

record reserve_request =
  rr_resource :: string
  rr_holder :: string
  rr_quantity :: int
  rr_key :: "string option"

datatype reserve_outcome = Reserved int int | Replayed int int | Exhausted int

datatype release_outcome = Released int | Not_found

datatype reserve_error =
    Plane_failed string
  | Unknown_resource string
  | Invalid_quantity int
  | Idempotency_conflict string "string \<times> string \<times> int" "string \<times> string \<times> int"

type_synonym 'a reserve_op = "reserve_db \<Rightarrow> (reserve_error + 'a) \<times> reserve_db"

section \<open>Calls\<close>

definition reply :: "'a \<Rightarrow> 'a reserve_op" where
  "reply x db = (Inr x, db)"

definition deny :: "reserve_error \<Rightarrow> 'a reserve_op" where
  "deny e db = (Inl e, db)"

definition and_then :: "'a reserve_op \<Rightarrow> ('a \<Rightarrow> 'b reserve_op) \<Rightarrow> 'b reserve_op" where
  \<comment> \<open>the \<open>?\<close> operator\<close>
  "and_then m f db = (case m db of (Inl e, db') \<Rightarrow> (Inl e, db') | (Inr x, db') \<Rightarrow> f x db')"

definition attempt :: "'a reserve_op \<Rightarrow> (reserve_error + 'a) reserve_op" where
  "attempt m db = (case m db of (r, db') \<Rightarrow> (Inr r, db'))"

definition reach_plane :: "unit reserve_op" where
  "reach_plane db =
     (case fd_faults db of
        [] \<Rightarrow> (Inr (), db)
      | f # fs \<Rightarrow> ((case f of None \<Rightarrow> Inr () | Some why \<Rightarrow> Inl (Plane_failed why)), db\<lparr>fd_faults := fs\<rparr>))"

definition read_plane :: "(reserve_db \<Rightarrow> 'a) \<Rightarrow> 'a reserve_op" where
  "read_plane f = and_then reach_plane (\<lambda>_ db. (Inr (f db), db))"

definition write_plane :: "'a reserve_op \<Rightarrow> 'a reserve_op" where
  "write_plane f = and_then reach_plane (\<lambda>_. f)"

datatype 'a settlement = Kept 'a | Dropped 'a

definition untouched :: "reserve_db \<Rightarrow> reserve_db \<Rightarrow> reserve_db" where
  "untouched before after = before\<lparr>fd_faults := fd_faults after\<rparr>"

definition under_lock :: "'a settlement reserve_op \<Rightarrow> 'a reserve_op" where
  \<comment> \<open>\<open>begin\<close>, the body, then \<open>commit\<close> or \<open>rollback\<close>; an error inside drops the transaction\<close>
  "under_lock body = and_then reach_plane (\<lambda>_ db.
     (case body db of
        (Inl e, tx) \<Rightarrow> (Inl e, untouched db tx)
      | (Inr (Dropped x), tx) \<Rightarrow> and_then reach_plane (\<lambda>_. reply x) (untouched db tx)
      | (Inr (Kept x), tx) \<Rightarrow>
          (case reach_plane tx of
             (Inl e, tx') \<Rightarrow> (Inl e, untouched db tx')
           | (Inr _, tx') \<Rightarrow> (Inr x, tx'))))"

section \<open>Statements\<close>

definition find_prior :: "string \<Rightarrow> reservation_row option reserve_op" where
  "find_prior key = read_plane (\<lambda>db. find (\<lambda>v. fv_key v = Some key) (fd_reservations db))"

definition remaining_of :: "string \<Rightarrow> int option reserve_op" where
  "remaining_of resource = read_plane (\<lambda>db. map_option fr_remaining (find (\<lambda>r. fr_key r = resource) (fd_resources db)))"

definition within :: "resource_row \<Rightarrow> bool" where
  \<comment> \<open>\<open>CHECK (remaining >= 0 AND remaining <= capacity)\<close>\<close>
  "within r \<longleftrightarrow> 0 \<le> fr_remaining r \<and> fr_remaining r \<le> fr_capacity r"

definition covers :: "reserve_request \<Rightarrow> resource_row \<Rightarrow> bool" where
  \<comment> \<open>\<open>WHERE key = k AND remaining >= n\<close>\<close>
  "covers req r \<longleftrightarrow> fr_key r = rr_resource req \<and> fr_remaining r \<ge> rr_quantity req"

definition took :: "reserve_request \<Rightarrow> resource_row \<Rightarrow> resource_row" where
  "took req r = (if covers req r then r\<lparr>fr_remaining := fr_remaining r - rr_quantity req\<rparr> else r)"

definition take_supply :: "reserve_request \<Rightarrow> int option reserve_op" where
  \<comment> \<open>\<open>UPDATE .. SET remaining = remaining - n .. RETURNING remaining\<close>\<close>
  "take_supply req = write_plane (\<lambda>db.
     if list_all (\<lambda>r. covers req r \<longrightarrow> within (took req r)) (fd_resources db)
     then (Inr (map_option (\<lambda>r. fr_remaining (took req r)) (find (covers req) (fd_resources db))),
           db\<lparr>fd_resources := map (took req) (fd_resources db)\<rparr>)
     else (Inl (Plane_failed ''CHECK constraint failed''), db))"

definition row_of :: "reserve_request \<Rightarrow> int \<Rightarrow> reservation_row" where
  "row_of req i = \<lparr>fv_id = i, fv_resource = rr_resource req, fv_holder = rr_holder req,
     fv_quantity = rr_quantity req, fv_key = rr_key req\<rparr>"

definition insert_reservation :: "reserve_request \<Rightarrow> int reserve_op" where
  "insert_reservation req = write_plane (\<lambda>db.
     if \<not> 0 < rr_quantity req then (Inl (Plane_failed ''CHECK constraint failed''), db)
     else if rr_key req \<noteq> None \<and> (\<exists>v\<in>set (fd_reservations db). fv_key v = rr_key req)
     then (Inl (Plane_failed ''UNIQUE constraint failed''), db)
     else (Inr (fd_next db),
       db\<lparr>fd_reservations := fd_reservations db @ [row_of req (fd_next db)], fd_next := fd_next db + 1\<rparr>))"

definition delete_reservation :: "int \<Rightarrow> unit reserve_op" where
  "delete_reservation i = write_plane (\<lambda>db.
     (Inr (), db\<lparr>fd_reservations := filter (\<lambda>v. fv_id v \<noteq> i) (fd_reservations db)\<rparr>))"

definition topped :: "string \<Rightarrow> int \<Rightarrow> resource_row \<Rightarrow> resource_row" where
  "topped resource quantity r = (if fr_key r = resource then r\<lparr>fr_remaining := fr_remaining r + quantity\<rparr> else r)"

definition return_supply :: "string \<Rightarrow> int \<Rightarrow> unit reserve_op" where
  "return_supply resource quantity = write_plane (\<lambda>db.
     if list_all (\<lambda>r. fr_key r = resource \<longrightarrow> within (topped resource quantity r)) (fd_resources db)
     then (Inr (), db\<lparr>fd_resources := map (topped resource quantity) (fd_resources db)\<rparr>)
     else (Inl (Plane_failed ''CHECK constraint failed''), db))"

section \<open>Operations\<close>

definition define_resource :: "string \<Rightarrow> int \<Rightarrow> unit reserve_op" where
  "define_resource resource capacity =
     (if capacity < 0 then deny (Invalid_quantity capacity)
      else write_plane (\<lambda>db.
        if \<exists>r\<in>set (fd_resources db). fr_key r = resource then (Inr (), db)
        else (Inr (), db\<lparr>fd_resources := fd_resources db @
               [\<lparr>fr_key = resource, fr_capacity = capacity, fr_remaining = capacity\<rparr>]\<rparr>)))"

definition ensure_matches :: "reservation_row \<Rightarrow> reserve_request \<Rightarrow> string \<Rightarrow> unit reserve_op" where
  "ensure_matches prior req key =
     (let stored = (fv_resource prior, fv_holder prior, fv_quantity prior);
          requested = (rr_resource req, rr_holder req, rr_quantity req) in
      if stored \<noteq> requested then deny (Idempotency_conflict key stored requested) else reply ())"

definition replay :: "reserve_request \<Rightarrow> string \<Rightarrow> reservation_row \<Rightarrow> reserve_outcome reserve_op" where
  "replay req key prior =
     and_then (ensure_matches prior req key) (\<lambda>_.
     and_then (remaining_of (fv_resource prior)) (\<lambda>left.
       (case left of
          None \<Rightarrow> deny (Unknown_resource (fv_resource prior))
        | Some n \<Rightarrow> reply (Replayed (fv_id prior) n))))"

definition earlier :: "reserve_request \<Rightarrow> (string \<times> reservation_row) option reserve_op" where
  \<comment> \<open>the reservation that already answers this request's key\<close>
  "earlier req =
     (case rr_key req of
        None \<Rightarrow> reply None
      | Some key \<Rightarrow> and_then (find_prior key) (\<lambda>prior. reply (map_option (Pair key) prior)))"

definition covered :: "reserve_request \<Rightarrow> reserve_outcome option reserve_op" where
  \<comment> \<open>the second fast path: an answer, or none when the supply could cover the request\<close>
  "covered req =
     and_then (remaining_of (rr_resource req)) (\<lambda>left.
       (case left of
          None \<Rightarrow> deny (Unknown_resource (rr_resource req))
        | Some n \<Rightarrow> reply (if n < rr_quantity req then Some (Exhausted n) else None)))"

definition claim_locked :: "reserve_request \<Rightarrow> (reserve_error + reserve_outcome) settlement reserve_op" where
  "claim_locked req =
     and_then (earlier req) (\<lambda>prior.
       (case prior of
          Some (key, p) \<Rightarrow> and_then (attempt (replay req key p)) (\<lambda>r. reply (Dropped r))
        | None \<Rightarrow>
            and_then (take_supply req) (\<lambda>taken.
              (case taken of
                 None \<Rightarrow>
                   and_then (remaining_of (rr_resource req)) (\<lambda>left.
                     reply (Dropped (case left of
                       None \<Rightarrow> Inl (Unknown_resource (rr_resource req)) | Some n \<Rightarrow> Inr (Exhausted n))))
               | Some left \<Rightarrow>
                   and_then (insert_reservation req) (\<lambda>i. reply (Kept (Inr (Reserved i left))))))))"

definition claim :: "reserve_request \<Rightarrow> reserve_outcome reserve_op" where
  "claim req = and_then (under_lock (claim_locked req)) (\<lambda>r. case r of Inl e \<Rightarrow> deny e | Inr x \<Rightarrow> reply x)"

definition reserve :: "reserve_request \<Rightarrow> reserve_outcome reserve_op" where
  "reserve req =
     (if rr_quantity req \<le> 0 then deny (Invalid_quantity (rr_quantity req))
      else and_then (earlier req) (\<lambda>prior.
        (case prior of
           Some (key, p) \<Rightarrow> replay req key p
         | None \<Rightarrow>
             and_then (covered req) (\<lambda>said.
               (case said of Some x \<Rightarrow> reply x | None \<Rightarrow> claim req)))))"

definition release_locked :: "int \<Rightarrow> release_outcome settlement reserve_op" where
  "release_locked i =
     and_then (read_plane (\<lambda>db. find (\<lambda>v. fv_id v = i) (fd_reservations db))) (\<lambda>found.
       (case found of
          None \<Rightarrow> reply (Dropped Not_found)
        | Some v \<Rightarrow>
            and_then (delete_reservation i) (\<lambda>_.
            and_then (return_supply (fv_resource v) (fv_quantity v)) (\<lambda>_.
            and_then (remaining_of (fv_resource v)) (\<lambda>left.
              (case left of
                 None \<Rightarrow> deny (Unknown_resource (fv_resource v))
               | Some n \<Rightarrow> reply (Kept (Released n))))))))"

definition release :: "int \<Rightarrow> release_outcome reserve_op" where
  "release i = under_lock (release_locked i)"

section \<open>Requests that race\<close>

datatype progress = Asked | Found string reservation_row | Unseen | Covered | Said "reserve_error + reserve_outcome"

definition goes_on :: "'a reserve_op \<Rightarrow> ('a \<Rightarrow> progress) \<Rightarrow> reserve_db \<Rightarrow> progress \<times> reserve_db" where
  "goes_on m f db = (case m db of (Inl e, db') \<Rightarrow> (Said (Inl e), db') | (Inr x, db') \<Rightarrow> (f x, db'))"

fun advance :: "reserve_request \<Rightarrow> progress \<Rightarrow> reserve_db \<Rightarrow> progress \<times> reserve_db" where
  \<comment> \<open>one access of the database\<close>
  "advance req Asked db =
     (if rr_quantity req \<le> 0 then (Said (Inl (Invalid_quantity (rr_quantity req))), db)
      else goes_on (earlier req) (\<lambda>prior. case prior of None \<Rightarrow> Unseen | Some (key, p) \<Rightarrow> Found key p) db)"
| "advance req (Found key p) db = goes_on (replay req key p) (\<lambda>x. Said (Inr x)) db"
| "advance req Unseen db = goes_on (covered req) (\<lambda>said. case said of None \<Rightarrow> Covered | Some x \<Rightarrow> Said (Inr x)) db"
| "advance req Covered db = goes_on (claim req) (\<lambda>x. Said (Inr x)) db"
| "advance req (Said r) db = (Said r, db)"

datatype race_event = Ask reserve_request | Move nat | Give_back int | Define string int

record race_state =
  rc_clients :: "(reserve_request \<times> progress) list"
  rc_db :: reserve_db

fun contend :: "race_state \<Rightarrow> race_event \<Rightarrow> race_state" where
  "contend s (Ask req) = s\<lparr>rc_clients := rc_clients s @ [(req, Asked)]\<rparr>"
| "contend s (Move i) =
     (if i < length (rc_clients s)
      then (case rc_clients s ! i of (req, p) \<Rightarrow>
        case advance req p (rc_db s) of (p', db) \<Rightarrow> s\<lparr>rc_clients := (rc_clients s)[i := (req, p')], rc_db := db\<rparr>)
      else s)"
| "contend s (Give_back i) = s\<lparr>rc_db := snd (release i (rc_db s))\<rparr>"
| "contend s (Define resource capacity) = s\<lparr>rc_db := snd (define_resource resource capacity (rc_db s))\<rparr>"

definition contends :: "race_event list \<Rightarrow> race_state \<Rightarrow> race_state" where
  "contends es s = foldl contend s es"

section \<open>What an operation leaves\<close>

lemmas reserve_calls = reply_def deny_def and_then_def attempt_def reach_plane_def read_plane_def write_plane_def

named_theorems did \<open>when an operation succeeds, what it answers and leaves\<close>

definition same_tables :: "reserve_db \<Rightarrow> reserve_db \<Rightarrow> bool" where
  "same_tables db db' \<longleftrightarrow> db' = db\<lparr>fd_faults := fd_faults db'\<rparr>"

lemma same_refl [simp]: "same_tables db db" "same_tables db (db\<lparr>fd_faults := fs\<rparr>)" "same_tables db (untouched db tx)"
  by (simp_all add: same_tables_def untouched_def)

lemma same_trans [trans]: "same_tables a b \<Longrightarrow> same_tables b c \<Longrightarrow> same_tables a c"
  by (cases a; cases b; cases c) (simp add: same_tables_def)

lemma same_fields: "same_tables db db' \<Longrightarrow>
    fd_resources db' = fd_resources db \<and> fd_reservations db' = fd_reservations db \<and> fd_next db' = fd_next db"
  by (metis same_tables_def reserve_db.ext_inject reserve_db.surjective reserve_db.update_convs(4))

lemma reply_did [did]: "reply x db = (Inr y, db') \<longleftrightarrow> y = x \<and> db' = db"
  by (auto simp: reply_def)

lemma deny_did [did]: "deny e db = (Inr y, db') \<longleftrightarrow> False"
  by (simp add: deny_def)

lemma and_then_did [did]: "and_then m f db = (Inr y, db') \<longleftrightarrow> (\<exists>x db1. m db = (Inr x, db1) \<and> f x db1 = (Inr y, db'))"
  by (auto simp: and_then_def split: sum.splits prod.splits)

lemma attempt_did [did]: "attempt m db = (Inr r, db') \<longleftrightarrow> m db = (r, db')"
  by (auto simp: attempt_def split: prod.splits)

lemma reach_same: "reach_plane db = (r, db') \<Longrightarrow> same_tables db db'"
  by (auto simp: reach_plane_def split: list.splits)

lemma read_same: "read_plane f db = (r, db') \<Longrightarrow> same_tables db db' \<and> (\<forall>x. r = Inr x \<longrightarrow> x = f db')"
  by (auto simp: read_plane_def and_then_def split: sum.splits prod.splits dest: reach_same)

definition reads_only :: "'a reserve_op \<Rightarrow> bool" where
  "reads_only m \<longleftrightarrow> (\<forall>db. same_tables db (snd (m db)))"

lemma reads_onlyD: "reads_only m \<Longrightarrow> m db = (r, db') \<Longrightarrow> same_tables db db'"
  by (metis reads_only_def snd_conv)

lemma reads_reply [intro, simp]: "reads_only (reply x)" and reads_deny [intro, simp]: "reads_only (deny e)"
  by (auto simp: reads_only_def reply_def deny_def)

lemma reads_then [intro]: "reads_only m \<Longrightarrow> (\<And>x. reads_only (f x)) \<Longrightarrow> reads_only (and_then m f)"
  unfolding reads_only_def and_then_def
  by (auto split: prod.splits sum.splits) (metis same_trans snd_conv)+

lemma reads_attempt [intro]: "reads_only m \<Longrightarrow> reads_only (attempt m)"
  by (auto simp: reads_only_def attempt_def split: prod.splits) (metis snd_conv)

lemma reads_plane [intro, simp]: "reads_only (read_plane f)"
  unfolding reads_only_def by (metis read_same prod.collapse)

lemma reads_ops [intro, simp]:
  "reads_only (find_prior key)" "reads_only (remaining_of resource)" "reads_only (ensure_matches prior req key)"
  "reads_only (replay req key prior)" "reads_only (earlier req)" "reads_only (covered req)"
proof -
  show "reads_only (find_prior key)" "reads_only (remaining_of resource)" "reads_only (ensure_matches prior req key)"
    by (simp_all add: find_prior_def remaining_of_def ensure_matches_def Let_def)
  then show "reads_only (replay req key prior)"
    unfolding replay_def by (auto intro!: reads_then simp: remaining_of_def ensure_matches_def Let_def split: option.split)
  show "reads_only (earlier req)" "reads_only (covered req)"
    by (auto intro!: reads_then simp: earlier_def covered_def find_prior_def remaining_of_def split: option.split)
qed

lemma lock_cases:
  assumes "under_lock body db = (r, db')"
  shows "(\<exists>x tx db1. r = Inr x \<and> same_tables db db1 \<and> body db1 = (Inr (Kept x), tx) \<and> same_tables tx db') \<or>
    (\<exists>x tx db1. r = Inr x \<and> same_tables db db1 \<and> body db1 = (Inr (Dropped x), tx) \<and> same_tables db db') \<or>
    (\<exists>e. r = Inl e \<and> same_tables db db')"
proof -
  obtain r0 db0 where reach: "reach_plane db = (r0, db0)" by (cases "reach_plane db")
  then have start: "same_tables db db0" by (rule reach_same)
  show ?thesis
  proof (cases r0)
    case (Inl e)
    then show ?thesis using assms start by (auto simp: under_lock_def and_then_def reach)
  next
    case (Inr u)
    obtain r1 tx where body: "body db0 = (r1, tx)" by (cases "body db0")
    obtain r2 tx' where ended: "reach_plane tx = (r2, tx')" by (cases "reach_plane tx")
    obtain r3 db3 where rolled: "reach_plane (untouched db0 tx) = (r3, db3)" by (cases "reach_plane (untouched db0 tx)")
    have "same_tables db0 db3" using reach_same[OF rolled] by (meson same_refl(3) same_trans)
    with start have restored: "same_tables db db3" by (rule same_trans)
    have kept: "same_tables tx tx'" using ended by (rule reach_same)
    have undone: "same_tables db (untouched db0 t)" for t using start by (meson same_refl(3) same_trans)
    show ?thesis
    proof (cases r1)
      case (Inl e)
      then show ?thesis using assms Inr by (auto simp: under_lock_def and_then_def reach body undone)
    next
      case r1: (Inr z)
      show ?thesis
      proof (cases z)
        case (Kept x)
        then have b: "body db0 = (Inr (Kept x), tx)" using body r1 by simp
        show ?thesis
        proof (cases r2)
          case Inl
          then show ?thesis using assms Inr by (auto simp: under_lock_def and_then_def reach b ended undone)
        next
          case r2: (Inr _)
          then have "r = Inr x" "db' = tx'" using assms Inr by (simp_all add: under_lock_def and_then_def reach b ended)
          then show ?thesis using start b kept by blast
        qed
      next
        case (Dropped x)
        then have b: "body db0 = (Inr (Dropped x), tx)" using body r1 by simp
        then have "r = (case r3 of Inl e \<Rightarrow> Inl e | Inr _ \<Rightarrow> Inr x) \<and> db' = db3"
          using assms Inr by (auto simp: under_lock_def and_then_def reach rolled reply_def split: sum.splits)
        then show ?thesis using start b restored by (cases r3) auto
      qed
    qed
  qed
qed

definition granted :: "reserve_request \<Rightarrow> int \<Rightarrow> int \<Rightarrow> reserve_db \<Rightarrow> reserve_db \<Rightarrow> bool" where
  "granted req i n db db' \<longleftrightarrow>
     0 < rr_quantity req \<and> (\<forall>v\<in>set (fd_reservations db). rr_key req = None \<or> fv_key v \<noteq> rr_key req) \<and>
     i = fd_next db \<and> (\<exists>r. find (covers req) (fd_resources db) = Some r \<and> n = fr_remaining r - rr_quantity req) \<and>
     fd_resources db' = map (took req) (fd_resources db) \<and>
     fd_reservations db' = fd_reservations db @ [row_of req i] \<and> fd_next db' = i + 1"

definition given_back :: "int \<Rightarrow> reserve_db \<Rightarrow> reserve_db \<Rightarrow> bool" where
  "given_back i db db' \<longleftrightarrow>
     (\<exists>v. find (\<lambda>v. fv_id v = i) (fd_reservations db) = Some v \<and>
        fd_resources db' = map (topped (fv_resource v) (fv_quantity v)) (fd_resources db)) \<and>
     fd_reservations db' = filter (\<lambda>v. fv_id v \<noteq> i) (fd_reservations db) \<and> fd_next db' = fd_next db"

definition opened :: "string \<Rightarrow> int \<Rightarrow> reserve_db \<Rightarrow> reserve_db \<Rightarrow> bool" where
  "opened resource capacity db db' \<longleftrightarrow>
     0 \<le> capacity \<and> (\<forall>r\<in>set (fd_resources db). fr_key r \<noteq> resource) \<and>
     fd_resources db' = fd_resources db @ [\<lparr>fr_key = resource, fr_capacity = capacity, fr_remaining = capacity\<rparr>] \<and>
     fd_reservations db' = fd_reservations db \<and> fd_next db' = fd_next db"

lemma write_did: "write_plane f db = (Inr x, db') \<Longrightarrow> \<exists>db1. same_tables db db1 \<and> f db1 = (Inr x, db')"
  by (auto simp: write_plane_def and_then_def split: sum.splits prod.splits dest: reach_same)

lemma take_did: "take_supply req db = (Inr t, db') \<Longrightarrow>
    t = map_option (\<lambda>r. fr_remaining (took req r)) (find (covers req) (fd_resources db)) \<and>
    fd_resources db' = map (took req) (fd_resources db) \<and> fd_reservations db' = fd_reservations db \<and> fd_next db' = fd_next db"
  unfolding take_supply_def by (drule write_did) (auto dest!: same_fields split: if_split_asm)

lemma insert_did: "insert_reservation req db = (Inr i, db') \<Longrightarrow>
    0 < rr_quantity req \<and> (\<forall>v\<in>set (fd_reservations db). rr_key req = None \<or> fv_key v \<noteq> rr_key req) \<and> i = fd_next db \<and>
    fd_resources db' = fd_resources db \<and> fd_reservations db' = fd_reservations db @ [row_of req i] \<and> fd_next db' = i + 1"
  unfolding insert_reservation_def by (drule write_did) (auto dest!: same_fields split: if_split_asm)

lemma none_took: "find (covers req) rs = None \<Longrightarrow> map (took req) rs = rs"
  by (auto simp: find_None_iff took_def intro: map_idI)

lemma claim_locked_did:
  assumes "claim_locked req db = (Inr (Kept x), tx)"
  shows "\<exists>i n. x = Inr (Reserved i n) \<and> granted req i n db tx"
proof -
  obtain prior db1 where e: "earlier req db = (Inr prior, db1)"
    using assms by (auto simp: claim_locked_def did)
  have "prior = None" using assms e by (cases prior) (auto simp: claim_locked_def did)
  then obtain t db2 i where t: "take_supply req db1 = (Inr (Some t), db2)"
    and i: "insert_reservation req db2 = (Inr i, tx)" and x: "x = Inr (Reserved i t)"
    using assms e by (auto simp: claim_locked_def did split: option.splits)
  have s: "same_tables db db1" by (rule reads_onlyD[of "earlier req", OF _ e]) simp
  obtain r where r: "find (covers req) (fd_resources db) = Some r" "t = fr_remaining (took req r)"
    using take_did[OF t] same_fields[OF s] by (cases "find (covers req) (fd_resources db)") auto
  have "covers req r" using r(1) by (auto simp: find_Some_iff)
  then show ?thesis using take_did[OF t] insert_did[OF i] same_fields[OF s] r by (auto simp: x granted_def took_def)
qed

lemma replay_did:
  assumes "replay req key p db = (Inr x, db')"
  shows "(\<exists>n. x = Replayed (fv_id p) n \<and> map_option fr_remaining (find (\<lambda>r. fr_key r = fv_resource p) (fd_resources db)) = Some n) \<and>
    fv_resource p = rr_resource req \<and> fv_holder p = rr_holder req \<and> fv_quantity p = rr_quantity req"
proof -
  obtain left where left: "remaining_of (fv_resource p) db = (Inr left, db')"
    and m: "fv_resource p = rr_resource req \<and> fv_holder p = rr_holder req \<and> fv_quantity p = rr_quantity req"
    and x: "\<exists>n. left = Some n \<and> x = Replayed (fv_id p) n"
    using assms by (auto simp: replay_def did ensure_matches_def Let_def split: if_split_asm option.split_asm)
  have "left = map_option fr_remaining (find (\<lambda>r. fr_key r = fv_resource p) (fd_resources db))"
    using read_same[OF left[unfolded remaining_of_def]] same_fields by (metis (no_types, lifting))
  then show ?thesis using m x by auto
qed

lemma claim_locked_dropped: "claim_locked req db = (Inr (Dropped x), tx) \<Longrightarrow> \<nexists>i n. x = Inr (Reserved i n)"
  by (auto simp: claim_locked_def did split: option.splits dest!: replay_did)

lemma claim_effect:
  assumes "claim req db = (r, db')"
  shows "(\<exists>i n. r = Inr (Reserved i n) \<and> granted req i n db db') \<or> (\<nexists>i n. r = Inr (Reserved i n)) \<and> same_tables db db'"
proof -
  obtain q db1 where lock: "under_lock (claim_locked req) db = (q, db1)" by (cases "under_lock (claim_locked req) db")
  have last: "db' = db1" "r = (case q of Inl e \<Rightarrow> Inl e | Inr s \<Rightarrow> s)"
    using assms by (auto simp: claim_def and_then_def lock deny_def reply_def split: sum.splits)
  from lock_cases[OF lock] show ?thesis
  proof (elim disjE exE conjE)
    fix x tx db0
    assume q: "q = Inr x" and s: "same_tables db db0" and kept: "claim_locked req db0 = (Inr (Kept x), tx)" and l: "same_tables tx db1"
    from claim_locked_did[OF kept] obtain i n where x: "x = Inr (Reserved i n)" and g: "granted req i n db0 tx" by blast
    have "granted req i n db db'"
      using g same_fields[OF s] same_fields[OF l] by (simp add: granted_def last(1))
    then show ?thesis by (simp add: last(2) q x)
  next
    fix x tx db0
    assume q: "q = Inr x" and dropped: "claim_locked req db0 = (Inr (Dropped x), tx)" and l: "same_tables db db1"
    from claim_locked_dropped[OF dropped] l show ?thesis by (simp add: last q)
  next
    fix e
    assume "q = Inl e" "same_tables db db1"
    then show ?thesis by (simp add: last)
  qed
qed

lemma release_effect:
  assumes "release i db = (r, db')"
  shows "(\<exists>n. r = Inr (Released n)) \<and> given_back i db db' \<or> (\<nexists>n. r = Inr (Released n)) \<and> same_tables db db'"
proof -
  have kept: "(\<exists>n. x = Released n) \<and> given_back i d tx" if run: "release_locked i d = (Inr (Kept x), tx)" for x d tx
  proof -
    obtain v d1 where v: "read_plane (\<lambda>db. find (\<lambda>v. fv_id v = i) (fd_reservations db)) d = (Inr (Some v), d1)"
      using run by (auto simp: release_locked_def did split: option.splits)
    obtain d2 d3 left where del: "delete_reservation i d1 = (Inr (), d2)"
      and ret: "return_supply (fv_resource v) (fv_quantity v) d2 = (Inr (), d3)"
      and left: "remaining_of (fv_resource v) d3 = (Inr left, tx)" and x: "\<exists>n. x = Released n"
      using run v by (auto simp: release_locked_def did split: option.splits)
    have "fd_resources d2 = fd_resources d1 \<and> fd_reservations d2 = filter (\<lambda>v. fv_id v \<noteq> i) (fd_reservations d1) \<and> fd_next d2 = fd_next d1"
      using del unfolding delete_reservation_def by (auto dest!: write_did same_fields)
    moreover have "fd_resources d3 = map (topped (fv_resource v) (fv_quantity v)) (fd_resources d2) \<and>
        fd_reservations d3 = fd_reservations d2 \<and> fd_next d3 = fd_next d2"
      using ret unfolding return_supply_def by (auto dest!: write_did same_fields split: if_split_asm)
    moreover have "same_tables d d1" "find (\<lambda>v. fv_id v = i) (fd_reservations d1) = Some v"
      using read_same[OF v] by auto
    moreover have "same_tables d3 tx" using reads_onlyD[of "remaining_of (fv_resource v)", OF _ left] by simp
    ultimately show ?thesis using x by (auto simp: given_back_def dest!: same_fields)
  qed
  have dropped: "x = Not_found" if "release_locked i d = (Inr (Dropped x), tx)" for x d tx
    using that by (auto simp: release_locked_def did split: option.splits)
  from lock_cases[OF assms[unfolded release_def]] show ?thesis
  proof (elim disjE exE conjE)
    fix x tx d
    assume "r = Inr x" "same_tables db d" "release_locked i d = (Inr (Kept x), tx)" "same_tables tx db'"
    then show ?thesis using kept by (fastforce simp: given_back_def dest!: same_fields)
  next
    fix x tx d
    assume "r = Inr x" "release_locked i d = (Inr (Dropped x), tx)" "same_tables db db'"
    then show ?thesis using dropped by auto
  qed auto
qed

lemma define_effect:
  assumes "define_resource resource capacity db = (r, db')"
  shows "opened resource capacity db db' \<or> same_tables db db'"
proof (cases "capacity < 0")
  case True
  then show ?thesis using assms by (auto simp: define_resource_def deny_def)
next
  case False
  obtain u db1 where reach: "reach_plane db = (u, db1)" by (cases "reach_plane db")
  have s: "same_tables db db1" by (rule reach_same[OF reach])
  show ?thesis
  proof (cases "u = Inr () \<and> (\<forall>r\<in>set (fd_resources db1). fr_key r \<noteq> resource)")
    case True
    then have "db' = db1\<lparr>fd_resources := fd_resources db1 @
        [\<lparr>fr_key = resource, fr_capacity = capacity, fr_remaining = capacity\<rparr>]\<rparr>"
      using assms \<open>\<not> capacity < 0\<close> by (simp add: define_resource_def write_plane_def and_then_def reach split: if_split_asm)
    then show ?thesis using True \<open>\<not> capacity < 0\<close> same_fields[OF s] by (simp add: opened_def)
  next
    case no: False
    then have "db' = db1"
      using assms False by (cases u) (auto simp: define_resource_def write_plane_def and_then_def reach split: if_split_asm)
    then show ?thesis using s by simp
  qed
qed

lemma remaining_did: "remaining_of k db = (Inr x, db') \<Longrightarrow>
    x = map_option fr_remaining (find (\<lambda>r. fr_key r = k) (fd_resources db'))"
  unfolding remaining_of_def by (drule read_same) simp

lemma prior_did: "find_prior k db = (Inr x, db') \<Longrightarrow> x = find (\<lambda>v. fv_key v = Some k) (fd_reservations db')"
  unfolding find_prior_def by (drule read_same) simp

lemma earlier_did: "earlier req db = (Inr (Some (key, p)), db') \<Longrightarrow>
    rr_key req = Some key \<and> find (\<lambda>v. fv_key v = Some key) (fd_reservations db') = Some p"
  by (cases "rr_key req") (auto simp: earlier_def did eq_commute[of "Some (key, p)"] dest: prior_did)

lemma covered_did:
  assumes "covered req db = (Inr x, db')"
  shows "\<exists>n. map_option fr_remaining (find (\<lambda>r. fr_key r = rr_resource req) (fd_resources db')) = Some n \<and>
    x = (if n < rr_quantity req then Some (Exhausted n) else None)"
proof -
  obtain left db1 where left: "remaining_of (rr_resource req) db = (Inr left, db1)"
    using assms by (auto simp: covered_def did)
  then obtain n where "left = Some n" "db' = db1" "x = (if n < rr_quantity req then Some (Exhausted n) else None)"
    using assms by (cases left) (auto simp: covered_def and_then_def deny_def reply_def)
  then show ?thesis using remaining_did[OF left] by (intro exI[of _ n]) simp
qed

lemma reserve_effect:
  assumes "reserve req db = (r, db')"
  shows "(\<exists>i n. r = Inr (Reserved i n) \<and> granted req i n db db') \<or> (\<nexists>i n. r = Inr (Reserved i n)) \<and> same_tables db db'"
proof (cases "rr_quantity req \<le> 0")
  case True
  then show ?thesis using assms by (auto simp: reserve_def deny_def)
next
  case pos: False
  obtain prior db1 where e: "earlier req db = (prior, db1)" by (cases "earlier req db")
  have s: "same_tables db db1" by (rule reads_onlyD[of "earlier req", OF _ e]) simp
  show ?thesis
  proof (cases prior)
    case (Inl x)
    then show ?thesis using assms pos e s by (auto simp: reserve_def and_then_def)
  next
    case prior: (Inr found)
    show ?thesis
    proof (cases found)
      case (Some kp)
      obtain key p where kp: "kp = (key, p)" by (cases kp)
      have again: "replay req key p db1 = (r, db')" using assms pos e prior Some kp by (simp add: reserve_def and_then_def)
      have "same_tables db1 db'" by (rule reads_onlyD[of "replay req key p", OF _ again]) simp
      then show ?thesis using s replay_did[of req key p db1] again same_trans by (cases r) blast+
    next
      case None
      obtain said db2 where c: "covered req db1 = (said, db2)" by (cases "covered req db1")
      have s2: "same_tables db db2" using s reads_onlyD[of "covered req", OF _ c] same_trans by auto
      show ?thesis
      proof (cases "said = Inr None")
        case True
        then have "claim req db2 = (r, db')" using assms pos e prior None c by (simp add: reserve_def and_then_def)
        from claim_effect[OF this] show ?thesis
          using s2 same_fields[OF s2] by (auto simp: granted_def intro: same_trans)
      next
        case False
        then have "db' = db2 \<and> (\<nexists>i n. r = Inr (Reserved i n))"
          using assms pos e prior None c covered_did[of req db1]
          by (cases said) (auto simp: reserve_def and_then_def reply_def split: option.splits if_split_asm)
        then show ?thesis using s2 by simp
      qed
    qed
  qed
qed

section \<open>The books balance\<close>

definition claimed :: "string \<Rightarrow> reservation_row list \<Rightarrow> int" where
  "claimed k vs = sum_list (map fv_quantity (filter (\<lambda>v. fv_resource v = k) vs))"

definition one_per_key :: "reservation_row set \<Rightarrow> bool" where
  "one_per_key V \<longleftrightarrow> (\<forall>v\<in>V. \<forall>w\<in>V. \<forall>k. fv_key v = Some k \<longrightarrow> fv_key w = Some k \<longrightarrow> v = w)"

lemma one_per_key_sub: "one_per_key V \<Longrightarrow> W \<subseteq> V \<Longrightarrow> one_per_key W"
  by (auto simp: one_per_key_def)

lemma one_per_key_insert: "one_per_key V \<Longrightarrow> \<forall>v\<in>V. fv_key w = None \<or> fv_key v \<noteq> fv_key w \<Longrightarrow> one_per_key (insert w V)"
  unfolding one_per_key_def by (metis insert_iff option.distinct(1))

definition reserve_sound :: "reserve_db \<Rightarrow> bool" where
  "reserve_sound db \<longleftrightarrow>
     distinct (map fr_key (fd_resources db)) \<and> distinct (map fv_id (fd_reservations db)) \<and>
     (\<forall>v\<in>set (fd_reservations db). fv_id v < fd_next db \<and> 0 < fv_quantity v \<and> fv_resource v \<in> fr_key ` set (fd_resources db)) \<and>
     one_per_key (set (fd_reservations db)) \<and>
     (\<forall>r\<in>set (fd_resources db). 0 \<le> fr_remaining r \<and>
        fr_remaining r + claimed (fr_key r) (fd_reservations db) = fr_capacity r)"

lemma claimed_append [simp]: "claimed k (vs @ ws) = claimed k vs + claimed k ws"
  by (simp add: claimed_def)

lemma claimed_simps [simp]: "claimed k [] = 0"
    "claimed k (v # vs) = (if fv_resource v = k then fv_quantity v else 0) + claimed k vs"
  by (simp_all add: claimed_def)

lemma claimed_drop:
  "distinct (map fv_id vs) \<Longrightarrow> v \<in> set vs \<Longrightarrow>
     claimed k (filter (\<lambda>w. fv_id w \<noteq> fv_id v) vs) = claimed k vs - (if fv_resource v = k then fv_quantity v else 0)"
proof (induction vs)
  case (Cons w vs)
  show ?case
  proof (cases "w = v")
    case True
    then have "filter (\<lambda>w. fv_id w \<noteq> fv_id v) vs = vs"
      using Cons.prems by (auto simp: filter_id_conv) (metis imageI)
    then show ?thesis using True by simp
  next
    case False
    then have "fv_id w \<noteq> fv_id v" "v \<in> set vs" using Cons.prems by auto
    then show ?thesis using Cons by simp
  qed
qed simp

lemma took_fields [simp]: "fr_key (took req r) = fr_key r" "fr_capacity (took req r) = fr_capacity r"
    "fr_remaining (took req r) = fr_remaining r - (if covers req r then rr_quantity req else 0)"
  by (simp_all add: took_def)

lemma topped_fields [simp]: "fr_key (topped k q r) = fr_key r" "fr_capacity (topped k q r) = fr_capacity r"
    "fr_remaining (topped k q r) = fr_remaining r + (if fr_key r = k then q else 0)"
  by (simp_all add: topped_def)

lemma row_of_fields [simp]: "fv_id (row_of req i) = i" "fv_resource (row_of req i) = rr_resource req"
    "fv_holder (row_of req i) = rr_holder req" "fv_quantity (row_of req i) = rr_quantity req" "fv_key (row_of req i) = rr_key req"
  by (simp_all add: row_of_def)

locale reserve_law =
  fixes P :: "reserve_db \<Rightarrow> bool"
  assumes same: "P db \<Longrightarrow> same_tables db db' \<Longrightarrow> P db'"
    and granted: "P db \<Longrightarrow> granted req i n db db' \<Longrightarrow> P db'"
    and given_back: "P db \<Longrightarrow> given_back i db db' \<Longrightarrow> P db'"
    and opened: "P db \<Longrightarrow> opened resource capacity db db' \<Longrightarrow> P db'"
begin

lemma reserve_keeps: "P db \<Longrightarrow> P (snd (reserve req db))"
  using reserve_effect[of req db] same granted by (metis prod.collapse)

lemma claim_keeps: "P db \<Longrightarrow> P (snd (claim req db))"
  using claim_effect[of req db] same granted by (metis prod.collapse)

lemma release_keeps: "P db \<Longrightarrow> P (snd (release i db))"
  using release_effect[of i db] same given_back by (metis prod.collapse)

lemma define_keeps: "P db \<Longrightarrow> P (snd (define_resource resource capacity db))"
  using define_effect[of resource capacity db] same opened by (metis prod.collapse)

lemma advance_keeps: "P db \<Longrightarrow> P (snd (advance req p db))"
proof (cases p)
  case Asked
  moreover assume "P db"
  moreover have "same_tables db (snd (earlier req db))" using reads_ops(5) by (simp add: reads_only_def)
  ultimately show ?thesis using same by (auto simp: goes_on_def split: prod.splits sum.splits)
next
  case (Found key v)
  moreover assume "P db"
  moreover have "same_tables db (snd (replay req key v db))" using reads_ops(4) by (simp add: reads_only_def)
  ultimately show ?thesis using same by (auto simp: goes_on_def split: prod.splits sum.splits)
next
  case Unseen
  moreover assume "P db"
  moreover have "same_tables db (snd (covered req db))" using reads_ops(6) by (simp add: reads_only_def)
  ultimately show ?thesis using same by (auto simp: goes_on_def split: prod.splits sum.splits)
next
  case Covered
  then show "P db \<Longrightarrow> ?thesis" using claim_keeps[of db req] by (auto simp: goes_on_def split: prod.splits sum.splits)
qed simp

lemma contend_keeps: "P (rc_db s) \<Longrightarrow> P (rc_db (contend s e))"
proof (cases e)
  case (Move j)
  assume "P (rc_db s)"
  with Move show ?thesis using advance_keeps[of "rc_db s" "fst (rc_clients s ! j)" "snd (rc_clients s ! j)"]
    by (auto split: prod.splits)
qed (simp_all add: release_keeps define_keeps)

lemma contends_keeps: "P (rc_db s) \<Longrightarrow> P (rc_db (contends es s))"
  unfolding contends_def by (induction es arbitrary: s) (simp_all add: contend_keeps)

end

lemma sound_granted:
  assumes s: "reserve_sound db" and g: "granted req i n db db'"
  shows "reserve_sound db'"
proof -
  from g obtain r where r: "find (covers req) (fd_resources db) = Some r" by (auto simp: granted_def)
  then have in_r: "r \<in> set (fd_resources db)" and c: "covers req r" by (auto simp: find_Some_iff)
  have "inj_on fr_key (set (fd_resources db))" using s by (simp add: reserve_sound_def distinct_map)
  then have one: "covers req x \<longleftrightarrow> fr_key x = rr_resource req" if "x \<in> set (fd_resources db)" for x
    using that in_r c unfolding covers_def by (metis inj_onD)
  have "0 \<le> fr_remaining (took req x) \<and>
      fr_remaining (took req x) + claimed (fr_key x) (fd_reservations db @ [row_of req i]) = fr_capacity x"
    if x: "x \<in> set (fd_resources db)" for x
  proof -
    have "0 \<le> fr_remaining x" "fr_remaining x + claimed (fr_key x) (fd_reservations db) = fr_capacity x"
      using s x by (auto simp: reserve_sound_def)
    then show ?thesis using one[OF x] by (auto simp: covers_def)
  qed
  moreover have "rr_resource req \<in> fr_key ` set (fd_resources db)" using in_r c by (auto simp: covers_def intro: rev_image_eqI)
  moreover have "fr_key ` took req ` set (fd_resources db) = fr_key ` set (fd_resources db)" by (simp add: image_image)
  moreover have "map fr_key (map (took req) (fd_resources db)) = map fr_key (fd_resources db)" by simp
  ultimately show ?thesis using s g unfolding reserve_sound_def granted_def by (auto simp: comp_def intro!: one_per_key_insert)
qed

lemma sound_given_back:
  assumes s: "reserve_sound db" and g: "given_back i db db'"
  shows "reserve_sound db'"
proof -
  from g obtain v where v: "find (\<lambda>v. fv_id v = i) (fd_reservations db) = Some v"
    and rs: "fd_resources db' = map (topped (fv_resource v) (fv_quantity v)) (fd_resources db)"
    and vs: "fd_reservations db' = filter (\<lambda>v. fv_id v \<noteq> i) (fd_reservations db)" and nx: "fd_next db' = fd_next db"
    by (auto simp: given_back_def)
  from v have i: "v \<in> set (fd_reservations db)" "fv_id v = i" by (auto simp: find_Some_iff)
  have d: "distinct (map fv_id (fd_reservations db))" using s by (simp add: reserve_sound_def)
  have left: "claimed k (fd_reservations db') = claimed k (fd_reservations db) - (if fv_resource v = k then fv_quantity v else 0)" for k
    using claimed_drop[OF d i(1)] i(2) by (simp add: vs)
  have pos: "0 < fv_quantity v" using s i(1) by (simp add: reserve_sound_def)
  have "fr_key ` topped a b ` X = fr_key ` X" for a b X by (simp add: image_image)
  then show ?thesis using s pos unfolding reserve_sound_def left unfolding rs vs nx
    by (auto simp: comp_def distinct_map_filter intro: one_per_key_sub)
qed

lemma unclaimed: "k \<notin> fr_key ` set (fd_resources db) \<Longrightarrow> reserve_sound db \<Longrightarrow> claimed k (fd_reservations db) = 0"
  unfolding claimed_def reserve_sound_def by (subst filter_False) auto

lemma sound_opened: "reserve_sound db \<Longrightarrow> opened resource capacity db db' \<Longrightarrow> reserve_sound db'"
  using unclaimed[of resource db] by (auto simp: opened_def reserve_sound_def)

lemma sound_same: "reserve_sound db \<Longrightarrow> same_tables db db' \<Longrightarrow> reserve_sound db'"
  unfolding reserve_sound_def by (drule same_fields) simp

interpretation books: reserve_law reserve_sound
  by unfold_locales (fact sound_same sound_granted sound_given_back sound_opened)+

interpretation size_kept: reserve_law "\<lambda>db. \<exists>r\<in>set (fd_resources db). fr_key r = k \<and> fr_capacity r = c" for k c
  by unfold_locales (auto simp: granted_def given_back_def opened_def dest!: same_fields)

section \<open>Racing requests\<close>

definition won :: "progress \<Rightarrow> int option" where
  "won p = (case p of Said (Inr (Reserved i n)) \<Rightarrow> Some i | _ \<Rightarrow> None)"

definition wins :: "(reserve_request \<times> progress) list \<Rightarrow> (reserve_request \<times> int) list" where
  "wins cs = List.map_filter (\<lambda>(req, p). map_option (Pair req) (won p)) cs"

lemma wins_simps [simp]: "wins [] = []" "wins ((req, p) # cs) = (case won p of None \<Rightarrow> wins cs | Some i \<Rightarrow> (req, i) # wins cs)"
    "wins (cs @ ds) = wins cs @ wins ds"
  by (auto simp: wins_def map_filter_simps map_filter_def split: option.splits)

lemma won_simps [simp]: "won Asked = None" "won (Found key v) = None" "won Unseen = None" "won Covered = None"
    "won (Said (Inl e)) = None" "won (Said (Inr (Reserved i n))) = Some i" "won (Said (Inr (Replayed i n))) = None"
    "won (Said (Inr (Exhausted n))) = None"
  by (simp_all add: won_def)

lemma advance_effect:
  assumes "advance req p db = (p', db')"
  shows "won p' = won p \<and> same_tables db db' \<or>
    won p = None \<and> (\<exists>i n. p' = Said (Inr (Reserved i n)) \<and> granted req i n db db')"
proof (cases p)
  case Asked
  have "same_tables db (snd (earlier req db))" using reads_ops(5) by (simp add: reads_only_def)
  then show ?thesis using assms Asked by (auto simp: goes_on_def split: if_split_asm prod.splits sum.splits option.splits)
next
  case (Found key v)
  have "same_tables db (snd (replay req key v db))" using reads_ops(4) by (simp add: reads_only_def)
  then show ?thesis using assms Found
    by (auto simp: goes_on_def split: prod.splits sum.splits dest!: replay_did)
next
  case Unseen
  have "same_tables db (snd (covered req db))" using reads_ops(6) by (simp add: reads_only_def)
  then show ?thesis using assms Unseen
    by (auto simp: goes_on_def split: prod.splits sum.splits option.splits if_split_asm dest!: covered_did)
next
  case Covered
  obtain r d where c: "claim req db = (r, d)" by (cases "claim req db")
  then have p': "p' = Said r" "db' = d" using assms Covered by (auto simp: goes_on_def split: sum.splits)
  show ?thesis using claim_effect[OF c] Covered unfolding p'
    by (cases r) (auto simp: won_def split: reserve_outcome.splits)
next
  case (Said r)
  then show ?thesis using assms by simp
qed

lemma wins_moved:
  assumes j: "j < length cs" and at: "cs ! j = (req, p)"
  shows "won p' = won p \<Longrightarrow> wins (cs[j := (req, p')]) = wins cs"
    and "won p = None \<Longrightarrow> won p' = Some i \<Longrightarrow>
      \<exists>xs ys. wins cs = xs @ ys \<and> wins (cs[j := (req, p')]) = xs @ (req, i) # ys"
proof -
  have cs: "cs = take j cs @ (req, p) # drop (Suc j) cs" using j at by (metis id_take_nth_drop)
  have upd: "cs[j := (req, p')] = take j cs @ (req, p') # drop (Suc j) cs" using j by (simp add: upd_conv_take_nth_drop)
  have old: "wins cs = wins (take j cs) @ wins ((req, p) # drop (Suc j) cs)" using cs by (metis wins_simps(3))
  show "won p' = won p \<Longrightarrow> wins (cs[j := (req, p')]) = wins cs" by (simp add: upd old)
  show "won p = None \<Longrightarrow> won p' = Some i \<Longrightarrow>
      \<exists>xs ys. wins cs = xs @ ys \<and> wins (cs[j := (req, p')]) = xs @ (req, i) # ys"
    by (intro exI[of _ "wins (take j cs)"] exI[of _ "wins (drop (Suc j) cs)"]) (simp add: upd old)
qed

definition tracked :: "int set \<Rightarrow> race_state \<Rightarrow> bool" where
  "tracked gone s \<longleftrightarrow> reserve_sound (rc_db s) \<and> distinct (map snd (wins (rc_clients s))) \<and>
     (\<forall>(req, i)\<in>set (wins (rc_clients s)). i < fd_next (rc_db s) \<and>
        (i \<in> gone \<or> row_of req i \<in> set (fd_reservations (rc_db s))))"

lemma tracked_step:
  assumes t: "tracked gone s" and g: "\<And>i. e = Give_back i \<Longrightarrow> i \<in> gone"
  shows "tracked gone (contend s e)"
proof (cases e)
  case (Ask req)
  then show ?thesis using t by (simp add: tracked_def)
next
  case (Move j)
  show ?thesis
  proof (cases "j < length (rc_clients s)")
    case True
    obtain req p where at: "rc_clients s ! j = (req, p)" by (cases "rc_clients s ! j")
    obtain p' db where adv: "advance req p (rc_db s) = (p', db)" by (cases "advance req p (rc_db s)")
    have s': "contend s e = s\<lparr>rc_clients := (rc_clients s)[j := (req, p')], rc_db := db\<rparr>"
      using True by (simp add: Move at adv)
    from advance_effect[OF adv] show ?thesis
    proof (elim disjE conjE exE)
      assume w: "won p' = won p" and same: "same_tables (rc_db s) db"
      show ?thesis using t same_fields[OF same] sound_same[OF _ same]
        by (simp add: tracked_def s' wins_moved(1)[OF True at w])
    next
      fix i n
      assume w: "won p = None" and p': "p' = Said (Inr (Reserved i n))" and gr: "granted req i n (rc_db s) db"
      from wins_moved(2)[OF True at w, of p' i] p' obtain xs ys
        where old: "wins (rc_clients s) = xs @ ys" and new: "wins ((rc_clients s)[j := (req, p')]) = xs @ (req, i) # ys" by auto
      have sound: "reserve_sound db" using t gr sound_granted by (auto simp: tracked_def)
      have held: "k < fd_next (rc_db s) \<and> (k \<in> gone \<or> row_of r k \<in> set (fd_reservations (rc_db s)))"
        if "(r, k) \<in> set xs \<union> set ys" for r k
        using t that by (auto simp: tracked_def old)
      have apart: "distinct (map snd xs @ map snd ys)" using t by (simp add: tracked_def old)
      have fresh: "i = fd_next (rc_db s)" "fd_next db = i + 1"
        "fd_reservations db = fd_reservations (rc_db s) @ [row_of req i]" using gr by (simp_all add: granted_def)
      have "i \<notin> snd ` (set xs \<union> set ys)" using held fresh(1) by force
      moreover have "r = req \<and> k = i \<or> k < i + 1 \<and> (k \<in> gone \<or> row_of r k \<in> set (fd_reservations db))"
        if "(r, k) \<in> set (xs @ (req, i) # ys)" for r k
        using that held[of r k] fresh by auto
      ultimately show ?thesis using sound apart fresh unfolding tracked_def s'
        by (auto simp: new image_Un)
    qed
  next
    case False
    then show ?thesis using t by (simp add: Move)
  qed
next
  case (Give_back i)
  obtain r db where rel: "release i (rc_db s) = (r, db)" by (cases "release i (rc_db s)")
  have s': "contend s e = s\<lparr>rc_db := db\<rparr>" by (simp add: Give_back rel)
  from release_effect[OF rel] show ?thesis
  proof (elim disjE conjE)
    assume "given_back i (rc_db s) db"
    then show ?thesis using t g[OF Give_back] sound_given_back[of "rc_db s" i db]
      by (auto simp: tracked_def s' given_back_def)
  next
    assume same: "same_tables (rc_db s) db"
    then show ?thesis using t sound_same[OF _ same] same_fields[OF same] by (simp add: tracked_def s')
  qed
next
  case (Define k c)
  obtain r db where run: "define_resource k c (rc_db s) = (r, db)" by (cases "define_resource k c (rc_db s)")
  have s': "contend s e = s\<lparr>rc_db := db\<rparr>" by (simp add: Define run)
  from define_effect[OF run] show ?thesis
  proof
    assume "opened k c (rc_db s) db"
    then show ?thesis using t sound_opened[of "rc_db s" k c db] by (auto simp: tracked_def s' opened_def)
  next
    assume same: "same_tables (rc_db s) db"
    then show ?thesis using t sound_same[OF _ same] same_fields[OF same] by (simp add: tracked_def s')
  qed
qed

lemma tracked_run:
  "tracked gone s \<Longrightarrow> {i. Give_back i \<in> set es} \<subseteq> gone \<Longrightarrow> tracked gone (contends es s)"
  unfolding contends_def
proof (induction es arbitrary: s)
  case (Cons e es)
  have "tracked gone (contend s e)" using Cons.prems by (intro tracked_step) auto
  then show ?case using Cons.IH[of "contend s e"] Cons.prems(2) by auto
qed simp

lemma won_rows:
  assumes "distinct (map snd ws)" and "\<forall>(req, i)\<in>set ws. row_of req i \<in> V" and "finite V" and "\<forall>v\<in>V. 0 \<le> fv_quantity v"
  shows "(\<Sum>(req, i)\<leftarrow>ws. rr_quantity req) \<le> (\<Sum>v\<in>V. fv_quantity v)"
  using assms
proof (induction ws arbitrary: V)
  case Nil
  then show ?case by (simp add: sum_nonneg)
next
  case (Cons w ws)
  obtain req i where w: "w = (req, i)" by (cases w)
  let ?v = "row_of req i"
  have v: "?v \<in> V" using Cons.prems(2) by (simp add: w)
  have "row_of r k \<in> V - {?v}" if "(r, k) \<in> set ws" for r k
  proof -
    have "k \<noteq> i" using Cons.prems(1) that by (force simp: w)
    then show ?thesis using Cons.prems(2) that by (auto simp: row_of_def)
  qed
  then have "(\<Sum>(req, i)\<leftarrow>ws. rr_quantity req) \<le> (\<Sum>v\<in>V - {?v}. fv_quantity v)"
    using Cons.prems by (intro Cons.IH) auto
  then show ?case using v Cons.prems(3) by (simp add: w sum.remove[of V ?v])
qed

section \<open>What is answered\<close>

definition available :: "string \<Rightarrow> reserve_db \<Rightarrow> int option" where
  "available k db = map_option fr_remaining (find (\<lambda>r. fr_key r = k) (fd_resources db))"

definition same_claim :: "reservation_row \<Rightarrow> reserve_request \<Rightarrow> bool" where
  "same_claim v req \<longleftrightarrow> fv_resource v = rr_resource req \<and> fv_holder v = rr_holder req \<and> fv_quantity v = rr_quantity req"

fun fits :: "reserve_request \<Rightarrow> reserve_db \<Rightarrow> reserve_outcome \<Rightarrow> bool" where
  \<comment> \<open>an answer that took nothing is true of the tables\<close>
  "fits req db (Reserved i n) = False"
| "fits req db (Replayed i n) =
     (available (rr_resource req) db = Some n \<and> rr_key req \<noteq> None \<and>
      (\<exists>v\<in>set (fd_reservations db). fv_id v = i \<and> fv_key v = rr_key req \<and> same_claim v req))"
| "fits req db (Exhausted n) = (available (rr_resource req) db = Some n \<and> n < rr_quantity req)"

lemma fits_same: "same_tables db db' \<Longrightarrow> fits req db' x = fits req db x"
  by (drule same_fields, cases x) (simp_all add: available_def)

lemma replay_fits:
  assumes "replay req key p db = (Inr x, db')" and "p \<in> set (fd_reservations db)" and "fv_key p = Some key" and "rr_key req = Some key"
  shows "fits req db x"
  using replay_did[OF assms(1)] assms(2-4) by (auto simp: available_def same_claim_def)

lemma found_row: "find (\<lambda>v. fv_key v = Some key) vs = Some p \<Longrightarrow> p \<in> set vs \<and> fv_key p = Some key"
  by (auto simp: find_Some_iff)

lemma none_covers: "find (covers req) rs = None \<Longrightarrow> find (\<lambda>r. fr_key r = rr_resource req) rs = Some r \<Longrightarrow> fr_remaining r < rr_quantity req"
  by (auto simp: find_None_iff find_Some_iff covers_def)

lemma locked_fits:
  assumes "claim_locked req db = (Inr (Dropped (Inr x)), tx)"
  shows "fits req db x"
proof -
  obtain prior db1 where e: "earlier req db = (Inr prior, db1)"
    using assms by (auto simp: claim_locked_def did)
  have s: "same_tables db db1" by (rule reads_onlyD[of "earlier req", OF _ e]) simp
  show ?thesis
  proof (cases prior)
    case (Some kp)
    obtain key p where kp: "kp = (key, p)" by (cases kp)
    have again: "replay req key p db1 = (Inr x, tx)"
      using assms e Some kp by (auto simp: claim_locked_def did)
    have "p \<in> set (fd_reservations db1) \<and> fv_key p = Some key \<and> rr_key req = Some key"
      using earlier_did[of req db key p db1] e Some kp found_row by blast
    then show ?thesis using replay_fits[OF again] fits_same[OF s] by blast
  next
    case None
    obtain t db2 where t: "take_supply req db1 = (Inr t, db2)"
      using assms e None by (auto simp: claim_locked_def did)
    have "t = None" using assms e None t by (cases t) (auto simp: claim_locked_def did)
    then obtain left where left: "remaining_of (rr_resource req) db2 = (Inr (Some left), tx)" and x: "x = Exhausted left"
      using assms e None t by (auto simp: claim_locked_def did split: option.splits)
    have none: "find (covers req) (fd_resources db1) = None" using take_did[OF t] \<open>t = None\<close> by simp
    have rs: "fd_resources db2 = fd_resources db1" using take_did[OF t] none_took[OF none] by simp
    have "same_tables db2 tx" using reads_onlyD[of "remaining_of (rr_resource req)", OF _ left] by simp
    then have "available (rr_resource req) db1 = Some left"
      using remaining_did[OF left] rs same_fields by (metis available_def)
    moreover from this have "left < rr_quantity req" using none_covers[OF none] by (auto simp: available_def)
    ultimately show ?thesis using fits_same[OF s] x by (metis fits.simps(3))
  qed
qed

lemma claim_fits:
  assumes "claim req db = (Inr x, db')" and "\<nexists>i n. x = Reserved i n"
  shows "fits req db x"
proof -
  obtain q db1 where lock: "under_lock (claim_locked req) db = (q, db1)" by (cases "under_lock (claim_locked req) db")
  have q: "q = Inr (Inr x)"
    using assms(1) by (auto simp: claim_def and_then_def lock deny_def reply_def split: sum.splits)
  from lock_cases[OF lock] show ?thesis
  proof (elim disjE exE conjE)
    fix y tx db0
    assume "q = Inr y" "claim_locked req db0 = (Inr (Kept y), tx)"
    then show ?thesis using claim_locked_did[of req db0 y tx] q assms(2) by auto
  next
    fix y tx db0
    assume "q = Inr y" "claim_locked req db0 = (Inr (Dropped y), tx)" "same_tables db db0"
    then show ?thesis using locked_fits[of req db0 x tx] fits_same q by auto
  qed (simp add: q)
qed

lemma reserve_fits:
  assumes run: "reserve req db = (Inr x, db')" and no: "\<nexists>i n. x = Reserved i n"
  shows "fits req db x"
proof -
  have pos: "0 < rr_quantity req" using run by (auto simp: reserve_def deny_def split: if_split_asm)
  then obtain prior db1 where e: "earlier req db = (Inr prior, db1)"
    using run by (auto simp: reserve_def did)
  have s: "same_tables db db1" by (rule reads_onlyD[of "earlier req", OF _ e]) simp
  show ?thesis
  proof (cases prior)
    case (Some kp)
    obtain key p where kp: "kp = (key, p)" by (cases kp)
    have "replay req key p db1 = (Inr x, db')" using run pos e Some kp by (simp add: reserve_def and_then_def)
    moreover have "p \<in> set (fd_reservations db1) \<and> fv_key p = Some key \<and> rr_key req = Some key"
      using earlier_did[of req db key p db1] e Some kp found_row by blast
    ultimately show ?thesis using replay_fits[of req key p db1 x db'] fits_same[OF s] by blast
  next
    case None
    obtain said db2 where c: "covered req db1 = (Inr said, db2)"
      using run pos e None by (auto simp: reserve_def did)
    have s2: "same_tables db db2" using s reads_onlyD[of "covered req", OF _ c] same_trans by auto
    from covered_did[OF c] obtain n where n: "available (rr_resource req) db2 = Some n"
      and said: "said = (if n < rr_quantity req then Some (Exhausted n) else None)" by (auto simp: available_def)
    show ?thesis
    proof (cases "n < rr_quantity req")
      case True
      then have "x = Exhausted n" using run pos e None c said by (auto simp: reserve_def and_then_def reply_def)
      then show ?thesis using n True fits_same[OF s2] by (metis fits.simps(3))
    next
      case False
      then have "claim req db2 = (Inr x, db')" using run pos e None c said by (simp add: reserve_def and_then_def)
      then show ?thesis using claim_fits no fits_same[OF s2] by blast
    qed
  qed
qed

text \<open>C12. A claim is granted whole or takes nothing. Whatever is asked and whichever calls of the database fail:
  \<open>Reserved\<close> means exactly the quantity left the resource, one row with this holder and key was added, and the
  number answered is what is left; \<open>Replayed\<close> names a row with this key that was made for the very same request, and
  \<open>Exhausted\<close> reports a supply that cannot cover the request, neither changing anything; and no error changes anything.\<close>

theorem reserve_exact:
  "case reserve req db of
     (Inr (Reserved i n), db') \<Rightarrow> granted req i n db db'
   | (Inr x, db') \<Rightarrow> fits req db x \<and> same_tables db db'
   | (Inl e, db') \<Rightarrow> same_tables db db'"
proof -
  obtain r db' where run: "reserve req db = (r, db')" by (cases "reserve req db")
  show ?thesis using reserve_effect[OF run] reserve_fits[of req db _ db'] run
    by (cases r) (auto split: reserve_outcome.splits)
qed

text \<open>C10. The supply is never oversold. Whatever requests, retries, releases and definitions run, however their accesses
  of the database interleave and whichever of them fail: no resource goes below zero or is resized, no two requests
  are granted the same reservation, and what is granted of a resource and not released is what is missing from it.\<close>

theorem never_oversells:
  assumes sound: "reserve_sound db" and run: "s = contends es \<lparr>rc_clients = [], rc_db = db\<rparr>"
    and r: "r \<in> set (fd_resources (rc_db s))"
  shows "0 \<le> fr_remaining r \<and> distinct (map snd (wins (rc_clients s))) \<and>
    (\<Sum>(req, i)\<leftarrow>filter (\<lambda>(req, i). rr_resource req = fr_key r \<and> Give_back i \<notin> set es) (wins (rc_clients s)). rr_quantity req)
      \<le> fr_capacity r - fr_remaining r \<and>
    (\<forall>r0\<in>set (fd_resources db). fr_key r0 = fr_key r \<longrightarrow> fr_capacity r0 = fr_capacity r)"
proof -
  let ?gone = "{i. Give_back i \<in> set es}"
  let ?ws = "filter (\<lambda>(req, i). rr_resource req = fr_key r \<and> Give_back i \<notin> set es) (wins (rc_clients s))"
  let ?V = "set (filter (\<lambda>v. fv_resource v = fr_key r) (fd_reservations (rc_db s)))"
  have t: "tracked ?gone s" unfolding run by (rule tracked_run) (simp_all add: tracked_def sound)
  then have so: "reserve_sound (rc_db s)" and d: "distinct (map snd (wins (rc_clients s)))" by (simp_all add: tracked_def)
  have "(\<Sum>(req, i)\<leftarrow>?ws. rr_quantity req) \<le> (\<Sum>v\<in>?V. fv_quantity v)"
    using t so by (intro won_rows) (auto simp: tracked_def reserve_sound_def distinct_map_filter intro: less_imp_le)
  also have "\<dots> = claimed (fr_key r) (fd_reservations (rc_db s))"
    unfolding claimed_def using so by (subst sum_list_distinct_conv_sum_set) (auto simp: reserve_sound_def distinct_map intro: distinct_filter)
  also have "\<dots> = fr_capacity r - fr_remaining r" using so r by (auto simp: reserve_sound_def)
  finally have le: "(\<Sum>(req, i)\<leftarrow>?ws. rr_quantity req) \<le> fr_capacity r - fr_remaining r" .
  have "fr_capacity r0 = fr_capacity r" if "r0 \<in> set (fd_resources db)" "fr_key r0 = fr_key r" for r0
  proof -
    have "\<exists>x\<in>set (fd_resources (rc_db s)). fr_key x = fr_key r \<and> fr_capacity x = fr_capacity r0"
      unfolding run using that by (intro size_kept.contends_keeps) auto
    then show ?thesis using so r by (auto simp: reserve_sound_def distinct_map dest: inj_onD)
  qed
  then show ?thesis using le d so r by (auto simp: reserve_sound_def)
qed

definition holding :: "progress \<Rightarrow> int option" where
  \<comment> \<open>the reservation a request was told it has\<close>
  "holding p = (case p of Said (Inr (Reserved i n)) \<Rightarrow> Some i | Said (Inr (Replayed i n)) \<Rightarrow> Some i | _ \<Rightarrow> None)"

lemma holding_simps [simp]: "holding Asked = None" "holding (Found key v) = None" "holding Unseen = None" "holding Covered = None"
    "holding (Said (Inl e)) = None" "holding (Said (Inr (Reserved i n))) = Some i" "holding (Said (Inr (Replayed i n))) = Some i"
    "holding (Said (Inr (Exhausted n))) = None"
  by (simp_all add: holding_def)

definition honest :: "reserve_db \<Rightarrow> reserve_request \<times> progress \<Rightarrow> bool" where
  "honest db c \<longleftrightarrow> (case c of (req, p) \<Rightarrow>
     (\<forall>key v. p = Found key v \<longrightarrow> v \<in> set (fd_reservations db) \<and> fv_key v = Some key \<and> rr_key req = Some key) \<and>
     (\<forall>k i. rr_key req = Some k \<longrightarrow> holding p = Some i \<longrightarrow>
        (\<exists>v\<in>set (fd_reservations db). fv_id v = i \<and> fv_key v = Some k \<and> same_claim v req)))"

lemma honest_grows: "honest db c \<Longrightarrow> set (fd_reservations db) \<subseteq> set (fd_reservations db') \<Longrightarrow> honest db' c"
  unfolding honest_def by (cases c) (simp, blast)

lemma fits_honest: "fits req db x \<Longrightarrow> honest db (req, Said (Inr x))"
  by (cases x) (auto simp: honest_def)

lemma honest_unsaid: "honest db (req, Asked)" "honest db (req, Unseen)" "honest db (req, Covered)" "honest db (req, Said (Inl e))"
  by (simp_all add: honest_def)

lemma advance_honest:
  assumes adv: "advance req p db = (p', db')" and h: "honest db (req, p)"
  shows "honest db' (req, p') \<and> set (fd_reservations db) \<subseteq> set (fd_reservations db')"
proof (cases p)
  case Asked
  obtain r d where e: "earlier req db = (r, d)" by (cases "earlier req db")
  have s: "same_tables db d" by (rule reads_onlyD[of "earlier req", OF _ e]) simp
  have "honest d (req, Found key v)" if "r = Inr (Some (key, v))" for key v
    using earlier_did[of req db key v d] e that found_row by (auto simp: honest_def)
  then show ?thesis using adv Asked e same_fields[OF s] honest_unsaid
    by (auto simp: goes_on_def split: if_split_asm sum.splits option.splits)
next
  case (Found key v)
  obtain r d where e: "replay req key v db = (r, d)" by (cases "replay req key v db")
  have s: "same_tables db d" by (rule reads_onlyD[of "replay req key v", OF _ e]) simp
  have "fits req db x" if "r = Inr x" for x
    using replay_fits[of req key v db x d] e that h Found by (auto simp: honest_def)
  then have "honest d (req, Said r)" using fits_honest fits_same[OF s] honest_unsaid(4) by (cases r) auto
  then show ?thesis using adv Found e same_fields[OF s] by (auto simp: goes_on_def split: sum.splits)
next
  case Unseen
  obtain r d where e: "covered req db = (r, d)" by (cases "covered req db")
  have s: "same_tables db d" by (rule reads_onlyD[of "covered req", OF _ e]) simp
  have "honest d (req, Said (Inr x))" if "r = Inr (Some x)" for x
    using covered_did[of req db "Some x" d] e that by (auto simp: honest_def split: if_split_asm)
  then show ?thesis using adv Unseen e same_fields[OF s] honest_unsaid
    by (auto simp: goes_on_def split: sum.splits option.splits)
next
  case Covered
  obtain r d where e: "claim req db = (r, d)" by (cases "claim req db")
  have p': "p' = Said r" "db' = d" using adv Covered e by (auto simp: goes_on_def split: sum.splits)
  from claim_effect[OF e] show ?thesis
  proof (elim disjE exE conjE)
    fix i n
    assume "r = Inr (Reserved i n)" "granted req i n db d"
    then show ?thesis unfolding p' by (auto simp: honest_def granted_def same_claim_def)
  next
    assume no: "\<nexists>i n. r = Inr (Reserved i n)" and s: "same_tables db d"
    then have "honest d (req, Said r)"
      using claim_fits[of req db _ d] e fits_honest fits_same[OF s] honest_unsaid(4) by (cases r) auto
    then show ?thesis using same_fields[OF s] by (simp add: p')
  qed
next
  case (Said r)
  then show ?thesis using adv h by simp
qed

lemma honest_step:
  assumes "\<forall>c\<in>set (rc_clients s). honest (rc_db s) c" and "\<And>i. e \<noteq> Give_back i"
  shows "\<forall>c\<in>set (rc_clients (contend s e)). honest (rc_db (contend s e)) c"
proof (cases e)
  case (Ask req)
  then show ?thesis using assms(1) honest_unsaid(1) by simp
next
  case (Move j)
  show ?thesis
  proof (cases "j < length (rc_clients s)")
    case True
    obtain req p where at: "rc_clients s ! j = (req, p)" by (cases "rc_clients s ! j")
    obtain p' db where adv: "advance req p (rc_db s) = (p', db)" by (cases "advance req p (rc_db s)")
    have "honest (rc_db s) (req, p)" using assms(1) True at nth_mem by fastforce
    from advance_honest[OF adv this] show ?thesis
      using True assms(1) honest_grows by (auto simp: Move at adv dest!: set_update_subset_insert[THEN subsetD])
  next
    case False
    then show ?thesis using assms(1) by (simp add: Move)
  qed
next
  case (Define k c)
  obtain r db where run: "define_resource k c (rc_db s) = (r, db)" by (cases "define_resource k c (rc_db s)")
  have "fd_reservations db = fd_reservations (rc_db s)"
    using define_effect[OF run] same_fields by (auto simp: opened_def)
  then show ?thesis using assms(1) honest_grows[of "rc_db s" _ db] by (auto simp: Define run)
qed (use assms(2) in simp)

lemma honest_run:
  "\<forall>c\<in>set (rc_clients s). honest (rc_db s) c \<Longrightarrow> \<forall>i. Give_back i \<notin> set es \<Longrightarrow>
     \<forall>c\<in>set (rc_clients (contends es s)). honest (rc_db (contends es s)) c"
  unfolding contends_def
proof (induction es arbitrary: s)
  case (Cons e es)
  have "\<forall>c\<in>set (rc_clients (contend s e)). honest (rc_db (contend s e)) c"
    using Cons.prems by (intro honest_step) auto
  then show ?case using Cons.IH[of "contend s e"] Cons.prems(2) by simp
qed simp

lemma winsD: "(req, i) \<in> set (wins cs) \<longleftrightarrow> (\<exists>p. (req, p) \<in> set cs \<and> won p = Some i)"
  by (induction cs) (auto split: option.splits)

lemma won_holding: "won p = Some i \<Longrightarrow> holding p = Some i"
  by (auto simp: won_def holding_def split: progress.splits sum.splits reserve_outcome.splits)

lemma at_most_one:
  assumes "distinct (map snd ws)" and all: "\<And>a b. a \<in> set ws \<Longrightarrow> b \<in> set ws \<Longrightarrow> snd a = snd b"
  shows "length ws \<le> 1"
proof (cases ws)
  case (Cons a vs)
  have "vs = []"
  proof (cases vs)
    case more: (Cons b us)
    have "snd a = snd b" by (rule all) (simp_all add: Cons more)
    then show ?thesis using assms(1) by (simp add: Cons more)
  qed
  then show ?thesis using Cons by simp
qed simp

text \<open>C11. A retried request never claims twice. While nothing is released, of all requests that carry one key, racing or
  retried in any interleaving and over any failures, at most one is granted a reservation, and everyone who is
  told they have one is told the same one, made for the same resource, holder and quantity.\<close>

theorem retries_claim_once:
  assumes sound: "reserve_sound db" and run: "s = contends es \<lparr>rc_clients = [], rc_db = db\<rparr>"
    and held: "\<forall>i. Give_back i \<notin> set es"
  shows "length (filter (\<lambda>(req, i). rr_key req = Some k) (wins (rc_clients s))) \<le> 1 \<and>
    (\<forall>(req, p)\<in>set (rc_clients s). \<forall>(again, q)\<in>set (rc_clients s). \<forall>i j.
       rr_key req = Some k \<and> rr_key again = Some k \<and> holding p = Some i \<and> holding q = Some j \<longrightarrow>
       i = j \<and> rr_resource req = rr_resource again \<and> rr_holder req = rr_holder again \<and> rr_quantity req = rr_quantity again)"
proof -
  have t: "tracked {} s" unfolding run by (rule tracked_run) (use held in \<open>auto simp: tracked_def sound\<close>)
  have h: "\<forall>c\<in>set (rc_clients s). honest (rc_db s) c" unfolding run by (rule honest_run) (use held in auto)
  have row: "\<exists>v\<in>set (fd_reservations (rc_db s)). fv_id v = i \<and> fv_key v = Some k \<and> same_claim v req"
    if "(req, p) \<in> set (rc_clients s)" "rr_key req = Some k" "holding p = Some i" for req p i
    using h that by (fastforce simp: honest_def)
  have one: "i = j \<and> rr_resource req = rr_resource again \<and> rr_holder req = rr_holder again \<and> rr_quantity req = rr_quantity again"
    if "(req, p) \<in> set (rc_clients s)" "rr_key req = Some k" "holding p = Some i"
      "(again, q) \<in> set (rc_clients s)" "rr_key again = Some k" "holding q = Some j" for req p i again q j
  proof -
    from row[OF that(1-3)] row[OF that(4-6)] obtain v w where
      v: "v \<in> set (fd_reservations (rc_db s))" "fv_id v = i" "fv_key v = Some k" "same_claim v req" and
      w: "w \<in> set (fd_reservations (rc_db s))" "fv_id w = j" "fv_key w = Some k" "same_claim w again" by blast
    have "v = w" using t v(1,3) w(1,3) by (auto simp: tracked_def reserve_sound_def one_per_key_def)
    then show ?thesis using v w by (auto simp: same_claim_def)
  qed
  let ?mine = "filter (\<lambda>(req, i). rr_key req = Some k) (wins (rc_clients s))"
  have "distinct (map snd ?mine)" using t by (simp add: tracked_def distinct_map_filter)
  moreover have "snd a = snd b" if mine: "a \<in> set ?mine" "b \<in> set ?mine" for a b
  proof -
    obtain req i again j where ab: "a = (req, i)" "b = (again, j)" by (cases a; cases b)
    then obtain p q where "(req, p) \<in> set (rc_clients s)" "won p = Some i" "rr_key req = Some k"
        "(again, q) \<in> set (rc_clients s)" "won q = Some j" "rr_key again = Some k"
      using mine by (auto simp: winsD)
    then show ?thesis using one[of req p i again q j] won_holding by (simp add: ab)
  qed
  ultimately have "length ?mine \<le> 1" by (rule at_most_one)
  then show ?thesis using one by blast
qed

section \<open>A request alone\<close>

text \<open>One access at a time, with nobody in between, is the operation: after four moves every request has its answer.\<close>

lemma claim_goes: "goes_on (claim req) (\<lambda>x. Said (Inr x)) db = (case claim req db of (r, db') \<Rightarrow> (Said r, db'))"
  by (auto simp: goes_on_def split: prod.splits sum.splits)

lemma replay_goes: "goes_on (replay req key p) (\<lambda>x. Said (Inr x)) db = (case replay req key p db of (r, db') \<Rightarrow> (Said r, db'))"
  by (auto simp: goes_on_def split: prod.splits sum.splits)

lemma moves_are_reserve:
  "((\<lambda>(p, d). advance req p d) ^^ 4) (Asked, db) = (case reserve req db of (r, db') \<Rightarrow> (Said r, db'))"
proof (cases "rr_quantity req \<le> 0")
  case True
  then show ?thesis by (simp add: numeral_eq_Suc reserve_def deny_def)
next
  case pos: False
  obtain prior db1 where e: "earlier req db = (prior, db1)" by (cases "earlier req db")
  show ?thesis
  proof (cases "\<exists>e. prior = Inl e")
    case True
    then show ?thesis using pos e by (auto simp: numeral_eq_Suc reserve_def goes_on_def and_then_def)
  next
    case False
    then obtain found where prior: "prior = Inr found" by (cases prior) auto
    show ?thesis
    proof (cases found)
      case (Some kp)
      then show ?thesis using pos e prior
        by (auto simp: numeral_eq_Suc reserve_def goes_on_def[of "earlier req"] and_then_def replay_goes split: prod.splits)
    next
      case None
      obtain said db2 where c: "covered req db1 = (said, db2)" by (cases "covered req db1")
      show ?thesis
        using pos e prior None c
        by (auto simp: numeral_eq_Suc reserve_def goes_on_def[of "earlier req"] goes_on_def[of "covered req"] and_then_def claim_goes
            reply_def split: prod.splits sum.splits option.splits)
    qed
  qed
qed

section \<open>Instances\<close>

definition tickets :: "int \<Rightarrow> reserve_db" where
  "tickets n = \<lparr>fd_resources = [\<lparr>fr_key = ''ticket'', fr_capacity = n, fr_remaining = n\<rparr>], fd_reservations = [],
     fd_next = 1, fd_faults = []\<rparr>"

definition buyer :: "string \<Rightarrow> reserve_request" where
  "buyer k = \<lparr>rr_resource = ''ticket'', rr_holder = k, rr_quantity = 1, rr_key = Some k\<rparr>"

definition rush :: "race_event list" where
  \<comment> \<open>Ada asks, retries while the first request is under way, and Bob asks in between\<close>
  "rush = [Ask (buyer ''ada''), Ask (buyer ''ada''), Ask (buyer ''bob''), Move 0, Move 1, Move 2, Move 0, Move 1, Move 2,
     Move 1, Move 2, Move 0]"

lemma tickets_sound: "reserve_sound (tickets 2)"
  by (simp add: reserve_sound_def tickets_def one_per_key_def)

lemma rush_run:
  "contends rush \<lparr>rc_clients = [], rc_db = tickets 2\<rparr> =
     \<lparr>rc_clients = [(buyer ''ada'', Said (Inr (Replayed 1 0))), (buyer ''ada'', Said (Inr (Reserved 1 1))),
        (buyer ''bob'', Said (Inr (Reserved 2 0)))],
      rc_db = \<lparr>fd_resources = [\<lparr>fr_key = ''ticket'', fr_capacity = 2, fr_remaining = 0\<rparr>],
        fd_reservations = [row_of (buyer ''ada'') 1, row_of (buyer ''bob'') 2], fd_next = 3, fd_faults = []\<rparr>\<rparr>"
  by code_simp

theorem never_oversells_witness:
  "(\<Sum>(req, i)\<leftarrow>filter (\<lambda>(req, i). rr_resource req = ''ticket'' \<and> Give_back i \<notin> set rush)
      (wins (rc_clients (contends rush \<lparr>rc_clients = [], rc_db = tickets 2\<rparr>))). rr_quantity req) \<le> 2 \<and>
   distinct (map snd (wins (rc_clients (contends rush \<lparr>rc_clients = [], rc_db = tickets 2\<rparr>))))"
  using never_oversells[OF tickets_sound refl, of "\<lparr>fr_key = ''ticket'', fr_capacity = 2, fr_remaining = 0\<rparr>" rush]
  by (simp add: rush_run)

theorem retries_claim_once_witness:
  "length (filter (\<lambda>(req, i). rr_key req = Some ''ada'') (wins (rc_clients (contends rush \<lparr>rc_clients = [], rc_db = tickets 2\<rparr>)))) \<le> 1"
proof -
  have "\<forall>i. Give_back i \<notin> set rush" by (simp add: rush_def)
  from retries_claim_once[OF tickets_sound refl this, of "''ada''"] show ?thesis by blast
qed

section \<open>Where the code falls short of its documents\<close>

text \<open>The first fast path is there so that a retry is never told the supply is gone. A retry that looks for its key before
  the first request commits, and at the supply after it, is: the buyer of the last ticket holds it and is told it is sold out.\<close>

lemma retry_told_sold_out:
  "rc_clients (contends [Ask (buyer ''ada''), Ask (buyer ''ada''), Move 1, Move 0, Move 0, Move 0, Move 1]
      \<lparr>rc_clients = [], rc_db = tickets 1\<rparr>) =
   [(buyer ''ada'', Said (Inr (Reserved 1 0))), (buyer ''ada'', Said (Inr (Exhausted 0)))]"
  by code_simp

text \<open>Releasing a reservation deletes the row that remembers its key, so a retry of the request that arrives afterwards
  claims a second time.\<close>

lemma released_key_claims_again:
  "let db = snd (reserve (buyer ''ada'') (tickets 1)); db = snd (release 1 db)
   in fst (reserve (buyer ''ada'') db) = Inr (Reserved 2 0)"
  by code_simp

end
