(* ===== verification/Spec2Isabelle.thy ===== *)
theory Spec2Isabelle
  imports Shutter JobRunner Workflow Middleware RespCache Broadcast ForgeGaps RenderGraph AuthSafety AuthServer Reserve
begin

text \<open>
  Verification of the server-side core of AlB'DO, a Rust framework that renders JSX components on the server and
  keeps the browser up to date by pushing changes of named values (\<open>topics\<close>) to the sessions that show them.

  \<^bold>\<open>The program.\<close> A request passes the middleware (\<open>src/middleware\<close>), is priced and admitted by the limiter
  SHUTTER (\<open>src/shutter\<close>), and runs a page or an action. An action writes collections through FORGE
  (\<open>src/forge\<close>): one transaction for its writes, then, once durable, the values of the touched channels go
  to the broadcast registry (\<open>src/runtime/broadcast.rs\<close>), which sends each subscribed session a frame, and the browser
  runtime (\<open>assets/albedo-runtime.js\<close>) applies it to a keyed list. FORGE also lets code claim units of a
  bounded resource (\<open>reserve.rs\<close>). An action that calls out is suspended and driven
  through a log (\<open>src/aperture/workflow.rs\<close>, \<open>journal.rs\<close>, \<open>ledger.rs\<close>); answers of shared reads are cached
  (\<open>src/aperture/cache.rs\<close>). Work for later goes to a durable queue (\<open>src/jobs\<close>) that the runner of the server
  (\<open>crates/albedo-server/src/jobs.rs\<close>) drains. Who is signed in is kept in tables (\<open>src/auth\<close>) behind the sign-in
  routes of the server, which use the limiter, mail links through the queue, and end live lanes. The compiler orders
  components by their dependencies (\<open>src/graph.rs\<close>, \<open>src/analysis/parallel_topo.rs\<close>).

  \<^bold>\<open>Theories and sources.\<close>
  \<^item> \<open>Prelude\<close>, \<open>Strings\<close>: the machine integers as words with the saturating and checked operations of the Rust
    library, \<open>i64\<close> as \<open>int\<close> where the code saturates, strings as their UTF-8 bytes, and the string operations used.
  \<^item> \<open>Gcra\<close>, \<open>Cost\<close>, \<open>Shutter\<close>: the rate-limit cell (\<open>gcra.rs\<close>), prices (\<open>cost.rs\<close>), the bounded evicting table of
    cells (\<open>mod.rs\<close>). The compare-exchange loop of a cell is the step relation \<open>race_step\<close>.
  \<^item> \<open>JobQueue\<close>, \<open>Schedule\<close>, \<open>JobRunner\<close>: the job table and its statements (\<open>queue.rs\<close>), schedules (\<open>schedule.rs\<close>),
    the runner with every handler (\<open>jobs.rs\<close>, \<open>declare.rs\<close>, \<open>builtin.rs\<close>).
  \<^item> \<open>Journal\<close>, \<open>Workflow\<close>: the log of a workflow with its tables, and the driver with its crashes.
  \<^item> \<open>Matcher\<close>, \<open>Middleware\<close>: compiled path patterns and the decoding of what a middleware decided.
  \<^item> \<open>RespCache\<close>: the cache of outbound responses.
  \<^item> \<open>Broadcast\<close>, \<open>ListSink\<close>: topics, subscriptions, frames and eviction; what the browser does with a frame.
  \<^item> \<open>JsonText\<close>, \<open>RowDelta\<close>: texts of rows (the locale \<open>row_text\<close> is what a serialiser promises) and the changes of a
    write (\<open>delta.rs\<close>).
  \<^item> \<open>ForgeStatement\<close>, \<open>ForgeWrite\<close>, \<open>ForgeAuthor\<close>, \<open>ForgeFanOut\<close>, \<open>ForgeSplice\<close>, \<open>ForgeAction\<close>, \<open>ForgeGaps\<close>: one
    action of \<open>write.rs\<close>, from the statements through the authority checks and the transaction to the fan-out; the last
    theory runs actions after which a channel is not what its query answers.
  \<^item> \<open>Reserve\<close>: claiming units of a bounded resource (\<open>src/forge/reserve.rs\<close>), as one call and as the accesses of the
    database it makes, interleaved with those of other requests.
  \<^item> \<open>RenderGraph\<close>: the component graph, its cycle check and its levels.
  \<^item> \<open>AuthCalls\<close>, \<open>Accounts\<close>, \<open>EmailToken\<close>: the tables of the sign-in code as one record, and every operation on them
    (\<open>store.rs\<close>, \<open>session.rs\<close>, \<open>principal.rs\<close>, \<open>email_token.rs\<close>). An operation passes the state on and answers a sum
    of error and value; which call of the database fails is a list in the state, and \<open>transaction\<close> gives back
    the tables of before unless the commit succeeded.
  \<^item> \<open>AuthTrace\<close>, \<open>AuthSafety\<close>, \<open>MailBudget\<close>: what sequences of those operations, from any number of requests
    interleaved between their transactions, can and cannot do.
  \<^item> \<open>AuthRoutes\<close>, \<open>AuthServer\<close>: the handlers (\<open>auth_routes.rs\<close>, \<open>email_routes.rs\<close>, \<open>auth.rs\<close>, \<open>password.rs\<close>) over
    the database, the limiter of \<open>Shutter\<close>, the live lanes, the spawned tasks and the outbox; and what holds over any
    sequence of requests and tasks.

  \<^bold>\<open>How state and effects are kept.\<close> A struct is a record, an enum a datatype, a counter a word of its width. A
  function that mutates takes the state and returns it. A fallible one returns \<open>error + value\<close>. What is not in the
  repository (the SQL engine, the script engine, HTTP and mail delivery, clocks, hashes, random values, the cron
  package, the JSON serialiser) is an argument, and what is relied on of it is a hypothesis or a locale with an
  interpretation on a concrete function; calls of it that can fail do so in the model whenever its argument says so.
  Concurrency is explicit where the code has it: the racing cell (\<open>race_step\<close>), several runners on one queue, requests
  that read, lose a race, and then write (\<open>upsert_found\<close>, \<open>create_found\<close>, \<open>link_found\<close> start after the read with
  whatever it answered), crashes between the steps of a workflow.

  \<^bold>\<open>What is shown.\<close>
  \<^item> The limiter never admits more than its quota in any window, in parallel as in sequence; the bounded table
    decides as an unbounded one would while it fits; split quotas do not add up to more.
  \<^item> A job is enqueued once, never run by two runners within its lease, and rows stay well formed; a
    fan-out reaches every user; a job runs as no one its declaration did not name; done means its writes
    were applied.
  \<^item> A crash of a workflow leaves the key of a sent call on record; recorded outcomes do not change; loading a log gives
    it back; the driver ends within its number of passes.
  \<^item> Matchers accept exactly what their patterns say; a decoded decision is safe to carry out; cached answers are not
    shared across the principals they were made for.
  \<^item> Subscribers that apply the frames they were sent hold the registry's value; the registry's indexes agree; a session
    that refuses a send is forgotten everywhere.
  \<^item> An action changes only rows its caller owns or wrote; a failed one changes nothing; what is sent turns the
    browser's list into the new rows; a spliced value is the query's answer under stated conditions, and
    \<open>ForgeGaps\<close> shows what happens outside them.
  \<^item> A bounded resource is never oversold, whatever requests, retries and releases race; requests with one key are
    granted one reservation; a claim is granted whole or takes nothing.
  \<^item> Sorting a buildable graph ends with every component in one level or names a cycle; a level computed in
    parallel is the one computed in sequence.
  \<^item> An identity at a provider never comes to sign in as another principal; an ended session stays ended; a mailed token is
    redeemed at most once; a reset or a takeover leaves nobody else signed in; disconnecting never locks anybody out; the
    loser of a race leaves nothing; nobody signs in with a password without it, or unproven where proof is
    asked; a mailbox receives no more links than its budget.

  \<^bold>\<open>Bounds and fuel.\<close> The loops of the sources are structural recursions over the list they walk, with these
  exceptions. The drain of the job runner can go on for ever when bodies keep queueing work that is due: it takes fuel and
  answers None when that runs out, and every statement about a pass is about one that returned, save those that give
  the fuel. The workflow driver counts its passes as the source does and stops at its limit; that it ends is a
  theorem. The cycle check of the graph recurses on the unvisited components and the levels on those not yet placed; both
  end by their measures. Times of the sign-in tables are \<open>int\<close> where the statements compute in SQL; the engine's
  64-bit range is not reached by a clock in milliseconds.

  \<^bold>\<open>Not modelled.\<close> The script engines, the JSX evaluator, source analysis, bundler and build (their behaviour is that of
  an external parser, engine or compiler over syntax trees and files); rendering to HTML; the bytes of
  frames (an external serialiser); slots of the render bridge; the SQL planes, drift detection and generated types; the
  HTTP client, its guards, and flows of external identity providers; mail formats, uploads and webhooks; the
  server's sockets, TLS, configuration and the glue of its handlers; pages, form feedback and log lines; the critical path
  and the batch times of the schedule, which are floating point; the other files of the browser runtime.
\<close>

end
